(* ===== verification/Prelude.thy ===== *)
theory Prelude
  imports Main "HOL-Library.Word"
begin

text \<open>
  Shared vocabulary of the development: the C integer types, the outcome monad in which
  every kernel operation is written, the rule collections its proofs use, and the generic
  lemmas on array scans, pointer chains and words that several components need.

  A kernel operation is a function from a state to an \<open>outcome\<close>.  It returns a value and
  the new state, goes to sleep on a channel (with the state it leaves behind), panics,
  spins for ever on a lock, or does something the C standard leaves undefined (a null
  dereference, an access outside an array).  The last three carry no state: nothing is
  claimed of the machine after them.
\<close>

unbundle bit_operations_syntax

section \<open>C types\<close>

type_synonym uint = "32 word"
type_synonym ushort = "16 word"
type_synonym uchar = "8 word"

section \<open>Outcomes\<close>

text \<open>
  Sleep channels.  The C code uses the address of a kernel object; distinct objects have
  distinct addresses, so a channel is a tagged index of the object.  \<open>NoChan\<close> is the null
  pointer.
\<close>

datatype chan =
    NoChan
  | ChanProc nat
  | ChanTicks
  | ChanBuf nat
  | ChanInode nat
  | ChanLog
  | ChanSem nat
  | ChanPipeR uint
  | ChanPipeW uint
  | ChanInput

datatype ('s, 'a) outcome =
    Ret 'a 's
  | Sleep chan 's
  | Panic string
  | Undef string
  | Spin

type_synonym ('s, 'a) op = "'s \<Rightarrow> ('s, 'a) outcome"

definition ret :: "'a \<Rightarrow> ('s, 'a) op" where
  "ret a s = Ret a s"

definition panic :: "string \<Rightarrow> ('s, 'a) op" where
  "panic msg s = Panic msg"

definition undef :: "string \<Rightarrow> ('s, 'a) op" where
  "undef msg s = Undef msg"

definition gets :: "('s \<Rightarrow> 'a) \<Rightarrow> ('s, 'a) op" where
  "gets f s = Ret (f s) s"

definition modify :: "('s \<Rightarrow> 's) \<Rightarrow> ('s, unit) op" where
  "modify f s = Ret () (f s)"

definition bnd :: "('s, 'a) op \<Rightarrow> ('a \<Rightarrow> ('s, 'b) op) \<Rightarrow> ('s, 'b) op" where
  "bnd m f s =
     (case m s of
        Ret a s' \<Rightarrow> f a s'
      | Sleep c s' \<Rightarrow> Sleep c s'
      | Panic msg \<Rightarrow> Panic msg
      | Undef msg \<Rightarrow> Undef msg
      | Spin \<Rightarrow> Spin)"

text \<open>Statement sequencing: the value of the first operation is dropped.\<close>

definition sq :: "('s, 'a) op \<Rightarrow> ('s, 'b) op \<Rightarrow> ('s, 'b) op" where
  "sq m k = bnd m (\<lambda>_. k)"

definition whenM :: "bool \<Rightarrow> ('s, unit) op \<Rightarrow> ('s, unit) op" where
  "whenM b m = (if b then m else ret ())"

text \<open>A \<^verbatim>\<open>for\<close> loop over a list of indices whose body has no \<^verbatim>\<open>break\<close>.\<close>

primrec foreach :: "'i list \<Rightarrow> ('i \<Rightarrow> ('s, unit) op) \<Rightarrow> ('s, unit) op" where
  "foreach [] body = ret ()"
| "foreach (i # is) body = sq (body i) (foreach is body)"

text \<open>A \<^verbatim>\<open>for\<close> loop whose body may leave the function: \<open>Some\<close> is the value of its \<^verbatim>\<open>return\<close>.\<close>

primrec forsome :: "'i list \<Rightarrow> ('i \<Rightarrow> ('s, 'a option) op) \<Rightarrow> ('s, 'a option) op" where
  "forsome [] body = ret None"
| "forsome (i # is) body =
     bnd (body i) (\<lambda>r. case r of None \<Rightarrow> forsome is body | Some a \<Rightarrow> ret (Some a))"

text \<open>
  \<open>runs m s Q\<close>: the operation returns normally, and its value and final state satisfy
  \<open>Q\<close>.  This is total correctness: a panic, a sleep, a spin or undefined behaviour
  falsifies it.
\<close>

definition runs :: "('s, 'a) op \<Rightarrow> 's \<Rightarrow> ('a \<Rightarrow> 's \<Rightarrow> bool) \<Rightarrow> bool" where
  "runs m s Q \<longleftrightarrow> (case m s of Ret a s' \<Rightarrow> Q a s' | _ \<Rightarrow> False)"

named_theorems op_simps \<open>evaluation of operations\<close>
named_theorems runs_simps \<open>weakest preconditions of operations\<close>

lemma ret_apply [op_simps]: "ret a s = Ret a s"
  by (simp add: ret_def)

lemma panic_apply [op_simps]: "panic msg s = Panic msg"
  by (simp add: panic_def)

lemma undef_apply [op_simps]: "undef msg s = Undef msg"
  by (simp add: undef_def)

lemma gets_apply [op_simps]: "gets f s = Ret (f s) s"
  by (simp add: gets_def)

lemma modify_apply [op_simps]: "modify f s = Ret () (f s)"
  by (simp add: modify_def)

lemma bnd_Ret [op_simps]: "m s = Ret a s' \<Longrightarrow> bnd m f s = f a s'"
  by (simp add: bnd_def)

lemma bnd_Sleep: "m s = Sleep c s' \<Longrightarrow> bnd m f s = Sleep c s'"
  by (simp add: bnd_def)

lemma bnd_Panic: "m s = Panic msg \<Longrightarrow> bnd m f s = Panic msg"
  by (simp add: bnd_def)

lemma bnd_Undef: "m s = Undef msg \<Longrightarrow> bnd m f s = Undef msg"
  by (simp add: bnd_def)

lemma sq_Ret [op_simps]: "m s = Ret a s' \<Longrightarrow> sq m k s = k s'"
  by (simp add: sq_def bnd_def)

lemma sq_Sleep: "m s = Sleep c s' \<Longrightarrow> sq m k s = Sleep c s'"
  by (simp add: sq_def bnd_def)

lemma sq_Panic: "m s = Panic msg \<Longrightarrow> sq m k s = Panic msg"
  by (simp add: sq_def bnd_def)

lemma sq_Undef: "m s = Undef msg \<Longrightarrow> sq m k s = Undef msg"
  by (simp add: sq_def bnd_def)

lemma bnd_ret [simp]: "bnd (ret a) f = f a"
  by (rule ext) (simp add: bnd_def ret_def)

lemma bnd_gets: "bnd (gets f) k s = k (f s) s"
  by (simp add: bnd_def gets_def)

lemma sq_modify: "sq (modify g) k s = k (g s)"
  by (simp add: sq_def bnd_def modify_def)

lemma whenM_True [simp]: "whenM True m = m"
  and whenM_False [simp]: "whenM False m = ret ()"
  by (simp_all add: whenM_def)

lemmas op_fail = bnd_Sleep bnd_Panic bnd_Undef sq_Sleep sq_Panic sq_Undef

subsection \<open>Running operations\<close>

lemma runsI: "m s = Ret a s' \<Longrightarrow> Q a s' \<Longrightarrow> runs m s Q"
  by (simp add: runs_def)

lemma runsE:
  assumes "runs m s Q"
  obtains a s' where "m s = Ret a s'" and "Q a s'"
  using assms by (auto simp: runs_def split: outcome.splits)

lemma runs_iff: "runs m s Q \<longleftrightarrow> (\<exists>a s'. m s = Ret a s' \<and> Q a s')"
  by (auto simp: runs_def split: outcome.splits)

lemma runs_conseq: "runs m s Q \<Longrightarrow> (\<And>a s'. Q a s' \<Longrightarrow> R a s') \<Longrightarrow> runs m s R"
  by (auto simp: runs_iff)

lemma runs_ret [runs_simps]: "runs (ret a) s Q \<longleftrightarrow> Q a s"
  by (simp add: runs_def ret_def)

lemma runs_panic [runs_simps]: "\<not> runs (panic msg) s Q"
  by (simp add: runs_def panic_def)

lemma runs_undef [runs_simps]: "\<not> runs (undef msg) s Q"
  by (simp add: runs_def undef_def)

lemma runs_gets [runs_simps]: "runs (gets f) s Q \<longleftrightarrow> Q (f s) s"
  by (simp add: runs_def gets_def)

lemma runs_modify [runs_simps]: "runs (modify f) s Q \<longleftrightarrow> Q () (f s)"
  by (simp add: runs_def modify_def)

lemma runs_bnd [runs_simps]: "runs (bnd m f) s Q \<longleftrightarrow> runs m s (\<lambda>a s'. runs (f a) s' Q)"
  by (auto simp: runs_def bnd_def split: outcome.splits)

lemma runs_sq [runs_simps]: "runs (sq m k) s Q \<longleftrightarrow> runs m s (\<lambda>_ s'. runs k s' Q)"
  by (simp add: sq_def runs_bnd)

lemma runs_if [runs_simps]:
  "runs (if b then m else k) s Q \<longleftrightarrow> (if b then runs m s Q else runs k s Q)"
  by simp

lemma runs_whenM [runs_simps]:
  "runs (whenM b m) s Q \<longleftrightarrow> (if b then runs m s Q else Q () s)"
  by (simp add: whenM_def runs_ret)

lemma runs_case_option [runs_simps]:
  "runs (case x of None \<Rightarrow> m | Some a \<Rightarrow> k a) s Q \<longleftrightarrow>
     (case x of None \<Rightarrow> runs m s Q | Some a \<Rightarrow> runs (k a) s Q)"
  by (cases x) simp_all

text \<open>
  \<open>sleeps m s Q\<close>: the operation gives up the CPU, in a state (and on a channel) that
  satisfies \<open>Q\<close>.
\<close>

definition sleeps :: "('s, 'a) op \<Rightarrow> 's \<Rightarrow> (chan \<Rightarrow> 's \<Rightarrow> bool) \<Rightarrow> bool" where
  "sleeps m s Q \<longleftrightarrow> (case m s of Sleep c s' \<Rightarrow> Q c s' | _ \<Rightarrow> False)"

lemma sleepsI: "m s = Sleep c s' \<Longrightarrow> Q c s' \<Longrightarrow> sleeps m s Q"
  by (simp add: sleeps_def)

lemma sleeps_iff: "sleeps m s Q \<longleftrightarrow> (\<exists>c s'. m s = Sleep c s' \<and> Q c s')"
  by (auto simp: sleeps_def split: outcome.splits)

lemma sleeps_bnd: "runs m s (\<lambda>a s'. sleeps (f a) s' Q) \<Longrightarrow> sleeps (bnd m f) s Q"
  by (auto simp: runs_def sleeps_def bnd_def split: outcome.splits)

lemma sleeps_sq: "runs m s (\<lambda>_ s'. sleeps k s' Q) \<Longrightarrow> sleeps (sq m k) s Q"
  by (simp add: sq_def sleeps_bnd)

lemma bnd_RetE:
  assumes "bnd m f s = Ret b t"
  obtains a s' where "m s = Ret a s'" and "f a s' = Ret b t"
  using assms by (auto simp: bnd_def split: outcome.splits)

lemma sq_RetE:
  assumes "sq m k s = Ret b t"
  obtains a s' where "m s = Ret a s'" and "k s' = Ret b t"
  using assms by (auto simp: sq_def elim: bnd_RetE)

text \<open>A loop keeps an invariant that may depend on the indices already visited.\<close>

lemma runs_foreach:
  assumes step: "\<And>pre i post s. is = pre @ i # post \<Longrightarrow> I pre s \<Longrightarrow>
      runs (body i) s (\<lambda>_ s'. I (pre @ [i]) s')"
    and init: "I [] s"
  shows "runs (foreach is body) s (\<lambda>_ s'. I is s')"
proof -
  have "I pre s \<Longrightarrow> is = pre @ post \<Longrightarrow> runs (foreach post body) s (\<lambda>_ s'. I is s')" for pre post s
  proof (induction post arbitrary: pre s)
    case Nil
    then show ?case by (simp add: runs_ret)
  next
    case (Cons i post)
    have "runs (body i) s (\<lambda>_ s'. I (pre @ [i]) s')"
      using step Cons.prems by blast
    then show ?case
      using Cons.IH [of "pre @ [i]"] Cons.prems(2) by (auto simp: runs_sq elim!: runs_conseq)
  qed
  from this [of "[]"] init show ?thesis by simp
qed

lemma runs_for:
  assumes init: "I 0 s" and step: "\<And>i s. i < n \<Longrightarrow> I i s \<Longrightarrow> runs (body i) s (\<lambda>_ s'. I (Suc i) s')"
  shows "runs (foreach [0..<n] body) s (\<lambda>_ s'. I n s')"
proof -
  have "runs (foreach [0..<n] body) s (\<lambda>_ s'. I (length [0..<n]) s')"
  proof (rule runs_foreach [where I = "\<lambda>pre. I (length pre)"])
    show "I (length []) s" using init by simp
  next
    fix pre i post s assume sp: "[0..<n] = pre @ i # post" and I: "I (length pre) s"
    have "length pre < n" using arg_cong [OF sp, of length] by simp
    moreover from this have "[0..<n] ! length pre = length pre" by simp
    then have "i = length pre" unfolding sp by simp
    ultimately show "runs (body i) s (\<lambda>_ s'. I (length (pre @ [i])) s')" using step I by simp
  qed
  then show ?thesis by simp
qed

section \<open>What an operation keeps\<close>

text \<open>
  \<open>keeps P m\<close>: whenever \<open>P\<close> holds before and the operation returns or sleeps, \<open>P\<close> holds
  after.  \<open>leaves f m\<close>: the operation does not change the part \<open>f\<close> of the state.
\<close>

definition keeps :: "('s \<Rightarrow> bool) \<Rightarrow> ('s, 'a) op \<Rightarrow> bool" where
  "keeps P m \<longleftrightarrow> (\<forall>s. P s \<longrightarrow> (case m s of Ret a s' \<Rightarrow> P s' | Sleep c s' \<Rightarrow> P s' | _ \<Rightarrow> True))"

definition leaves :: "('s \<Rightarrow> 'x) \<Rightarrow> ('s, 'a) op \<Rightarrow> bool" where
  "leaves f m \<longleftrightarrow> (\<forall>x. keeps (\<lambda>s. f s = x) m)"

named_theorems keeps_intros \<open>operations that keep a property of the state\<close>

lemma keepsD: "keeps P m \<Longrightarrow> m s = Ret a s' \<Longrightarrow> P s \<Longrightarrow> P s'"
  unfolding keeps_def by (drule spec [of _ s]) simp

lemma keepsD_sleep: "keeps P m \<Longrightarrow> m s = Sleep c s' \<Longrightarrow> P s \<Longrightarrow> P s'"
  unfolding keeps_def by (drule spec [of _ s]) simp

lemma leavesI [intro?]: "(\<And>x. keeps (\<lambda>s. f s = x) m) \<Longrightarrow> leaves f m"
  by (simp add: leaves_def)

lemma leaves_keeps: "leaves f m \<Longrightarrow> keeps (\<lambda>s. f s = x) m"
  by (simp add: leaves_def)

lemma leavesD: "leaves f m \<Longrightarrow> m s = Ret a s' \<Longrightarrow> f s' = f s"
  using keepsD [of "\<lambda>u. f u = f s" m s a s'] by (simp add: leaves_def)

lemma leavesD_sleep: "leaves f m \<Longrightarrow> m s = Sleep c s' \<Longrightarrow> f s' = f s"
  using keepsD_sleep [of "\<lambda>u. f u = f s" m s c s'] by (simp add: leaves_def)

lemma keeps_basic [keeps_intros]:
  "keeps P (ret a)" "keeps P (panic msg)" "keeps P (undef msg)" "keeps P (gets g)" "keeps P (\<lambda>s. Spin)"
  by (simp_all add: keeps_def ret_def panic_def undef_def gets_def)

lemma keeps_modify [keeps_intros]: "(\<And>s. P s \<Longrightarrow> P (g s)) \<Longrightarrow> keeps P (modify g)"
  by (simp add: keeps_def modify_def)

lemma keeps_bnd [keeps_intros]:
  assumes "keeps P m" and "\<And>a. keeps P (k a)"
  shows "keeps P (bnd m k)"
  unfolding keeps_def
proof (intro allI impI)
  fix s assume P: "P s"
  show "case bnd m k s of Ret a s' \<Rightarrow> P s' | Sleep c s' \<Rightarrow> P s' | _ \<Rightarrow> True"
  proof (cases "m s")
    case (Ret a s')
    have "P s'" using keepsD [OF assms(1) Ret P] .
    then show ?thesis using assms(2) [of a] Ret by (simp add: keeps_def bnd_def)
  qed (use keepsD_sleep [OF assms(1) _ P] in \<open>simp_all add: bnd_def\<close>)
qed

lemma keeps_sq [keeps_intros]: "keeps P m \<Longrightarrow> keeps P k \<Longrightarrow> keeps P (sq m k)"
  unfolding sq_def by (rule keeps_bnd)

lemma keeps_whenM [keeps_intros]: "(b \<Longrightarrow> keeps P m) \<Longrightarrow> keeps P (whenM b m)"
  by (simp add: whenM_def keeps_basic)

lemma keeps_if [keeps_intros]: "(b \<Longrightarrow> keeps P m) \<Longrightarrow> (\<not> b \<Longrightarrow> keeps P k) \<Longrightarrow> keeps P (if b then m else k)"
  by simp

lemma keeps_Let [keeps_intros]: "keeps P (g x) \<Longrightarrow> keeps P (Let x g)"
  by simp

lemma keeps_case_option [keeps_intros]:
  "(x = None \<Longrightarrow> keeps P m) \<Longrightarrow> (\<And>y. x = Some y \<Longrightarrow> keeps P (k y)) \<Longrightarrow> keeps P (case x of None \<Rightarrow> m | Some y \<Rightarrow> k y)"
  by (cases x) simp_all

lemma keeps_case_prod [keeps_intros]:
  "(\<And>a b. x = (a, b) \<Longrightarrow> keeps P (k a b)) \<Longrightarrow> keeps P (case x of (a, b) \<Rightarrow> k a b)"
  by (cases x) simp

lemma keeps_foreach [keeps_intros]: "(\<And>i. i \<in> set is \<Longrightarrow> keeps P (body i)) \<Longrightarrow> keeps P (foreach is body)"
  by (induction "is") (simp_all add: keeps_basic keeps_sq)

lemma keeps_forsome [keeps_intros]: "(\<And>i. i \<in> set is \<Longrightarrow> keeps P (body i)) \<Longrightarrow> keeps P (forsome is body)"
  by (induction "is") (simp_all add: keeps_basic keeps_bnd keeps_case_option)

lemmas keeps_ctrl = keeps_basic keeps_modify keeps_bnd keeps_sq keeps_whenM keeps_if keeps_Let
  keeps_case_option keeps_case_prod keeps_foreach keeps_forsome

lemma runs_keeps: "runs m s Q \<Longrightarrow> keeps P m \<Longrightarrow> P s \<Longrightarrow> runs m s (\<lambda>a s'. Q a s' \<and> P s')"
  by (auto simp: runs_iff dest: keepsD)

lemma runs_leaves: "runs m s Q \<Longrightarrow> leaves f m \<Longrightarrow> runs m s (\<lambda>a s'. Q a s' \<and> f s' = f s)"
  by (auto simp: runs_iff dest: leavesD)

section \<open>How an operation ends\<close>

text \<open>\<open>ends m s s'\<close>: the operation returns in \<open>s'\<close>, or goes to sleep there.\<close>

definition ends :: "('s, 'a) op \<Rightarrow> 's \<Rightarrow> 's \<Rightarrow> bool" where
  "ends m s s' \<longleftrightarrow> (\<exists>a. m s = Ret a s') \<or> (\<exists>c. m s = Sleep c s')"

definition nosleep :: "('s, 'a) op \<Rightarrow> bool" where
  "nosleep m \<longleftrightarrow> (\<forall>s c s'. m s \<noteq> Sleep c s')"

lemma ends_keeps: "ends m s s' \<Longrightarrow> keeps P m \<Longrightarrow> P s \<Longrightarrow> P s'"
  unfolding ends_def by (auto dest: keepsD keepsD_sleep)

lemma ends_leaves: "ends m s s' \<Longrightarrow> leaves f m \<Longrightarrow> f s' = f s"
  unfolding ends_def by (auto dest: leavesD leavesD_sleep)

lemma ends_sq:
  assumes "ends (sq m k) s s'" and "nosleep m"
  obtains a s1 where "m s = Ret a s1" and "ends k s1 s'"
  using assms by (auto simp: ends_def nosleep_def sq_def bnd_def split: outcome.splits)

lemma nosleep_basic: "nosleep (ret a)" "nosleep (gets f)" "nosleep (modify g)" "nosleep (panic e)" "nosleep (undef e)"
  by (simp_all add: nosleep_def ret_def gets_def modify_def panic_def undef_def)

lemma nosleep_bnd: "nosleep m \<Longrightarrow> (\<And>a. nosleep (k a)) \<Longrightarrow> nosleep (bnd m k)"
  by (auto simp: nosleep_def bnd_def split: outcome.splits)

lemma nosleep_sq: "nosleep m \<Longrightarrow> nosleep k \<Longrightarrow> nosleep (sq m k)"
  unfolding sq_def by (rule nosleep_bnd)

lemma nosleep_if: "nosleep m \<Longrightarrow> nosleep k \<Longrightarrow> nosleep (if b then m else k)"
  by simp

lemma nosleep_whenM: "nosleep m \<Longrightarrow> nosleep (whenM b m)"
  by (simp add: whenM_def nosleep_basic)

lemmas nosleep_ctrl = nosleep_basic nosleep_bnd nosleep_sq nosleep_if nosleep_whenM

section \<open>Array scans\<close>

text \<open>
  \<^verbatim>\<open>for (p = a; p < a + n; p++) if (P(p)) ...\<close> with an exit at the first hit is
  \<open>scan P n\<close>: the least index below \<open>n\<close> that satisfies \<open>P\<close>.
\<close>

definition scan :: "(nat \<Rightarrow> bool) \<Rightarrow> nat \<Rightarrow> nat option" where
  "scan P n = find P [0..<n]"

lemma scan_Some_iff: "scan P n = Some i \<longleftrightarrow> i < n \<and> P i \<and> (\<forall>j<i. \<not> P j)"
proof
  assume "scan P n = Some i"
  then show "i < n \<and> P i \<and> (\<forall>j<i. \<not> P j)"
    by (auto simp: scan_def find_Some_iff)
next
  assume h: "i < n \<and> P i \<and> (\<forall>j<i. \<not> P j)"
  then have "i < length [0..<n] \<and> P ([0..<n] ! i) \<and> i = [0..<n] ! i \<and> (\<forall>j<i. \<not> P ([0..<n] ! j))"
    by simp
  then show "scan P n = Some i"
    unfolding scan_def find_Some_iff by blast
qed

lemma scan_None_iff: "scan P n = None \<longleftrightarrow> (\<forall>i<n. \<not> P i)"
  by (auto simp: scan_def find_None_iff)

lemma scan_SomeD:
  assumes "scan P n = Some i"
  shows "i < n" and "P i"
  using assms by (auto simp: scan_Some_iff)

lemma scan_cong: "(\<And>i. i < n \<Longrightarrow> P i = Q i) \<Longrightarrow> scan P n = scan Q n"
  by (auto simp: scan_def intro!: find_cong)

section \<open>Pointer chains\<close>

text \<open>
  \<open>chain nx x xs y\<close>: following \<open>nx\<close> from \<open>x\<close> visits exactly the cells \<open>xs\<close> and then
  is at \<open>y\<close>.  Pointers are \<open>'a option\<close>, \<open>None\<close> being null.
\<close>

primrec chain :: "('a \<Rightarrow> 'a option) \<Rightarrow> 'a option \<Rightarrow> 'a list \<Rightarrow> 'a option \<Rightarrow> bool" where
  "chain nx x [] y \<longleftrightarrow> x = y"
| "chain nx x (a # as) y \<longleftrightarrow> x = Some a \<and> chain nx (nx a) as y"

lemma chain_append: "chain nx x (as @ bs) y \<longleftrightarrow> (\<exists>z. chain nx x as z \<and> chain nx z bs y)"
  by (induction as arbitrary: x) auto

lemma chain_upd [simp]: "u \<notin> set as \<Longrightarrow> chain (nx(u := v)) x as y = chain nx x as y"
  by (induction as arbitrary: x) auto

lemma chain_cong: "(\<And>a. a \<in> set as \<Longrightarrow> nx a = nx' a) \<Longrightarrow> chain nx x as y = chain nx' x as y"
  by (induction as arbitrary: x) auto

lemma chain_None [simp]: "chain nx None as None \<longleftrightarrow> as = []"
  by (cases as) auto

lemma chain_null_unique: "chain nx x as None \<Longrightarrow> chain nx x bs None \<Longrightarrow> as = bs"
proof (induction as arbitrary: x bs)
  case Nil
  then show ?case by (cases bs) auto
next
  case (Cons a as)
  then show ?case by (cases bs) auto
qed

lemma chain_snoc_upd:
  assumes "chain nx x (as @ [l]) None" and "distinct (as @ [l])" and "a \<notin> set (as @ [l])"
  shows "chain (nx(l := Some a, a := None)) x (as @ [l, a]) None"
proof -
  from assms(1) obtain z where z: "chain nx x as z" "z = Some l" "nx l = None"
    by (auto simp: chain_append)
  have "chain (nx(l := Some a, a := None)) x as z"
    using z(1) assms(2,3) by simp
  then show ?thesis
    using z(2) assms(3) by (auto simp: chain_append)
qed

section \<open>Words\<close>

lemma unat_uint_less: "unat (n :: uint) < 2 ^ 32"
  using unsigned_less [where ?'b = 32 and ?'a = nat and w = n] by simp

subsection \<open>Flag words\<close>

text \<open>C flag tests \<^verbatim>\<open>f & b\<close>, sets \<^verbatim>\<open>f |= b\<close> and clears \<^verbatim>\<open>f &= ~b\<close>.\<close>

definition has :: "uint \<Rightarrow> uint \<Rightarrow> bool" where
  "has f b \<longleftrightarrow> f AND b \<noteq> 0"

lemma has_bit: "has f (2 ^ n) \<longleftrightarrow> bit f n"
  by (cases "n < 32") (auto simp: has_def bit_iff_odd_drop_bit and_exp_eq_0_iff_not_bit)

lemma has_zero [simp]: "\<not> has 0 b"
  by (simp add: has_def)

lemma has_or: "has (f OR g) b \<longleftrightarrow> has f b \<or> has g b"
  by (auto simp: has_def bit.conj_disj_distrib2 or_eq_0_iff)

end
