(* ===== verification/Spinlock.thy ===== *)
theory Spinlock
  imports Prelude
begin

text \<open>
  Spin locks (\<^verbatim>\<open>src/spinlock.c\<close>, \<^verbatim>\<open>src/spinlock.h\<close>).

  \<open>cpust\<close> is what the lock code reads and writes on one CPU: the \<^verbatim>\<open>ncli\<close> nesting depth
  and \<^verbatim>\<open>intena\<close> of \<^verbatim>\<open>struct cpu\<close>, the interrupt flag of \<^verbatim>\<open>eflags\<close>, and the locks of the
  kernel.  Every kernel state of the development extends \<open>machine\<close>, which holds one
  \<open>cpust\<close>, so that an operation that takes a lock twice panics in the model as it does in
  the code, and one that forgets to release it leaves it held.  The debugging fields
  \<^verbatim>\<open>name\<close> and \<^verbatim>\<open>pcs\<close> of \<^verbatim>\<open>struct spinlock\<close> are left out: no operation reads them.

  The second half of the theory runs \<^verbatim>\<open>acquire\<close> and \<^verbatim>\<open>release\<close> on several CPUs, one memory
  operation at a time, and proves mutual exclusion.
\<close>

section \<open>State\<close>

record spinlock =
  locked :: uint
  lk_cpu :: "nat option"

datatype lock =
    PtableLock
  | KmemLock
  | StableLock
  | ShmtableLock
  | BcacheLock
  | IcacheLock
  | FtableLock
  | LogLock
  | TicksLock
  | InputLock
  | ConsLock
  | IdeLock
  | PipeLock uint

record cpust =
  cpu_id :: nat
  ncli :: int
  intena :: bool
  eflags_IF :: bool
  lks :: "lock \<Rightarrow> spinlock"

record machine =
  cpust :: cpust

definition initlock :: "spinlock" where
  "initlock = \<lparr>locked = 0, lk_cpu = None\<rparr>"

section \<open>Operations on the lock state\<close>

text \<open>\<^verbatim>\<open>xchg\<close> (\<^verbatim>\<open>src/x86.h\<close>): store the new value and return the old one.\<close>

definition xchg_locked :: "uint \<Rightarrow> spinlock \<Rightarrow> uint \<times> spinlock" where
  "xchg_locked v lk = (locked lk, lk\<lparr>locked := v\<rparr>)"

definition holding :: "lock \<Rightarrow> cpust \<Rightarrow> bool" where
  "holding l k \<longleftrightarrow> locked (lks k l) \<noteq> 0 \<and> lk_cpu (lks k l) = Some (cpu_id k)"

definition pushcli :: "cpust \<Rightarrow> cpust" where
  "pushcli k =
     (let eflags = eflags_IF k;
          k1 = k\<lparr>eflags_IF := False\<rparr>;
          k2 = k1\<lparr>ncli := ncli k1 + 1\<rparr>
      in if ncli k1 = 0 then k2\<lparr>intena := eflags\<rparr> else k2)"

definition popcli :: "(cpust, unit) op" where
  "popcli k =
     (if eflags_IF k then Panic ''popcli - interruptible''
      else let k1 = k\<lparr>ncli := ncli k - 1\<rparr> in
        if ncli k1 < 0 then Panic ''popcli''
        else if ncli k1 = 0 \<and> intena k1 then Ret () (k1\<lparr>eflags_IF := True\<rparr>)
        else Ret () k1)"

text \<open>
  \<open>acquire\<close> spins while another CPU holds the lock; run alone it then never returns,
  which is the outcome \<open>Spin\<close>.
\<close>

definition acquire_k :: "lock \<Rightarrow> (cpust, unit) op" where
  "acquire_k l k =
     (let k1 = pushcli k in
      if holding l k1 then Panic ''acquire''
      else let (old, lk) = xchg_locked 1 (lks k1 l) in
        if old \<noteq> 0 then Spin
        else Ret () (k1\<lparr>lks := (lks k1)(l := lk\<lparr>lk_cpu := Some (cpu_id k1)\<rparr>)\<rparr>))"

definition release_k :: "lock \<Rightarrow> (cpust, unit) op" where
  "release_k l k =
     (if \<not> holding l k then Panic ''release''
      else let lk1 = (lks k l)\<lparr>lk_cpu := None\<rparr>;
               lk2 = snd (xchg_locked 0 lk1)
        in popcli (k\<lparr>lks := (lks k)(l := lk2)\<rparr>))"

text \<open>The same operations on any kernel state.\<close>

definition on_cpust :: "(cpust, 'a) op \<Rightarrow> ('z machine_scheme, 'a) op" where
  "on_cpust m s =
     (case m (cpust s) of
        Ret a k \<Rightarrow> Ret a (s\<lparr>cpust := k\<rparr>)
      | Sleep c k \<Rightarrow> Sleep c (s\<lparr>cpust := k\<rparr>)
      | Panic msg \<Rightarrow> Panic msg
      | Undef msg \<Rightarrow> Undef msg
      | Spin \<Rightarrow> Spin)"

definition acquire :: "lock \<Rightarrow> ('z machine_scheme, unit) op" where
  "acquire l = on_cpust (acquire_k l)"

definition release :: "lock \<Rightarrow> ('z machine_scheme, unit) op" where
  "release l = on_cpust (release_k l)"

section \<open>Sequential behaviour\<close>

text \<open>
  \<open>cli_wf\<close>: the nesting depth is not negative and interrupts are off inside a critical
  section.  \<open>lock_free\<close>: the lock is as \<open>initlock\<close> and \<open>release\<close> leave it.  \<open>acq\<close> is the
  state a successful \<open>acquire\<close> leaves, \<open>settled\<close> the state after a matching \<open>release\<close>: only
  a stale \<open>intena\<close> may differ from the state before.
\<close>

definition cli_wf :: "cpust \<Rightarrow> bool" where
  "cli_wf k \<longleftrightarrow> 0 \<le> ncli k \<and> (0 < ncli k \<longrightarrow> \<not> eflags_IF k)"

definition lock_free :: "lock \<Rightarrow> cpust \<Rightarrow> bool" where
  "lock_free l k \<longleftrightarrow> lks k l = initlock"

definition acq :: "lock \<Rightarrow> cpust \<Rightarrow> cpust" where
  "acq l k = (pushcli k)\<lparr>lks := (lks k)(l := \<lparr>locked = 1, lk_cpu = Some (cpu_id k)\<rparr>)\<rparr>"

definition settled :: "cpust \<Rightarrow> cpust" where
  "settled k = k\<lparr>intena := (if ncli k = 0 then eflags_IF k else intena k)\<rparr>"

named_theorems lock_simps \<open>lock state after acquire and release\<close>

lemma pushcli_sel [simp]:
  "cpu_id (pushcli k) = cpu_id k" "ncli (pushcli k) = ncli k + 1"
  "eflags_IF (pushcli k) = False" "lks (pushcli k) = lks k"
  by (simp_all add: pushcli_def Let_def)

lemma acq_sel [simp]:
  "cpu_id (acq l k) = cpu_id k" "ncli (acq l k) = ncli k + 1" "eflags_IF (acq l k) = False"
  "lks (acq l k) = (lks k)(l := \<lparr>locked = 1, lk_cpu = Some (cpu_id k)\<rparr>)"
  by (simp_all add: acq_def)

lemma settled_sel [simp]:
  "cpu_id (settled k) = cpu_id k" "ncli (settled k) = ncli k"
  "eflags_IF (settled k) = eflags_IF k" "lks (settled k) = lks k"
  by (simp_all add: settled_def)

lemma settled_settled [simp]: "settled (settled k) = settled k"
  by (simp add: settled_def)

lemma acq_settled [simp]: "acq l (settled k) = acq l k"
  by (simp add: acq_def settled_def pushcli_def Let_def)

lemma settled_acq [simp]: "cli_wf k \<Longrightarrow> settled (acq l k) = acq l k"
  by (simp add: settled_def cli_wf_def)

lemma cli_wf_acq [simp]: "cli_wf k \<Longrightarrow> cli_wf (acq l k)"
  by (simp add: cli_wf_def)

lemma cli_wf_settled [simp]: "cli_wf (settled k) = cli_wf k"
  by (simp add: cli_wf_def)

lemma lock_free_acq [simp]: "lock_free l (acq l' k) \<longleftrightarrow> l \<noteq> l' \<and> lock_free l k"
  by (simp add: lock_free_def initlock_def)

lemma lock_free_settled [simp]: "lock_free l (settled k) = lock_free l k"
  by (simp add: lock_free_def)

lemma holding_acq [simp]: "holding l (acq l' k) \<longleftrightarrow> l = l' \<or> holding l k"
  by (simp add: holding_def)

lemma holding_settled [simp]: "holding l (settled k) = holding l k"
  by (simp add: holding_def)

lemma lock_free_not_holding: "lock_free l k \<Longrightarrow> \<not> holding l k"
  by (simp add: lock_free_def holding_def initlock_def)

lemma acquire_k_free: "lock_free l k \<Longrightarrow> acquire_k l k = Ret () (acq l k)"
  by (simp add: acquire_k_def acq_def lock_free_def initlock_def holding_def xchg_locked_def Let_def)

lemma acquire_k_held: "holding l k \<Longrightarrow> acquire_k l k = Panic ''acquire''"
  by (simp add: acquire_k_def holding_def Let_def)

lemma release_k_acq:
  assumes "lock_free l k" and "cli_wf k"
  shows "release_k l (acq l k) = Ret () (settled k)"
proof -
  have "lks k l = \<lparr>locked = 0, lk_cpu = None\<rparr>"
    using assms(1) by (simp add: lock_free_def initlock_def)
  then have "(lks k)(l := \<lparr>locked = 0, lk_cpu = None\<rparr>) = lks k"
    by (metis fun_upd_triv)
  then show ?thesis
    using assms(2)
    by (auto simp: release_k_def popcli_def acq_def settled_def holding_def xchg_locked_def
        cli_wf_def pushcli_def Let_def intro!: cpust.equality)
qed

lemma release_k_free: "lock_free l k \<Longrightarrow> release_k l k = Panic ''release''"
  by (simp add: release_k_def lock_free_not_holding)

lemma acquire_free [op_simps]:
  "lock_free l (cpust s) \<Longrightarrow> acquire l s = Ret () (s\<lparr>cpust := acq l (cpust s)\<rparr>)"
  by (simp add: acquire_def on_cpust_def acquire_k_free)

lemma acquire_held: "holding l (cpust s) \<Longrightarrow> acquire l s = Panic ''acquire''"
  by (simp add: acquire_def on_cpust_def acquire_k_held)

lemma release_acq [op_simps]:
  "cpust s = acq l k \<Longrightarrow> lock_free l k \<Longrightarrow> cli_wf k \<Longrightarrow>
     release l s = Ret () (s\<lparr>cpust := settled k\<rparr>)"
  by (simp add: release_def on_cpust_def release_k_acq)

lemma keeps_on_cpust [keeps_intros]:
  "(\<And>s k. P s \<Longrightarrow> P (s\<lparr>cpust := k\<rparr>)) \<Longrightarrow> keeps P (on_cpust m)"
  by (auto simp: keeps_def on_cpust_def split: outcome.splits)

lemma keeps_locks [keeps_intros]:
  "(\<And>s k. P s \<Longrightarrow> P (s\<lparr>cpust := k\<rparr>)) \<Longrightarrow> keeps P (acquire l)"
  "(\<And>s k. P s \<Longrightarrow> P (s\<lparr>cpust := k\<rparr>)) \<Longrightarrow> keeps P (release l)"
  by (simp_all add: acquire_def release_def keeps_on_cpust)

lemma runs_acquire [runs_simps]:
  "lock_free l (cpust s) \<Longrightarrow>
     runs (acquire l) s Q \<longleftrightarrow> Q () (s\<lparr>cpust := acq l (cpust s)\<rparr>)"
  by (simp add: runs_def acquire_free)

lemma runs_release [runs_simps]:
  "cpust s = acq l k \<Longrightarrow> lock_free l k \<Longrightarrow> cli_wf k \<Longrightarrow>
     runs (release l) s Q \<longleftrightarrow> Q () (s\<lparr>cpust := settled k\<rparr>)"
  by (simp add: runs_def release_acq)

lemma acq_commute: "a \<noteq> b \<Longrightarrow> acq a (acq b k) = acq b (acq a k)"
  by (simp add: acq_def pushcli_def Let_def fun_upd_twist)

text \<open>Nested \<open>pushcli\<close>/\<open>popcli\<close>: \<open>n\<close> pops undo \<open>n\<close> pushes.\<close>

primrec pops :: "nat \<Rightarrow> (cpust, unit) op" where
  "pops 0 = ret ()"
| "pops (Suc n) = sq popcli (pops n)"

lemma popcli_pushcli:
  "cli_wf k \<Longrightarrow> popcli (pushcli k) = Ret () (settled k)"
  by (cases k) (auto simp: popcli_def pushcli_def settled_def cli_wf_def Let_def)

lemma popcli_settled_pushcli:
  assumes "cli_wf k"
  shows "pushcli (settled k) = pushcli k" and "settled (pushcli k) = pushcli k"
  using assms by (simp_all add: pushcli_def settled_def cli_wf_def Let_def)

lemma cli_wf_pushcli [simp]: "cli_wf k \<Longrightarrow> cli_wf (pushcli k)"
  by (simp add: cli_wf_def)

lemma pops_pushes: "cli_wf k \<Longrightarrow> pops n ((pushcli ^^ n) (settled k)) = Ret () (settled k)"
proof (induction n arbitrary: k)
  case 0
  then show ?case by (simp add: op_simps)
next
  case (Suc n)
  have wf: "cli_wf ((pushcli ^^ n) (settled k))"
    by (induction n) (use Suc.prems in auto)
  have st: "settled ((pushcli ^^ n) (settled k)) = (pushcli ^^ n) (settled k)"
  proof (cases n)
    case (Suc m)
    have "cli_wf ((pushcli ^^ m) (settled k))"
      by (induction m) (use \<open>cli_wf k\<close> in auto)
    with Suc show ?thesis by (simp add: popcli_settled_pushcli)
  qed simp
  show ?case
    using Suc popcli_pushcli [OF wf] st by (simp add: sq_Ret)
qed

section \<open>Several CPUs\<close>

text \<open>
  One lock shared by any number of CPUs.  Each CPU is between two memory operations of
  \<^verbatim>\<open>acquire\<close> or \<^verbatim>\<open>release\<close>: outside, about to execute \<^verbatim>\<open>xchg(&lk->locked, 1)\<close>, past a
  successful \<^verbatim>\<open>xchg\<close> but before \<^verbatim>\<open>lk->cpu = cpu\<close>, in the critical section, past
  \<^verbatim>\<open>lk->cpu = 0\<close> but before \<^verbatim>\<open>xchg(&lk->locked, 0)\<close>, or panicked.
\<close>

datatype lpc = Outside | Xchg | Won | Critical | Leaving | Panicked

record mp =
  mp_lock :: spinlock
  mp_pc :: "nat \<Rightarrow> lpc"

definition mp_holding :: "nat \<Rightarrow> mp \<Rightarrow> bool" where
  "mp_holding i s \<longleftrightarrow> locked (mp_lock s) \<noteq> 0 \<and> lk_cpu (mp_lock s) = Some i"

definition mp_init :: mp where
  "mp_init = \<lparr>mp_lock = initlock, mp_pc = (\<lambda>_. Outside)\<rparr>"

inductive mp_step :: "mp \<Rightarrow> mp \<Rightarrow> bool" where
  enter: "mp_pc s i = Outside \<Longrightarrow> \<not> mp_holding i s \<Longrightarrow>
     mp_step s (s\<lparr>mp_pc := (mp_pc s)(i := Xchg)\<rparr>)"
| enter_panic: "mp_pc s i = Outside \<Longrightarrow> mp_holding i s \<Longrightarrow>
     mp_step s (s\<lparr>mp_pc := (mp_pc s)(i := Panicked)\<rparr>)"
| xchg: "mp_pc s i = Xchg \<Longrightarrow> xchg_locked 1 (mp_lock s) = (old, lk) \<Longrightarrow>
     mp_step s (s\<lparr>mp_lock := lk, mp_pc := (mp_pc s)(i := (if old \<noteq> 0 then Xchg else Won))\<rparr>)"
| set_cpu: "mp_pc s i = Won \<Longrightarrow>
     mp_step s (s\<lparr>mp_lock := (mp_lock s)\<lparr>lk_cpu := Some i\<rparr>, mp_pc := (mp_pc s)(i := Critical)\<rparr>)"
| leave: "mp_pc s i = Critical \<Longrightarrow> mp_holding i s \<Longrightarrow>
     mp_step s (s\<lparr>mp_lock := (mp_lock s)\<lparr>lk_cpu := None\<rparr>, mp_pc := (mp_pc s)(i := Leaving)\<rparr>)"
| leave_panic: "mp_pc s i = Critical \<Longrightarrow> \<not> mp_holding i s \<Longrightarrow>
     mp_step s (s\<lparr>mp_pc := (mp_pc s)(i := Panicked)\<rparr>)"
| unlock: "mp_pc s i = Leaving \<Longrightarrow> xchg_locked 0 (mp_lock s) = (old, lk) \<Longrightarrow>
     mp_step s (s\<lparr>mp_lock := lk, mp_pc := (mp_pc s)(i := Outside)\<rparr>)"

inductive mp_reach :: "mp \<Rightarrow> bool" where
  start: "mp_reach mp_init"
| step: "mp_reach s \<Longrightarrow> mp_step s t \<Longrightarrow> mp_reach t"

text \<open>
  The steps are those of \<open>acquire_k\<close> and \<open>release_k\<close>: a call that returns goes through them, from the lock as the call finds it to the
  lock as it leaves it.  (What \<^verbatim>\<open>pushcli\<close> and \<^verbatim>\<open>popcli\<close> do is private to the CPU.)  A CPU of this machine takes and gives back the lock in
  turn, as the callers in the kernel do; one that takes it twice, or gives back what it does not hold, panics by \<open>acquire_k_held\<close> and \<open>release_k_free\<close>.
\<close>

lemma mp_holding_k: "mp_lock s = lks k l \<Longrightarrow> mp_holding (cpu_id k) s \<longleftrightarrow> holding l k"
  by (simp add: mp_holding_def holding_def)

lemma acquire_k_steps:
  assumes "acquire_k l k = Ret () k'" and s: "mp_lock s = lks k l" "mp_pc s (cpu_id k) = Outside"
  shows "mp_step\<^sup>*\<^sup>* s (s\<lparr>mp_lock := lks k' l, mp_pc := (mp_pc s)(cpu_id k := Critical)\<rparr>)"
proof -
  let ?i = "cpu_id k"
  have h: "\<not> holding l k" "locked (lks k l) = 0" "lks k' l = (lks k l)\<lparr>locked := 1, lk_cpu := Some ?i\<rparr>"
    using assms(1) by (auto simp: acquire_k_def xchg_locked_def holding_def Let_def split: if_splits)
  let ?s1 = "s\<lparr>mp_pc := (mp_pc s)(?i := Xchg)\<rparr>"
  let ?s2 = "?s1\<lparr>mp_lock := (lks k l)\<lparr>locked := 1\<rparr>, mp_pc := (mp_pc ?s1)(?i := Won)\<rparr>"
  have "mp_step s ?s1" using s h(1) by (intro mp_step.enter) (simp_all add: mp_holding_k)
  moreover have "mp_step ?s1 ?s2"
    using mp_step.xchg [of ?s1 ?i 0 "(lks k l)\<lparr>locked := 1\<rparr>"] s h(2) by (simp add: xchg_locked_def)
  moreover have "mp_step ?s2 (s\<lparr>mp_lock := lks k' l, mp_pc := (mp_pc s)(?i := Critical)\<rparr>)"
    using mp_step.set_cpu [of ?s2 ?i] by (simp add: h(3))
  ultimately show ?thesis by (meson rtranclp.rtrancl_into_rtrancl rtranclp.rtrancl_refl)
qed

lemma release_k_steps:
  assumes "release_k l k = Ret () k'" and s: "mp_lock s = lks k l" "mp_pc s (cpu_id k) = Critical"
  shows "mp_step\<^sup>*\<^sup>* s (s\<lparr>mp_lock := lks k' l, mp_pc := (mp_pc s)(cpu_id k := Outside)\<rparr>)"
proof -
  let ?i = "cpu_id k"
  have h: "holding l k" "lks k' l = (lks k l)\<lparr>lk_cpu := None, locked := 0\<rparr>"
    using assms(1) by (auto simp: release_k_def popcli_def xchg_locked_def Let_def split: if_splits)
  let ?s1 = "s\<lparr>mp_lock := (lks k l)\<lparr>lk_cpu := None\<rparr>, mp_pc := (mp_pc s)(?i := Leaving)\<rparr>"
  have "mp_step s ?s1" using mp_step.leave [of s ?i] s h(1) mp_holding_k [of s k l] by simp
  moreover have "mp_step ?s1 (s\<lparr>mp_lock := lks k' l, mp_pc := (mp_pc s)(?i := Outside)\<rparr>)"
    using mp_step.unlock [of ?s1 ?i "locked (lks k l)" "lks k' l"] by (simp add: xchg_locked_def h(2))
  ultimately show ?thesis by (meson rtranclp.rtrancl_into_rtrancl rtranclp.rtrancl_refl)
qed

text \<open>
  The invariant, for the CPU \<open>w\<close> that won the \<^verbatim>\<open>xchg\<close> and has not yet undone it (or none):
  it is the only such CPU, the lock word is set exactly while there is one, and \<open>lk_cpu\<close>
  names a CPU exactly while that CPU is in its critical section.
\<close>

definition owns :: "lpc \<Rightarrow> bool" where
  "owns p \<longleftrightarrow> p = Won \<or> p = Critical \<or> p = Leaving"

definition mp_inv :: "nat option \<Rightarrow> mp \<Rightarrow> bool" where
  "mp_inv w s \<longleftrightarrow>
     (\<forall>i. owns (mp_pc s i) \<longleftrightarrow> w = Some i) \<and>
     (locked (mp_lock s) \<noteq> 0 \<longleftrightarrow> w \<noteq> None) \<and>
     (\<forall>i. lk_cpu (mp_lock s) = Some i \<longleftrightarrow> mp_pc s i = Critical) \<and>
     (\<forall>i. mp_pc s i \<noteq> Panicked)"

lemma mp_inv_init: "mp_inv None mp_init"
  by (simp add: mp_inv_def mp_init_def initlock_def owns_def)

lemma mp_inv_holding: "mp_inv w s \<Longrightarrow> mp_holding i s \<longleftrightarrow> mp_pc s i = Critical"
  by (auto simp: mp_inv_def mp_holding_def owns_def)

lemma mp_inv_winner: "mp_inv w s \<Longrightarrow> owns (mp_pc s i) \<Longrightarrow> w = Some i"
  by (simp add: mp_inv_def)

lemma mp_inv_loser: "mp_inv w s \<Longrightarrow> \<not> owns (mp_pc s i) \<Longrightarrow> w \<noteq> Some i"
  by (simp add: mp_inv_def)

lemma mp_step_inv: "mp_step s t \<Longrightarrow> mp_inv w s \<Longrightarrow> \<exists>w'. mp_inv w' t"
proof (induction rule: mp_step.induct)
  case (enter s i)
  then have "w \<noteq> Some i"
    by (simp add: mp_inv_loser owns_def)
  with enter have "mp_inv w (s\<lparr>mp_pc := (mp_pc s)(i := Xchg)\<rparr>)"
    by (auto simp: mp_inv_def owns_def fun_upd_def)
  then show ?case ..
next
  case (enter_panic s i)
  then show ?case by (simp add: mp_inv_holding)
next
  case (xchg s i old lk)
  then have "w \<noteq> Some i"
    by (simp add: mp_inv_loser owns_def)
  with xchg have "mp_inv (if old \<noteq> 0 then w else Some i)
      (s\<lparr>mp_lock := lk, mp_pc := (mp_pc s)(i := (if old \<noteq> 0 then Xchg else Won))\<rparr>)"
    by (auto simp: mp_inv_def owns_def xchg_locked_def)
  then show ?case ..
next
  case (set_cpu s i)
  then have "mp_inv w (s\<lparr>mp_lock := (mp_lock s)\<lparr>lk_cpu := Some i\<rparr>,
      mp_pc := (mp_pc s)(i := Critical)\<rparr>)"
    using mp_inv_winner [of w s i] by (auto simp: mp_inv_def owns_def)
  then show ?case ..
next
  case (leave s i)
  then have "mp_inv w (s\<lparr>mp_lock := (mp_lock s)\<lparr>lk_cpu := None\<rparr>,
      mp_pc := (mp_pc s)(i := Leaving)\<rparr>)"
    using mp_inv_winner [of w s i] by (auto simp: mp_inv_def owns_def)
  then show ?case ..
next
  case (leave_panic s i)
  then show ?case by (simp add: mp_inv_holding)
next
  case (unlock s i old lk)
  then have "mp_inv None (s\<lparr>mp_lock := lk, mp_pc := (mp_pc s)(i := Outside)\<rparr>)"
    using mp_inv_winner [of w s i] by (auto simp: mp_inv_def owns_def xchg_locked_def)
  then show ?case ..
qed

lemma mp_reach_inv: "mp_reach s \<Longrightarrow> \<exists>w. mp_inv w s"
proof (induction rule: mp_reach.induct)
  case start
  show ?case using mp_inv_init ..
next
  case (step s t)
  then show ?case using mp_step_inv by blast
qed

section \<open>Properties\<close>

text \<open>
  (C15) Mutual exclusion: in every interleaving of \<^verbatim>\<open>acquire\<close> and \<^verbatim>\<open>release\<close> on any number of
  CPUs at most one CPU is past its winning \<^verbatim>\<open>xchg\<close>, so at most one is in the critical section,
  and neither the \<^verbatim>\<open>panic("acquire")\<close> nor the \<^verbatim>\<open>panic("release")\<close> is reached.
\<close>

theorem mutual_exclusion:
  assumes "mp_reach s"
  shows "(owns (mp_pc s i) \<and> owns (mp_pc s j) \<longrightarrow> i = j) \<and> mp_pc s i \<noteq> Panicked"
  using mp_reach_inv [OF assms] by (auto simp: mp_inv_def)

definition mp_sample :: mp where
  "mp_sample =
     \<lparr>mp_lock = \<lparr>locked = 1, lk_cpu = Some 2\<rparr>, mp_pc = (\<lambda>_. Outside)(2 := Critical)\<rparr>"

lemma mp_sample_reach: "mp_reach mp_sample"
proof -
  let ?s1 = "mp_init\<lparr>mp_pc := (mp_pc mp_init)(2 := Xchg)\<rparr>"
  let ?s2 = "?s1\<lparr>mp_lock := \<lparr>locked = 1, lk_cpu = None\<rparr>, mp_pc := (mp_pc ?s1)(2 := Won)\<rparr>"
  have "mp_reach ?s1"
    using mp_step.enter [of mp_init 2] mp_reach.start mp_reach.step
    by (auto simp: mp_init_def mp_holding_def initlock_def)
  moreover have "mp_step ?s1 ?s2"
    using mp_step.xchg [of ?s1 2 0 "\<lparr>locked = 1, lk_cpu = None\<rparr>"]
    by (simp add: mp_init_def xchg_locked_def initlock_def)
  moreover have "mp_step ?s2 mp_sample"
    using mp_step.set_cpu [of ?s2 2] by (simp add: mp_init_def mp_sample_def)
  ultimately show ?thesis
    by (blast intro: mp_reach.step)
qed

theorem mutual_exclusion_witness:
  "mp_reach mp_sample \<and> owns (mp_pc mp_sample 2) \<and> mp_pc mp_sample 2 \<noteq> Panicked"
  using mutual_exclusion [OF mp_sample_reach, of 2 2] mp_sample_reach
  by (simp add: mp_sample_def owns_def)

text \<open>
  \<^verbatim>\<open>pushcli\<close>/\<^verbatim>\<open>popcli\<close> are matched: after \<open>n\<close> pushes interrupts are off, and the \<open>n\<close>-th
  matching pop, and no earlier one, gives the interrupt flag and the nesting depth back as they
  were, without a panic.
\<close>

theorem cli_nesting:
  assumes "cli_wf k" and "ncli k = 0" and "m < n"
  shows "\<not> eflags_IF ((pushcli ^^ n) k) \<and>
    runs (pops m) ((pushcli ^^ n) k) (\<lambda>_ k'. \<not> eflags_IF k') \<and>
    runs (pops n) ((pushcli ^^ n) k) (\<lambda>_ k'. eflags_IF k' = eflags_IF k \<and> ncli k' = 0)"
proof -
  have st: "(pushcli ^^ Suc j) k = (pushcli ^^ Suc j) (settled k)" for j
    by (induction j) (simp_all add: popcli_settled_pushcli assms)
  have wf: "cli_wf ((pushcli ^^ j) k)" for j
    by (induction j) (simp_all add: assms)
  obtain n' where n': "n = Suc n'" using assms(3) by (cases n) auto
  obtain d where d: "n = Suc d + m"
    using assms(3) less_imp_Suc_add by (metis add.commute add_Suc_right)
  have "settled ((pushcli ^^ Suc d) k) = (pushcli ^^ Suc d) k"
    using popcli_settled_pushcli(2) [OF wf [of d]] by simp
  then have "(pushcli ^^ n) k = (pushcli ^^ m) (settled ((pushcli ^^ Suc d) k))"
    unfolding d add.commute [of "Suc d" m] funpow_add by simp
  moreover have "pops m ((pushcli ^^ m) (settled ((pushcli ^^ Suc d) k)))
      = Ret () (settled ((pushcli ^^ Suc d) k))"
    by (rule pops_pushes [OF wf])
  ultimately have "runs (pops m) ((pushcli ^^ n) k) (\<lambda>_ k'. \<not> eflags_IF k')"
    by (simp add: runs_def)
  moreover have "runs (pops n) ((pushcli ^^ n) k) (\<lambda>_ k'. eflags_IF k' = eflags_IF k \<and> ncli k' = 0)"
    using pops_pushes [OF assms(1), of n] st [of n'] assms(2) by (simp only: n' runs_def) simp
  ultimately show ?thesis by (simp add: n')
qed

theorem cli_nesting_witness:
  "let k = \<lparr>cpu_id = 0, ncli = 0, intena = False, eflags_IF = True, lks = (\<lambda>_. initlock)\<rparr> in
    runs (pops 1) ((pushcli ^^ 3) k) (\<lambda>_ k'. \<not> eflags_IF k') \<and>
    runs (pops 3) ((pushcli ^^ 3) k) (\<lambda>_ k'. eflags_IF k' = True \<and> ncli k' = 0)"
  using cli_nesting
    [of "\<lparr>cpu_id = 0, ncli = 0, intena = False, eflags_IF = True, lks = (\<lambda>_. initlock)\<rparr>" 1 3]
  by (simp only: Let_def) (simp add: cli_wf_def)

end
