(* ===== verification/Cstring.thy ===== *)
theory Cstring
  imports Prelude
begin

text \<open>
  Byte memory and the kernel's memory and string routines (\<^verbatim>\<open>src/string.c\<close>, and
  \<^verbatim>\<open>stosb\<close>, \<^verbatim>\<open>stosl\<close> of \<^verbatim>\<open>src/x86.h\<close>).

  Memory is a function from 32-bit addresses to bytes.  \<^verbatim>\<open>memset\<close> and \<^verbatim>\<open>memmove\<close> work on
  it, with the pointer comparisons and the wrap-around of the C code.  The routines that
  take two strings work on \<open>cstr\<close>, the bytes a pointer points at: \<open>p i\<close> is \<^verbatim>\<open>p[i]\<close>.
  Little-endian 16- and 32-bit loads and stores serve memory and disk blocks alike.
\<close>

type_synonym memory = "uint \<Rightarrow> uchar"
type_synonym cstr = "nat \<Rightarrow> uchar"

section \<open>Little-endian loads and stores\<close>

definition ld16 :: "('i::semiring_1 \<Rightarrow> uchar) \<Rightarrow> 'i \<Rightarrow> ushort" where
  "ld16 m a = ucast (m a) OR push_bit 8 (ucast (m (a + 1)))"

definition st16 :: "('i::semiring_1 \<Rightarrow> uchar) \<Rightarrow> 'i \<Rightarrow> ushort \<Rightarrow> 'i \<Rightarrow> uchar" where
  "st16 m a v = m(a := ucast v, a + 1 := ucast (drop_bit 8 v))"

definition ld32 :: "('i::semiring_1 \<Rightarrow> uchar) \<Rightarrow> 'i \<Rightarrow> uint" where
  "ld32 m a = ucast (m a) OR push_bit 8 (ucast (m (a + 1))) OR
     push_bit 16 (ucast (m (a + 2))) OR push_bit 24 (ucast (m (a + 3)))"

definition st32 :: "('i::semiring_1 \<Rightarrow> uchar) \<Rightarrow> 'i \<Rightarrow> uint \<Rightarrow> 'i \<Rightarrow> uchar" where
  "st32 m a v = m(a := ucast v, a + 1 := ucast (drop_bit 8 v),
     a + 2 := ucast (drop_bit 16 v), a + 3 := ucast (drop_bit 24 v))"

section \<open>memset and memmove\<close>

text \<open>\<^verbatim>\<open>rep stosb\<close> and \<^verbatim>\<open>rep stosl\<close>: one store per count, the address advancing.\<close>

primrec stosb :: "nat \<Rightarrow> uint \<Rightarrow> uchar \<Rightarrow> memory \<Rightarrow> memory" where
  "stosb 0 addr d m = m"
| "stosb (Suc cnt) addr d m = stosb cnt (addr + 1) d (m(addr := d))"

primrec stosl :: "nat \<Rightarrow> uint \<Rightarrow> uint \<Rightarrow> memory \<Rightarrow> memory" where
  "stosl 0 addr d m = m"
| "stosl (Suc cnt) addr d m = stosl cnt (addr + 4) d (st32 m addr d)"

definition memset :: "uint \<Rightarrow> uint \<Rightarrow> uint \<Rightarrow> memory \<Rightarrow> memory" where
  "memset dst c n m =
     (if dst mod 4 = 0 \<and> n mod 4 = 0 then
        let c = c AND 0xFF in
        stosl (unat (n div 4)) dst (push_bit 24 c OR push_bit 16 c OR push_bit 8 c OR c) m
      else stosb (unat n) dst (ucast c) m)"

primrec copy_fwd :: "nat \<Rightarrow> uint \<Rightarrow> uint \<Rightarrow> memory \<Rightarrow> memory" where
  "copy_fwd 0 d s m = m"
| "copy_fwd (Suc n) d s m = copy_fwd n (d + 1) (s + 1) (m(d := m s))"

primrec copy_bwd :: "nat \<Rightarrow> uint \<Rightarrow> uint \<Rightarrow> memory \<Rightarrow> memory" where
  "copy_bwd 0 d s m = m"
| "copy_bwd (Suc n) d s m = copy_bwd n (d - 1) (s - 1) (m(d - 1 := m (s - 1)))"

definition memmove :: "uint \<Rightarrow> uint \<Rightarrow> uint \<Rightarrow> memory \<Rightarrow> memory" where
  "memmove dst src n m =
     (if src < dst \<and> src + n > dst
      then copy_bwd (unat n) (dst + n) (src + n) m
      else copy_fwd (unat n) dst src m)"

definition memcpy :: "uint \<Rightarrow> uint \<Rightarrow> uint \<Rightarrow> memory \<Rightarrow> memory" where
  "memcpy dst src n m = memmove dst src n m"

section \<open>Strings\<close>

primrec memcmp_from :: "nat \<Rightarrow> nat \<Rightarrow> cstr \<Rightarrow> cstr \<Rightarrow> int" where
  "memcmp_from 0 i s1 s2 = 0"
| "memcmp_from (Suc n) i s1 s2 =
     (if s1 i \<noteq> s2 i then uint (s1 i) - uint (s2 i) else memcmp_from n (Suc i) s1 s2)"

definition memcmp :: "cstr \<Rightarrow> cstr \<Rightarrow> nat \<Rightarrow> int" where
  "memcmp s1 s2 n = memcmp_from n 0 s1 s2"

primrec strncmp_from :: "nat \<Rightarrow> nat \<Rightarrow> cstr \<Rightarrow> cstr \<Rightarrow> int" where
  "strncmp_from 0 i p q = 0"
| "strncmp_from (Suc n) i p q =
     (if p i \<noteq> 0 \<and> p i = q i then strncmp_from n (Suc i) p q
      else uint (p i) - uint (q i))"

definition strncmp :: "cstr \<Rightarrow> cstr \<Rightarrow> nat \<Rightarrow> int" where
  "strncmp p q n = strncmp_from n 0 p q"

text \<open>\<^verbatim>\<open>strncpy\<close>: copy up to and including a NUL, then fill with NULs.\<close>

primrec strncpy_pad :: "nat \<Rightarrow> nat \<Rightarrow> cstr \<Rightarrow> cstr" where
  "strncpy_pad 0 i s = s"
| "strncpy_pad (Suc n) i s = strncpy_pad n (Suc i) (s(i := 0))"

primrec strncpy_from :: "nat \<Rightarrow> nat \<Rightarrow> cstr \<Rightarrow> cstr \<Rightarrow> cstr" where
  "strncpy_from 0 i s t = s"
| "strncpy_from (Suc n) i s t =
     (let s' = s(i := t i) in
      if t i \<noteq> 0 then strncpy_from n (Suc i) s' t else strncpy_pad n (Suc i) s')"

definition strncpy :: "cstr \<Rightarrow> cstr \<Rightarrow> int \<Rightarrow> cstr" where
  "strncpy s t n = strncpy_from (nat n) 0 s t"

primrec safestrcpy_from :: "nat \<Rightarrow> nat \<Rightarrow> cstr \<Rightarrow> cstr \<Rightarrow> cstr" where
  "safestrcpy_from 0 i s t = s(i := 0)"
| "safestrcpy_from (Suc k) i s t =
     (let s' = s(i := t i) in
      if t i \<noteq> 0 then safestrcpy_from k (Suc i) s' t else s'(Suc i := 0))"

definition safestrcpy :: "cstr \<Rightarrow> cstr \<Rightarrow> int \<Rightarrow> cstr" where
  "safestrcpy s t n = (if n \<le> 0 then s else safestrcpy_from (nat (n - 1)) 0 s t)"

text \<open>\<^verbatim>\<open>strlen\<close> runs off the end of memory when there is no NUL: \<open>None\<close>.\<close>

partial_function (option) strlen_from :: "cstr \<Rightarrow> nat \<Rightarrow> nat option" where
  "strlen_from s n = (if s n = 0 then Some n else strlen_from s (Suc n))"

definition strlen :: "cstr \<Rightarrow> nat option" where
  "strlen s = strlen_from s 0"

section \<open>Lemmas on loads and stores\<close>

lemma ld16_st16:
  fixes a :: "'i::semiring_1"
  assumes "a \<noteq> a + 1"
  shows "ld16 (st16 m a v) a = v"
  using assms
  by (intro bit_word_eqI)
    (auto simp: ld16_def st16_def bit_simps not_less less_Suc_eq_le)

lemma ld32_st32:
  fixes a :: "'i::semiring_1"
  assumes "distinct [a, a + 1, a + 2, a + 3]"
  shows "ld32 (st32 m a v) a = v"
proof (rule bit_word_eqI)
  fix n :: nat
  assume "n < LENGTH(32)"
  then consider "n < 8" | "8 \<le> n" "n < 16" | "16 \<le> n" "n < 24" | "24 \<le> n" "n < 32"
    by fastforce
  then show "bit (ld32 (st32 m a v) a) n = bit v n"
    by cases (use assms in \<open>auto simp: ld32_def st32_def bit_simps\<close>)
qed

lemma st32_other:
  "x \<noteq> a \<Longrightarrow> x \<noteq> a + 1 \<Longrightarrow> x \<noteq> a + 2 \<Longrightarrow> x \<noteq> a + 3 \<Longrightarrow> st32 m a v x = m x"
  by (simp add: st32_def)

lemma ld32_cong:
  "m a = m' a \<Longrightarrow> m (a + 1) = m' (a + 1) \<Longrightarrow> m (a + 2) = m' (a + 2) \<Longrightarrow> m (a + 3) = m' (a + 3)
     \<Longrightarrow> ld32 m a = ld32 m' a"
  by (simp add: ld32_def)

lemma ld32_st32_nat:
  "ld32 (st32 m a v) (a :: nat) = v" "a + 4 \<le> b \<or> b + 4 \<le> a \<Longrightarrow> ld32 (st32 m a v) (b :: nat) = ld32 m b"
proof -
  show "ld32 (st32 m a v) a = v" by (simp add: ld32_st32)
  assume "a + 4 \<le> b \<or> b + 4 \<le> a"
  then have "b + k \<noteq> a + j" if "k < 4" "j < 4" for k j using that by linarith
  note n = this [of 0] this [of 1] this [of 2] this [of 3]
  show "ld32 (st32 m a v) b = ld32 m b"
    by (rule ld32_cong; rule st32_other) (use n [of 0] n [of 1] n [of 2] n [of 3] in simp_all)
qed

lemma ld16_st16_nat:
  "ld16 (st16 m a v) (a :: nat) = v" "a + 2 \<le> b \<or> b + 2 \<le> a \<Longrightarrow> ld16 (st16 m a v) (b :: nat) = ld16 m b"
  "a + 2 \<le> b \<or> b + 4 \<le> a \<Longrightarrow> ld32 (st16 m a v) (b :: nat) = ld32 m b"
  "a + 4 \<le> b \<or> b + 2 \<le> a \<Longrightarrow> ld16 (st32 m a w) (b :: nat) = ld16 m b"
  by (simp_all add: ld16_st16) (auto simp: ld16_def ld32_def st16_def st32_def)

section \<open>What memset and memmove compute\<close>

lemma unat_diff_Suc:
  fixes x a :: uint
  assumes "x \<noteq> a"
  shows "unat (x - a) = Suc (unat (x - (a + 1)))"
proof -
  have ne: "x - a \<noteq> 0" using assms by simp
  have e: "x - (a + 1) = (x - a) - 1" by simp
  have "unat (x - (a + 1)) = unat (x - a) - 1"
    unfolding e using unat_minus_one [OF ne] .
  moreover have "0 < unat (x - a)"
    using ne by (simp add: unat_gt_0)
  ultimately show ?thesis by simp
qed

lemma unat_pred_self: "unat (a - (a + 1) :: uint) = 2 ^ 32 - 1"
  by (simp add: unsigned_minus_1_eq_mask mask_eq_exp_minus_1)

lemma stosb_apply:
  "n \<le> 2 ^ 32 \<Longrightarrow> stosb n a d m x = (if unat (x - a) < n then d else m x)"
proof (induction n arbitrary: a m)
  case 0
  then show ?case by simp
next
  case (Suc n)
  show ?case
  proof (cases "x = a")
    case True
    with Suc unat_pred_self [of a] show ?thesis by simp
  next
    case False
    with Suc show ?thesis by (simp add: unat_diff_Suc)
  qed
qed

lemma stosb_4: "stosb 4 a d m = m(a := d, a + 1 := d, a + 2 := d, a + 3 := d)"
proof -
  have four: "(4 :: nat) = Suc (Suc (Suc (Suc 0)))" by simp
  have "a + 1 + 1 = a + 2" "a + 2 + 1 = a + 3" by simp_all
  then show ?thesis
    by (simp only: four stosb.simps)
qed

text \<open>A word made of four copies of one byte, as \<open>memset\<close> hands it to \<open>stosl\<close>.\<close>

lemma st32_rep_byte:
  assumes "d = push_bit 24 c OR push_bit 16 c OR push_bit 8 c OR c" and "c = b AND 0xFF"
  shows "st32 m a d = stosb 4 a (ucast b) m"
proof -
  have "c = take_bit 8 b"
    using assms(2) by (simp add: take_bit_eq_mask mask_eq_exp_minus_1)
  then have b: "bit c n \<longleftrightarrow> n < 8 \<and> bit b n" for n
    by (auto simp: bit_take_bit_iff)
  have d: "bit d n \<longleftrightarrow> bit b n" "bit d (8 + n) \<longleftrightarrow> bit b n" "bit d (16 + n) \<longleftrightarrow> bit b n"
    "bit d (24 + n) \<longleftrightarrow> bit b n" if "n < 8" for n
    using that by (simp_all add: assms(1) bit_or_iff bit_push_bit_iff b)
  have "ucast d = (ucast b :: uchar)"
    by (rule bit_word_eqI) (simp add: bit_ucast_iff d)
  moreover have "ucast (drop_bit 8 d) = (ucast b :: uchar)"
    by (rule bit_word_eqI) (simp add: bit_ucast_iff bit_drop_bit_eq d)
  moreover have "ucast (drop_bit 16 d) = (ucast b :: uchar)"
    by (rule bit_word_eqI) (simp add: bit_ucast_iff bit_drop_bit_eq d)
  moreover have "ucast (drop_bit 24 d) = (ucast b :: uchar)"
    by (rule bit_word_eqI) (simp add: bit_ucast_iff bit_drop_bit_eq d)
  ultimately show ?thesis
    by (simp add: st32_def stosb_4)
qed

lemma stosb_add: "stosb (j + k) a d m = stosb k (a + of_nat j) d (stosb j a d m)"
  by (induction j arbitrary: a m) (simp_all add: add.assoc)

lemma stosl_stosb:
  assumes "d = push_bit 24 c OR push_bit 16 c OR push_bit 8 c OR c" and "c = b AND 0xFF"
  shows "stosl n a d m = stosb (4 * n) a (ucast b) m"
proof (induction n arbitrary: a m)
  case 0
  then show ?case by simp
next
  case (Suc n)
  have "stosl (Suc n) a d m = stosb (4 * n) (a + of_nat 4) (ucast b) (stosb 4 a (ucast b) m)"
    by (simp add: Suc.IH st32_rep_byte [OF assms])
  also have "\<dots> = stosb (4 + 4 * n) a (ucast b) m"
    by (simp only: stosb_add)
  also have "4 + 4 * n = 4 * Suc n"
    by simp
  finally show ?case .
qed

lemma memset_stosb: "memset dst c n m = stosb (unat n) dst (ucast c) m"
proof (cases "dst mod 4 = 0 \<and> n mod 4 = 0")
  case True
  have "4 * unat (n div 4) = unat n"
  proof -
    have "unat n mod 4 = 0"
      using True unat_mod_distrib [of n 4] by simp
    moreover have "unat (n div 4) = unat n div 4"
      by (simp add: unat_div_distrib)
    ultimately show ?thesis by presburger
  qed
  with True stosl_stosb [OF refl refl, of "unat (n div 4)" dst c m] show ?thesis
    by (simp only: memset_def Let_def simp_thms if_True)
next
  case False
  then show ?thesis by (auto simp: memset_def)
qed

lemma memset_apply: "memset dst c n m x = (if x - dst < n then ucast c else m x)"
proof -
  have "unat n \<le> 2 ^ 32"
    using unat_uint_less [of n] by simp
  then show ?thesis
    by (simp add: memset_stosb stosb_apply word_less_nat_alt)
qed

lemma copy_fwd_apply:
  assumes "n \<le> 2 ^ 32" and "\<And>i j. i < j \<Longrightarrow> j < n \<Longrightarrow> d + of_nat i \<noteq> s + of_nat j"
  shows "copy_fwd n d s m x = (if unat (x - d) < n then m (s + (x - d)) else m x)"
  using assms
proof (induction n arbitrary: d s m)
  case 0
  then show ?case by simp
next
  case (Suc n)
  have IH: "copy_fwd n (d + 1) (s + 1) (m(d := m s)) x =
      (if unat (x - (d + 1)) < n then (m(d := m s)) (s + 1 + (x - (d + 1))) else (m(d := m s)) x)"
  proof (rule Suc.IH)
    fix i j :: nat assume "i < j" "j < n"
    then show "d + 1 + of_nat i \<noteq> s + 1 + of_nat j"
      using Suc.prems(2) [of "Suc i" "Suc j"] by (simp add: algebra_simps)
  qed (use Suc.prems in simp)
  show ?case
  proof (cases "x = d")
    case True
    with IH Suc.prems(1) unat_pred_self [of d] show ?thesis by simp
  next
    case False
    have "s + (x - d) \<noteq> d" if lt: "unat (x - d) < Suc n"
    proof
      assume eq: "s + (x - d) = d"
      have "d + of_nat 0 \<noteq> s + of_nat (unat (x - d))"
        by (rule Suc.prems(2)) (use False lt in \<open>auto simp: unat_gt_0\<close>)
      with eq show False by simp
    qed
    with False IH show ?thesis
      by (auto simp: unat_diff_Suc [OF False])
  qed
qed

lemma unat_diff_Suc':
  fixes x a :: uint
  assumes "x \<noteq> a"
  shows "unat (a - x) = Suc (unat (a - 1 - x))"
proof -
  have "- x \<noteq> - a" using assms by simp
  from unat_diff_Suc [OF this] show ?thesis
    by (simp add: algebra_simps)
qed

lemma copy_bwd_apply:
  assumes "n \<le> 2 ^ 32"
    and "\<And>i j. i < j \<Longrightarrow> j < n \<Longrightarrow> d - 1 - of_nat i \<noteq> s - 1 - of_nat j"
  shows "copy_bwd n d s m x = (if unat (d - 1 - x) < n then m (s - (d - x)) else m x)"
  using assms
proof (induction n arbitrary: d s m)
  case 0
  then show ?case by simp
next
  case (Suc n)
  let ?m = "m(d - 1 := m (s - 1))"
  have IH: "copy_bwd n (d - 1) (s - 1) ?m x =
      (if unat (d - 1 - 1 - x) < n then ?m (s - 1 - (d - 1 - x)) else ?m x)"
  proof (rule Suc.IH)
    fix i j :: nat assume "i < j" "j < n"
    then show "d - 1 - 1 - of_nat i \<noteq> s - 1 - 1 - of_nat j"
      using Suc.prems(2) [of "Suc i" "Suc j"] by (simp add: algebra_simps)
  qed (use Suc.prems in simp)
  show ?case
  proof (cases "x = d - 1")
    case True
    have "unat (x - 1 - x) = 2 ^ 32 - 1"
      by (simp add: unsigned_minus_1_eq_mask mask_eq_exp_minus_1)
    with True IH Suc.prems(1) show ?thesis by simp
  next
    case False
    have "s - (d - x) \<noteq> d - 1" if lt: "unat (d - 1 - x) < Suc n"
    proof
      assume eq: "s - (d - x) = d - 1"
      have "d - 1 - of_nat 0 \<noteq> s - 1 - of_nat (unat (d - 1 - x))"
        by (rule Suc.prems(2)) (use False lt in \<open>auto simp: unat_gt_0\<close>)
      with eq show False by (simp add: algebra_simps)
    qed
    moreover have "unat (d - 1 - x) = Suc (unat (d - 1 - 1 - x))"
      using unat_diff_Suc' [OF False] .
    moreover have e: "s - (d - x) = s + (x - d)" by simp
    ultimately show ?thesis
      unfolding e using False IH by auto
  qed
qed

lemma unat_plus_of_nat:
  "unat (a :: uint) + i < 2 ^ 32 \<Longrightarrow> unat (a + of_nat i) = unat a + i"
  by (simp add: unat_word_ariths unat_of_nat)

lemma plus_of_nat_eqD:
  "a + of_nat i = (b :: uint) + of_nat j \<Longrightarrow> unat a + i < 2 ^ 32 \<Longrightarrow> unat b + j < 2 ^ 32 \<Longrightarrow>
     unat a + i = unat b + j"
  using unat_plus_of_nat [of a i] unat_plus_of_nat [of b j] by simp

lemma unat_mirror:
  fixes n y :: uint
  assumes "n \<noteq> 0"
  shows "unat (n - 1 - y) < unat n \<longleftrightarrow> y < n"
  using assms unat_uint_less [of y] unat_minus_one [OF assms] unat_gt_0 [of n]
  by (auto simp: unat_sub_if' word_less_nat_alt)

lemma memmove_apply:
  assumes "unat src + unat n < 2 ^ 32" and "unat dst + unat n < 2 ^ 32"
  shows "memmove dst src n m = (\<lambda>x. if x - dst < n then m (src + (x - dst)) else m x)"
proof (cases "src < dst \<and> src + n > dst")
  case True
  have "dst + n - 1 - of_nat i \<noteq> src + n - 1 - of_nat j" if "i < j" "j < unat n" for i j
  proof
    assume "dst + n - 1 - of_nat i = src + n - 1 - of_nat j"
    then have "dst + of_nat j = src + of_nat i"
      by (simp add: algebra_simps)
    then have "unat dst + j = unat src + i"
      by (rule plus_of_nat_eqD) (use that assms in simp_all)
    with that True show False by (simp add: word_less_nat_alt)
  qed
  then have "copy_bwd (unat n) (dst + n) (src + n) m x =
      (if unat (dst + n - 1 - x) < unat n then m (src + n - (dst + n - x)) else m x)" for x
    using unat_uint_less [of n] by (intro copy_bwd_apply) auto
  moreover have "unat (dst + n - 1 - x) < unat n \<longleftrightarrow> x - dst < n" for x
  proof -
    have nz: "n \<noteq> 0" using True by auto
    have e: "dst + n - 1 - x = n - 1 - (x - dst)" by simp
    show ?thesis unfolding e using nz by (rule unat_mirror)
  qed
  ultimately show ?thesis
    using True by (auto simp: memmove_def)
next
  case False
  have "dst + of_nat i \<noteq> src + of_nat j" if "i < j" "j < unat n" for i j
  proof
    assume "dst + of_nat i = src + of_nat j"
    then have "unat dst + i = unat src + j"
      by (rule plus_of_nat_eqD) (use that assms in simp_all)
    moreover have "unat (src + n) = unat src + unat n"
      using assms(1) by (simp add: unat_word_ariths)
    ultimately show False
      using that False by (simp add: word_less_nat_alt)
  qed
  then have "copy_fwd (unat n) dst src m x =
      (if unat (x - dst) < unat n then m (src + (x - dst)) else m x)" for x
    using unat_uint_less [of n] by (intro copy_fwd_apply) auto
  with False show ?thesis
    by (auto simp: memmove_def word_less_nat_alt)
qed

text \<open>
  \<open>memmove\<close> copies: every byte of the destination range ends up with the byte that
  was at the same offset of the source range before the call, and no other byte changes,
  also when the ranges overlap.  Neither range may run past the top of the address space.
\<close>

theorem memmove_correct:
  assumes "unat src + unat n < 2 ^ 32" and "unat dst + unat n < 2 ^ 32"
  shows "memmove dst src n m = (\<lambda>x. if x - dst < n then m (src + (x - dst)) else m x)"
  by (rule memmove_apply [OF assms])

theorem memmove_correct_witness:
  "memmove 101 100 3 (\<lambda>x. ucast x) = (\<lambda>x. if x - 101 < 3 then ucast (100 + (x - 101)) else ucast x)"
  using memmove_correct [of 100 3 101 "\<lambda>x. ucast x"] by simp

text \<open>
  \<open>memset\<close> fills exactly the \<open>n\<close> bytes at \<open>dst\<close> with the low byte of \<open>c\<close>: the word-at-a-time
  loop it takes for aligned ranges computes what the byte-at-a-time loop computes.
\<close>

theorem memset_correct:
  "memset dst c n m = stosb (unat n) dst (ucast c) m \<and>
   memset dst c n m x = (if x - dst < n then ucast c else m x)"
  by (simp add: memset_apply) (simp add: memset_stosb)

section \<open>What the string routines compute\<close>

text \<open>\<open>cpre n p\<close>: the characters of the C string \<open>p\<close>, cut off after \<open>n\<close>.\<close>

definition cpre :: "nat \<Rightarrow> cstr \<Rightarrow> uchar list" where
  "cpre n p = takeWhile (\<lambda>c. c \<noteq> 0) (map p [0..<n])"

lemma uint_eq_iff: "uint (a :: uchar) = uint b \<longleftrightarrow> a = b"
  by (simp add: word_uint_eq_iff)

lemma memcmp_from_0: "memcmp_from n i p q = 0 \<longleftrightarrow> (\<forall>j<n. p (i + j) = q (i + j))"
proof (induction n arbitrary: i)
  case 0
  then show ?case by simp
next
  case (Suc n)
  then show ?case
    by (auto simp: uint_eq_iff All_less_Suc2)
qed

lemma memcmp_0: "memcmp p q n = 0 \<longleftrightarrow> (\<forall>j<n. p j = q j)"
  by (simp add: memcmp_def memcmp_from_0)

lemma strncmp_from_0:
  "strncmp_from n i p q = 0 \<longleftrightarrow>
     takeWhile (\<lambda>c. c \<noteq> 0) (map p [i..<i + n]) = takeWhile (\<lambda>c. c \<noteq> 0) (map q [i..<i + n])"
proof (induction n arbitrary: i)
  case 0
  then show ?case by simp
next
  case (Suc n)
  have "[i..<i + Suc n] = i # [Suc i..<Suc i + n]"
    by (simp add: upt_conv_Cons del: upt_Suc)
  with Suc [of "Suc i"] uint_eq_iff [of "p i" "q i"] show ?case
    by (cases "p i = 0"; cases "q i = 0") (auto simp del: upt_Suc)
qed

lemma strncmp_0: "strncmp p q n = 0 \<longleftrightarrow> cpre n p = cpre n q"
  using strncmp_from_0 [of n 0] by (simp add: strncmp_def cpre_def)

lemma strncpy_pad_apply:
  "strncpy_pad n i s k = (if i \<le> k \<and> k < i + n then 0 else s k)"
  by (induction n arbitrary: i s) auto

lemma strncpy_from_apply:
  "strncpy_from n i s t k =
     (if i \<le> k \<and> k < i + n then if \<exists>j. i \<le> j \<and> j < k \<and> t j = 0 then 0 else t k else s k)"
proof (induction n arbitrary: i s)
  case 0
  then show ?case by auto
next
  case (Suc n)
  show ?case
  proof (cases "t i = 0")
    case True
    then show ?thesis by (auto simp: strncpy_pad_apply)
  next
    case False
    then have "i \<le> j \<and> j < k \<and> t j = 0 \<longleftrightarrow> Suc i \<le> j \<and> j < k \<and> t j = 0" for j
      by (cases "i = j") auto
    then have "(\<exists>j. i \<le> j \<and> j < k \<and> t j = 0) \<longleftrightarrow> (\<exists>j. Suc i \<le> j \<and> j < k \<and> t j = 0)"
      by simp
    with False Suc show ?thesis by auto
  qed
qed

lemma strncpy_apply:
  "strncpy s t (int n) k =
     (if k < n then if \<exists>j<k. t j = 0 then 0 else t k else s k)"
  by (simp add: strncpy_def strncpy_from_apply)

lemma takeWhile_map_upt_cong:
  assumes "\<And>k. k < n \<Longrightarrow> f k = (if \<exists>j<k. t j = 0 then 0 else t k)"
  shows "takeWhile (\<lambda>c. c \<noteq> 0) (map f [0..<n]) = takeWhile (\<lambda>c. c \<noteq> 0) (map t [0..<n])"
  using assms
proof (induction n)
  case 0
  then show ?case by simp
next
  case (Suc n)
  have IH: "takeWhile (\<lambda>c. c \<noteq> 0) (map f [0..<n]) = takeWhile (\<lambda>c. c \<noteq> 0) (map t [0..<n])"
    using Suc by simp
  show ?case
  proof (cases "\<exists>j<n. t j = 0")
    case True
    then obtain j where "j < n" "t j = 0" by blast
    moreover from this Suc.prems [of j] have "f j = 0" by (simp split: if_splits)
    ultimately have "\<exists>x\<in>set (map f [0..<n]). \<not> x \<noteq> 0" "\<exists>x\<in>set (map t [0..<n]). \<not> x \<noteq> 0"
      by force+
    with IH show ?thesis by (auto simp: takeWhile_append)
  next
    case False
    then have "\<not> (\<exists>j<k. t j = 0)" if "k < Suc n" for k
      using that by auto
    with Suc.prems have "map f [0..<Suc n] = map t [0..<Suc n]"
      by (intro map_cong) auto
    then show ?thesis by (rule arg_cong)
  qed
qed

lemma cpre_strncpy: "cpre n (strncpy s t (int n)) = cpre n t"
  unfolding cpre_def by (rule takeWhile_map_upt_cong) (simp add: strncpy_apply)

lemma strlen_from_Some: "(\<And>j. i \<le> j \<Longrightarrow> j < n \<Longrightarrow> s j \<noteq> 0) \<Longrightarrow> s n = 0 \<Longrightarrow> i \<le> n \<Longrightarrow> strlen_from s i = Some n"
proof (induction "n - i" arbitrary: i)
  case 0
  then show ?case by (simp add: strlen_from.simps)
next
  case (Suc d)
  then show ?case by (subst strlen_from.simps) auto
qed

lemma strlen_Some: "s n = 0 \<Longrightarrow> (\<And>j. j < n \<Longrightarrow> s j \<noteq> 0) \<Longrightarrow> strlen s = Some n"
  by (simp add: strlen_def strlen_from_Some)

text \<open>
  \<open>safestrcpy\<close> copies at most \<open>n - 1\<close> characters and always ends the result with a NUL
  inside the first \<open>n\<close> bytes; bytes from \<open>n\<close> on are untouched.
\<close>

lemma safestrcpy_from_beyond: "i + k < j \<Longrightarrow> safestrcpy_from k i s t j = s j"
  by (induction k arbitrary: i s) (auto simp: Let_def)

lemma safestrcpy_from_below: "j < i \<Longrightarrow> safestrcpy_from k i s t j = s j"
  by (induction k arbitrary: i s) (auto simp: Let_def)

lemma safestrcpy_from_cpre:
  "takeWhile (\<lambda>c. c \<noteq> 0) (map (safestrcpy_from k i s t) [i..<i + Suc k]) =
     takeWhile (\<lambda>c. c \<noteq> 0) (map t [i..<i + k]) \<and>
   (\<exists>j. i \<le> j \<and> j \<le> i + k \<and> safestrcpy_from k i s t j = 0)"
proof (induction k arbitrary: i s)
  case 0
  then show ?case by auto
next
  case (Suc k)
  have u: "[i..<i + Suc (Suc k)] = i # [Suc i..<Suc i + Suc k]" "[i..<i + Suc k] = i # [Suc i..<Suc i + k]"
    by (simp_all add: upt_conv_Cons del: upt_Suc)
  show ?case
  proof (cases "t i = 0")
    case True
    then show ?thesis
      unfolding u by (auto simp: Let_def simp del: upt_Suc intro!: exI [of _ i])
  next
    case False
    define s' where "s' = s(i := t i)"
    have "safestrcpy_from k (Suc i) s' t i = t i"
      by (simp add: safestrcpy_from_below s'_def)
    moreover have "safestrcpy_from (Suc k) i s t = safestrcpy_from k (Suc i) s' t"
      using False by (simp add: s'_def)
    ultimately show ?thesis
      using False Suc.IH [of "Suc i" s'] unfolding u
      by (auto simp del: upt_Suc safestrcpy_from.simps intro: Suc_leD)
  qed
qed

text \<open>
  \<open>safestrcpy\<close> with a positive size \<open>n\<close> leaves a NUL-terminated string in the first \<open>n\<close>
  bytes, whose characters are the first \<open>n - 1\<close> characters of the source string, and
  writes nothing beyond byte \<open>n\<close>.
\<close>

theorem safestrcpy_correct:
  assumes "0 < n"
  shows "cpre (nat n) (safestrcpy s t n) = cpre (nat n - 1) t \<and>
    (\<exists>j < nat n. safestrcpy s t n j = 0) \<and>
    (\<forall>j \<ge> nat n. safestrcpy s t n j = s j)"
proof -
  obtain k where k: "nat n = Suc k" "nat (n - 1) = k"
    using assms by (cases "nat n") auto
  have "safestrcpy s t n = safestrcpy_from k 0 s t"
    using assms k by (simp add: safestrcpy_def)
  with safestrcpy_from_cpre [of k 0 s t] k show ?thesis
    by (auto simp: cpre_def less_Suc_eq_le safestrcpy_from_beyond simp del: upt_Suc)
qed

theorem safestrcpy_correct_witness:
  "cpre 4 (safestrcpy (\<lambda>_. 7) (\<lambda>i. of_nat (i + 1)) 4) = cpre 3 (\<lambda>i. of_nat (i + 1)) \<and>
   cpre 3 (\<lambda>i. of_nat (i + 1)) = [1, 2, 3]"
  using safestrcpy_correct [of 4 "\<lambda>_. 7" "\<lambda>i. of_nat (i + 1)"]
  by (simp add: cpre_def upt_rec numeral_3_eq_3)

text \<open>
  The name routines agree: \<open>strncmp\<close> over \<open>n\<close> bytes is zero exactly when the two strings
  have the same characters up to \<open>n\<close>, and a name stored with \<open>strncpy\<close> in an \<open>n\<close>-byte field
  has the characters of the original, so comparing the field with a name compares the
  names themselves.
\<close>

theorem strncmp_strncpy:
  "(strncmp p q n = 0 \<longleftrightarrow> cpre n p = cpre n q) \<and>
   (strncmp p (strncpy s q (int n)) n = 0 \<longleftrightarrow> strncmp p q n = 0)"
  by (simp_all add: strncmp_0 cpre_strncpy)

end
