(* ===== verification/Mmu.thy ===== *)
theory Mmu
  imports Cstring
begin

text \<open>
  Address arithmetic of the x86 MMU and the kernel's memory layout (\<^verbatim>\<open>src/mmu.h\<close>,
  \<^verbatim>\<open>src/memlayout.h\<close>): page rounding, page-directory and page-table indices, entry flags, and
  the direct map between kernel virtual and physical addresses.
\<close>

section \<open>Constants\<close>

abbreviation (input) PGSIZE :: uint where "PGSIZE \<equiv> 4096"
abbreviation (input) NPDENTRIES :: nat where "NPDENTRIES \<equiv> 1024"
abbreviation (input) NPTENTRIES :: uint where "NPTENTRIES \<equiv> 1024"
abbreviation (input) PTXSHIFT :: nat where "PTXSHIFT \<equiv> 12"
abbreviation (input) PDXSHIFT :: nat where "PDXSHIFT \<equiv> 22"
abbreviation (input) PTE_P :: uint where "PTE_P \<equiv> 1"
abbreviation (input) PTE_W :: uint where "PTE_W \<equiv> 2"
abbreviation (input) PTE_U :: uint where "PTE_U \<equiv> 4"
abbreviation (input) EXTMEM :: uint where "EXTMEM \<equiv> 0x100000"
abbreviation (input) PHYSTOP :: uint where "PHYSTOP \<equiv> 0xE000000"
abbreviation (input) DEVSPACE :: uint where "DEVSPACE \<equiv> 0xFE000000"
abbreviation (input) KERNBASE :: uint where "KERNBASE \<equiv> 0x80000000"
abbreviation (input) KERNLINK :: uint where "KERNLINK \<equiv> 0x80100000"

section \<open>Macros\<close>

definition PDX :: "uint \<Rightarrow> uint" where
  "PDX va = drop_bit PDXSHIFT va AND 0x3FF"

definition PTX :: "uint \<Rightarrow> uint" where
  "PTX va = drop_bit PTXSHIFT va AND 0x3FF"

definition PGADDR :: "uint \<Rightarrow> uint \<Rightarrow> uint \<Rightarrow> uint" where
  "PGADDR d t off = push_bit PDXSHIFT d OR push_bit PTXSHIFT t OR off"

definition PGROUNDUP :: "uint \<Rightarrow> uint" where
  "PGROUNDUP sz = (sz + PGSIZE - 1) AND NOT (PGSIZE - 1)"

definition PGROUNDDOWN :: "uint \<Rightarrow> uint" where
  "PGROUNDDOWN a = a AND NOT (PGSIZE - 1)"

definition PTE_ADDR :: "uint \<Rightarrow> uint" where
  "PTE_ADDR pte = pte AND NOT 0xFFF"

definition PTE_FLAGS :: "uint \<Rightarrow> uint" where
  "PTE_FLAGS pte = pte AND 0xFFF"

definition v2p :: "uint \<Rightarrow> uint" where
  "v2p a = a - KERNBASE"

definition p2v :: "uint \<Rightarrow> uint" where
  "p2v a = a + KERNBASE"

section \<open>Lemmas\<close>

lemma p2v_v2p [simp]: "p2v (v2p a) = a" and v2p_p2v [simp]: "v2p (p2v a) = a"
  by (simp_all add: p2v_def v2p_def)

lemma v2p_inj: "v2p a = v2p b \<longleftrightarrow> a = b"
  by (simp add: v2p_def)

lemma mask12: "(0xFFF :: uint) = mask 12" and mask10: "(0x3FF :: uint) = mask 10"
  by (simp_all add: mask_eq_exp_minus_1)

lemma and_FFF: "a AND 0xFFF = (a :: uint) mod 4096"
  by (simp only: mask12 take_bit_eq_mask [symmetric] take_bit_eq_mod) simp

lemma and_not_FFF: "a AND NOT 0xFFF = (a :: uint) - a mod 4096"
proof -
  have "NOT a AND take_bit 12 a = 0"
    by (rule bit_word_eqI) (auto simp: bit_simps)
  then have "a - take_bit 12 a = a AND NOT (take_bit 12 a)"
    by (rule disjunctive_diff_eq_and_not)
  also have "\<dots> = a AND NOT (mask 12)"
    by (rule bit_word_eqI) (auto simp: bit_simps)
  finally show ?thesis
    by (simp only: mask12 take_bit_eq_mod) simp
qed

lemma PGROUNDDOWN_mod: "PGROUNDDOWN a = a - a mod 4096"
  using and_not_FFF by (simp add: PGROUNDDOWN_def)

lemma PTE_ADDR_mod: "PTE_ADDR a = a - a mod 4096"
  using and_not_FFF by (simp add: PTE_ADDR_def)

lemma unat_mod_4096: "unat ((a :: uint) mod 4096) = unat a mod 4096"
  by (simp add: unat_mod_distrib)

lemma unat_PGROUNDDOWN: "unat (PGROUNDDOWN a) = unat a - unat a mod 4096"
proof -
  have "a mod 4096 \<le> a"
    by (simp add: word_le_nat_alt unat_mod_4096)
  then show ?thesis
    by (simp add: PGROUNDDOWN_mod unat_sub unat_mod_4096)
qed

text \<open>\<open>pgalign\<close>: a page-aligned address.  \<open>inpg p x\<close>: address \<open>x\<close> lies in the page at \<open>p\<close>.\<close>

definition pgalign :: "uint \<Rightarrow> bool" where
  "pgalign p \<longleftrightarrow> p mod PGSIZE = 0"

definition inpg :: "uint \<Rightarrow> uint \<Rightarrow> bool" where
  "inpg p x \<longleftrightarrow> x - p < PGSIZE"

lemma pgalign_unat: "pgalign p \<longleftrightarrow> unat p mod 4096 = 0"
  by (simp add: pgalign_def unat_mod_4096 [symmetric] unat_eq_0)

lemma pgalign_PGROUNDDOWN [simp]: "pgalign (PGROUNDDOWN a)"
  by (simp add: pgalign_unat unat_PGROUNDDOWN)

lemma PGROUNDDOWN_pgalign: "pgalign p \<Longrightarrow> PGROUNDDOWN p = p"
  by (simp add: pgalign_def PGROUNDDOWN_mod)

lemma inpg_unat:
  assumes "pgalign p"
  shows "inpg p x \<longleftrightarrow> unat x div 4096 = unat p div 4096"
proof -
  define X where "X = unat x"
  obtain c where c: "unat p = 4096 * c"
    using assms by (auto simp: pgalign_unat)
  have X: "X < 4294967296" and "4096 * c < 4294967296"
    using unat_uint_less [of p] unat_uint_less [of x] by (simp_all add: c X_def)
  then have cb: "c \<le> 1048575" by simp
  have "unat (x - p) = (if 4096 * c \<le> X then X - 4096 * c else X + 4294967296 - 4096 * c)"
    by (simp add: unat_sub_if' c X_def)
  then have "inpg p x \<longleftrightarrow> (if 4096 * c \<le> X then X - 4096 * c < 4096 else X + 4294967296 - 4096 * c < 4096)"
    by (simp add: inpg_def word_less_nat_alt)
  also have "\<dots> \<longleftrightarrow> 4096 * c \<le> X \<and> X < 4096 * c + 4096"
    using cb by auto
  also have "\<dots> \<longleftrightarrow> X div 4096 = c"
    by (auto intro: div_nat_eqI)
  finally show ?thesis by (simp add: c X_def)
qed

lemma inpg_PGROUNDDOWN:
  assumes "pgalign p"
  shows "inpg p x \<longleftrightarrow> PGROUNDDOWN x = p"
proof -
  obtain c where c: "unat p = 4096 * c"
    using assms by (auto simp: pgalign_unat)
  have "unat (PGROUNDDOWN x) = 4096 * (unat x div 4096)"
    by (simp add: unat_PGROUNDDOWN minus_mod_eq_mult_div)
  then have "PGROUNDDOWN x = p \<longleftrightarrow> unat x div 4096 = c"
    using c by (simp add: word_unat_eq_iff [of "PGROUNDDOWN x"])
  then show ?thesis
    using inpg_unat [OF assms, of x] c by simp
qed

lemma inpg_unique: "pgalign p \<Longrightarrow> pgalign q \<Longrightarrow> inpg p x \<Longrightarrow> inpg q x \<Longrightarrow> p = q"
  by (simp add: inpg_PGROUNDDOWN)

lemma inpg_add: "off < PGSIZE \<Longrightarrow> inpg p (p + off)"
  by (simp add: inpg_def)

lemma PGROUNDDOWN_add: "pgalign p \<Longrightarrow> off < PGSIZE \<Longrightarrow> PGROUNDDOWN (p + off) = p"
  using inpg_add inpg_PGROUNDDOWN by blast

lemma pgalign_dvd: "pgalign p \<longleftrightarrow> 4096 dvd unat p"
  by (simp add: pgalign_unat dvd_eq_mod_eq_0)

lemma dvd_2p32: "(4096 :: nat) dvd 4294967296"
  by simp

lemma pgalign_add: "pgalign p \<Longrightarrow> pgalign q \<Longrightarrow> pgalign (p + q)"
  using dvd_2p32 by (simp add: pgalign_dvd unat_word_ariths dvd_mod)

lemma pgalign_numeral: "pgalign (numeral w) \<longleftrightarrow> (numeral w :: uint) mod 4096 = 0"
  by (simp add: pgalign_def)

lemma pgalign_KERNBASE [simp]: "pgalign KERNBASE" and pgalign_PGSIZE [simp]: "pgalign PGSIZE"
  by (simp_all add: pgalign_def)

lemma pgalign_sub: "pgalign p \<Longrightarrow> pgalign q \<Longrightarrow> pgalign (p - q)"
  using dvd_2p32 by (simp add: pgalign_dvd unat_sub_if' dvd_diff_nat dvd_add)

lemma pgalign_v2p [simp]: "pgalign (v2p p) = pgalign p"
proof
  assume "pgalign (v2p p)"
  then have "pgalign (v2p p + KERNBASE)" by (rule pgalign_add) simp
  then show "pgalign p" by (simp add: v2p_def)
qed (simp add: v2p_def pgalign_sub)

lemma pgalign_p2v [simp]: "pgalign (p2v p) = pgalign p"
  using pgalign_v2p [of "p2v p"] by simp

lemma pgalign_PTE_ADDR [simp]: "pgalign (PTE_ADDR a)"
  using pgalign_PGROUNDDOWN by (simp add: PTE_ADDR_mod PGROUNDDOWN_mod)

text \<open>Page-aligned addresses with flag bits in the low twelve bits.\<close>

lemma pgalign_bit: "pgalign p \<longleftrightarrow> (\<forall>n<12. \<not> bit p n)"
proof -
  have "pgalign p \<longleftrightarrow> take_bit 12 p = 0"
    by (simp add: pgalign_def take_bit_eq_mod)
  also have "\<dots> \<longleftrightarrow> (\<forall>n<12. \<not> bit p n)"
    by (auto simp: bit_eq_iff bit_simps)
  finally show ?thesis .
qed

lemma flags_bit: "f < PGSIZE \<Longrightarrow> bit (f :: uint) n \<Longrightarrow> n < 12"
proof -
  assume "f < PGSIZE" and b: "bit f n"
  then have "take_bit 12 f = f"
    by (simp add: take_bit_eq_mod word_mod_less_divisor word_less_nat_alt unat_mod_distrib
        word_unat_eq_iff)
  with b show ?thesis by (metis bit_take_bit_iff)
qed

lemma PTE_ADDR_or:
  assumes "pgalign p" and "f < PGSIZE"
  shows "PTE_ADDR (p OR f) = p"
proof (rule bit_word_eqI)
  fix n assume "n < LENGTH(32)"
  then show "bit (PTE_ADDR (p OR f)) n = bit p n"
    using assms(1) flags_bit [OF assms(2), of n]
    by (auto simp: PTE_ADDR_def mask12 bit_simps pgalign_bit)
qed

lemma PTE_FLAGS_or:
  assumes "pgalign p" and "f < PGSIZE"
  shows "PTE_FLAGS (p OR f) = f"
proof (rule bit_word_eqI)
  fix n assume "n < LENGTH(32)"
  then show "bit (PTE_FLAGS (p OR f)) n = bit f n"
    using assms(1) flags_bit [OF assms(2), of n]
    by (auto simp: PTE_FLAGS_def mask12 bit_simps pgalign_bit)
qed

subsection \<open>Directory and table indices\<close>

lemma PDX_take: "PDX va = take_bit 10 (drop_bit 22 va)"
  by (simp add: PDX_def mask10 take_bit_eq_mask)

lemma PTX_take: "PTX va = take_bit 10 (drop_bit 12 va)"
  by (simp add: PTX_def mask10 take_bit_eq_mask)

lemma take_bit_10_less: "take_bit 10 (w :: uint) < 1024"
  by (simp add: take_bit_eq_mod word_mod_less_divisor)

lemma PDX_less: "PDX va < 1024" and PTX_less: "PTX va < 1024"
  by (simp_all add: PDX_take PTX_take take_bit_10_less)

lemma less_1024_bit: "(d :: uint) < 1024 \<Longrightarrow> bit d n \<Longrightarrow> n < 10"
proof -
  assume "d < 1024" and b: "bit d n"
  then have "take_bit 10 d = d"
    by (simp add: take_bit_eq_mod word_less_nat_alt unat_mod_distrib word_unat_eq_iff)
  with b show ?thesis by (metis bit_take_bit_iff)
qed

text \<open>
  A linear address is its directory index, its table index and its page offset: taking
  an address apart and putting it together again is the identity, both ways round.
\<close>

theorem PGADDR_split:
  assumes "d < 1024" and "t < 1024" and "off < PGSIZE"
  shows "PGADDR (PDX va) (PTX va) (va AND 0xFFF) = va \<and>
    PDX (PGADDR d t off) = d \<and> PTX (PGADDR d t off) = t \<and> PGADDR d t off AND 0xFFF = off"
proof (intro conjI)
  show "PGADDR (PDX va) (PTX va) (va AND 0xFFF) = va"
  proof (rule bit_word_eqI)
    fix n assume "n < LENGTH(32)"
    then consider "n < 12" | "12 \<le> n" "n < 22" "n - 12 < 10" | "22 \<le> n" "n - 22 < 10" "n < 32"
      by fastforce
    then show "bit (PGADDR (PDX va) (PTX va) (va AND 0xFFF)) n = bit va n"
      by cases (auto simp: PGADDR_def PDX_take PTX_take mask12 bit_simps)
  qed
  show "PDX (PGADDR d t off) = d"
    by (rule bit_word_eqI)
      (use assms in \<open>auto simp: PGADDR_def PDX_take bit_simps dest: less_1024_bit flags_bit\<close>)
  show "PTX (PGADDR d t off) = t"
    by (rule bit_word_eqI)
      (use assms in \<open>auto simp: PGADDR_def PTX_take bit_simps dest: less_1024_bit flags_bit\<close>)
  show "PGADDR d t off AND 0xFFF = off"
    by (rule bit_word_eqI)
      (use assms in \<open>auto simp: PGADDR_def mask12 bit_simps dest: flags_bit\<close>)
qed

theorem PGADDR_split_witness:
  "PDX (PGADDR 512 1 7) = 512 \<and> PGADDR (PDX 0x80001007) (PTX 0x80001007) (0x80001007 AND 0xFFF) = 0x80001007"
  using PGADDR_split [where d = 512 and t = 1 and off = 7 and va = "0x80001007"] by simp

lemma same_page_index: "PDX a = PDX b \<Longrightarrow> PTX a = PTX b \<Longrightarrow> PGROUNDDOWN a = PGROUNDDOWN b"
proof (rule bit_word_eqI)
  fix n assume n: "n < LENGTH(32)" and p: "PDX a = PDX b" and q: "PTX a = PTX b"
  have "bit a n = bit b n" if "12 \<le> n"
  proof (cases "n < 22")
    case True
    have "bit (PTX a) (n - 12) = bit (PTX b) (n - 12)"
      using q by simp
    moreover have "n - 12 < 10" using True that by arith
    ultimately show ?thesis using that by (simp add: PTX_take bit_simps)
  next
    case False
    have "bit (PDX a) (n - 22) = bit (PDX b) (n - 22)"
      using p by simp
    moreover have "n - 22 < 10" using False n by simp
    ultimately show ?thesis using False by (simp add: PDX_take bit_simps)
  qed
  then show "bit (PGROUNDDOWN a) n = bit (PGROUNDDOWN b) n"
    by (auto simp: PGROUNDDOWN_def mask12 bit_simps)
qed

subsection \<open>Rounding up\<close>

lemma PGROUNDUP_eq: "PGROUNDUP sz = PGROUNDDOWN (sz + 4095)"
  by (simp add: PGROUNDUP_def PGROUNDDOWN_def add.commute)

lemma pgalign_PGROUNDUP [simp]: "pgalign (PGROUNDUP sz)"
  by (simp add: PGROUNDUP_eq)

lemma unat_PGROUNDUP:
  "unat sz + 4095 < 2 ^ 32 \<Longrightarrow> unat (PGROUNDUP sz) = 4096 * ((unat sz + 4095) div 4096)"
  by (simp add: PGROUNDUP_eq unat_PGROUNDDOWN minus_mod_eq_mult_div unat_word_ariths)

lemma PGROUNDUP_ge: "unat sz + 4095 < 2 ^ 32 \<Longrightarrow> sz \<le> PGROUNDUP sz"
  by (simp add: word_le_nat_alt unat_PGROUNDUP)

lemma PGROUNDUP_le:
  assumes "unat sz + 4095 < 2 ^ 32" and p: "pgalign p" and le: "sz \<le> p"
  shows "PGROUNDUP sz \<le> p"
proof -
  let ?u = "(unat sz + 4095) div 4096"
  obtain c where c: "unat p = 4096 * c"
    using p by (auto simp: pgalign_unat)
  have "unat sz \<le> 4096 * c" using le c by (simp add: word_le_nat_alt)
  then have "unat sz + 4095 < 4096 * Suc c" by simp
  then have "?u < Suc c" by (simp only: less_mult_imp_div_less mult.commute [of 4096])
  then have "?u \<le> c" by simp
  then show "PGROUNDUP sz \<le> p"
    by (simp add: word_le_nat_alt unat_PGROUNDUP [OF assms(1)] c)
qed

text \<open>
  \<open>PGROUNDUP\<close> rounds up to the least page boundary, for every size whose rounding does
  not leave the 32-bit range.
\<close>

theorem PGROUNDUP_least:
  assumes "unat sz + 4095 < 2 ^ 32"
  shows "pgalign (PGROUNDUP sz) \<and> sz \<le> PGROUNDUP sz \<and>
    (\<forall>p. pgalign p \<longrightarrow> sz \<le> p \<longrightarrow> PGROUNDUP sz \<le> p)"
  using PGROUNDUP_ge [OF assms] PGROUNDUP_le [OF assms] by auto

theorem PGROUNDUP_least_witness:
  "pgalign (PGROUNDUP 4097) \<and> 4097 \<le> PGROUNDUP 4097 \<and> PGROUNDUP 4097 \<le> 8192"
proof -
  have al: "pgalign 8192" by (simp add: pgalign_def)
  have "unat (4097 :: uint) + 4095 < 2 ^ 32" by simp
  from PGROUNDUP_least [OF this] al show ?thesis by auto
qed

subsection \<open>Loads and stores inside one page\<close>

text \<open>\<open>agree p m m'\<close>: the two memories hold the same bytes in the page at \<open>p\<close>.\<close>

definition agree :: "uint \<Rightarrow> memory \<Rightarrow> memory \<Rightarrow> bool" where
  "agree p m m' \<longleftrightarrow> (\<forall>x. inpg p x \<longrightarrow> m x = m' x)"

lemma agree_refl [simp]: "agree p m m"
  by (simp add: agree_def)

lemma agree_sym: "agree p m m' \<Longrightarrow> agree p m' m"
  by (simp add: agree_def)

lemma agree_trans: "agree p m m' \<Longrightarrow> agree p m' m'' \<Longrightarrow> agree p m m''"
  by (simp add: agree_def)

lemma inpg_word: "off \<le> 4092 \<Longrightarrow> k < 4 \<Longrightarrow> inpg p (p + off + k)"
proof -
  assume "off \<le> 4092" "k < 4"
  then have "off + k < 4096"
    by (auto simp: word_less_nat_alt word_le_nat_alt unat_word_ariths)
  then show ?thesis by (simp add: inpg_def add.assoc)
qed

lemma inpg_words:
  assumes "off \<le> 4092"
  shows "inpg p (p + off)" "inpg p (p + off + 1)" "inpg p (p + off + 2)" "inpg p (p + off + 3)"
  using inpg_word [OF assms, of 0 p] inpg_word [OF assms, of 1 p] inpg_word [OF assms, of 2 p]
    inpg_word [OF assms, of 3 p] by simp_all

lemma ld32_agree: "agree p m m' \<Longrightarrow> off \<le> 4092 \<Longrightarrow> ld32 m (p + off) = ld32 m' (p + off)"
  using inpg_words [of off p] by (intro ld32_cong) (simp_all add: agree_def)

lemma ld32_agree0: "agree p m m' \<Longrightarrow> ld32 m p = ld32 m' p"
  using ld32_agree [of p m m' 0] by simp

lemma agree_st32:
  assumes "pgalign p" and "pgalign q" and "p \<noteq> q" and "off \<le> 4092"
  shows "agree p m (st32 m (q + off) v)"
  unfolding agree_def
proof (intro allI impI)
  fix x assume x: "inpg p x"
  then have "\<not> inpg q x" using assms inpg_unique by blast
  then have "x \<noteq> q + off" "x \<noteq> q + off + 1" "x \<noteq> q + off + 2" "x \<noteq> q + off + 3"
    using inpg_words [OF assms(4), of q] by blast+
  then show "m x = st32 m (q + off) v x"
    by (rule st32_other [symmetric])
qed

lemma agree_st32_0:
  "pgalign p \<Longrightarrow> pgalign q \<Longrightarrow> p \<noteq> q \<Longrightarrow> agree p m (st32 m q v)"
  using agree_st32 [of p q 0] by simp

lemma agree_memset: "pgalign p \<Longrightarrow> pgalign q \<Longrightarrow> p \<noteq> q \<Longrightarrow> agree p m (memset q c PGSIZE m)"
  using inpg_unique unfolding agree_def by (auto simp: memset_apply inpg_def)

lemma distinct_word_offsets: "distinct [a, a + 1, a + 2, (a :: uint) + 3]"
  by simp

lemma ld32_st32_same [simp]: "ld32 (st32 m a v) (a :: uint) = v"
  using ld32_st32 [OF distinct_word_offsets] .

end
