(* ===== verification/Kalloc.thy ===== *)
theory Kalloc
  imports Spinlock Mmu
begin

text \<open>
  The physical page allocator (\<^verbatim>\<open>src/kalloc.c\<close>).

  Memory is one function from kernel virtual addresses to bytes.  The free list is stored
  in the free pages themselves, as in the code: \<^verbatim>\<open>struct run\<close> is the first word of a page, read and
  written with \<open>ld32\<close>/\<open>st32\<close>.  \<open>kmem_inv ps s\<close> says that following those words from
  \<^verbatim>\<open>kmem.freelist\<close> visits exactly the pages \<open>ps\<close>, all different and all allocatable, so that
  \<open>kalloc\<close> and \<open>kfree\<close> refine head removal and insertion on \<open>ps\<close>.  The address \<^verbatim>\<open>end\<close> is fixed by
  the linker; it is the constant field \<open>kend\<close> of the state.
\<close>

section \<open>State and operations\<close>

record kmem = machine +
  mem :: memory
  kend :: uint
  use_lock :: bool
  freelist :: uint

definition kmem_acquire :: "('z kmem_scheme, unit) op" where
  "kmem_acquire = bnd (gets use_lock) (\<lambda>u. whenM u (acquire KmemLock))"

definition kmem_release :: "('z kmem_scheme, unit) op" where
  "kmem_release = bnd (gets use_lock) (\<lambda>u. whenM u (release KmemLock))"

definition kfree :: "uint \<Rightarrow> ('z kmem_scheme, unit) op" where
  "kfree v =
     bnd (gets kend) (\<lambda>kend0.
     if v mod PGSIZE \<noteq> 0 \<or> v < kend0 \<or> v2p v \<ge> PHYSTOP then panic ''kfree''
     else
       sq (modify (\<lambda>s. s\<lparr>mem := memset v 1 PGSIZE (mem s)\<rparr>))
      (sq kmem_acquire
      (sq (modify (\<lambda>s. s\<lparr>mem := st32 (mem s) v (freelist s)\<rparr>))
      (sq (modify (\<lambda>s. s\<lparr>freelist := v\<rparr>))
          kmem_release))))"

definition kalloc :: "('z kmem_scheme, uint) op" where
  "kalloc =
     sq kmem_acquire
    (bnd (gets freelist) (\<lambda>r.
     sq (whenM (r \<noteq> 0) (modify (\<lambda>s. s\<lparr>freelist := ld32 (mem s) r\<rparr>)))
    (sq kmem_release
        (ret r))))"

text \<open>
  The loop of \<^verbatim>\<open>freerange\<close> compares wrapped pointers, so it is given fuel; \<open>2 ^ 20\<close> steps
  visit every page of the address space, and running out of them is the outcome \<open>Spin\<close>.
\<close>

fun freerange_loop :: "nat \<Rightarrow> uint \<Rightarrow> uint \<Rightarrow> ('z kmem_scheme, unit) op" where
  "freerange_loop 0 p vend = (\<lambda>s. Spin)"
| "freerange_loop (Suc fuel) p vend =
     (if p + PGSIZE \<le> vend then sq (kfree p) (freerange_loop fuel (p + PGSIZE) vend)
      else ret ())"

definition freerange :: "uint \<Rightarrow> uint \<Rightarrow> ('z kmem_scheme, unit) op" where
  "freerange vstart vend = freerange_loop (2 ^ 20) (PGROUNDUP vstart) vend"

definition kinit1 :: "uint \<Rightarrow> uint \<Rightarrow> ('z kmem_scheme, unit) op" where
  "kinit1 vstart vend =
     sq (modify (\<lambda>s. s\<lparr>cpust := (cpust s)\<lparr>lks := (lks (cpust s))(KmemLock := initlock)\<rparr>\<rparr>))
    (sq (modify (\<lambda>s. s\<lparr>use_lock := False\<rparr>))
        (freerange vstart vend))"

definition kinit2 :: "uint \<Rightarrow> uint \<Rightarrow> ('z kmem_scheme, unit) op" where
  "kinit2 vstart vend =
     sq (freerange vstart vend)
        (modify (\<lambda>s. s\<lparr>use_lock := True\<rparr>))"

section \<open>What an allocator promises\<close>

text \<open>
  The contract of a page allocator over any state: \<open>frees s ps\<close> relates a state to its free
  pages.  \<open>alloc\<close> removes the first free page or returns 0, \<open>free\<close> puts a page back, and
  neither changes what the client \<open>sees\<close> of a page that is not being moved.
\<close>

locale page_allocator =
  fixes alloc :: "('s, uint) op"
    and free :: "uint \<Rightarrow> ('s, unit) op"
    and frees :: "'s \<Rightarrow> uint list \<Rightarrow> bool"
    and page :: "'s \<Rightarrow> uint \<Rightarrow> bool"
    and sees :: "uint \<Rightarrow> 's \<Rightarrow> 's \<Rightarrow> bool"
  assumes alloc_Cons: "frees s (p # ps) \<Longrightarrow>
      runs alloc s (\<lambda>r s'. r = p \<and> frees s' ps \<and> page s' = page s \<and> (\<forall>q. sees q s s'))"
    and alloc_Nil: "frees s [] \<Longrightarrow>
      runs alloc s (\<lambda>r s'. r = 0 \<and> frees s' [] \<and> page s' = page s \<and> (\<forall>q. sees q s s'))"
    and free_law: "frees s ps \<Longrightarrow> page s p \<Longrightarrow> p \<notin> set ps \<Longrightarrow>
      runs (free p) s (\<lambda>_ s'. frees s' (p # ps) \<and> page s' = page s \<and>
        (\<forall>q. page s q \<longrightarrow> q \<noteq> p \<longrightarrow> sees q s s'))"
    and frees_distinct: "frees s ps \<Longrightarrow> distinct ps"
    and frees_page: "frees s ps \<Longrightarrow> p \<in> set ps \<Longrightarrow> page s p"
    and page_nonnull: "page s p \<Longrightarrow> p \<noteq> 0"
    and sees_refl: "sees q s s"
    and sees_trans: "sees q s t \<Longrightarrow> sees q t u \<Longrightarrow> sees q s u"
begin

primrec alloc_many :: "nat \<Rightarrow> ('s, uint list) op" where
  "alloc_many 0 = ret []"
| "alloc_many (Suc n) = bnd alloc (\<lambda>p. bnd (alloc_many n) (\<lambda>ps. ret (p # ps)))"

lemma alloc_many_takes:
  "frees s (ps @ qs) \<Longrightarrow>
     runs (alloc_many (length ps)) s (\<lambda>rs s'. rs = ps \<and> frees s' qs \<and> page s' = page s \<and>
       (\<forall>q. sees q s s'))"
proof (induction ps arbitrary: s)
  case Nil
  then show ?case by (simp add: runs_simps sees_refl)
next
  case (Cons p ps)
  have "runs alloc s (\<lambda>r s'. r = p \<and> frees s' (ps @ qs) \<and> page s' = page s \<and> (\<forall>q. sees q s s'))"
    using alloc_Cons Cons.prems by simp
  then show ?case
    using Cons.IH by (fastforce simp: runs_simps elim!: runs_conseq intro: sees_trans)
qed

lemma alloc_exhausts:
  assumes "frees s ps"
  shows "runs (bnd (alloc_many (length ps)) (\<lambda>_. alloc)) s (\<lambda>r s'. r = 0 \<and> frees s' [])"
proof -
  have "runs (alloc_many (length ps)) s (\<lambda>rs s'. frees s' [])"
    using alloc_many_takes [of s ps "[]"] assms by (auto elim!: runs_conseq)
  then show ?thesis
    using alloc_Nil by (fastforce simp: runs_simps elim!: runs_conseq)
qed

lemma free_then_alloc:
  assumes "frees s ps" and "page s p" and "p \<notin> set ps"
  shows "runs (sq (free p) alloc) s (\<lambda>r s'. r = p \<and> frees s' ps)"
  using free_law [OF assms] alloc_Cons by (fastforce simp: runs_simps elim!: runs_conseq)

end

section \<open>The free list\<close>

text \<open>\<open>ptr\<close> reads a C pointer: 0 is null.\<close>

definition ptr :: "uint \<Rightarrow> uint option" where
  "ptr x = (if x = 0 then None else Some x)"

definition kpage :: "'z kmem_scheme \<Rightarrow> uint \<Rightarrow> bool" where
  "kpage s v \<longleftrightarrow> pgalign v \<and> kend s \<le> v \<and> v2p v < PHYSTOP"

definition kmem_inv :: "uint list \<Rightarrow> 'z kmem_scheme \<Rightarrow> bool" where
  "kmem_inv ps s \<longleftrightarrow>
     chain (\<lambda>p. ptr (ld32 (mem s) p)) (ptr (freelist s)) ps None \<and>
     distinct ps \<and> (\<forall>p \<in> set ps. kpage s p)"

text \<open>The lock can be taken.\<close>

definition kmem_ready :: "'z kmem_scheme \<Rightarrow> bool" where
  "kmem_ready s \<longleftrightarrow> lock_free KmemLock (cpust s) \<and> cli_wf (cpust s)"

text \<open>The interrupt state after the lock was taken and given back.\<close>

definition kmem_settled :: "'z kmem_scheme \<Rightarrow> cpust" where
  "kmem_settled s = (if use_lock s then settled (cpust s) else cpust s)"

lemma ptr_simps [simp]: "ptr x = None \<longleftrightarrow> x = 0" "ptr x = Some y \<longleftrightarrow> x = y \<and> y \<noteq> 0"
  by (auto simp: ptr_def)

lemma kpage_nonnull: "kpage s v \<Longrightarrow> v \<noteq> 0"
  by (auto simp: kpage_def v2p_def)

lemma kpage_pgalign: "kpage s v \<Longrightarrow> pgalign v"
  by (simp add: kpage_def)

lemma kpage_cong: "kend s' = kend s \<Longrightarrow> kpage s' v = kpage s v"
  by (simp add: kpage_def)

lemma kmem_inv_cong:
  assumes "\<And>p. p \<in> set ps \<Longrightarrow> agree p (mem s) (mem s')" and "freelist s' = freelist s"
    and "kend s' = kend s"
  shows "kmem_inv ps s' = kmem_inv ps s"
proof -
  have "chain (\<lambda>p. ptr (ld32 (mem s') p)) x ps None = chain (\<lambda>p. ptr (ld32 (mem s) p)) x ps None" for x
    using ld32_agree0 [OF assms(1)] by (intro chain_cong) simp
  then show ?thesis
    using assms(2,3) by (simp add: kmem_inv_def kpage_def)
qed

lemma kfree_run:
  assumes "kpage s v" and "kmem_ready s"
  shows "kfree v s = Ret () (s\<lparr>cpust := kmem_settled s, freelist := v,
    mem := st32 (memset v 1 PGSIZE (mem s)) v (freelist s)\<rparr>)"
  using assms
  by (cases "use_lock s")
    (auto simp: kfree_def kpage_def pgalign_def kmem_ready_def kmem_settled_def kmem_acquire_def
      kmem_release_def op_simps not_less not_le)

lemma kfree_panics:
  "\<not> kpage s v \<Longrightarrow> kfree v s = Panic ''kfree''"
  by (auto simp: kfree_def kpage_def pgalign_def op_simps not_less not_le)

lemma kalloc_run:
  assumes "kmem_ready s"
  shows "kalloc s = Ret (freelist s) (s\<lparr>cpust := kmem_settled s,
    freelist := (if freelist s = 0 then 0 else ld32 (mem s) (freelist s))\<rparr>)"
  using assms
  by (cases "use_lock s")
    (auto simp: kalloc_def kmem_ready_def kmem_settled_def kmem_acquire_def kmem_release_def op_simps)

lemma keeps_kalloc [keeps_intros]:
  "(\<And>s k. P s \<Longrightarrow> P (s\<lparr>cpust := k\<rparr>)) \<Longrightarrow> (\<And>s v. P s \<Longrightarrow> P (s\<lparr>freelist := v\<rparr>)) \<Longrightarrow> keeps P kalloc"
  unfolding kalloc_def kmem_acquire_def kmem_release_def by (intro keeps_intros allI)

lemma keeps_kfree [keeps_intros]:
  "(\<And>s k. P s \<Longrightarrow> P (s\<lparr>cpust := k\<rparr>)) \<Longrightarrow> (\<And>s v. P s \<Longrightarrow> P (s\<lparr>freelist := v\<rparr>)) \<Longrightarrow>
   (\<And>s m. P s \<Longrightarrow> P (s\<lparr>mem := m\<rparr>)) \<Longrightarrow> keeps P (kfree v)"
  unfolding kfree_def kmem_acquire_def kmem_release_def by (intro keeps_intros)

lemma kmem_ready_settled:
  assumes "kmem_ready s" and "cpust s' = kmem_settled s"
  shows "kmem_ready s'"
  using assms by (auto simp: kmem_ready_def kmem_settled_def)

text \<open>Freeing leaves every other page as it was.\<close>

lemma agree_kfree:
  "pgalign p \<Longrightarrow> pgalign v \<Longrightarrow> p \<noteq> v \<Longrightarrow> agree p m (st32 (memset v c PGSIZE m) v x)"
  using agree_memset agree_st32_0 agree_trans by blast

lemma kmem_inv_kfree:
  assumes "kmem_inv ps s" and "kpage s v" and "v \<notin> set ps"
  shows "kmem_inv (v # ps) (s\<lparr>cpust := k, freelist := v,
    mem := st32 (memset v 1 PGSIZE (mem s)) v (freelist s)\<rparr>)"
proof -
  let ?m = "st32 (memset v 1 PGSIZE (mem s)) v (freelist s)"
  have "agree p (mem s) ?m" if "p \<in> set ps" for p
    using that assms by (intro agree_kfree) (auto simp: kmem_inv_def kpage_def)
  then have "kmem_inv ps (s\<lparr>mem := ?m\<rparr>)"
    using assms(1) by (subst kmem_inv_cong [of ps s]) simp_all
  then show ?thesis
    using assms kpage_nonnull [OF assms(2)] by (simp add: kmem_inv_def kpage_def)
qed

lemma kmem_inv_kalloc:
  assumes "kmem_inv (p # ps) s"
  shows "freelist s = p" "p \<noteq> 0" "kmem_inv ps (s\<lparr>cpust := k, freelist := ld32 (mem s) p\<rparr>)"
  using assms by (auto simp: kmem_inv_def kpage_def)

lemma kmem_inv_Nil: "kmem_inv [] s \<longleftrightarrow> freelist s = 0"
  by (auto simp: kmem_inv_def)

text \<open>The kernel's allocator keeps the contract.\<close>

definition kmem_frees :: "'z kmem_scheme \<Rightarrow> uint list \<Rightarrow> bool" where
  "kmem_frees s ps \<longleftrightarrow> kmem_inv ps s \<and> kmem_ready s"

definition kmem_sees :: "uint \<Rightarrow> 'z kmem_scheme \<Rightarrow> 'z kmem_scheme \<Rightarrow> bool" where
  "kmem_sees q s s' \<longleftrightarrow> agree q (mem s) (mem s')"

interpretation km: page_allocator kalloc kfree kmem_frees kpage kmem_sees
proof
  fix s :: "'z kmem_scheme" and p ps
  assume f: "kmem_frees s (p # ps)"
  then have rd: "kmem_ready s" by (simp add: kmem_frees_def)
  with f show "runs kalloc s (\<lambda>r s'. r = p \<and> kmem_frees s' ps \<and> kpage s' = kpage s \<and>
      (\<forall>q. kmem_sees q s s'))"
    using kmem_inv_kalloc [of p ps s]
    by (auto simp: kmem_ready_settled [OF rd] runs_def kmem_frees_def kalloc_run kmem_sees_def fun_eq_iff kpage_def)
next
  fix s :: "'z kmem_scheme"
  assume f: "kmem_frees s []"
  then have rd: "kmem_ready s" by (simp add: kmem_frees_def)
  with f show "runs kalloc s (\<lambda>r s'. r = 0 \<and> kmem_frees s' [] \<and> kpage s' = kpage s \<and>
      (\<forall>q. kmem_sees q s s'))"
    by (auto simp: kmem_ready_settled [OF rd] runs_def kmem_frees_def kalloc_run kmem_sees_def fun_eq_iff kpage_def kmem_inv_Nil)
next
  fix s :: "'z kmem_scheme" and p ps
  assume f: "kmem_frees s ps" "kpage s p" "p \<notin> set ps"
  then have rd: "kmem_ready s" by (simp add: kmem_frees_def)
  with f show "runs (kfree p) s (\<lambda>_ s'. kmem_frees s' (p # ps) \<and> kpage s' = kpage s \<and>
      (\<forall>q. kpage s q \<longrightarrow> q \<noteq> p \<longrightarrow> kmem_sees q s s'))"
    by (auto simp: kmem_ready_settled [OF rd] runs_def kmem_frees_def kfree_run kmem_sees_def kmem_inv_kfree fun_eq_iff
        kpage_def agree_kfree)
qed (auto simp: kmem_frees_def kmem_inv_def kpage_nonnull kmem_sees_def intro: agree_trans)

section \<open>Initialisation\<close>

primrec page_range :: "uint \<Rightarrow> nat \<Rightarrow> uint list" where
  "page_range p 0 = []"
| "page_range p (Suc n) = p # page_range (p + PGSIZE) n"

lemma v2p_PHYSTOP: "v2p v < PHYSTOP \<longleftrightarrow> KERNBASE \<le> v \<and> v < p2v PHYSTOP"
  using unat_uint_less [of v]
  by (simp add: v2p_def p2v_def word_less_nat_alt word_le_nat_alt unat_sub_if') arith

lemma kpage_range:
  "kend s \<le> p \<Longrightarrow> pgalign p \<Longrightarrow> unat p + 4096 \<le> unat vend \<Longrightarrow> vend \<le> p2v PHYSTOP \<Longrightarrow>
     kpage s p \<or> p < KERNBASE"
  unfolding kpage_def v2p_PHYSTOP by (auto simp: word_less_nat_alt word_le_nat_alt)

lemma unat_plus_PGSIZE:
  "unat p + 4096 \<le> unat (vend :: uint) \<Longrightarrow> unat (p + PGSIZE) = unat p + 4096"
  using unat_uint_less [of vend] by (simp add: unat_word_ariths)

lemma freerange_step:
  assumes "kmem_inv ps s" and "kmem_ready s" and "kpage s p" and "p \<notin> set ps"
  shows "runs (kfree p) s (\<lambda>_ s'. kmem_inv (p # ps) s' \<and> kmem_ready s' \<and>
    kend s' = kend s \<and> use_lock s' = use_lock s)"
  using assms by (simp add: runs_def kfree_run kmem_inv_kfree kmem_ready_settled [OF assms(2)])

lemma freerange_loop_run:
  fixes s :: "'z kmem_scheme"
  assumes "pgalign p" and "unat p + n * 4096 \<le> unat vend" and "unat vend < unat p + n * 4096 + 4096"
    and "n < fuel" and "vend \<le> p2v PHYSTOP" and "kend s \<le> p" and "KERNBASE \<le> p"
    and "kmem_inv ps s" and "kmem_ready s" and "\<forall>q \<in> set ps. q < p \<or> vend \<le> q"
  shows "runs (freerange_loop fuel p vend) s (\<lambda>_ s'. kmem_inv (rev (page_range p n) @ ps) s' \<and>
    kmem_ready s' \<and> kend s' = kend s \<and> use_lock s' = use_lock s)"
  using assms
proof (induction n arbitrary: p ps s fuel)
  case 0
  then obtain f where f: "fuel = Suc f" by (cases fuel) auto
  have "unat vend < unat (p + PGSIZE)"
  proof -
    have "vend \<le> 0x8E000000" using "0.prems"(5) by (simp add: p2v_def)
    then have "unat vend \<le> 2382364672" by (simp add: word_le_nat_alt)
    then have "unat p + 4096 < 2 ^ 32" using "0.prems"(2) by simp
    then show ?thesis using "0.prems"(3) by (simp add: unat_word_ariths)
  qed
  then have "\<not> p + PGSIZE \<le> vend" by (simp add: word_le_nat_alt)
  with 0 f show ?case by (simp add: runs_simps)
next
  case (Suc n)
  then obtain f where f: "fuel = Suc f" by (cases fuel) auto
  have le: "unat p + 4096 \<le> unat vend" using Suc.prems(2) by simp
  note up = unat_plus_PGSIZE [OF le]
  have cond: "p + PGSIZE \<le> vend" using le up by (simp add: word_le_nat_alt)
  have kp: "kpage s p"
    using kpage_range [OF Suc.prems(6,1) le Suc.prems(5)] Suc.prems(7) by auto
  have "p < vend" using le by (simp add: word_less_nat_alt)
  then have fresh: "p \<notin> set ps" using Suc.prems(10) by auto
  have lt: "p < p + PGSIZE" using up by (simp add: word_less_nat_alt)
  have next1: "pgalign (p + PGSIZE)" using Suc.prems(1) by (simp add: pgalign_add)
  have sep: "\<forall>q \<in> set (p # ps). q < p + PGSIZE \<or> vend \<le> q"
    using Suc.prems(10) lt by (auto intro: less_trans)
  have rest: "runs (freerange_loop f (p + PGSIZE) vend) s'
      (\<lambda>_ s''. kmem_inv (rev (page_range (p + PGSIZE) n) @ p # ps) s'' \<and>
        kmem_ready s'' \<and> kend s'' = kend s' \<and> use_lock s'' = use_lock s')"
    if "kmem_inv (p # ps) s'" "kmem_ready s'" "kend s' = kend s" for s' :: "'z kmem_scheme"
  proof (rule Suc.IH [OF next1 _ _ _ Suc.prems(5) _ _ that(1,2) sep])
    show "kend s' \<le> p + PGSIZE" "KERNBASE \<le> p + PGSIZE"
      using that(3) Suc.prems(6,7) lt by simp_all
  qed (use Suc.prems f up in simp_all)
  have "runs (freerange_loop f (p + PGSIZE) vend) s'
      (\<lambda>_ s''. kmem_inv (rev (page_range p (Suc n)) @ ps) s'' \<and>
        kmem_ready s'' \<and> kend s'' = kend s \<and> use_lock s'' = use_lock s)"
    if "kmem_inv (p # ps) s' \<and> kmem_ready s' \<and> kend s' = kend s \<and> use_lock s' = use_lock s"
    for s' :: "'z kmem_scheme"
    using rest [of s'] that by simp
  then show ?case
    unfolding f freerange_loop.simps using cond
    by (simp only: if_True runs_sq) (rule runs_conseq [OF freerange_step [OF Suc.prems(8,9) kp fresh]])
qed

lemma set_page_range:
  "pgalign p \<Longrightarrow> unat p + n * 4096 < 2 ^ 32 \<Longrightarrow>
     set (page_range p n) = {q. pgalign q \<and> p \<le> q \<and> unat q < unat p + n * 4096}"
proof (induction n arbitrary: p)
  case 0
  then show ?case by (auto simp: word_le_nat_alt)
next
  case (Suc n)
  have up: "unat (p + PGSIZE) = unat p + 4096"
    using Suc.prems(2) by (simp add: unat_word_ariths)
  have dec: "(p \<le> q \<and> unat q < unat p + Suc n * 4096) \<longleftrightarrow>
      q = p \<or> (p + PGSIZE \<le> q \<and> unat q < unat (p + PGSIZE) + n * 4096)" if al: "pgalign q" for q
  proof -
    obtain c where c: "unat q = 4096 * c" using al by (auto simp: pgalign_dvd dvd_def)
    obtain d where d: "unat p = 4096 * d" using Suc.prems(1) by (auto simp: pgalign_dvd dvd_def)
    have "q = p \<longleftrightarrow> c = d" using c d by (simp add: word_unat_eq_iff)
    then show ?thesis
      unfolding word_le_nat_alt up c d by auto
  qed
  have "set (page_range (p + PGSIZE) n) =
      {q. pgalign q \<and> p + PGSIZE \<le> q \<and> unat q < unat (p + PGSIZE) + n * 4096}"
    using Suc.prems by (intro Suc.IH) (simp_all add: up pgalign_add)
  then have "set (page_range p (Suc n)) =
      {q. q = p \<or> (pgalign q \<and> p + PGSIZE \<le> q \<and> unat q < unat (p + PGSIZE) + n * 4096)}"
    by auto
  also have "\<dots> = {q. pgalign q \<and> p \<le> q \<and> unat q < unat p + Suc n * 4096}"
    using dec Suc.prems(1) by (intro Collect_cong) blast
  finally show ?case .
qed

lemma freerange_run:
  fixes s :: "'z kmem_scheme"
  assumes "kmem_inv ps s" and "kmem_ready s" and "\<forall>q \<in> set ps. q < PGROUNDUP vstart \<or> vend \<le> q"
    and "kend s \<le> PGROUNDUP vstart" and "KERNBASE \<le> PGROUNDUP vstart"
    and "PGROUNDUP vstart \<le> vend" and "vend \<le> p2v PHYSTOP" and "pgalign vend"
  shows "runs (freerange vstart vend) s (\<lambda>_ s'. (\<exists>qs. kmem_inv qs s' \<and>
      set qs = {q. pgalign q \<and> PGROUNDUP vstart \<le> q \<and> q < vend} \<union> set ps) \<and>
    kmem_ready s' \<and> kend s' = kend s \<and> use_lock s' = use_lock s)"
proof -
  let ?p = "PGROUNDUP vstart"
  obtain c where c: "unat vend = 4096 * c" using assms(8) by (auto simp: pgalign_dvd dvd_def)
  have "pgalign ?p" by simp
  then obtain d where d: "unat ?p = 4096 * d" by (auto simp: pgalign_dvd dvd_def)
  have cd: "d \<le> c" using assms(6) c d by (simp add: word_le_nat_alt)
  then have n: "unat ?p + (c - d) * 4096 = unat vend" using c d by simp
  have "c < 2 ^ 20" using unat_uint_less [of vend] c by simp
  then have fuel: "c - d < 2 ^ 20" by simp
  have pr: "set (page_range ?p (c - d)) = {q. pgalign q \<and> ?p \<le> q \<and> q < vend}"
    using set_page_range [of ?p "c - d"] n unat_uint_less [of vend]
    by (simp add: word_less_nat_alt)
  have "runs (freerange_loop (2 ^ 20) ?p vend) s (\<lambda>_ s'.
      kmem_inv (rev (page_range ?p (c - d)) @ ps) s' \<and>
      kmem_ready s' \<and> kend s' = kend s \<and> use_lock s' = use_lock s)"
    by (rule freerange_loop_run) (use n fuel assms in simp_all)
  then show ?thesis
    unfolding freerange_def
    by (rule runs_conseq) (metis pr set_append set_rev)
qed

text \<open>The two calls of \<^verbatim>\<open>main\<close>.\<close>

lemma kinit_ranges:
  assumes "KERNLINK \<le> kend s" and "kend s \<le> p2v 0x400000"
  shows "kend s \<le> PGROUNDUP (kend s)" and "PGROUNDUP (kend s) \<le> p2v 0x400000"
    and "KERNBASE \<le> PGROUNDUP (kend s)"
    and "{v. kpage s v} = {q. pgalign q \<and> p2v 0x400000 \<le> q \<and> q < p2v PHYSTOP} \<union>
      {q. pgalign q \<and> PGROUNDUP (kend s) \<le> q \<and> q < p2v 0x400000}"
proof -
  have "unat (kend s) \<le> 0x80400000"
    using assms(2) by (simp add: p2v_def word_le_nat_alt)
  then have ke: "unat (kend s) + 4095 < 2 ^ 32" by simp
  have al: "pgalign (p2v 0x400000)" by (simp add: pgalign_def p2v_def)
  show a: "kend s \<le> PGROUNDUP (kend s)" and b: "PGROUNDUP (kend s) \<le> p2v 0x400000"
    using PGROUNDUP_ge [OF ke] PGROUNDUP_le [OF ke al assms(2)] by simp_all
  have "KERNBASE \<le> KERNLINK" by simp
  also note assms(1)
  also note a
  finally show c: "KERNBASE \<le> PGROUNDUP (kend s)" .
  show "{v. kpage s v} = {q. pgalign q \<and> p2v 0x400000 \<le> q \<and> q < p2v PHYSTOP} \<union>
      {q. pgalign q \<and> PGROUNDUP (kend s) \<le> q \<and> q < p2v 0x400000}"
    unfolding kpage_def v2p_PHYSTOP using a b c PGROUNDUP_le [OF ke]
    by (auto simp: p2v_def not_le intro: order_trans order.strict_trans2)
qed

lemma kinit_aligned:
  "pgalign (p2v 0x400000)" "pgalign (p2v PHYSTOP)" "PGROUNDUP (p2v 0x400000) = p2v 0x400000"
  "KERNBASE \<le> p2v 0x400000" "p2v 0x400000 \<le> p2v PHYSTOP"
  by (simp_all add: pgalign_def p2v_def PGROUNDUP_def)

lemma kinit1_run:
  assumes "freelist s = 0" and "KERNLINK \<le> kend s" and "kend s \<le> p2v 0x400000"
    and "cli_wf (cpust s)"
  shows "runs (kinit1 (kend s) (p2v 0x400000)) s (\<lambda>_ s'. (\<exists>qs. kmem_inv qs s' \<and>
      set qs = {q. pgalign q \<and> PGROUNDUP (kend s) \<le> q \<and> q < p2v 0x400000}) \<and>
    kmem_ready s' \<and> kend s' = kend s)"
proof -
  define s1 where "s1 = s\<lparr>cpust := (cpust s)\<lparr>lks := (lks (cpust s))(KmemLock := initlock)\<rparr>,
    use_lock := False\<rparr>"
  have s1: "kmem_inv [] s1" "kmem_ready s1" "kend s1 = kend s"
    using assms by (simp_all add: s1_def kmem_inv_Nil kmem_ready_def cli_wf_def lock_free_def)
  have "runs (freerange (kend s) (p2v 0x400000)) s1 (\<lambda>_ s'. (\<exists>qs. kmem_inv qs s' \<and>
      set qs = {q. pgalign q \<and> PGROUNDUP (kend s) \<le> q \<and> q < p2v 0x400000}) \<and>
      kmem_ready s' \<and> kend s' = kend s)"
    using freerange_run [OF s1(1,2), of "kend s" "p2v 0x400000"] kinit_ranges [OF assms(2,3)]
      kinit_aligned s1(3) by (auto elim!: runs_conseq)
  then show ?thesis by (simp add: kinit1_def runs_simps s1_def)
qed

lemma kinit2_run:
  assumes "kmem_inv qs s" and "kmem_ready s" and "kend s \<le> p2v 0x400000"
    and "\<forall>q \<in> set qs. q < p2v 0x400000"
  shows "runs (kinit2 (p2v 0x400000) (p2v PHYSTOP)) s (\<lambda>_ s'. use_lock s' \<and> kmem_ready s' \<and>
    (\<exists>rs. kmem_inv rs s' \<and>
      set rs = {q. pgalign q \<and> p2v 0x400000 \<le> q \<and> q < p2v PHYSTOP} \<union> set qs))"
proof -
  have "runs (freerange (p2v 0x400000) (p2v PHYSTOP)) s (\<lambda>_ s'. (\<exists>rs. kmem_inv rs s' \<and>
      set rs = {q. pgalign q \<and> p2v 0x400000 \<le> q \<and> q < p2v PHYSTOP} \<union> set qs) \<and>
      kmem_ready s' \<and> kend s' = kend s \<and> use_lock s' = use_lock s)"
    using freerange_run [of qs s "p2v 0x400000" "p2v PHYSTOP"] assms kinit_aligned by auto
  then show ?thesis
    by (auto simp: kinit2_def runs_simps kmem_inv_def kpage_def kmem_ready_def elim!: runs_conseq)
qed

section \<open>Properties\<close>

text \<open>
  (C16) \<^verbatim>\<open>kalloc\<close> always returns.  On a non-empty free list it hands out the head page, which is
  page-aligned and lies in allocatable memory, and keeps the rest as the free list; on an empty
  one it returns 0.  It writes no byte of memory.
\<close>

theorem kalloc_correct:
  assumes "kmem_inv ps s" and "kmem_ready s"
  shows "runs kalloc s (\<lambda>r s'. mem s' = mem s \<and> kmem_ready s' \<and>
    (case ps of [] \<Rightarrow> r = 0 \<and> kmem_inv [] s'
     | p # qs \<Rightarrow> r = p \<and> kpage s r \<and> r \<notin> set qs \<and> kmem_inv qs s'))"
proof -
  have "kmem_ready (s\<lparr>cpust := kmem_settled s, freelist := x\<rparr>)" for x
    by (rule kmem_ready_settled [OF assms(2)]) simp_all
  moreover have "kpage s p" "p \<notin> set qs" if "ps = p # qs" for p qs
    using assms(1) that by (simp_all add: kmem_inv_def)
  ultimately show ?thesis
    using assms kmem_inv_kalloc [of "hd ps" "tl ps" s]
    by (cases ps) (simp_all add: runs_def kalloc_run kmem_inv_Nil)
qed

text \<open>
  (C17) \<^verbatim>\<open>kfree\<close> panics on an address that is not an allocatable page.  On an allocatable page
  that is not already free it puts the page at the head of the free list and leaves the bytes of
  every other page alone, and an immediately following \<^verbatim>\<open>kalloc\<close> returns that page.
\<close>

theorem kfree_correct:
  assumes "kmem_inv ps s" and "kmem_ready s" and "v \<notin> set ps"
  shows "(if kpage s v then
      runs (kfree v) s (\<lambda>_ s'. kmem_inv (v # ps) s' \<and> kmem_ready s' \<and>
        (\<forall>x. \<not> inpg v x \<longrightarrow> mem s' x = mem s x)) \<and>
      runs (sq (kfree v) kalloc) s (\<lambda>r s'. r = v \<and> kmem_inv ps s')
    else kfree v s = Panic ''kfree'')"
proof -
  have "runs (sq (kfree v) kalloc) s (\<lambda>r s'. r = v \<and> kmem_inv ps s')" if "kpage s v"
    using km.free_then_alloc [of s ps v] assms that
    by (auto simp: kmem_frees_def elim!: runs_conseq)
  moreover have "st32 (memset v 1 PGSIZE m) v w x = m x" if "\<not> inpg v x" for m w x
    using that inpg_words [of 0 v] by (subst st32_other) (auto simp: memset_apply inpg_def)
  moreover have "kmem_ready (s\<lparr>cpust := kmem_settled s, freelist := x, mem := m\<rparr>)" for x m
    by (rule kmem_ready_settled [OF assms(2)]) simp_all
  ultimately show ?thesis
    using assms kfree_panics [of s v] by (simp add: runs_def kfree_run kmem_inv_kfree)
qed

text \<open>
  (C18) Boot: \<^verbatim>\<open>kinit1(end, P2V(4*1024*1024))\<close> followed by
  \<^verbatim>\<open>kinit2(P2V(4*1024*1024), P2V(PHYSTOP))\<close>, as \<^verbatim>\<open>main\<close> calls them, terminates without a panic and
  puts every allocatable page on the free list exactly once, and from then on the lock is used.
\<close>

theorem kinit_correct:
  assumes "freelist s = 0" and "KERNLINK \<le> kend s" and "kend s \<le> p2v 0x400000"
    and "cli_wf (cpust s)"
  shows "runs (sq (kinit1 (kend s) (p2v 0x400000)) (kinit2 (p2v 0x400000) (p2v PHYSTOP))) s
    (\<lambda>_ s'. use_lock s' \<and> kmem_ready s' \<and> (\<exists>ps. kmem_inv ps s' \<and> set ps = {v. kpage s v}))"
  unfolding runs_sq
proof (rule runs_conseq [OF kinit1_run [OF assms]], elim conjE exE)
  fix s' :: "'a kmem_scheme" and qs
  assume "kmem_inv qs s'" "kmem_ready s'" "kend s' = kend s"
    "set qs = {q. pgalign q \<and> PGROUNDUP (kend s) \<le> q \<and> q < p2v 0x400000}"
  then show "runs (kinit2 (p2v 0x400000) (p2v PHYSTOP)) s' (\<lambda>_ s''. use_lock s'' \<and>
      kmem_ready s'' \<and> (\<exists>ps. kmem_inv ps s'' \<and> set ps = {v. kpage s v}))"
    using kinit2_run [of qs s'] assms(3) kinit_ranges(4) [OF assms(2,3)] by simp
qed

text \<open>A machine just after boot, with nothing on the free list, to exercise the theorems.\<close>

definition boot_cpust :: cpust where
  "boot_cpust = \<lparr>cpu_id = 0, ncli = 0, intena = False, eflags_IF = False, lks = (\<lambda>_. initlock)\<rparr>"

definition boot_kmem :: kmem where
  "boot_kmem = \<lparr>cpust = boot_cpust, mem = (\<lambda>_. 0), kend = 0x80115000, use_lock = False, freelist = 0\<rparr>"

lemma boot_kmem_ready: "kmem_ready boot_kmem" "kmem_inv [] boot_kmem" "kpage boot_kmem 0x80200000"
  by (simp_all add: boot_kmem_def boot_cpust_def kmem_ready_def lock_free_def cli_wf_def kmem_inv_Nil
      kpage_def pgalign_def v2p_def)

theorem kinit_correct_witness:
  "runs (sq (kinit1 (kend boot_kmem) (p2v 0x400000)) (kinit2 (p2v 0x400000) (p2v PHYSTOP))) boot_kmem
    (\<lambda>_ s'. use_lock s' \<and> kmem_ready s' \<and> (\<exists>ps. kmem_inv ps s' \<and> set ps = {v. kpage boot_kmem v}))"
  by (rule kinit_correct) (simp_all add: boot_kmem_def boot_cpust_def cli_wf_def p2v_def)

theorem kfree_correct_witness:
  "runs (sq (kfree 0x80200000) kalloc) boot_kmem (\<lambda>r s'. r = 0x80200000 \<and> kmem_inv [] s')"
  using kfree_correct [where s = boot_kmem and ps = "[]" and v = "0x80200000"] boot_kmem_ready by simp

theorem kalloc_correct_witness:
  "runs kalloc (boot_kmem\<lparr>freelist := 0x80200000\<rparr>) (\<lambda>r s'. r = 0x80200000 \<and> kmem_inv [] s')"
proof -
  have "kmem_inv [0x80200000] (boot_kmem\<lparr>freelist := 0x80200000\<rparr>)"
    "kmem_ready (boot_kmem\<lparr>freelist := 0x80200000\<rparr>)"
    using boot_kmem_ready by (simp_all add: kmem_inv_def kpage_def kmem_ready_def boot_kmem_def ld32_def)
  from kalloc_correct [OF this] show ?thesis by (auto elim: runs_conseq)
qed

end
