(* ===== verification/Vm.thy ===== *)
theory Vm
  imports Kalloc
begin

text \<open>
  Page tables and user address spaces (\<^verbatim>\<open>src/vm.c\<close>).

  Page directories and page tables are 4096-byte pages of the memory of \<open>kmem\<close>, read and
  written as words.  \<open>pde_addr\<close> and \<open>pte_at\<close> are the two array accesses of \<^verbatim>\<open>walkpgdir\<close>;
  \<open>pte_of m pd va\<close> is the entry the MMU finds for \<open>va\<close> (0 when there is no page table), so
  the operations are specified by what they do to \<open>pte_of\<close>.  The table of shared pages
  (\<^verbatim>\<open>struct shmtable\<close> of \<^verbatim>\<open>src/sharedmem.h\<close>), which \<^verbatim>\<open>is_shared\<close> reads, is part of this state, as is the
  linker's address \<^verbatim>\<open>data\<close>.  Messages printed with \<^verbatim>\<open>cprintf\<close> are not part of the state.

  Loops over addresses are given \<open>2 ^ 20\<close> steps, one per page of the address space.
\<close>

section \<open>State\<close>

abbreviation (input) MAXSHM :: nat where "MAXSHM \<equiv> 12"

record sharedmemory =
  shm_addr :: uint
  shm_refcount :: int

record vmem = kmem +
  kdata :: uint
  kpgdir :: uint
  sharedmem :: "nat \<Rightarrow> sharedmemory"
  shm_quantity :: ushort

text \<open>One word of memory.\<close>

definition load :: "uint \<Rightarrow> ('z kmem_scheme, uint) op" where
  "load a = gets (\<lambda>s. ld32 (mem s) a)"

definition store :: "uint \<Rightarrow> uint \<Rightarrow> ('z kmem_scheme, unit) op" where
  "store a v = modify (\<lambda>s. s\<lparr>mem := st32 (mem s) a v\<rparr>)"

definition update_mem :: "(memory \<Rightarrow> memory) \<Rightarrow> ('z kmem_scheme, unit) op" where
  "update_mem f = modify (\<lambda>s. s\<lparr>mem := f (mem s)\<rparr>)"

section \<open>Walking and mapping\<close>

definition pde_addr :: "uint \<Rightarrow> uint \<Rightarrow> uint" where
  "pde_addr pgdir va = pgdir + 4 * PDX va"

definition pte_at :: "uint \<Rightarrow> uint \<Rightarrow> uint" where
  "pte_at pgtab va = pgtab + 4 * PTX va"

definition walkpgdir :: "uint \<Rightarrow> uint \<Rightarrow> bool \<Rightarrow> ('z kmem_scheme, uint) op" where
  "walkpgdir pgdir va alloc =
     bnd (load (pde_addr pgdir va)) (\<lambda>pde.
     if has pde PTE_P then ret (pte_at (p2v (PTE_ADDR pde)) va)
     else if \<not> alloc then ret 0
     else bnd kalloc (\<lambda>pgtab.
       if pgtab = 0 then ret 0
       else
         sq (update_mem (memset pgtab 0 PGSIZE))
        (sq (store (pde_addr pgdir va) (v2p pgtab OR PTE_P OR PTE_W OR PTE_U))
            (ret (pte_at pgtab va)))))"

fun mappages_loop ::
    "nat \<Rightarrow> uint \<Rightarrow> uint \<Rightarrow> uint \<Rightarrow> uint \<Rightarrow> uint \<Rightarrow> ('z kmem_scheme, int) op" where
  "mappages_loop 0 pgdir a lst pa perm = (\<lambda>s. Spin)"
| "mappages_loop (Suc fuel) pgdir a lst pa perm =
     bnd (walkpgdir pgdir a True) (\<lambda>pte.
     if pte = 0 then ret (-1)
     else bnd (load pte) (\<lambda>e.
       if has e PTE_P then panic ''remap''
       else sq (store pte (pa OR perm OR PTE_P))
         (if a = lst then ret 0
          else mappages_loop fuel pgdir (a + PGSIZE) lst (pa + PGSIZE) perm)))"

definition mappages :: "uint \<Rightarrow> uint \<Rightarrow> uint \<Rightarrow> uint \<Rightarrow> uint \<Rightarrow> ('z kmem_scheme, int) op" where
  "mappages pgdir va sz pa perm =
     mappages_loop (2 ^ 20) pgdir (PGROUNDDOWN va) (PGROUNDDOWN (va + sz - 1)) pa perm"

text \<open>The table \<^verbatim>\<open>kmap\<close>: virtual start, physical range, permissions.\<close>

definition kmap :: "uint \<Rightarrow> (uint \<times> uint \<times> uint \<times> uint) list" where
  "kmap data =
     [(KERNBASE, 0, EXTMEM, PTE_W),
      (KERNLINK, v2p KERNLINK, v2p data, 0),
      (data, v2p data, PHYSTOP, PTE_W),
      (DEVSPACE, DEVSPACE, 0, PTE_W)]"

primrec setupkvm_loop :: "(uint \<times> uint \<times> uint \<times> uint) list \<Rightarrow> uint \<Rightarrow> ('z kmem_scheme, uint) op" where
  "setupkvm_loop [] pgdir = ret pgdir"
| "setupkvm_loop (k # ks) pgdir =
     (case k of (virt, phys_start, phys_end, perm) \<Rightarrow>
        bnd (mappages pgdir virt (phys_end - phys_start) phys_start perm) (\<lambda>r.
        if r < 0 then ret 0 else setupkvm_loop ks pgdir))"

definition setupkvm :: "('z vmem_scheme, uint) op" where
  "setupkvm =
     bnd kalloc (\<lambda>pgdir.
     if pgdir = 0 then ret 0
     else
       sq (update_mem (memset pgdir 0 PGSIZE))
      (if p2v PHYSTOP > DEVSPACE then panic ''PHYSTOP too high''
       else bnd (gets kdata) (\<lambda>data. setupkvm_loop (kmap data) pgdir)))"

text \<open>\<^verbatim>\<open>lcr3\<close> in \<^verbatim>\<open>switchkvm\<close> changes the page-table register only, which has no place in this state.\<close>

definition kvmalloc :: "('z vmem_scheme, unit) op" where
  "kvmalloc = bnd setupkvm (\<lambda>p. modify (\<lambda>s. s\<lparr>kpgdir := p\<rparr>))"

section \<open>User memory\<close>

definition inituvm :: "uint \<Rightarrow> uint \<Rightarrow> uint \<Rightarrow> ('z kmem_scheme, unit) op" where
  "inituvm pgdir init sz =
     (if sz \<ge> PGSIZE then panic ''inituvm: more than a page''
      else bnd kalloc (\<lambda>m.
        if m = 0 then undef ''inituvm: null page''
        else
          sq (update_mem (memset m 0 PGSIZE))
         (sq (mappages pgdir 0 PGSIZE (v2p m) (PTE_W OR PTE_U))
             (update_mem (memmove m init sz)))))"

text \<open>\<^verbatim>\<open>is_shared\<close> returns one more than the index of the shared page, or 0.\<close>

definition is_shared :: "uint \<Rightarrow> 'z vmem_scheme \<Rightarrow> nat" where
  "is_shared pa s =
     (case scan (\<lambda>j. p2v pa = shm_addr (sharedmem s j) \<and> shm_refcount (sharedmem s j) > 0) MAXSHM of
        None \<Rightarrow> 0 | Some j \<Rightarrow> j + 1)"

fun deallocuvm_loop :: "nat \<Rightarrow> uint \<Rightarrow> uint \<Rightarrow> uint \<Rightarrow> ('z vmem_scheme, unit) op" where
  "deallocuvm_loop 0 pgdir a oldsz = (\<lambda>s. Spin)"
| "deallocuvm_loop (Suc fuel) pgdir a oldsz =
     (if a < oldsz then
        bnd (walkpgdir pgdir a False) (\<lambda>pte.
        if pte = 0 then deallocuvm_loop fuel pgdir (a + (NPTENTRIES - 1) * PGSIZE + PGSIZE) oldsz
        else bnd (load pte) (\<lambda>e.
          if has e PTE_P then
            (let pa = PTE_ADDR e in
             bnd (gets (is_shared pa)) (\<lambda>save_this.
             if pa = 0 then panic ''kfree''
             else sq (whenM (save_this = 0) (kfree (p2v pa)))
                 (sq (store pte 0)
                     (deallocuvm_loop fuel pgdir (a + PGSIZE) oldsz))))
          else deallocuvm_loop fuel pgdir (a + PGSIZE) oldsz))
      else ret ())"

definition deallocuvm :: "uint \<Rightarrow> uint \<Rightarrow> uint \<Rightarrow> ('z vmem_scheme, uint) op" where
  "deallocuvm pgdir oldsz newsz =
     (if newsz \<ge> oldsz then ret oldsz
      else sq (deallocuvm_loop (2 ^ 20) pgdir (PGROUNDUP newsz) oldsz) (ret newsz))"

fun allocuvm_loop :: "nat \<Rightarrow> uint \<Rightarrow> uint \<Rightarrow> uint \<Rightarrow> uint \<Rightarrow> ('z vmem_scheme, uint) op" where
  "allocuvm_loop 0 pgdir a oldsz newsz = (\<lambda>s. Spin)"
| "allocuvm_loop (Suc fuel) pgdir a oldsz newsz =
     (if a < newsz then
        bnd kalloc (\<lambda>m.
        if m = 0 then sq (deallocuvm pgdir newsz oldsz) (ret 0)
        else
          sq (update_mem (memset m 0 PGSIZE))
         (sq (mappages pgdir a PGSIZE (v2p m) (PTE_W OR PTE_U))
             (allocuvm_loop fuel pgdir (a + PGSIZE) oldsz newsz)))
      else ret newsz)"

definition allocuvm :: "uint \<Rightarrow> uint \<Rightarrow> uint \<Rightarrow> ('z vmem_scheme, uint) op" where
  "allocuvm pgdir oldsz newsz =
     (if newsz \<ge> KERNBASE then ret 0
      else if newsz < oldsz then ret oldsz
      else allocuvm_loop (2 ^ 20) pgdir (PGROUNDUP oldsz) oldsz newsz)"

text \<open>\<^verbatim>\<open>unmap\<close>: the frames are freed when \<^verbatim>\<open>freeframes\<close> is zero.\<close>

fun unmap_loop :: "nat \<Rightarrow> uint \<Rightarrow> uint \<Rightarrow> uint \<Rightarrow> int \<Rightarrow> ('z kmem_scheme, unit) op" where
  "unmap_loop 0 pgdir a e freeframes = (\<lambda>s. Spin)"
| "unmap_loop (Suc fuel) pgdir a e freeframes =
     (if a < e then
        bnd (walkpgdir pgdir a False) (\<lambda>pte.
        if pte = 0 then unmap_loop fuel pgdir (a + (NPTENTRIES - 1) * PGSIZE + PGSIZE) e freeframes
        else bnd (load pte) (\<lambda>entry.
          if has entry PTE_P then
            (let pa = PTE_ADDR entry in
             if pa = 0 then panic ''kfree unmappages''
             else sq (whenM (freeframes = 0) (kfree (p2v pa)))
                 (sq (store pte 0)
                     (unmap_loop fuel pgdir (a + PGSIZE) e freeframes)))
          else unmap_loop fuel pgdir (a + PGSIZE) e freeframes))
      else ret ())"

definition unmap :: "uint \<Rightarrow> uint \<Rightarrow> uint \<Rightarrow> int \<Rightarrow> ('z kmem_scheme, unit) op" where
  "unmap pgdir va sz freeframes = unmap_loop (2 ^ 20) pgdir (PGROUNDUP va) (va + sz) freeframes"

definition freevm :: "uint \<Rightarrow> ('z vmem_scheme, unit) op" where
  "freevm pgdir =
     (if pgdir = 0 then panic ''freevm: no pgdir''
      else
        sq (deallocuvm pgdir KERNBASE 0)
       (sq (foreach [0..<NPDENTRIES] (\<lambda>i.
              bnd (load (pgdir + 4 * of_nat i)) (\<lambda>pde.
              whenM (has pde PTE_P) (kfree (p2v (PTE_ADDR pde))))))
           (kfree pgdir)))"

definition clearpteu :: "uint \<Rightarrow> uint \<Rightarrow> ('z kmem_scheme, unit) op" where
  "clearpteu pgdir uva =
     bnd (walkpgdir pgdir uva False) (\<lambda>pte.
     if pte = 0 then panic ''clearpteu''
     else bnd (load pte) (\<lambda>e. store pte (e AND NOT PTE_U)))"

text \<open>\<^verbatim>\<open>goto bad\<close> in \<^verbatim>\<open>copyuvm\<close>: the copy made so far is freed.\<close>

definition copyuvm_bad :: "uint \<Rightarrow> ('z vmem_scheme, uint) op" where
  "copyuvm_bad d = sq (freevm d) (ret 0)"

fun copyuvm_loop :: "nat \<Rightarrow> uint \<Rightarrow> uint \<Rightarrow> uint \<Rightarrow> uint \<Rightarrow> ('z vmem_scheme, uint) op" where
  "copyuvm_loop 0 pgdir d i sz = (\<lambda>s. Spin)"
| "copyuvm_loop (Suc fuel) pgdir d i sz =
     (if i < sz then
        bnd (walkpgdir pgdir i False) (\<lambda>pte.
        if pte = 0 then panic ''copyuvm: pte should exist''
        else bnd (load pte) (\<lambda>e.
          if \<not> has e PTE_P then panic ''copyuvm: page not present''
          else
            (let pa = PTE_ADDR e; flags = PTE_FLAGS e in
             bnd (gets (is_shared pa)) (\<lambda>only_map.
             if only_map = 0 then
               bnd kalloc (\<lambda>m.
               if m = 0 then copyuvm_bad d
               else
                 sq (update_mem (memmove m (p2v pa) PGSIZE))
                (bnd (mappages d i PGSIZE (v2p m) flags) (\<lambda>r.
                 if r < 0 then copyuvm_bad d
                 else copyuvm_loop fuel pgdir d (i + PGSIZE) sz)))
             else
               bnd (mappages d i PGSIZE pa flags) (\<lambda>r.
               if r < 0 then copyuvm_bad d
               else copyuvm_loop fuel pgdir d (i + PGSIZE) sz)))))
      else ret d)"

definition copyuvm :: "uint \<Rightarrow> uint \<Rightarrow> ('z vmem_scheme, uint) op" where
  "copyuvm pgdir sz =
     bnd setupkvm (\<lambda>d.
     if d = 0 then ret 0 else copyuvm_loop (2 ^ 20) pgdir d 0 sz)"

text \<open>\<^verbatim>\<open>uva2ka\<close> dereferences the entry without a null test.\<close>

definition uva2ka :: "uint \<Rightarrow> uint \<Rightarrow> ('z kmem_scheme, uint) op" where
  "uva2ka pgdir uva =
     bnd (walkpgdir pgdir uva False) (\<lambda>pte.
     if pte = 0 then undef ''uva2ka: null pte''
     else bnd (load pte) (\<lambda>e.
       if \<not> has e PTE_P then ret 0
       else if \<not> has e PTE_U then ret 0
       else ret (p2v (PTE_ADDR e))))"

fun copyout_loop :: "nat \<Rightarrow> uint \<Rightarrow> uint \<Rightarrow> uint \<Rightarrow> uint \<Rightarrow> ('z kmem_scheme, int) op" where
  "copyout_loop 0 pgdir va buf len = (\<lambda>s. Spin)"
| "copyout_loop (Suc fuel) pgdir va buf len =
     (if len > 0 then
        (let va0 = PGROUNDDOWN va in
         bnd (uva2ka pgdir va0) (\<lambda>pa0.
         if pa0 = 0 then ret (-1)
         else
           (let n0 = PGSIZE - (va - va0); n = (if n0 > len then len else n0) in
            sq (update_mem (memmove (pa0 + (va - va0)) buf n))
               (copyout_loop fuel pgdir (va0 + PGSIZE) (buf + n) (len - n)))))
      else ret 0)"

definition copyout :: "uint \<Rightarrow> uint \<Rightarrow> uint \<Rightarrow> uint \<Rightarrow> ('z kmem_scheme, int) op" where
  "copyout pgdir va p len = copyout_loop (2 ^ 20 + 2) pgdir va p len"

section \<open>What the operations keep\<close>

text \<open>The operations change the state only through the lock state, the free list and memory.\<close>

lemma keeps_memory [keeps_intros]:
  "keeps P (load a)" "(\<And>s m. P s \<Longrightarrow> P (s\<lparr>mem := m\<rparr>)) \<Longrightarrow> keeps P (store a v)"
  "(\<And>s m. P s \<Longrightarrow> P (s\<lparr>mem := m\<rparr>)) \<Longrightarrow> keeps P (update_mem f)"
  unfolding load_def store_def update_mem_def by (intro keeps_ctrl; assumption)+

lemma keeps_walkpgdir:
  "keeps P kalloc \<Longrightarrow> (\<And>s m. P s \<Longrightarrow> P (s\<lparr>mem := m\<rparr>)) \<Longrightarrow> keeps P (walkpgdir pgdir va alloc)"
  unfolding walkpgdir_def by (intro keeps_ctrl keeps_memory)

lemma keeps_walk_only [keeps_intros]: "keeps P (walkpgdir pgdir va False)"
  unfolding walkpgdir_def keeps_def load_def bnd_def gets_def ret_def by simp

lemma keeps_mappages:
  assumes "keeps P kalloc" and "\<And>s m. P s \<Longrightarrow> P (s\<lparr>mem := m\<rparr>)"
  shows "keeps P (mappages pgdir va sz pa perm)"
proof -
  have "keeps P (mappages_loop n pgdir a lst pa perm)" for n a lst pa
  proof (induction n arbitrary: a pa)
    case 0
    then show ?case by (simp add: keeps_basic)
  next
    case (Suc n)
    show ?case
      unfolding mappages_loop.simps
      by (intro keeps_ctrl keeps_walkpgdir keeps_memory assms Suc)
  qed
  then show ?thesis by (simp add: mappages_def)
qed

lemma keeps_unmap:
  assumes "freeframes = 0 \<Longrightarrow> (\<And>v. keeps P (kfree v))" and "\<And>s m. P s \<Longrightarrow> P (s\<lparr>mem := m\<rparr>)"
  shows "keeps P (unmap pgdir va sz freeframes)"
proof -
  have "keeps P (unmap_loop n pgdir a e freeframes)" for n a e
  proof (induction n arbitrary: a)
    case 0
    then show ?case by (simp add: keeps_basic)
  next
    case (Suc n)
    show ?case
      unfolding unmap_loop.simps
      by (intro keeps_ctrl keeps_walk_only keeps_memory assms Suc)
  qed
  then show ?thesis by (simp add: unmap_def)
qed

text \<open>Inside a critical section the allocator leaves the lock state as it found it.\<close>

lemma keeps_kalloc_lock:
  assumes "lock_free KmemLock k" and "cli_wf k" and "settled k = k"
  shows "keeps (\<lambda>s. cpust s = k) kalloc"
proof -
  have "\<exists>a s'. kalloc s = Ret a s' \<and> cpust s' = k" if "cpust s = k" for s :: "'z kmem_scheme"
    using kalloc_run [of s] that assms by (auto simp: kmem_ready_def kmem_settled_def)
  then show ?thesis unfolding keeps_def by fastforce
qed

end
