(* ===== verification/Pagetable.thy ===== *)
theory Pagetable
  imports Vm
begin

text \<open>
  What the page-table operations of \<open>Vm\<close> do, stated with the MMU's own view of memory.

  \<open>pte_of m pd va\<close> is the entry that a two-level walk from the directory \<open>pd\<close> finds for \<open>va\<close>.
  \<open>vm_ok ps pd s\<close> says that the directory and its page tables are different allocated pages,
  none of them on the free list \<open>ps\<close>.  Under it, mapping changes \<open>pte_of\<close> at the pages of the
  range and nowhere else, and leaves every page that is neither free nor part of the page
  table alone.
\<close>

section \<open>The MMU's view\<close>

definition pde_of :: "memory \<Rightarrow> uint \<Rightarrow> uint \<Rightarrow> uint" where
  "pde_of m pd va = ld32 m (pde_addr pd va)"

definition pgtab_of :: "memory \<Rightarrow> uint \<Rightarrow> uint \<Rightarrow> uint" where
  "pgtab_of m pd va = p2v (PTE_ADDR (pde_of m pd va))"

definition pte_of :: "memory \<Rightarrow> uint \<Rightarrow> uint \<Rightarrow> uint" where
  "pte_of m pd va =
     (if has (pde_of m pd va) PTE_P then ld32 m (pte_at (pgtab_of m pd va) va) else 0)"

text \<open>The pages that make up the page table of \<open>pd\<close>.\<close>

definition pt_page :: "memory \<Rightarrow> uint \<Rightarrow> uint \<Rightarrow> bool" where
  "pt_page m pd q \<longleftrightarrow> q = pd \<or> (\<exists>va. has (pde_of m pd va) PTE_P \<and> q = pgtab_of m pd va)"

definition vm_wf :: "uint list \<Rightarrow> uint \<Rightarrow> 'z kmem_scheme \<Rightarrow> bool" where
  "vm_wf ps pd s \<longleftrightarrow>
     (\<forall>q. pt_page (mem s) pd q \<longrightarrow> kpage s q \<and> q \<notin> set ps) \<and>
     (\<forall>va. has (pde_of (mem s) pd va) PTE_P \<longrightarrow> pgtab_of (mem s) pd va \<noteq> pd) \<and>
     (\<forall>va va'. has (pde_of (mem s) pd va) PTE_P \<longrightarrow> has (pde_of (mem s) pd va') PTE_P \<longrightarrow>
        pgtab_of (mem s) pd va = pgtab_of (mem s) pd va' \<longrightarrow> PDX va = PDX va')"

definition vm_ok :: "uint list \<Rightarrow> uint \<Rightarrow> 'z kmem_scheme \<Rightarrow> bool" where
  "vm_ok ps pd s \<longleftrightarrow> kmem_inv ps s \<and> kmem_ready s \<and> vm_wf ps pd s"

lemma vm_ok_cong:
  assumes "mem s' = mem s" "freelist s' = freelist s" "kend s' = kend s" "kmem_ready s'" "vm_ok ps pd s"
  shows "vm_ok ps pd s'"
proof -
  have "kpage s' = kpage s" using assms(3) by (simp add: kpage_def fun_eq_iff)
  then have "kmem_inv ps s' = kmem_inv ps s" "vm_wf ps pd s' = vm_wf ps pd s"
    unfolding kmem_inv_def vm_wf_def assms(1,2) by simp_all
  then show ?thesis using assms(4,5) by (simp add: vm_ok_def)
qed

text \<open>What no page operation changes.\<close>

definition kframe :: "'z kmem_scheme \<Rightarrow> 'z kmem_scheme \<Rightarrow> bool" where
  "kframe s s' \<longleftrightarrow> kend s' = kend s \<and> use_lock s' = use_lock s \<and> kmem.more s' = kmem.more s"

lemma kframe_refl [simp]: "kframe s s"
  by (simp add: kframe_def)

lemma kframe_trans: "kframe s t \<Longrightarrow> kframe t u \<Longrightarrow> kframe s u"
  by (simp add: kframe_def)

lemma kframe_kpage: "kframe s s' \<Longrightarrow> kpage s' q = kpage s q"
  by (simp add: kframe_def kpage_def)

section \<open>Indices and words in a page\<close>

lemma word_index:
  "(i :: uint) < 1024 \<Longrightarrow> unat (4 * i) = 4 * unat i" "(i :: uint) < 1024 \<Longrightarrow> 4 * i \<le> 4092"
  by (simp_all add: word_less_nat_alt word_le_nat_alt unat_word_ariths)

lemma word_cells_disjoint:
  fixes i j a b :: uint
  assumes "i < 1024" and "j < 1024" and "i \<noteq> j" and "a < 4" and "b < 4"
  shows "p + 4 * i + a \<noteq> p + 4 * j + b"
proof
  assume "p + 4 * i + a = p + 4 * j + b"
  then have "4 * i + a = 4 * j + b" by (simp add: add.assoc)
  then have "unat (4 * i + a) = unat (4 * j + b)" by simp
  then have "4 * unat i + unat a = 4 * unat j + unat b"
    using assms by (simp add: unat_word_ariths word_less_nat_alt)
  then have "unat i = unat j"
    using assms(4,5) by (simp add: word_less_nat_alt)
  then show False using assms(3) by (simp add: word_unat_eq_iff)
qed

lemma ld32_st32_index:
  assumes "i < 1024" and "j < 1024" and "i \<noteq> j"
  shows "ld32 (st32 m (p + 4 * i) v) (p + 4 * (j :: uint)) = ld32 m (p + 4 * j)"
proof -
  have "p + 4 * j + b \<noteq> p + 4 * i + a" if "a < 4" "b < 4" for a b
    using word_cells_disjoint [OF assms(2,1) assms(3) [symmetric] that(2,1)] .
  from this [of 0 0] this [of 1 0] this [of 2 0] this [of 3 0]
    this [of 0 1] this [of 1 1] this [of 2 1] this [of 3 1]
    this [of 0 2] this [of 1 2] this [of 2 2] this [of 3 2]
    this [of 0 3] this [of 1 3] this [of 2 3] this [of 3 3]
  show ?thesis
    by (intro ld32_cong) (simp_all add: st32_def)
qed

lemma PDX_PGROUNDDOWN [simp]: "PDX (PGROUNDDOWN a) = PDX a"
  and PTX_PGROUNDDOWN [simp]: "PTX (PGROUNDDOWN a) = PTX a"
  by (auto simp: PDX_take PTX_take PGROUNDDOWN_def mask12 bit_simps intro!: bit_word_eqI)

lemma same_page_iff: "PDX a = PDX b \<and> PTX a = PTX b \<longleftrightarrow> PGROUNDDOWN a = PGROUNDDOWN b"
proof
  assume e: "PGROUNDDOWN a = PGROUNDDOWN b"
  show "PDX a = PDX b \<and> PTX a = PTX b"
    using PDX_PGROUNDDOWN [of a] PTX_PGROUNDDOWN [of a] unfolding e by simp
qed (blast intro: same_page_index)

section \<open>Framing\<close>

lemma pde_of_cong: "agree pd m m' \<Longrightarrow> pde_of m pd va = pde_of m' pd va"
  unfolding pde_of_def pde_addr_def by (intro ld32_agree) (simp_all add: word_index PDX_less)

lemma pgtab_of_cong: "agree pd m m' \<Longrightarrow> pgtab_of m pd va = pgtab_of m' pd va"
  by (simp add: pgtab_of_def pde_of_cong)

lemma pte_of_cong:
  assumes "\<And>q. pt_page m pd q \<Longrightarrow> agree q m m'"
  shows "pte_of m pd va = pte_of m' pd va"
proof -
  have a: "agree pd m m'" using assms by (simp add: pt_page_def)
  have "ld32 m (pte_at (pgtab_of m pd va) va) = ld32 m' (pte_at (pgtab_of m pd va) va)"
    if "has (pde_of m pd va) PTE_P"
    unfolding pte_at_def using assms that
    by (intro ld32_agree) (auto simp: word_index PTX_less pt_page_def)
  then show ?thesis
    by (simp add: pte_of_def pde_of_cong [OF a] pgtab_of_cong [OF a])
qed

lemma pt_page_cong:
  assumes "agree pd m m'"
  shows "pt_page m' pd q = pt_page m pd q"
  by (simp add: pt_page_def pde_of_cong [OF assms] pgtab_of_cong [OF assms])

lemma vm_wf_cong:
  assumes "agree pd (mem s) (mem s')" and "kend s' = kend s" and "set ps' \<subseteq> set ps"
    and "vm_wf ps pd s"
  shows "vm_wf ps' pd s'"
proof -
  have e: "pde_of (mem s') pd = pde_of (mem s) pd" "pgtab_of (mem s') pd = pgtab_of (mem s) pd"
    "pt_page (mem s') pd = pt_page (mem s) pd" "kpage s' = kpage s"
    using pde_of_cong [OF assms(1)] pgtab_of_cong [OF assms(1)] pt_page_cong [OF assms(1)] assms(2)
    by (simp_all add: fun_eq_iff kpage_def)
  show ?thesis
    using assms(3,4) unfolding vm_wf_def e by blast
qed

lemma vm_wf_dir: "vm_wf ps pd s \<Longrightarrow> kpage s pd \<and> pgalign pd \<and> pd \<notin> set ps"
  by (auto simp: vm_wf_def pt_page_def kpage_def)

lemma vm_wf_tab:
  "vm_wf ps pd s \<Longrightarrow> has (pde_of (mem s) pd va) PTE_P \<Longrightarrow>
     kpage s (pgtab_of (mem s) pd va) \<and> pgalign (pgtab_of (mem s) pd va) \<and>
     pgtab_of (mem s) pd va \<notin> set ps \<and> pgtab_of (mem s) pd va \<noteq> pd"
  unfolding vm_wf_def pt_page_def kpage_def by blast

lemma vm_wf_inj:
  "vm_wf ps pd s \<Longrightarrow> has (pde_of (mem s) pd va) PTE_P \<Longrightarrow> has (pde_of (mem s) pd va') PTE_P \<Longrightarrow>
     pgtab_of (mem s) pd va = pgtab_of (mem s) pd va' \<Longrightarrow> PDX va = PDX va'"
  unfolding vm_wf_def by blast

section \<open>Storing an entry\<close>

lemma agree_pte_at:
  "pgalign q \<Longrightarrow> pgalign t \<Longrightarrow> q \<noteq> t \<Longrightarrow> agree q m (st32 m (pte_at t va) v)"
  unfolding pte_at_def by (rule agree_st32) (simp_all add: word_index PTX_less)

lemma agree_pde_addr:
  "pgalign q \<Longrightarrow> pgalign t \<Longrightarrow> q \<noteq> t \<Longrightarrow> agree q m (st32 m (pde_addr t va) v)"
  unfolding pde_addr_def by (rule agree_st32) (simp_all add: word_index PDX_less)

lemma pte_of_set_pte:
  fixes v :: uint
  assumes wf: "vm_wf ps pd s" and p: "has (pde_of (mem s) pd va) PTE_P"
  defines "m' \<equiv> st32 (mem s) (pte_at (pgtab_of (mem s) pd va) va) v"
  shows "pte_of m' pd va' =
    (if PGROUNDDOWN va' = PGROUNDDOWN va then v else pte_of (mem s) pd va')"
    and "agree pd (mem s) m'"
proof -
  let ?t = "pgtab_of (mem s) pd va"
  show ag: "agree pd (mem s) m'"
    unfolding m'_def using vm_wf_dir [OF wf] vm_wf_tab [OF wf p] by (intro agree_pte_at) auto
  have pde: "pde_of m' pd x = pde_of (mem s) pd x" and tab: "pgtab_of m' pd x = pgtab_of (mem s) pd x" for x
    using pde_of_cong [OF ag] pgtab_of_cong [OF ag] by simp_all
  show "pte_of m' pd va' = (if PGROUNDDOWN va' = PGROUNDDOWN va then v else pte_of (mem s) pd va')"
  proof (cases "has (pde_of (mem s) pd va') PTE_P \<and> pgtab_of (mem s) pd va' = ?t")
    case True
    then have "PDX va' = PDX va" using vm_wf_inj [OF wf _ p] by blast
    moreover have "PTX va' \<noteq> PTX va \<Longrightarrow> ld32 m' (?t + 4 * PTX va') = ld32 (mem s) (?t + 4 * PTX va')"
      unfolding m'_def pte_at_def by (rule ld32_st32_index) (auto simp: PTX_less)
    moreover have "PTX va' = PTX va \<Longrightarrow> ld32 m' (?t + 4 * PTX va') = v"
      by (simp add: m'_def pte_at_def)
    ultimately show ?thesis
      using True p by (auto simp: pte_of_def pde tab same_page_iff [symmetric] pte_at_def)
  next
    case False
    have "PGROUNDDOWN va' \<noteq> PGROUNDDOWN va"
    proof
      assume "PGROUNDDOWN va' = PGROUNDDOWN va"
      then have "PDX va' = PDX va" by (simp add: same_page_iff [symmetric])
      then have "pde_of (mem s) pd va' = pde_of (mem s) pd va" by (simp add: pde_of_def pde_addr_def)
      with False p show False by (simp add: pgtab_of_def)
    qed
    moreover have "ld32 m' (pte_at (pgtab_of (mem s) pd va') va') = ld32 (mem s) (pte_at (pgtab_of (mem s) pd va') va')"
      if "has (pde_of (mem s) pd va') PTE_P"
    proof -
      have "agree (pgtab_of (mem s) pd va') m' (mem s)"
        unfolding m'_def using False that vm_wf_tab [OF wf p] vm_wf_tab [OF wf that]
        by (intro agree_sym [OF agree_pte_at]) auto
      then show ?thesis
        unfolding pte_at_def by (rule ld32_agree) (simp add: word_index PTX_less)
    qed
    ultimately show ?thesis by (simp add: pte_of_def pde tab)
  qed
qed

section \<open>Adding a page table\<close>

lemma new_pde:
  assumes "pgalign p"
  shows "has (v2p p OR PTE_P OR PTE_W OR PTE_U) PTE_P"
    and "p2v (PTE_ADDR (v2p p OR PTE_P OR PTE_W OR PTE_U)) = p"
proof -
  have "PTE_P OR PTE_W OR PTE_U = 7" by simp
  moreover have "PTE_ADDR (v2p p OR 7) = v2p p"
    using assms by (intro PTE_ADDR_or) simp_all
  ultimately show "p2v (PTE_ADDR (v2p p OR PTE_P OR PTE_W OR PTE_U)) = p" by simp
  show "has (v2p p OR PTE_P OR PTE_W OR PTE_U) PTE_P"
    by (simp add: has_or) (simp add: has_def)
qed

definition add_table :: "memory \<Rightarrow> uint \<Rightarrow> uint \<Rightarrow> uint \<Rightarrow> memory" where
  "add_table m pd va p =
     st32 (memset p 0 PGSIZE m) (pde_addr pd va) (v2p p OR PTE_P OR PTE_W OR PTE_U)"

lemma add_table_agree:
  "pgalign q \<Longrightarrow> pgalign pd \<Longrightarrow> pgalign p \<Longrightarrow> q \<noteq> pd \<Longrightarrow> q \<noteq> p \<Longrightarrow> agree q m (add_table m pd va p)"
  unfolding add_table_def using agree_memset agree_pde_addr agree_trans by blast

lemma add_table_pde:
  assumes "pgalign pd" and "pgalign p" and "p \<noteq> pd"
  shows "pde_of (add_table m pd va p) pd x =
    (if PDX x = PDX va then v2p p OR PTE_P OR PTE_W OR PTE_U else pde_of m pd x)"
proof -
  have "agree pd m (memset p 0 PGSIZE m)"
    using assms by (intro agree_memset) auto
  then have "pde_of (memset p 0 PGSIZE m) pd x = pde_of m pd x"
    using pde_of_cong agree_sym by blast
  moreover have "PDX x \<noteq> PDX va \<Longrightarrow> ld32 (add_table m pd va p) (pd + 4 * PDX x) =
      ld32 (memset p 0 PGSIZE m) (pd + 4 * PDX x)"
    unfolding add_table_def pde_addr_def by (rule ld32_st32_index) (auto simp: PDX_less)
  ultimately show ?thesis
    by (auto simp: pde_of_def pde_addr_def) (simp add: add_table_def pde_addr_def)
qed

lemma add_table_zero:
  assumes "pgalign pd" and "pgalign p" and "p \<noteq> pd"
  shows "ld32 (add_table m pd va p) (pte_at p x) = 0"
proof -
  have "agree p (memset p 0 PGSIZE m) (add_table m pd va p)"
    unfolding add_table_def using assms by (intro agree_pde_addr) auto
  then have "ld32 (add_table m pd va p) (pte_at p x) = ld32 (memset p 0 PGSIZE m) (pte_at p x)"
    unfolding pte_at_def by (intro ld32_agree [symmetric]) (simp_all add: word_index PTX_less)
  also have "\<dots> = 0"
    using inpg_words [of "4 * PTX x" p] word_index(2) [OF PTX_less, of x]
    by (simp add: ld32_def pte_at_def memset_apply inpg_def)
  finally show ?thesis .
qed

lemma add_table_pte:
  assumes wf: "vm_wf ps pd s" and p: "kpage s p" "p \<in> set ps" and np: "\<not> has (pde_of (mem s) pd va) PTE_P"
  shows "pte_of (add_table (mem s) pd va p) pd x = pte_of (mem s) pd x"
    and "pt_page (add_table (mem s) pd va p) pd q \<longleftrightarrow> q = p \<or> pt_page (mem s) pd q"
proof -
  let ?m = "add_table (mem s) pd va p"
  have al: "pgalign pd" "pgalign p" "p \<noteq> pd"
    using vm_wf_dir [OF wf] p by (auto simp: kpage_def)
  note pde = add_table_pde [OF al, of "mem s" va] and new = new_pde [OF al(2)]
  have old: "\<not> has (pde_of (mem s) pd y) PTE_P" if "PDX y = PDX va" for y
    using that np by (simp add: pde_of_def pde_addr_def)
  show "pte_of ?m pd x = pte_of (mem s) pd x"
  proof (cases "PDX x = PDX va")
    case True
    then show ?thesis
      using old new add_table_zero [OF al] by (simp add: pte_of_def pde pgtab_of_def)
  next
    case False
    have "ld32 ?m (pte_at t x) = ld32 (mem s) (pte_at t x)"
      if "has (pde_of (mem s) pd x) PTE_P" "t = pgtab_of (mem s) pd x" for t
    proof -
      have "agree t (mem s) ?m"
        using vm_wf_tab [OF wf that(1)] that(2) p al by (intro add_table_agree) auto
      then show ?thesis
        unfolding pte_at_def by (intro ld32_agree [symmetric]) (simp_all add: word_index PTX_less)
    qed
    with False show ?thesis by (simp add: pte_of_def pde pgtab_of_def)
  qed
  show "pt_page ?m pd q \<longleftrightarrow> q = p \<or> pt_page (mem s) pd q"
    using old new by (auto simp: pt_page_def pde pgtab_of_def)
qed

lemma add_table_wf:
  assumes wf: "vm_wf (p # ps) pd s" and k: "kpage s p" and d: "p \<notin> set ps"
    and np: "\<not> has (pde_of (mem s) pd va) PTE_P"
    and s': "mem s' = add_table (mem s) pd va p" "kend s' = kend s"
  shows "vm_wf ps pd s'"
proof -
  have al: "pgalign pd" "pgalign p" "p \<noteq> pd"
    using vm_wf_dir [OF wf] k by (auto simp: kpage_def)
  note pde = add_table_pde [OF al, of "mem s" va] and new = new_pde [OF al(2)]
  have pg: "kpage s' = kpage s" using s' by (simp add: kpage_def fun_eq_iff)
  have np': "pgtab_of (mem s) pd x \<noteq> p" if "has (pde_of (mem s) pd x) PTE_P" for x
    using vm_wf_tab [OF wf that] by auto
  show ?thesis
    unfolding vm_wf_def
  proof (intro conjI allI impI)
    fix q assume "pt_page (mem s') pd q"
    then have "q = p \<or> pt_page (mem s) pd q"
      using add_table_pte(2) [OF wf k _ np] s' by simp
    then show "kpage s' q" and "q \<notin> set ps"
      using wf k d unfolding vm_wf_def pg by auto
  next
    fix x assume "has (pde_of (mem s') pd x) PTE_P"
    then show "pgtab_of (mem s') pd x \<noteq> pd"
      using vm_wf_tab [OF wf, of x] new al by (auto simp: s' pde pgtab_of_def split: if_splits)
  next
    fix x y assume "has (pde_of (mem s') pd x) PTE_P" "has (pde_of (mem s') pd y) PTE_P"
      "pgtab_of (mem s') pd x = pgtab_of (mem s') pd y"
    then show "PDX x = PDX y"
      using vm_wf_inj [OF wf, of x y] new np' [of x] np' [of y]
      by (auto simp: s' pde pgtab_of_def split: if_splits)
  qed
qed

section \<open>walkpgdir\<close>

lemma load_run [runs_simps]: "runs (load a) s Q \<longleftrightarrow> Q (ld32 (mem s) a) s"
  by (simp add: load_def runs_simps)

lemma store_run [runs_simps]: "runs (store a v) s Q \<longleftrightarrow> Q () (s\<lparr>mem := st32 (mem s) a v\<rparr>)"
  by (simp add: store_def runs_simps)

lemma update_mem_run [runs_simps]: "runs (update_mem f) s Q \<longleftrightarrow> Q () (s\<lparr>mem := f (mem s)\<rparr>)"
  by (simp add: update_mem_def runs_simps)

lemma kalloc_runs [runs_simps]:
  "kmem_ready s \<Longrightarrow> runs kalloc s Q \<longleftrightarrow> Q (freelist s) (s\<lparr>cpust := kmem_settled s,
     freelist := (if freelist s = 0 then 0 else ld32 (mem s) (freelist s))\<rparr>)"
  by (simp add: runs_def kalloc_run)

lemma load_apply [op_simps]: "load a s = Ret (ld32 (mem s) a) s"
  by (simp add: load_def op_simps)

lemma walk_noalloc:
  "walkpgdir pd va False s =
     Ret (if has (pde_of (mem s) pd va) PTE_P then pte_at (pgtab_of (mem s) pd va) va else 0) s"
  by (simp add: walkpgdir_def op_simps pde_of_def pgtab_of_def)

text \<open>A page-table entry never has address 0, so the null result of \<open>walkpgdir\<close> is unambiguous.\<close>

lemma pte_at_nonnull:
  assumes "pgalign t" and "t \<noteq> 0"
  shows "pte_at t va \<noteq> 0"
proof -
  have "inpg t (pte_at t va)"
    unfolding pte_at_def using inpg_words(1) word_index(2) [OF PTX_less] by blast
  moreover have "pgalign 0" "inpg 0 0" by (simp_all add: pgalign_def inpg_def)
  ultimately show ?thesis
    using inpg_unique [of t 0 0] assms by auto
qed

text \<open>Pages outside the page table and outside the free list keep their bytes.\<close>

definition others_kept :: "uint list \<Rightarrow> uint \<Rightarrow> 'z kmem_scheme \<Rightarrow> 'z kmem_scheme \<Rightarrow> bool" where
  "others_kept ps pd s s' \<longleftrightarrow>
     (\<forall>q. pgalign q \<longrightarrow> q \<notin> set ps \<longrightarrow> \<not> pt_page (mem s) pd q \<longrightarrow> agree q (mem s) (mem s'))"

text \<open>New page tables come from the free list.\<close>

definition tables_from :: "uint list \<Rightarrow> uint \<Rightarrow> 'z kmem_scheme \<Rightarrow> 'z kmem_scheme \<Rightarrow> bool" where
  "tables_from ps pd s s' \<longleftrightarrow>
     (\<forall>q. pt_page (mem s) pd q \<longrightarrow> pt_page (mem s') pd q) \<and>
     (\<forall>q. pt_page (mem s') pd q \<longrightarrow> pt_page (mem s) pd q \<or> q \<in> set ps)"

text \<open>A page that leaves the free list is a page table afterwards.\<close>

definition spent :: "uint list \<Rightarrow> uint list \<Rightarrow> uint \<Rightarrow> 'z kmem_scheme \<Rightarrow> bool" where
  "spent ps ps' pd s' \<longleftrightarrow> set ps' \<subseteq> set ps \<and> (\<forall>q \<in> set ps. q \<in> set ps' \<or> pt_page (mem s') pd q)"

lemma spent_refl [simp]: "spent ps ps pd s"
  by (simp add: spent_def)

lemma spent_set: "spent ps ps' pd s \<Longrightarrow> set ps' \<subseteq> set ps"
  by (simp add: spent_def)

lemma spent_trans: "spent ps ps' pd t \<Longrightarrow> spent ps' qs pd u \<Longrightarrow> tables_from ps' pd t u \<Longrightarrow> spent ps qs pd u"
  unfolding spent_def tables_from_def by blast

lemma walk_alloc_new:
  assumes ok: "vm_ok (p # qs) pd s" and np: "\<not> has (pde_of (mem s) pd va) PTE_P"
    and s': "s' = s\<lparr>cpust := kmem_settled s, freelist := ld32 (mem s) p,
      mem := add_table (mem s) pd va p\<rparr>"
  shows "vm_ok qs pd s'" and "others_kept (p # qs) pd s s'" and "tables_from (p # qs) pd s s'"
    and "pte_of (mem s') pd = pte_of (mem s) pd" and "has (pde_of (mem s') pd va) PTE_P"
    and "pgtab_of (mem s') pd va = p" and "spent (p # qs) qs pd s'"
proof -
  have inv: "kmem_inv (p # qs) s" "kmem_ready s" and wf: "vm_wf (p # qs) pd s"
    using ok by (simp_all add: vm_ok_def)
  have p: "kpage s p" "p \<notin> set qs" using inv(1) by (auto simp: kmem_inv_def)
  have al: "pgalign pd" "pgalign p" "p \<noteq> pd"
    using vm_wf_dir [OF wf] p by (auto simp: kpage_def)
  have m': "mem s' = add_table (mem s) pd va p" by (simp add: s')
  have "agree q (mem s) (mem s')" if "q \<in> set qs" for q
    unfolding m' using that inv(1) al p(2) vm_wf_dir [OF wf]
    by (intro add_table_agree) (auto simp: kmem_inv_def kpage_def)
  then have "kmem_inv qs s'"
    using kmem_inv_kalloc(3) [OF inv(1), of "kmem_settled s"]
    by (subst kmem_inv_cong [of qs "s\<lparr>cpust := kmem_settled s, freelist := ld32 (mem s) p\<rparr>"])
      (simp_all add: s')
  then show "vm_ok qs pd s'"
    using kmem_ready_settled [OF inv(2), of s'] add_table_wf [OF wf p np m'] by (simp add: vm_ok_def s')
  show "others_kept (p # qs) pd s s'"
    unfolding others_kept_def m' using al by (auto simp: pt_page_def intro!: add_table_agree)
  show "tables_from (p # qs) pd s s'"
    unfolding tables_from_def m' add_table_pte(2) [OF wf p(1) _ np, simplified] by auto
  show "pte_of (mem s') pd = pte_of (mem s) pd"
    unfolding m' using add_table_pte(1) [OF wf p(1) _ np] by auto
  show h: "has (pde_of (mem s') pd va) PTE_P" "pgtab_of (mem s') pd va = p"
    unfolding m' pgtab_of_def add_table_pde [OF al] using new_pde [OF al(2)] by simp_all
  then have "pt_page (mem s') pd p" unfolding pt_page_def by blast
  then show "spent (p # qs) qs pd s'" by (auto simp: spent_def)
qed

lemma walk_alloc:
  assumes ok: "vm_ok ps pd s"
  shows "runs (walkpgdir pd va True) s (\<lambda>r s'. kframe s s' \<and> others_kept ps pd s s' \<and>
    tables_from ps pd s s' \<and> pte_of (mem s') pd = pte_of (mem s) pd \<and>
    (\<exists>ps'. vm_ok ps' pd s' \<and> spent ps ps' pd s' \<and>
      (if r = 0 then ps = []
       else has (pde_of (mem s') pd va) PTE_P \<and> r = pte_at (pgtab_of (mem s') pd va) va)))"
proof (cases "has (pde_of (mem s) pd va) PTE_P")
  case True
  have wf: "vm_wf ps pd s" using ok by (simp add: vm_ok_def)
  have "pte_at (pgtab_of (mem s) pd va) va \<noteq> 0"
    using vm_wf_tab [OF wf True] pte_at_nonnull kpage_nonnull by blast
  then show ?thesis
    using True ok
    by (auto simp: walkpgdir_def runs_simps pde_of_def pgtab_of_def others_kept_def tables_from_def)
next
  case False
  have inv: "kmem_inv ps s" "kmem_ready s" "vm_wf ps pd s" using ok by (simp_all add: vm_ok_def)
  show ?thesis
  proof (cases ps)
    case Nil
    then have z: "freelist s = 0" using inv by (simp add: kmem_inv_Nil)
    let ?s = "s\<lparr>cpust := kmem_settled s, freelist := 0\<rparr>"
    have "vm_ok [] pd ?s"
      using inv Nil kmem_ready_settled [OF inv(2), of ?s] vm_wf_cong [of pd s ?s "[]" "[]"]
      by (simp add: vm_ok_def kmem_inv_Nil)
    then show ?thesis
      using False z inv(2) Nil
      by (auto simp: walkpgdir_def runs_simps pde_of_def others_kept_def tables_from_def kframe_def)
  next
    case (Cons p qs)
    have p: "freelist s = p" "p \<noteq> 0" "kpage s p"
      using inv(1) Cons by (auto simp: kmem_inv_def)
    note new = walk_alloc_new [OF ok [unfolded Cons] False refl]
    have "pte_at p va \<noteq> 0" using p pte_at_nonnull kpage_pgalign by blast
    then show ?thesis
      using new False p inv(2) unfolding Cons
      by (fastforce simp: walkpgdir_def runs_simps pde_of_def [symmetric] add_table_def kframe_def)
  qed
qed

section \<open>mappages\<close>

lemma set_pte_ok:
  assumes ok: "vm_ok ps pd s" and p: "has (pde_of (mem s) pd va) PTE_P"
    and s': "s' = s\<lparr>mem := st32 (mem s) (pte_at (pgtab_of (mem s) pd va) va) v\<rparr>"
  shows "vm_ok ps pd s'" and "others_kept ps pd s s'" and "tables_from ps pd s s'"
    and "pte_of (mem s') pd x = (if PGROUNDDOWN x = PGROUNDDOWN va then v else pte_of (mem s) pd x)"
proof -
  have inv: "kmem_inv ps s" "kmem_ready s" and wf: "vm_wf ps pd s"
    using ok by (simp_all add: vm_ok_def)
  note tab = vm_wf_tab [OF wf p]
  have m': "mem s' = st32 (mem s) (pte_at (pgtab_of (mem s) pd va) va) v" by (simp add: s')
  have ag: "agree q (mem s) (mem s')" if "pgalign q" "q \<noteq> pgtab_of (mem s) pd va" for q
    unfolding m' using that tab by (intro agree_pte_at) auto
  have agd: "agree pd (mem s) (mem s')"
    unfolding m' by (rule pte_of_set_pte(2) [OF wf p])
  have "kmem_inv ps s'"
    using inv(1) tab ag by (subst kmem_inv_cong [of ps s]) (auto simp: s' kmem_inv_def kpage_def)
  then show "vm_ok ps pd s'"
    using inv(2) vm_wf_cong [OF agd _ subset_refl wf] by (simp add: vm_ok_def kmem_ready_def s')
  show "others_kept ps pd s s'"
    using ag p by (auto simp: others_kept_def pt_page_def)
  show "tables_from ps pd s s'"
    by (simp add: tables_from_def pt_page_cong [OF agd])
  show "pte_of (mem s') pd x = (if PGROUNDDOWN x = PGROUNDDOWN va then v else pte_of (mem s) pd x)"
    unfolding m' by (rule pte_of_set_pte(1) [OF wf p])
qed

lemma others_kept_trans:
  "others_kept ps pd s t \<Longrightarrow> tables_from ps pd s t \<Longrightarrow> others_kept ps' pd t u \<Longrightarrow> set ps' \<subseteq> set ps \<Longrightarrow>
     others_kept ps pd s u"
  unfolding others_kept_def tables_from_def using agree_trans by blast

lemma tables_from_trans:
  "tables_from ps pd s t \<Longrightarrow> tables_from ps' pd t u \<Longrightarrow> set ps' \<subseteq> set ps \<Longrightarrow> tables_from ps pd s u"
  unfolding tables_from_def by blast

text \<open>
  \<open>mapped pd a lst pa perm s s'\<close>: the entries of the pages from \<open>a\<close> to \<open>lst\<close> are the consecutive
  frames from \<open>pa\<close>, and no other entry changed.
\<close>

definition mapped :: "uint \<Rightarrow> uint \<Rightarrow> uint \<Rightarrow> uint \<Rightarrow> uint \<Rightarrow> 'z kmem_scheme \<Rightarrow> 'z kmem_scheme \<Rightarrow> bool" where
  "mapped pd a lst pa perm s s' \<longleftrightarrow>
     (\<forall>va. pte_of (mem s') pd va =
        (if PGROUNDDOWN va - a \<le> lst - a then (pa + (PGROUNDDOWN va - a)) OR perm OR PTE_P
         else pte_of (mem s) pd va))"

definition kept_outside :: "uint \<Rightarrow> uint \<Rightarrow> uint \<Rightarrow> 'z kmem_scheme \<Rightarrow> 'z kmem_scheme \<Rightarrow> bool" where
  "kept_outside pd a lst s s' \<longleftrightarrow>
     (\<forall>va. \<not> PGROUNDDOWN va - a \<le> lst - a \<longrightarrow> pte_of (mem s') pd va = pte_of (mem s) pd va)"

lemma unat_pages: "n < 2 ^ 20 \<Longrightarrow> unat (of_nat n * PGSIZE) = n * 4096"
proof -
  assume "n < 2 ^ 20"
  then have "n * 4096 < 2 ^ 32" by simp
  moreover have "of_nat n * PGSIZE = of_nat (n * 4096)" by simp
  ultimately show ?thesis
    by (simp only: unsigned_of_nat take_bit_nat_eq_self) (simp add: take_bit_nat_eq_self)
qed

lemma page_distance:
  assumes "pgalign a" and lst: "lst = a + of_nat (Suc n) * PGSIZE" and n: "Suc n < 2 ^ 20"
  shows "PGROUNDDOWN va - a \<le> lst - a \<longleftrightarrow>
     PGROUNDDOWN va = a \<or> PGROUNDDOWN va - (a + PGSIZE) \<le> lst - (a + PGSIZE)"
    and "PGROUNDDOWN va = a \<Longrightarrow> \<not> PGROUNDDOWN va - (a + PGSIZE) \<le> lst - (a + PGSIZE)"
proof -
  let ?d = "PGROUNDDOWN va - a"
  have D: "unat (lst - a) = Suc n * 4096"
    unfolding lst using unat_pages [OF n] by (simp del: of_nat_Suc)
  have "lst - (a + PGSIZE) = of_nat n * PGSIZE" unfolding lst by (simp add: algebra_simps)
  then have E: "unat (lst - (a + PGSIZE)) = n * 4096"
    using unat_pages [of n] n by simp
  have "pgalign ?d" using assms(1) by (simp add: pgalign_sub)
  then obtain c where c: "unat ?d = 4096 * c" by (auto simp: pgalign_dvd dvd_def)
  have d: "PGROUNDDOWN va - (a + PGSIZE) = ?d - PGSIZE" by simp
  have top: "unat (- 4096 :: uint) = 4294963200" by simp
  show "PGROUNDDOWN va = a \<Longrightarrow> \<not> PGROUNDDOWN va - (a + PGSIZE) \<le> lst - (a + PGSIZE)"
  proof -
    assume e: "PGROUNDDOWN va = a"
    have "a - (a + PGSIZE) = - 4096" by simp
    then show ?thesis using n unfolding e word_le_nat_alt E by (simp only: top) simp
  qed
  moreover have "?d \<le> lst - a \<longleftrightarrow> PGROUNDDOWN va - (a + PGSIZE) \<le> lst - (a + PGSIZE)"
    if "PGROUNDDOWN va \<noteq> a"
  proof -
    have "unat ?d \<noteq> 0" using that by (simp add: unat_eq_0)
    then obtain k where k: "c = Suc k" using c by (cases c) auto
    then have "PGSIZE \<le> ?d" using c by (simp add: word_le_nat_alt)
    then have "unat (?d - PGSIZE) = unat ?d - unat PGSIZE" by (rule unat_sub)
    then have e: "unat (?d - PGSIZE) = 4096 * k" unfolding c k by simp
    show ?thesis unfolding word_le_nat_alt d D E c e k by auto
  qed
  moreover have "PGROUNDDOWN va = a \<Longrightarrow> ?d \<le> lst - a" by simp
  ultimately show "?d \<le> lst - a \<longleftrightarrow>
     PGROUNDDOWN va = a \<or> PGROUNDDOWN va - (a + PGSIZE) \<le> lst - (a + PGSIZE)" by blast
qed

text \<open>The first page of a range, and the rest of it.\<close>

lemma mapped_step:
  assumes "pgalign a" and "lst = a + of_nat (Suc n) * PGSIZE" and "Suc n < 2 ^ 20"
    and "\<And>x. pte_of (mem t) pd x =
      (if PGROUNDDOWN x = PGROUNDDOWN a then pa OR perm OR PTE_P else pte_of (mem s) pd x)"
  shows "mapped pd (a + PGSIZE) lst (pa + PGSIZE) perm t u \<Longrightarrow> mapped pd a lst pa perm s u"
    and "kept_outside pd (a + PGSIZE) lst t u \<Longrightarrow> kept_outside pd a lst s u"
proof -
  note D = page_distance [OF assms(1-3)] and al = PGROUNDDOWN_pgalign [OF assms(1)]
  show "mapped pd a lst pa perm s u" if "mapped pd (a + PGSIZE) lst (pa + PGSIZE) perm t u"
    unfolding mapped_def
  proof
    fix va
    show "pte_of (mem u) pd va = (if PGROUNDDOWN va - a \<le> lst - a
        then (pa + (PGROUNDDOWN va - a)) OR perm OR PTE_P else pte_of (mem s) pd va)"
      using that assms(4) [of va] D(1) [of va] D(2) [of va]
      unfolding mapped_def al by (simp add: algebra_simps)
  qed
  show "kept_outside pd a lst s u" if "kept_outside pd (a + PGSIZE) lst t u"
    using that unfolding kept_outside_def D(1) assms(4) al by simp
qed

lemma mapped_one:
  assumes "pgalign a"
    and "\<And>x. pte_of (mem t) pd x =
      (if PGROUNDDOWN x = PGROUNDDOWN a then pa OR perm OR PTE_P else pte_of (mem s) pd x)"
  shows "mapped pd a a pa perm s t"
  using PGROUNDDOWN_pgalign [OF assms(1)] by (simp add: mapped_def assms(2))

text \<open>What a call of \<open>mappages\<close> may leave behind.\<close>

definition map_post :: "uint list \<Rightarrow> uint \<Rightarrow> uint \<Rightarrow> uint \<Rightarrow> uint \<Rightarrow> uint \<Rightarrow>
    'z kmem_scheme \<Rightarrow> int \<Rightarrow> 'z kmem_scheme \<Rightarrow> bool" where
  "map_post ps pd a lst pa perm s r s' \<longleftrightarrow>
     kframe s s' \<and> others_kept ps pd s s' \<and> tables_from ps pd s s' \<and>
     (\<exists>ps'. vm_ok ps' pd s' \<and> spent ps ps' pd s' \<and> (r = -1 \<longrightarrow> ps' = [])) \<and>
     (r = 0 \<and> mapped pd a lst pa perm s s' \<or> r = -1 \<and> kept_outside pd a lst s s')"

text \<open>One round of the loop up to the store of the entry.\<close>

definition map_first_post :: "uint list \<Rightarrow> uint \<Rightarrow> uint \<Rightarrow> uint \<Rightarrow> 'z kmem_scheme \<Rightarrow> 'z kmem_scheme \<Rightarrow> bool" where
  "map_first_post ps pd a v s t \<longleftrightarrow>
     kframe s t \<and> others_kept ps pd s t \<and> tables_from ps pd s t \<and>
     (\<exists>ps'. vm_ok ps' pd t \<and> spent ps ps' pd t) \<and>
     (\<forall>x. pte_of (mem t) pd x =
        (if PGROUNDDOWN x = PGROUNDDOWN a then v else pte_of (mem s) pd x))"

lemma map_first:
  assumes "vm_ok ps pd s" and "\<not> has (pte_of (mem s) pd a) PTE_P"
  shows "runs (walkpgdir pd a True) s (\<lambda>r s1.
    if r = 0 then ps = [] \<and> map_post ps pd a lst pa perm s (-1) s1
    else \<not> has (ld32 (mem s1) r) PTE_P \<and>
      map_first_post ps pd a v s (s1\<lparr>mem := st32 (mem s1) r v\<rparr>))"
proof (rule runs_conseq [OF walk_alloc [OF assms(1), of a]], elim conjE exE)
  fix r s1 ps'
  assume w: "kframe s s1" "others_kept ps pd s s1" "tables_from ps pd s s1"
    "pte_of (mem s1) pd = pte_of (mem s) pd" "vm_ok ps' pd s1" and sp: "spent ps ps' pd s1"
    and r: "if r = 0 then ps = []
      else has (pde_of (mem s1) pd a) PTE_P \<and> r = pte_at (pgtab_of (mem s1) pd a) a"
  show "if r = 0 then ps = [] \<and> map_post ps pd a lst pa perm s (-1) s1
    else \<not> has (ld32 (mem s1) r) PTE_P \<and>
      map_first_post ps pd a v s (s1\<lparr>mem := st32 (mem s1) r v\<rparr>)"
  proof (cases "r = 0")
    case True
    then show ?thesis using w sp r by (auto simp: map_post_def kept_outside_def spent_def)
  next
    case False
    with r have p: "has (pde_of (mem s1) pd a) PTE_P" and rr: "r = pte_at (pgtab_of (mem s1) pd a) a"
      by auto
    have "ld32 (mem s1) r = pte_of (mem s) pd a"
      using p rr w(4) by (simp add: pte_of_def [of "mem s1"] flip: w(4))
    moreover note st = set_pte_ok [OF w(5) p refl, of v, folded rr]
    have "map_first_post ps pd a v s (s1\<lparr>mem := st32 (mem s1) r v\<rparr>)"
      unfolding map_first_post_def
    proof (intro conjI exI)
      show "kframe s (s1\<lparr>mem := st32 (mem s1) r v\<rparr>)" using w(1) by (simp add: kframe_def)
      show "others_kept ps pd s (s1\<lparr>mem := st32 (mem s1) r v\<rparr>)"
        by (rule others_kept_trans [OF w(2,3) st(2) spent_set [OF sp]])
      show "tables_from ps pd s (s1\<lparr>mem := st32 (mem s1) r v\<rparr>)"
        by (rule tables_from_trans [OF w(3) st(3) spent_set [OF sp]])
    qed (use st(1,4) w(4) spent_trans [OF sp spent_refl st(3)] in auto)
    ultimately show ?thesis using False assms(2) by simp
  qed
qed

lemma map_post_one:
  assumes "pgalign a" and "map_first_post ps pd a (pa OR perm OR PTE_P) s t"
  shows "map_post ps pd a a pa perm s 0 t"
  using assms mapped_one [of a t pd pa perm s] by (auto simp: map_post_def map_first_post_def)

lemma map_post_step:
  assumes al: "pgalign a" and lst: "lst = a + of_nat (Suc n) * PGSIZE" and n: "Suc n < 2 ^ 20"
    and f: "map_first_post ps pd a (pa OR perm OR PTE_P) s t"
    and sp: "spent ps ps' pd t" and p: "map_post ps' pd (a + PGSIZE) lst (pa + PGSIZE) perm t r u"
  shows "map_post ps pd a lst pa perm s r u"
proof -
  have fp: "kframe s t" "others_kept ps pd s t" "tables_from ps pd s t"
    "\<And>x. pte_of (mem t) pd x =
      (if PGROUNDDOWN x = PGROUNDDOWN a then pa OR perm OR PTE_P else pte_of (mem s) pd x)"
    using f by (simp_all add: map_first_post_def)
  have q: "kframe t u" "others_kept ps' pd t u" "tables_from ps' pd t u"
    "\<exists>qs. vm_ok qs pd u \<and> spent ps' qs pd u \<and> (r = -1 \<longrightarrow> qs = [])"
    "r = 0 \<and> mapped pd (a + PGSIZE) lst (pa + PGSIZE) perm t u \<or>
     r = -1 \<and> kept_outside pd (a + PGSIZE) lst t u"
    using p by (simp_all add: map_post_def)
  have "r = 0 \<and> mapped pd a lst pa perm s u \<or> r = -1 \<and> kept_outside pd a lst s u"
    using q(5) mapped_step [OF al lst n fp(4)] by blast
  moreover have "\<exists>qs. vm_ok qs pd u \<and> spent ps qs pd u \<and> (r = -1 \<longrightarrow> qs = [])"
    using q(4) spent_trans [OF sp _ q(3)] by blast
  ultimately show ?thesis
    unfolding map_post_def
    using kframe_trans [OF fp(1) q(1)] others_kept_trans [OF fp(2,3) q(2) spent_set [OF sp]]
      tables_from_trans [OF fp(3) q(3) spent_set [OF sp]] by blast
qed

lemma mappages_round:
  fixes s :: "'z kmem_scheme"
  assumes "vm_ok ps pd s" and "\<not> has (pte_of (mem s) pd a) PTE_P"
    and rest: "\<And>t :: 'z kmem_scheme. map_first_post ps pd a (pa OR perm OR PTE_P) s t \<Longrightarrow>
      runs (if a = lst then ret 0 else mappages_loop f pd (a + PGSIZE) lst (pa + PGSIZE) perm) t
        (map_post ps pd a lst pa perm s)"
  shows "runs (mappages_loop (Suc f) pd a lst pa perm) s (map_post ps pd a lst pa perm s)"
  unfolding mappages_loop.simps runs_bnd
proof (rule runs_conseq [OF map_first [OF assms(1,2), of lst pa perm "pa OR perm OR PTE_P"]])
  fix r and s1 :: "'z kmem_scheme"
  let ?t = "s1\<lparr>mem := st32 (mem s1) r (pa OR perm OR PTE_P)\<rparr>"
  assume "if r = 0 then ps = [] \<and> map_post ps pd a lst pa perm s (-1) s1
    else \<not> has (ld32 (mem s1) r) PTE_P \<and> map_first_post ps pd a (pa OR perm OR PTE_P) s ?t"
  then show "runs (if r = 0 then ret (-1) else bnd (load r) (\<lambda>e. if has e PTE_P then panic ''remap''
      else sq (store r (pa OR perm OR PTE_P)) (if a = lst then ret 0
        else mappages_loop f pd (a + PGSIZE) lst (pa + PGSIZE) perm))) s1
      (map_post ps pd a lst pa perm s)"
    using rest [of ?t] by (cases "r = 0") (auto simp: runs_simps)
qed

lemma mappages_loop_post:
  fixes s :: "'z kmem_scheme"
  assumes "vm_ok ps pd s" and "pgalign a" and "lst = a + of_nat n * PGSIZE" and "n < 2 ^ 20" and "n < fuel"
    and "\<And>va. PGROUNDDOWN va - a \<le> lst - a \<Longrightarrow> \<not> has (pte_of (mem s) pd va) PTE_P"
  shows "runs (mappages_loop fuel pd a lst pa perm) s (map_post ps pd a lst pa perm s)"
  using assms
proof (induction n arbitrary: fuel a pa ps s)
  case 0
  then obtain f where f: "fuel = Suc f" by (cases fuel) auto
  have l: "lst = a" using "0.prems"(3) by simp
  have "\<not> has (pte_of (mem s) pd a) PTE_P"
    using "0.prems"(6) [of a] PGROUNDDOWN_pgalign [OF "0.prems"(2)] by simp
  then show ?case
    unfolding f using map_post_one [OF "0.prems"(2)] l
    by (intro mappages_round [OF "0.prems"(1)]) (simp_all add: runs_simps)
next
  case (Suc n)
  then obtain f where f: "fuel = Suc f" by (cases fuel) auto
  note D = page_distance [OF Suc.prems(2,3,4)]
  have "unat (lst - a) = Suc n * 4096"
    unfolding Suc.prems(3) using unat_pages [OF Suc.prems(4)] by (simp del: of_nat_Suc)
  then have ne: "a \<noteq> lst" by auto
  have next1: "pgalign (a + PGSIZE)" "lst = (a + PGSIZE) + of_nat n * PGSIZE"
    using Suc.prems(2,3) by (simp_all add: pgalign_add algebra_simps)
  have un: "\<not> has (pte_of (mem s) pd a) PTE_P"
    using Suc.prems(6) [of a] PGROUNDDOWN_pgalign [OF Suc.prems(2)] by simp
  have rest: "runs (mappages_loop f pd (a + PGSIZE) lst (pa + PGSIZE) perm) t (map_post ps pd a lst pa perm s)"
    if t: "map_first_post ps pd a (pa OR perm OR PTE_P) s t" for t :: "'z kmem_scheme"
  proof -
    obtain ps' where ps': "vm_ok ps' pd t" "spent ps ps' pd t"
      using t by (auto simp: map_first_post_def)
    have "runs (mappages_loop f pd (a + PGSIZE) lst (pa + PGSIZE) perm) t
        (map_post ps' pd (a + PGSIZE) lst (pa + PGSIZE) perm t)"
    proof (rule Suc.IH [OF ps'(1) next1])
      fix va assume "PGROUNDDOWN va - (a + PGSIZE) \<le> lst - (a + PGSIZE)"
      then show "\<not> has (pte_of (mem t) pd va) PTE_P"
        using t D [of va] Suc.prems(6) [of va] PGROUNDDOWN_pgalign [OF Suc.prems(2)]
        by (auto simp: map_first_post_def)
    qed (use Suc.prems f in auto)
    then show ?thesis
      by (rule runs_conseq) (rule map_post_step [OF Suc.prems(2,3,4) t ps'(2)])
  qed
  show ?case
    unfolding f by (rule mappages_round [OF Suc.prems(1) un]) (simp add: ne rest)
qed

text \<open>The number of pages in a range is determined by its end points.\<close>

lemma page_count:
  assumes "pgalign a" and "pgalign lst"
  obtains n where "lst = a + of_nat n * PGSIZE" and "n < 2 ^ 20"
proof -
  have "pgalign (lst - a)" using assms by (simp add: pgalign_sub)
  then obtain c where c: "unat (lst - a) = 4096 * c" by (auto simp: pgalign_dvd dvd_def)
  then have lt: "c < 2 ^ 20" using unat_uint_less [of "lst - a"] by simp
  have "unat (lst - a) = unat (of_nat c * PGSIZE)" using unat_pages [OF lt] c by simp
  then have "lst = a + of_nat c * PGSIZE" by (simp add: word_unat_eq_iff [symmetric] algebra_simps)
  then show thesis using lt by (rule that)
qed

lemma mappages_post:
  fixes s :: "'z kmem_scheme"
  assumes "vm_ok ps pd s"
    and "\<And>x. PGROUNDDOWN x - PGROUNDDOWN va \<le> PGROUNDDOWN (va + sz - 1) - PGROUNDDOWN va \<Longrightarrow>
      \<not> has (pte_of (mem s) pd x) PTE_P"
  shows "runs (mappages pd va sz pa perm) s
    (map_post ps pd (PGROUNDDOWN va) (PGROUNDDOWN (va + sz - 1)) pa perm s)"
proof -
  obtain n where n: "PGROUNDDOWN (va + sz - 1) = PGROUNDDOWN va + of_nat n * PGSIZE" "n < 2 ^ 20"
    using page_count [of "PGROUNDDOWN va" "PGROUNDDOWN (va + sz - 1)"] by auto
  show ?thesis
    unfolding mappages_def by (rule mappages_loop_post [OF assms(1) _ n n(2)]) (auto simp: assms(2))
qed

text \<open>A single page can fail to be mapped only when no page is free.\<close>

lemma mappages_page:
  fixes s :: "'z kmem_scheme"
  assumes "vm_ok ps pd s" and "pgalign a" and "\<not> has (pte_of (mem s) pd a) PTE_P"
  shows "runs (mappages_loop (Suc f) pd a a pa perm) s (\<lambda>r t. map_post ps pd a a pa perm s r t \<and> (r = -1 \<longrightarrow> ps = []))"
  unfolding mappages_loop.simps runs_bnd
proof (rule runs_conseq [OF map_first [OF assms(1,3), of a pa perm "pa OR perm OR PTE_P"]])
  fix r and s1 :: "'z kmem_scheme"
  let ?t = "s1\<lparr>mem := st32 (mem s1) r (pa OR perm OR PTE_P)\<rparr>"
  assume "if r = 0 then ps = [] \<and> map_post ps pd a a pa perm s (-1) s1
    else \<not> has (ld32 (mem s1) r) PTE_P \<and> map_first_post ps pd a (pa OR perm OR PTE_P) s ?t"
  then show "runs (if r = 0 then ret (-1) else bnd (load r) (\<lambda>e. if has e PTE_P then panic ''remap''
      else sq (store r (pa OR perm OR PTE_P)) (if a = a then ret 0
        else mappages_loop f pd (a + PGSIZE) a (pa + PGSIZE) perm))) s1
      (\<lambda>r t. map_post ps pd a a pa perm s r t \<and> (r = -1 \<longrightarrow> ps = []))"
    using map_post_one [OF assms(2), of ps pd pa perm s ?t] by (cases "r = 0") (auto simp: runs_simps)
qed

section \<open>copyout\<close>

text \<open>The kernel address of the byte that user address \<open>x\<close> names.\<close>

definition umapped :: "memory \<Rightarrow> uint \<Rightarrow> uint \<Rightarrow> bool" where
  "umapped m pd x \<longleftrightarrow> has (pte_of m pd x) PTE_P \<and> has (pte_of m pd x) PTE_U"

definition uframe :: "memory \<Rightarrow> uint \<Rightarrow> uint \<Rightarrow> uint" where
  "uframe m pd x = p2v (PTE_ADDR (pte_of m pd x))"

definition uaddr :: "memory \<Rightarrow> uint \<Rightarrow> uint \<Rightarrow> uint" where
  "uaddr m pd x = uframe m pd x + (x - PGROUNDDOWN x)"

text \<open>
  What \<open>copyout\<close> needs: the target range is mapped for user access, to different frames of kernel
  memory that hold neither the page table nor the source bytes.
\<close>

definition copyout_pre :: "memory \<Rightarrow> uint \<Rightarrow> uint \<Rightarrow> uint \<Rightarrow> uint \<Rightarrow> bool" where
  "copyout_pre m pd va buf len \<longleftrightarrow>
     (\<forall>q. pt_page m pd q \<longrightarrow> pgalign q \<and> q \<noteq> 0) \<and> unat buf + unat len < 2 ^ 32 \<and>
     (\<forall>x. x - va < len \<longrightarrow>
        umapped m pd x \<and> KERNBASE \<le> uframe m pd x \<and> uframe m pd x < p2v PHYSTOP \<and>
        \<not> pt_page m pd (uframe m pd x) \<and>
        (\<forall>y. y - va < len \<longrightarrow> uframe m pd x = uframe m pd y \<longrightarrow> PGROUNDDOWN x = PGROUNDDOWN y) \<and>
        (\<forall>i < len. \<not> inpg (uframe m pd x) (buf + i)))"

definition copyout_post :: "memory \<Rightarrow> uint \<Rightarrow> uint \<Rightarrow> uint \<Rightarrow> uint \<Rightarrow> memory \<Rightarrow> bool" where
  "copyout_post m pd va buf len m' \<longleftrightarrow>
     (\<forall>x. x - va < len \<longrightarrow> m' (uaddr m pd x) = m (buf + (x - va))) \<and>
     (\<forall>b. (\<forall>x. x - va < len \<longrightarrow> b \<noteq> uaddr m pd x) \<longrightarrow> m' b = m b)"

lemma range_split:
  fixes n len d :: uint
  assumes "n \<le> len"
  shows "d < len \<longleftrightarrow> d < n \<or> d - n < len - n" and "d < n \<Longrightarrow> \<not> d - n < len - n"
  using assms unat_uint_less [of len] unat_uint_less [of d]
  by (auto simp: word_less_nat_alt word_le_nat_alt unat_sub_if')

lemma uaddr_inpg: "inpg (uframe m pd x) (uaddr m pd x)"
proof -
  have "x - PGROUNDDOWN x < PGSIZE"
    using inpg_PGROUNDDOWN [of "PGROUNDDOWN x" x] by (simp add: inpg_def)
  then show ?thesis by (simp add: uaddr_def inpg_def)
qed

lemma uframe_pgalign [simp]: "pgalign (uframe m pd x)"
  by (simp add: uframe_def)

lemma uframe_page: "PGROUNDDOWN x = PGROUNDDOWN y \<Longrightarrow> uframe m pd x = uframe m pd y"
proof -
  assume "PGROUNDDOWN x = PGROUNDDOWN y"
  then have "PDX x = PDX y" "PTX x = PTX y" by (simp_all add: same_page_iff [symmetric])
  then show ?thesis
    by (simp add: uframe_def pte_of_def pde_of_def pgtab_of_def pde_addr_def pte_at_def)
qed

lemma uaddr_inj:
  assumes "uaddr m pd x = uaddr m pd y"
    and "uframe m pd x = uframe m pd y \<Longrightarrow> PGROUNDDOWN x = PGROUNDDOWN y"
  shows "x = y"
proof -
  have f: "uframe m pd x = uframe m pd y"
    using inpg_unique [OF uframe_pgalign uframe_pgalign uaddr_inpg uaddr_inpg [of m pd y, folded assms(1)]] .
  with assms show ?thesis by (simp add: uaddr_def)
qed

lemma copyout_post_trans:
  assumes pre: "copyout_pre m pd va buf len" and n: "n \<le> len"
    and p1: "copyout_post m pd va buf n m1" and p2: "copyout_post m1 pd (va + n) (buf + n) (len - n) m2"
    and same: "uframe m1 pd = uframe m pd"
  shows "copyout_post m pd va buf len m2"
proof -
  have ua: "uaddr m1 pd x = uaddr m pd x" for x by (simp add: uaddr_def same)
  note sp = range_split [OF n]
  have sub: "x - (va + n) = x - va - n" for x by simp
  have src: "m1 (buf + i) = m (buf + i)" if "i < len" for i
  proof -
    have "buf + i \<noteq> uaddr m pd y" if "y - va < n" for y
    proof -
      have "y - va < len" using that sp(1) by blast
      then have "\<not> inpg (uframe m pd y) (buf + i)"
        using pre \<open>i < len\<close> unfolding copyout_pre_def by blast
      then show ?thesis using uaddr_inpg [of m pd y] by auto
    qed
    then show ?thesis using p1 by (simp add: copyout_post_def)
  qed
  have inj: "x = y" if "uaddr m pd x = uaddr m pd y" "x - va < len" "y - va < len" for x y
    using uaddr_inj [OF that(1)] pre that(2,3) unfolding copyout_pre_def by blast
  show ?thesis
    unfolding copyout_post_def
  proof (intro conjI allI impI)
    fix x assume x: "x - va < len"
    show "m2 (uaddr m pd x) = m (buf + (x - va))"
    proof (cases "x - va < n")
      case True
      have "uaddr m pd x \<noteq> uaddr m pd y" if "y - (va + n) < len - n" for y
        using inj [of x y] x that True sp(1) [of "y - va"] sp(2) [of "y - va"] sub [of y] by auto
      then have "m2 (uaddr m pd x) = m1 (uaddr m pd x)"
        using p2 by (simp add: copyout_post_def ua)
      then show ?thesis using True p1 by (simp add: copyout_post_def)
    next
      case False
      then have "x - (va + n) < len - n" using x sp(1) [of "x - va"] unfolding sub by blast
      then have "m2 (uaddr m pd x) = m1 (buf + n + (x - (va + n)))"
        using p2 unfolding copyout_post_def ua by blast
      then show ?thesis using src [OF x] by simp
    qed
  next
    fix b assume b: "\<forall>x. x - va < len \<longrightarrow> b \<noteq> uaddr m pd x"
    have "m2 b = m1 b" "m1 b = m b"
      using b p1 p2 sp(1) sub unfolding copyout_post_def ua by metis+
    then show "m2 b = m b" by simp
  qed
qed

lemma chunk_size:
  fixes off len n :: uint
  assumes "off < PGSIZE" and "0 < len" and n: "n = (if PGSIZE - off > len then len else PGSIZE - off)"
  shows "unat n + unat off \<le> 4096" and "0 < n" and "n \<le> len"
proof -
  have u: "unat (PGSIZE - off) = 4096 - unat off" and o: "unat off < 4096"
    using assms(1) by (simp_all add: unat_sub_if' word_less_nat_alt)
  show "unat n + unat off \<le> 4096" "0 < n" "n \<le> len"
    using assms(2) u o unfolding n word_less_nat_alt word_le_nat_alt by auto
qed

lemma copyout_chunk:
  assumes pre: "copyout_pre m pd va buf len" and len: "0 < len"
    and n: "n = (if PGSIZE - (va - PGROUNDDOWN va) > len then len else PGSIZE - (va - PGROUNDDOWN va))"
    and m1: "m1 = memmove (uframe m pd va + (va - PGROUNDDOWN va)) buf n m"
  shows "0 < n" and "n \<le> len" and "copyout_post m pd va buf n m1"
    and "pgalign q \<Longrightarrow> q \<noteq> uframe m pd va \<Longrightarrow> agree q m m1"
proof -
  let ?o = "va - PGROUNDDOWN va" and ?f = "uframe m pd va"
  have o: "?o < PGSIZE"
    using inpg_PGROUNDDOWN [of "PGROUNDDOWN va" va] by (simp add: inpg_def)
  have no: "unat n + unat ?o \<le> 4096" and n0: "0 < n" and nl: "n \<le> len"
    using chunk_size [OF o len n] by simp_all
  show "0 < n" "n \<le> len" by (rule n0, rule nl)
  have v0: "va - va < len" using len by simp
  have f: "?f < p2v PHYSTOP" and bl: "unat buf + unat len < 2 ^ 32"
    using pre v0 unfolding copyout_pre_def by blast+
  have "unat ?f < 0x8E000000" using f by (simp add: p2v_def word_less_nat_alt)
  then have fo: "unat (?f + ?o) + unat n < 2 ^ 32"
    using no by (simp add: unat_word_ariths)
  define g where "g = ?f + ?o"
  have "unat buf + unat n < 2 ^ 32" using bl nl by (simp add: word_le_nat_alt)
  then have app: "m1 = (\<lambda>x. if x - g < n then m (buf + (x - g)) else m x)"
    unfolding m1 g_def by (rule memmove_apply [OF _ fo])
  have page: "PGROUNDDOWN x = PGROUNDDOWN va" if "x - va < n" for x
  proof -
    define k where "k = x - va"
    define off where "off = ?o"
    have "unat k < unat n" using that by (simp add: k_def word_less_nat_alt)
    then have "off + k < PGSIZE"
      using no by (simp add: word_less_nat_alt unat_word_ariths off_def [symmetric])
    moreover have "x = PGROUNDDOWN va + (off + k)" by (simp add: k_def off_def)
    ultimately show ?thesis
      using PGROUNDDOWN_add [of "PGROUNDDOWN va" "off + k"] by simp
  qed
  have ua: "uaddr m pd x = g + (x - va)" if "x - va < n" for x
    using uframe_page [OF page [OF that]] page [OF that] by (simp add: uaddr_def g_def)
  have ua': "uaddr m pd (va + (b - g)) = b" if "b - g < n" for b
    using ua [of "va + (b - g)"] that by simp
  show "copyout_post m pd va buf n m1"
    unfolding copyout_post_def
  proof (intro conjI allI impI)
    fix x assume "x - va < n"
    then show "m1 (uaddr m pd x) = m (buf + (x - va))" by (simp add: app ua)
  next
    fix b assume "\<forall>x. x - va < n \<longrightarrow> b \<noteq> uaddr m pd x"
    then have "va + (b - g) - va < n \<longrightarrow> b \<noteq> uaddr m pd (va + (b - g))" by blast
    then have "\<not> b - g < n" using ua' [of b] by auto
    then show "m1 b = m b" by (simp add: app)
  qed
  show "agree q m m1" if q: "pgalign q" "q \<noteq> ?f"
    unfolding agree_def
  proof (intro allI impI)
    fix b assume b: "inpg q b"
    have "\<not> b - g < n"
    proof
      assume h: "b - g < n"
      have "PGROUNDDOWN (va + (b - g)) = PGROUNDDOWN va" using page h by simp
      then have "inpg ?f b"
        using uaddr_inpg [of m pd "va + (b - g)"] ua' [OF h] uframe_page by metis
      then show False using inpg_unique [OF q(1) uframe_pgalign b] q(2) by blast
    qed
    then show "m b = m1 b" by (simp add: app)
  qed
qed

lemma copyout_pre_rest:
  assumes pre: "copyout_pre m pd va buf len" and n: "n \<le> len"
    and pte: "pte_of m1 pd = pte_of m pd" and pt: "pt_page m1 pd = pt_page m pd"
  shows "copyout_pre m1 pd (va + n) (buf + n) (len - n)"
proof -
  have fr: "uframe m1 pd = uframe m pd" and um: "umapped m1 pd = umapped m pd"
    by (simp_all add: uframe_def umapped_def pte fun_eq_iff)
  have sub: "x - va < len" if "x - (va + n) < len - n" for x
    using that range_split(1) [OF n, of "x - va"] unfolding diff_diff_eq by blast
  have src: "n + i < len" if "i < len - n" for i
    using that n by (simp add: word_less_nat_alt word_le_nat_alt unat_word_ariths unat_sub_if')
  have "unat buf + unat len < 2 ^ 32" using pre unfolding copyout_pre_def by blast
  then have "unat (buf + n) + unat (len - n) < 2 ^ 32"
    using n by (simp add: word_le_nat_alt unat_word_ariths unat_sub_if')
  moreover have "\<not> inpg (uframe m pd x) (buf + n + i)" if "x - va < len" "i < len - n" for x i
    using pre that(1) src [OF that(2)] unfolding copyout_pre_def add.assoc by blast
  moreover have "umapped m pd x" "KERNBASE \<le> uframe m pd x" "uframe m pd x < p2v PHYSTOP"
    "\<not> pt_page m pd (uframe m pd x)" if "x - va < len" for x
    using pre that unfolding copyout_pre_def by blast+
  moreover have "PGROUNDDOWN x = PGROUNDDOWN y"
    if "x - va < len" "y - va < len" "uframe m pd x = uframe m pd y" for x y
    using pre that unfolding copyout_pre_def by blast
  moreover have "\<forall>q. pt_page m pd q \<longrightarrow> pgalign q \<and> q \<noteq> 0"
    using pre unfolding copyout_pre_def by blast
  ultimately show ?thesis
    unfolding copyout_pre_def fr um pt by (simp add: sub)
qed

lemma uva2ka_run:
  assumes "umapped (mem s) pd x" and "\<And>q. pt_page (mem s) pd q \<Longrightarrow> pgalign q \<and> q \<noteq> 0"
  shows "uva2ka pd (PGROUNDDOWN x) s = Ret (uframe (mem s) pd x) s"
proof -
  have p: "has (pde_of (mem s) pd x) PTE_P"
    using assms(1) by (auto simp: umapped_def pte_of_def split: if_splits)
  then have "pte_at (pgtab_of (mem s) pd x) x \<noteq> 0"
    using assms(2) [of "pgtab_of (mem s) pd x"] pte_at_nonnull by (auto simp: pt_page_def)
  moreover have "pde_of (mem s) pd (PGROUNDDOWN x) = pde_of (mem s) pd x"
    "pgtab_of (mem s) pd (PGROUNDDOWN x) = pgtab_of (mem s) pd x" "pte_at t (PGROUNDDOWN x) = pte_at t x" for t
    by (simp_all add: pde_of_def pde_addr_def pgtab_of_def pte_at_def)
  ultimately show ?thesis
    using assms(1) p by (simp add: uva2ka_def op_simps walk_noalloc umapped_def pte_of_def uframe_def)
qed

lemma copyout_loop_post:
  fixes s :: "'z kmem_scheme"
  assumes "copyout_pre (mem s) pd va buf len"
    and "unat len + unat (va - PGROUNDDOWN va) + 4096 \<le> fuel * 4096"
  shows "\<exists>m'. copyout_loop fuel pd va buf len s = Ret 0 (s\<lparr>mem := m'\<rparr>) \<and>
    copyout_post (mem s) pd va buf len m'"
  using assms
proof (induction fuel arbitrary: s va buf len)
  case 0
  then show ?case by simp
next
  case (Suc fuel)
  show ?case
  proof (cases "len > 0")
    case False
    then have "len = 0" by (simp add: word_gt_0)
    then have "copyout_loop (Suc fuel) pd va buf len s = Ret 0 (s\<lparr>mem := mem s\<rparr>)"
      by (simp add: op_simps)
    moreover have "copyout_post (mem s) pd va buf len (mem s)"
      using \<open>len = 0\<close> by (simp add: copyout_post_def)
    ultimately show ?thesis by blast
  next
    case True
    let ?o = "va - PGROUNDDOWN va" and ?f = "uframe (mem s) pd va"
    define n where "n = (if PGSIZE - ?o > len then len else PGSIZE - ?o)"
    define m1 where "m1 = memmove (?f + ?o) buf n (mem s)"
    note ch = copyout_chunk [OF Suc.prems(1) True n_def m1_def]
    have "va - va < len" using True by simp
    then have v: "umapped (mem s) pd va" "KERNBASE \<le> ?f" "\<not> pt_page (mem s) pd ?f"
      and pts: "\<And>q. pt_page (mem s) pd q \<Longrightarrow> pgalign q \<and> q \<noteq> 0"
      using Suc.prems(1) unfolding copyout_pre_def by blast+
    have ag: "agree q (mem s) m1" if "pt_page (mem s) pd q" for q
      using ch(4) [of q] pts [OF that] that v(3) by blast
    have pte: "pte_of m1 pd = pte_of (mem s) pd" and pt: "pt_page m1 pd = pt_page (mem s) pd"
      using pte_of_cong [OF ag] pt_page_cong [OF ag [of pd]] by (auto simp: pt_page_def)
    define va' where "va' = PGROUNDDOWN va + PGSIZE"
    have nx: "len - n = 0 \<or> va' = va + n" by (simp add: n_def va'_def)
    have pre1: "copyout_pre (mem (s\<lparr>mem := m1\<rparr>)) pd va' (buf + n) (len - n)"
      using copyout_pre_rest [OF Suc.prems(1) ch(2) pte pt] nx by (auto simp: copyout_pre_def)
    have o: "?o < PGSIZE"
      using inpg_PGROUNDDOWN [of "PGROUNDDOWN va" va] by (simp add: inpg_def)
    have al: "pgalign va'" by (simp add: va'_def pgalign_add)
    have "unat (len - n) + 4096 \<le> fuel * 4096"
      using Suc.prems(2) True o ch(2) unfolding n_def
      by (auto simp: word_less_nat_alt word_le_nat_alt unat_sub_if' split: if_splits)
    then have fu: "unat (len - n) + unat (va' - PGROUNDDOWN va') + 4096 \<le> fuel * 4096"
      using PGROUNDDOWN_pgalign [OF al] by simp
    obtain m2 where m2: "copyout_loop fuel pd va' (buf + n) (len - n) (s\<lparr>mem := m1\<rparr>) =
        Ret 0 (s\<lparr>mem := m1\<rparr>\<lparr>mem := m2\<rparr>)" "copyout_post m1 pd va' (buf + n) (len - n) m2"
      using Suc.IH [OF pre1 fu] by auto
    have "copyout_post m1 pd (va + n) (buf + n) (len - n) m2"
      using m2(2) nx by (auto simp: copyout_post_def)
    moreover have "uframe m1 pd = uframe (mem s) pd" by (simp add: uframe_def pte fun_eq_iff)
    ultimately have "copyout_post (mem s) pd va buf len m2"
      by (rule copyout_post_trans [OF Suc.prems(1) ch(2,3)])
    moreover have "copyout_loop (Suc fuel) pd va buf len s = Ret 0 (s\<lparr>mem := m2\<rparr>)"
      using True v(2) uva2ka_run [OF v(1) pts] m2(1)
      by (auto simp: op_simps update_mem_def Let_def n_def [symmetric] m1_def [symmetric] va'_def [symmetric])
    ultimately show ?thesis by blast
  qed
qed

section \<open>Properties\<close>

text \<open>
  (C13) \<^verbatim>\<open>mappages\<close> on an unmapped range always returns.  If it returns 0, the MMU translates each page
  of the range to the corresponding frame with the permissions asked for, and every other address
  as before; if it returns -1, memory is exhausted and no address outside the range changed.
  In both cases the page tables stay well formed, no page is lost (one that leaves the free list is a page
  table afterwards), and every page that was neither free nor a page table keeps its contents.
\<close>

theorem mappages_correct:
  assumes "vm_ok ps pd s"
    and "\<forall>x. PGROUNDDOWN x - PGROUNDDOWN va \<le> PGROUNDDOWN (va + sz - 1) - PGROUNDDOWN va \<longrightarrow>
      \<not> has (pte_of (mem s) pd x) PTE_P"
  shows "runs (mappages pd va sz pa perm) s (\<lambda>r s'.
    (\<exists>ps'. vm_ok ps' pd s' \<and> set ps' \<subseteq> set ps \<and> (\<forall>q \<in> set ps. q \<in> set ps' \<or> pt_page (mem s') pd q) \<and> (r = -1 \<longrightarrow> ps' = [])) \<and>
    others_kept ps pd s s' \<and>
    (r = 0 \<or> r = -1) \<and>
    (\<forall>x. pte_of (mem s') pd x = pte_of (mem s) pd x \<or>
      PGROUNDDOWN x - PGROUNDDOWN va \<le> PGROUNDDOWN (va + sz - 1) - PGROUNDDOWN va) \<and>
    (r = 0 \<longrightarrow> (\<forall>x. PGROUNDDOWN x - PGROUNDDOWN va \<le> PGROUNDDOWN (va + sz - 1) - PGROUNDDOWN va \<longrightarrow>
      pte_of (mem s') pd x = (pa + (PGROUNDDOWN x - PGROUNDDOWN va)) OR perm OR PTE_P)))"
  by (rule runs_conseq [OF mappages_post [OF assms(1)]])
    (use assms(2) in \<open>auto simp: map_post_def mapped_def kept_outside_def spent_def\<close>)

text \<open>
  Mapping over a present entry stops the kernel: \<^verbatim>\<open>mappages\<close> panics with \<^verbatim>\<open>remap\<close> when the first
  page of its range is already mapped.
\<close>

theorem mappages_remap:
  assumes "vm_ok ps pd s" and "has (pte_of (mem s) pd va) PTE_P"
  shows "mappages pd va sz pa perm s = Panic ''remap''"
proof -
  let ?a = "PGROUNDDOWN va"
  have p: "has (pde_of (mem s) pd va) PTE_P"
    using assms(2) by (auto simp: pte_of_def split: if_splits)
  have eq: "pde_of (mem s) pd ?a = pde_of (mem s) pd va" "pgtab_of (mem s) pd ?a = pgtab_of (mem s) pd va"
    "pte_at t ?a = pte_at t va" for t
    by (simp_all add: pde_of_def pde_addr_def pgtab_of_def pte_at_def)
  have "pte_at (pgtab_of (mem s) pd va) va \<noteq> 0"
    using assms(1) p vm_wf_tab [of ps pd s va] pte_at_nonnull kpage_nonnull by (auto simp: vm_ok_def)
  moreover have "walkpgdir pd ?a True s = Ret (pte_at (pgtab_of (mem s) pd va) va) s"
    using p eq by (simp add: walkpgdir_def op_simps pde_of_def pgtab_of_def)
  moreover obtain f where f: "(2 :: nat) ^ 20 = Suc f" by (metis Suc_pred' zero_less_numeral zero_less_power)
  ultimately show ?thesis
    unfolding mappages_def f using assms(2) p by (simp add: op_simps pte_of_def)
qed

text \<open>
  (C14) \<^verbatim>\<open>copyout\<close> to a range that is mapped for user access returns 0 after finitely many rounds,
  across any number of page boundaries: the byte that user address \<open>va + i\<close> names is the \<open>i\<close>-th source
  byte, and no other byte of memory changed.
\<close>

theorem copyout_correct:
  assumes "copyout_pre (mem s) pd va p len"
  shows "runs (copyout pd va p len) s (\<lambda>r s'. r = 0 \<and>
    (\<forall>x. x - va < len \<longrightarrow> mem s' (uaddr (mem s) pd x) = mem s (p + (x - va))) \<and>
    (\<forall>b. (\<forall>x. x - va < len \<longrightarrow> b \<noteq> uaddr (mem s) pd x) \<longrightarrow> mem s' b = mem s b))"
proof -
  have "va - PGROUNDDOWN va < PGSIZE"
    using inpg_PGROUNDDOWN [of "PGROUNDDOWN va" va] by (simp add: inpg_def)
  then have "unat (va - PGROUNDDOWN va) < 4096" by (simp add: word_less_nat_alt)
  then have "unat len + unat (va - PGROUNDDOWN va) + 4096 \<le> (2 ^ 20 + 2) * 4096"
    using unat_uint_less [of len] by simp
  from copyout_loop_post [OF assms this] show ?thesis
    by (auto simp: copyout_def runs_def copyout_post_def)
qed

subsection \<open>A concrete address space\<close>

definition sample_vm :: kmem where
  "sample_vm = boot_kmem\<lparr>freelist := 0x80201000\<rparr>"

lemma sample_vm_zero: "mem sample_vm = (\<lambda>_. 0)" "ld32 (\<lambda>_. 0) (a :: uint) = 0"
  by (simp_all add: sample_vm_def boot_kmem_def ld32_def)

lemma sample_vm_ok: "vm_ok [0x80201000] 0x80200000 sample_vm" "pte_of (mem sample_vm) 0x80200000 x = 0"
proof -
  show "pte_of (mem sample_vm) 0x80200000 x = 0"
    by (simp add: pte_of_def pde_of_def sample_vm_zero)
  have "pt_page (mem sample_vm) 0x80200000 q \<longleftrightarrow> q = 0x80200000" for q
    by (simp add: pt_page_def pde_of_def sample_vm_zero)
  moreover have "kpage sample_vm 0x80200000" "kpage sample_vm 0x80201000"
    by (simp_all add: sample_vm_def boot_kmem_def kpage_def pgalign_def v2p_def)
  moreover have "kmem_ready sample_vm"
    using boot_kmem_ready(1) by (simp add: sample_vm_def kmem_ready_def)
  moreover have "freelist sample_vm = 0x80201000" by (simp add: sample_vm_def)
  ultimately show "vm_ok [0x80201000] 0x80200000 sample_vm"
    by (simp add: vm_ok_def vm_wf_def kmem_inv_def pde_of_def sample_vm_zero)
qed

theorem mappages_correct_witness:
  "runs (mappages 0x80200000 0x1000 0x2000 0x300000 6) sample_vm (\<lambda>r s'.
    (r = 0 \<or> r = -1) \<and> (r = 0 \<longrightarrow> pte_of (mem s') 0x80200000 0x2345 = 0x301007))"
proof -
  have "\<forall>x. PGROUNDDOWN x - PGROUNDDOWN 0x1000 \<le> PGROUNDDOWN (0x1000 + 0x2000 - 1) - PGROUNDDOWN 0x1000 \<longrightarrow>
      \<not> has (pte_of (mem sample_vm) 0x80200000 x) PTE_P"
    by (simp add: sample_vm_ok(2))
  from mappages_correct [OF sample_vm_ok(1) this, of "0x300000" 6] show ?thesis
    by (rule runs_conseq) (auto dest!: spec [of _ "0x2345"] simp: PGROUNDDOWN_def)
qed

text \<open>The same address space with the page at \<open>0x1000\<close> mapped for the user.\<close>

definition sample_map :: memory where
  "sample_map = st32 (add_table (\<lambda>_. 0) 0x80200000 0x1000 0x80201000) (pte_at 0x80201000 0x1000) 0x202007"

lemma sample_map_pte:
  "pte_of sample_map 0x80200000 x = (if PGROUNDDOWN x = 0x1000 then 0x202007 else 0)"
  "pt_page sample_map 0x80200000 q \<longleftrightarrow> q = 0x80200000 \<or> q = 0x80201000"
  "vm_ok [] 0x80200000 (sample_vm\<lparr>cpust := kmem_settled sample_vm, freelist := 0, mem := sample_map\<rparr>)"
proof -
  let ?pd = "0x80200000 :: uint"
  have np: "\<not> has (pde_of (mem sample_vm) ?pd 0x1000) PTE_P"
    by (simp add: pde_of_def sample_vm_zero)
  define s1 where "s1 = sample_vm\<lparr>cpust := kmem_settled sample_vm, freelist := ld32 (mem sample_vm) 0x80201000,
    mem := add_table (mem sample_vm) ?pd 0x1000 0x80201000\<rparr>"
  note w = walk_alloc_new [OF sample_vm_ok(1) np s1_def]
  define s2 where "s2 = s1\<lparr>mem := st32 (mem s1) (pte_at (pgtab_of (mem s1) ?pd 0x1000) 0x1000) 0x202007\<rparr>"
  note st = set_pte_ok [OF w(1,5) s2_def]
  have m2: "mem s2 = sample_map"
    using w(6) by (simp add: s2_def s1_def sample_map_def sample_vm_zero)
  have "PGROUNDDOWN 0x1000 = 0x1000" by (simp add: PGROUNDDOWN_def)
  then show "pte_of sample_map ?pd x = (if PGROUNDDOWN x = 0x1000 then 0x202007 else 0)"
    using st(4) [of x] w(4) sample_vm_ok(2) [of x] by (simp add: m2)
  have sub: "pt_page (mem sample_vm) ?pd q' \<longleftrightarrow> q' = ?pd" for q'
    by (simp add: pt_page_def pde_of_def sample_vm_zero)
  have "pt_page (mem s1) ?pd 0x80201000" using w(5,6) by (auto simp: pt_page_def)
  then show "pt_page sample_map ?pd q \<longleftrightarrow> q = ?pd \<or> q = 0x80201000"
    using st(3) w(3) sub unfolding tables_from_def m2 [symmetric] by auto
  have "s2 = sample_vm\<lparr>cpust := kmem_settled sample_vm, freelist := 0, mem := sample_map\<rparr>"
    using m2 by (simp add: s2_def s1_def sample_vm_zero)
  then show "vm_ok [] ?pd (sample_vm\<lparr>cpust := kmem_settled sample_vm, freelist := 0, mem := sample_map\<rparr>)"
    using st(1) by simp
qed

theorem mappages_remap_witness:
  "mappages 0x80200000 0x1000 4096 0x300000 6
     (sample_vm\<lparr>cpust := kmem_settled sample_vm, freelist := 0, mem := sample_map\<rparr>) = Panic ''remap''"
  by (rule mappages_remap [OF sample_map_pte(3)])
    (simp add: sample_map_pte(1) PGROUNDDOWN_def has_def)

theorem copyout_correct_witness:
  "runs (copyout 0x80200000 0x1000 0x80300000 2) (sample_vm\<lparr>mem := sample_map\<rparr>) (\<lambda>r s'. r = 0 \<and>
    mem s' 0x80202001 = mem (sample_vm\<lparr>mem := sample_map\<rparr>) 0x80300001)"
proof -
  have two: "d < 2 \<longleftrightarrow> d = 0 \<or> d = 1" for d :: uint
    by (auto simp: word_less_nat_alt word_unat_eq_iff)
  have r: "x - 0x1000 < 2 \<longleftrightarrow> x = 0x1000 \<or> x = 0x1001" for x :: uint
    unfolding two by (auto simp: diff_eq_eq)
  have fr: "uframe sample_map 0x80200000 0x1000 = 0x80202000" "uframe sample_map 0x80200000 0x1001 = 0x80202000"
    by (simp_all add: uframe_def sample_map_pte(1) PGROUNDDOWN_def PTE_ADDR_def p2v_def)
  have "copyout_pre (mem (sample_vm\<lparr>mem := sample_map\<rparr>)) 0x80200000 0x1000 0x80300000 2"
    unfolding copyout_pre_def r
    by (auto simp: two fr sample_map_pte umapped_def PGROUNDDOWN_def has_def inpg_def pgalign_def p2v_def)
  from copyout_correct [OF this] show ?thesis
    by (rule runs_conseq) (auto simp: r uaddr_def fr PGROUNDDOWN_def)
qed

end
