(* ===== verification/ProcTable.thy ===== *)
theory ProcTable
  imports Vm
begin

text \<open>
  The process table, the multilevel feedback queues and the scheduler (\<^verbatim>\<open>src/proc.h\<close>,
  \<^verbatim>\<open>src/proc.c\<close>; the life cycle operations \<^verbatim>\<open>fork\<close>, \<^verbatim>\<open>exit\<close> and \<^verbatim>\<open>wait\<close>, which need the file
  system, are in \<open>Process\<close>).

  A pointer to a table slot is its index, \<open>None\<close> being null; \<open>cur\<close> is the per-CPU variable \<^verbatim>\<open>proc\<close>.
  \<^verbatim>\<open>swtch\<close> into the scheduler ends an operation with the outcome \<open>Sleep\<close>, which carries the state at
  that point; the statements after the switch are the operations named \<open>_resume\<close>.
\<close>

section \<open>State\<close>

abbreviation (input) NPROC :: nat where "NPROC \<equiv> 64"
abbreviation (input) NOFILE :: nat where "NOFILE \<equiv> 16"
abbreviation (input) KSTACKSIZE :: uint where "KSTACKSIZE \<equiv> 4096"
abbreviation (input) MLF_LEVELS :: nat where "MLF_LEVELS \<equiv> 4"
abbreviation (input) SIZEMLF :: int where "SIZEMLF \<equiv> 4"
abbreviation (input) QUANTUM :: int where "QUANTUM \<equiv> 6"
abbreviation (input) MAXSEM :: nat where "MAXSEM \<equiv> 16"
abbreviation (input) MAXSEMPROC :: nat where "MAXSEMPROC \<equiv> 4"
abbreviation (input) MAXSHMPROC :: nat where "MAXSHMPROC \<equiv> 4"

datatype procstate = UNUSED | EMBRYO | SLEEPING | RUNNABLE | RUNNING | ZOMBIE

record proc =
  psz :: uint
  pgdir :: uint
  kstack :: uint
  pstate :: procstate
  pid :: int
  parent :: "nat option"
  tf :: uint
  pcontext :: uint
  pchan :: chan
  killed :: bool
  ofile :: "nat \<Rightarrow> nat option"
  cwd :: "nat option"
  pname :: cstr
  ticksProc :: int
  priority :: int
  pnext :: "nat option"
  procsem :: "nat \<Rightarrow> nat option"
  semquantity :: int
  shmemquantity :: int
  shmref :: "nat \<Rightarrow> uint"
  shmem :: "nat \<Rightarrow> int"

record node =
  first :: "nat option"
  nlast :: "nat option"

record ptab = vmem +
  procs :: "nat \<Rightarrow> proc"
  mlf :: "nat \<Rightarrow> node"
  initproc :: "nat option"
  nextpid :: int
  cur :: "nat option"
  trapret :: uint
  forkret_addr :: uint

definition upd_proc :: "nat \<Rightarrow> (proc \<Rightarrow> proc) \<Rightarrow> ('z ptab_scheme, unit) op" where
  "upd_proc p f = modify (\<lambda>s. s\<lparr>procs := (procs s)(p := f (procs s p))\<rparr>)"

definition upd_mlf :: "nat \<Rightarrow> (node \<Rightarrow> node) \<Rightarrow> ('z ptab_scheme, unit) op" where
  "upd_mlf l f = modify (\<lambda>s. s\<lparr>mlf := (mlf s)(l := f (mlf s l))\<rparr>)"

text \<open>The current process; dereferencing a null \<^verbatim>\<open>proc\<close> is undefined.\<close>

definition curproc :: "('z ptab_scheme, nat) op" where
  "curproc s = (case cur s of None \<Rightarrow> Undef ''proc is null'' | Some p \<Rightarrow> Ret p s)"

section \<open>Ready queues\<close>

text \<open>
  On a priority out of range \<^verbatim>\<open>enqueue\<close> only prints a message on the console, which is left out: the state of the
  console is not part of the process table.  The invariant of the queues excludes the case.
\<close>

definition enqueue :: "nat \<Rightarrow> ('z ptab_scheme, unit) op" where
  "enqueue p =
     bnd (gets (\<lambda>s. priority (procs s p))) (\<lambda>pr.
     if pr \<ge> 0 \<and> pr < int MLF_LEVELS then
       bnd (gets (\<lambda>s. mlf s (nat pr))) (\<lambda>nd.
       if first nd = None then
         sq (upd_mlf (nat pr) (\<lambda>n. n\<lparr>first := Some p\<rparr>))
        (sq (upd_mlf (nat pr) (\<lambda>n. n\<lparr>nlast := Some p\<rparr>))
            (upd_proc p (\<lambda>q. q\<lparr>pnext := None\<rparr>)))
       else
         (case nlast nd of
            None \<Rightarrow> undef ''enqueue: null last''
          | Some prev \<Rightarrow>
              sq (upd_proc prev (\<lambda>q. q\<lparr>pnext := Some p\<rparr>))
             (sq (upd_mlf (nat pr) (\<lambda>n. n\<lparr>nlast := Some p\<rparr>))
                 (upd_proc p (\<lambda>q. q\<lparr>pnext := None\<rparr>)))))
     else ret ())"

definition dequeue :: "nat \<Rightarrow> ('z ptab_scheme, nat) op" where
  "dequeue l =
     bnd (gets (\<lambda>s. first (mlf s l))) (\<lambda>res.
     case res of
       None \<Rightarrow> undef ''dequeue: empty level''
     | Some p \<Rightarrow>
         sq (bnd (gets (\<lambda>s. pnext (procs s p))) (\<lambda>nx. upd_mlf l (\<lambda>n. n\<lparr>first := nx\<rparr>)))
        (sq (upd_proc p (\<lambda>q. q\<lparr>pnext := None\<rparr>))
            (ret p)))"

definition isempty :: "nat \<Rightarrow> 'z ptab_scheme \<Rightarrow> bool" where
  "isempty l s \<longleftrightarrow> \<not> (first (mlf s l) \<noteq> None)"

definition makerunnable :: "nat \<Rightarrow> int \<Rightarrow> ('z ptab_scheme, unit) op" where
  "makerunnable p pr =
     sq (whenM (pr = 0) (upd_proc p (\<lambda>q. q\<lparr>priority := 0\<rparr>)))
    (sq (bnd (gets (\<lambda>s. priority (procs s p))) (\<lambda>x.
           whenM (pr = 1 \<and> x < SIZEMLF - 1) (upd_proc p (\<lambda>q. q\<lparr>priority := priority q + 1\<rparr>))))
    (sq (bnd (gets (\<lambda>s. priority (procs s p))) (\<lambda>x.
           whenM (pr = -1 \<and> x > 0) (upd_proc p (\<lambda>q. q\<lparr>priority := priority q - 1\<rparr>))))
    (sq (upd_proc p (\<lambda>q. q\<lparr>pstate := RUNNABLE\<rparr>))
        (enqueue p))))"

section \<open>Allocating a slot\<close>

definition upd_shm :: "nat \<Rightarrow> (sharedmemory \<Rightarrow> sharedmemory) \<Rightarrow> ('z vmem_scheme, unit) op" where
  "upd_shm i f = modify (\<lambda>s. s\<lparr>sharedmem := (sharedmem s)(i := f (sharedmem s i))\<rparr>)"

definition shm_init :: "('z vmem_scheme, int) op" where
  "shm_init =
     sq (modify (\<lambda>s. s\<lparr>cpust := (cpust s)\<lparr>lks := (lks (cpust s))(ShmtableLock := initlock)\<rparr>\<rparr>))
    (sq (foreach [0..<MAXSHM] (\<lambda>i. upd_shm i (\<lambda>m. m\<lparr>shm_refcount := -1\<rparr>)))
        (ret 0))"

definition pinit :: "('z ptab_scheme, unit) op" where
  "pinit =
     sq (modify (\<lambda>s. s\<lparr>cpust := (cpust s)\<lparr>lks := (lks (cpust s))(PtableLock := initlock)\<rparr>\<rparr>))
    (sq shm_init (ret ()))"

text \<open>
  The part of \<^verbatim>\<open>allocproc\<close> that runs without the lock builds the kernel stack.  A trap frame is 76
  bytes and a context 20; the saved \<^verbatim>\<open>eip\<close> is the fifth word of the context.
\<close>

definition alloc_kstack :: "nat \<Rightarrow> ('z ptab_scheme, nat option) op" where
  "alloc_kstack p =
     sq (upd_proc p (\<lambda>q. q\<lparr>priority := 0\<rparr>))
    (bnd kalloc (\<lambda>k.
     sq (upd_proc p (\<lambda>q. q\<lparr>kstack := k\<rparr>))
    (if k = 0 then
       sq (upd_proc p (\<lambda>q. q\<lparr>pstate := UNUSED\<rparr>)) (ret None)
     else
       (let sp = k + KSTACKSIZE; sp1 = sp - 76; sp2 = sp1 - 4; sp3 = sp2 - 20 in
        sq (upd_proc p (\<lambda>q. q\<lparr>tf := sp1\<rparr>))
       (sq (bnd (gets trapret) (\<lambda>a. store sp2 a))
       (sq (upd_proc p (\<lambda>q. q\<lparr>pcontext := sp3\<rparr>))
       (sq (update_mem (memset sp3 0 20))
       (sq (bnd (gets forkret_addr) (\<lambda>a. store (sp3 + 16) a))
           (ret (Some p))))))))))"

text \<open>
  The slot gets the next pid.  \<^verbatim>\<open>nextpid\<close> is a C \<^verbatim>\<open>int\<close> that is never reset: \<^verbatim>\<open>nextpid++\<close> at the largest one is a signed
  overflow, which is undefined.
\<close>

definition allocproc :: "('z ptab_scheme, nat option) op" where
  "allocproc =
     sq (acquire PtableLock)
    (bnd (gets (\<lambda>s. scan (\<lambda>p. pstate (procs s p) = UNUSED) NPROC)) (\<lambda>found.
     case found of
       None \<Rightarrow> sq (release PtableLock) (ret None)
     | Some p \<Rightarrow>
         sq (upd_proc p (\<lambda>q. q\<lparr>pstate := EMBRYO\<rparr>))
        (bnd (gets nextpid) (\<lambda>n.
         if n \<ge> 2 ^ 31 - 1 then undef ''allocproc: nextpid overflow''
         else
           sq (upd_proc p (\<lambda>q. q\<lparr>pid := n\<rparr>))
          (sq (modify (\<lambda>s. s\<lparr>nextpid := nextpid s + 1\<rparr>))
          (sq (release PtableLock)
              (alloc_kstack p)))))))"

section \<open>Scheduling\<close>

text \<open>
  \<^verbatim>\<open>switchuvm\<close> sets the task segment and the page-table register, and panics on a process
  without a page table.
\<close>

definition switchuvm :: "nat \<Rightarrow> ('z ptab_scheme, unit) op" where
  "switchuvm p =
     sq (modify (\<lambda>s. s\<lparr>cpust := pushcli (cpust s)\<rparr>))
    (sq curproc
    (bnd (gets (\<lambda>s. pgdir (procs s p))) (\<lambda>pd.
     if pd = 0 then panic ''switchuvm: no pgdir''
     else on_cpust popcli)))"

primrec pick_loop :: "nat list \<Rightarrow> ('z ptab_scheme, nat option) op" where
  "pick_loop [] = ret None"
| "pick_loop (l # ls) =
     bnd (gets (isempty l)) (\<lambda>e.
     if \<not> e then bnd (dequeue l) (\<lambda>p. ret (Some p)) else pick_loop ls)"

definition pick :: "('z ptab_scheme, nat option) op" where
  "pick = pick_loop [0..<MLF_LEVELS]"

text \<open>
  One round of \<^verbatim>\<open>scheduler\<close> up to the switch: it returns the process that now runs, still
  holding the lock, or \<open>None\<close> with the lock released.  \<open>scheduler_resume\<close> is the rest of the round.
\<close>

definition scheduler :: "('z ptab_scheme, nat option) op" where
  "scheduler =
     sq (modify (\<lambda>s. s\<lparr>cpust := (cpust s)\<lparr>eflags_IF := True\<rparr>\<rparr>))
    (sq (acquire PtableLock)
    (bnd pick (\<lambda>r.
     case r of
       Some p \<Rightarrow>
         sq (modify (\<lambda>s. s\<lparr>cur := Some p\<rparr>))
        (sq (switchuvm p)
        (sq (upd_proc p (\<lambda>q. q\<lparr>pstate := RUNNING\<rparr>))
        (sq (upd_proc p (\<lambda>q. q\<lparr>ticksProc := 0\<rparr>))
            (ret (Some p)))))
     | None \<Rightarrow> sq (release PtableLock) (ret None))))"

definition scheduler_resume :: "('z ptab_scheme, unit) op" where
  "scheduler_resume =
     sq (modify (\<lambda>s. s\<lparr>cur := None\<rparr>))
        (release PtableLock)"

definition sched :: "('z ptab_scheme, unit) op" where
  "sched s =
     (if \<not> holding PtableLock (cpust s) then Panic ''sched ptable.lock''
      else if ncli (cpust s) \<noteq> 1 then Panic ''sched locks''
      else bnd curproc (\<lambda>p s.
        if pstate (procs s p) = RUNNING then Panic ''sched running''
        else if eflags_IF (cpust s) then Panic ''sched interruptible''
        else Sleep (pchan (procs s p)) s) s)"

text \<open>Back from the switch, \<^verbatim>\<open>sched\<close> restores the \<^verbatim>\<open>intena\<close> it had saved on the stack.\<close>

definition sched_resume :: "bool \<Rightarrow> ('z ptab_scheme, unit) op" where
  "sched_resume ie = modify (\<lambda>s. s\<lparr>cpust := (cpust s)\<lparr>intena := ie\<rparr>\<rparr>)"

definition yield :: "('z ptab_scheme, unit) op" where
  "yield =
     sq (acquire PtableLock)
    (bnd curproc (\<lambda>p.
     sq (bnd (gets (\<lambda>s. priority (procs s p))) (\<lambda>x.
           whenM (x < 3) (upd_proc p (\<lambda>q. q\<lparr>priority := priority q + 1\<rparr>))))
    (sq (makerunnable p 1)
        sched)))"

definition yield_resume :: "bool \<Rightarrow> ('z ptab_scheme, unit) op" where
  "yield_resume ie = sq (sched_resume ie) (release PtableLock)"

text \<open>
  \<^verbatim>\<open>sleep\<close>.  Locks are names here and not pointers, so that \<^verbatim>\<open>panic("sleep without lk")\<close> for a null \<^verbatim>\<open>lk\<close> has no
  counterpart.
\<close>

definition sleep :: "chan \<Rightarrow> lock \<Rightarrow> ('z ptab_scheme, unit) op" where
  "sleep ch lk =
     bnd (gets cur) (\<lambda>c.
     case c of
       None \<Rightarrow> panic ''sleep''
     | Some p \<Rightarrow>
         sq (whenM (lk \<noteq> PtableLock) (sq (acquire PtableLock) (release lk)))
        (sq (upd_proc p (\<lambda>q. q\<lparr>pchan := ch\<rparr>))
        (sq (upd_proc p (\<lambda>q. q\<lparr>pstate := SLEEPING\<rparr>))
        (sq (bnd (gets (\<lambda>s. priority (procs s p))) (\<lambda>x.
               whenM (x > 0) (upd_proc p (\<lambda>q. q\<lparr>priority := priority q - 1\<rparr>))))
            sched))))"

definition sleep_resume :: "bool \<Rightarrow> lock \<Rightarrow> ('z ptab_scheme, unit) op" where
  "sleep_resume ie lk =
     sq (sched_resume ie)
    (bnd curproc (\<lambda>p.
     sq (upd_proc p (\<lambda>q. q\<lparr>pchan := NoChan\<rparr>))
        (whenM (lk \<noteq> PtableLock) (sq (release PtableLock) (acquire lk)))))"

definition wakeup1 :: "chan \<Rightarrow> ('z ptab_scheme, unit) op" where
  "wakeup1 ch =
     foreach [0..<NPROC] (\<lambda>p.
       bnd (gets (\<lambda>s. procs s p)) (\<lambda>q.
       whenM (pstate q = SLEEPING \<and> pchan q = ch) (makerunnable p (-1))))"

definition wakeup :: "chan \<Rightarrow> ('z ptab_scheme, unit) op" where
  "wakeup ch = sq (acquire PtableLock) (sq (wakeup1 ch) (release PtableLock))"

definition kill :: "int \<Rightarrow> ('z ptab_scheme, int) op" where
  "kill pd =
     sq (acquire PtableLock)
    (bnd (gets (\<lambda>s. scan (\<lambda>p. pid (procs s p) = pd) NPROC)) (\<lambda>found.
     case found of
       Some p \<Rightarrow>
         sq (upd_proc p (\<lambda>q. q\<lparr>killed := True\<rparr>))
        (sq (bnd (gets (\<lambda>s. pstate (procs s p))) (\<lambda>st. whenM (st = SLEEPING) (makerunnable p 0)))
        (sq (release PtableLock)
            (ret 0)))
     | None \<Rightarrow> sq (release PtableLock) (ret (-1))))"

text \<open>Growing the current process (\<^verbatim>\<open>n\<close> is added modulo \<open>2 ^ 32\<close>).\<close>

definition growproc :: "int \<Rightarrow> ('z ptab_scheme, int) op" where
  "growproc n =
     bnd curproc (\<lambda>p.
     bnd (gets (\<lambda>s. procs s p)) (\<lambda>q.
     let sz = psz q;
         finish = (\<lambda>sz'. sq (upd_proc p (\<lambda>q. q\<lparr>psz := sz'\<rparr>)) (sq (switchuvm p) (ret 0)))
     in if n > 0 then
          bnd (allocuvm (pgdir q) sz (sz + of_int n)) (\<lambda>sz'. if sz' = 0 then ret (-1) else finish sz')
        else if n < 0 then
          bnd (deallocuvm (pgdir q) sz (sz + of_int n)) (\<lambda>sz'. if sz' = 0 then ret (-1) else finish sz')
        else finish sz))"

section \<open>What the operations keep\<close>

text \<open>The operations change the state only through the fields of the table, the page allocator and the locks.\<close>

lemma keeps_upd [keeps_intros]:
  "(\<And>s x. P s \<Longrightarrow> P (s\<lparr>procs := x\<rparr>)) \<Longrightarrow> keeps P (upd_proc p f)"
  "(\<And>s x. P s \<Longrightarrow> P (s\<lparr>mlf := x\<rparr>)) \<Longrightarrow> keeps P (upd_mlf l g)"
  unfolding upd_proc_def upd_mlf_def by (intro keeps_modify; assumption)+

lemma keeps_curproc [keeps_intros]: "keeps P curproc"
  by (simp add: keeps_def curproc_def split: option.split)

lemma keeps_makerunnable [keeps_intros]:
  "(\<And>s x. P s \<Longrightarrow> P (s\<lparr>procs := x\<rparr>)) \<Longrightarrow> (\<And>s x. P s \<Longrightarrow> P (s\<lparr>mlf := x\<rparr>)) \<Longrightarrow> keeps P (makerunnable p pr)"
  unfolding makerunnable_def enqueue_def by (intro keeps_intros)

lemma keeps_sched [keeps_intros]: "keeps P sched"
  unfolding keeps_def sched_def bnd_def curproc_def by (simp split: option.split)

lemma keeps_wakeup [keeps_intros]:
  "(\<And>s x. P s \<Longrightarrow> P (s\<lparr>procs := x\<rparr>)) \<Longrightarrow> (\<And>s x. P s \<Longrightarrow> P (s\<lparr>mlf := x\<rparr>)) \<Longrightarrow> keeps P (wakeup1 ch)"
  "(\<And>s x. P s \<Longrightarrow> P (s\<lparr>procs := x\<rparr>)) \<Longrightarrow> (\<And>s x. P s \<Longrightarrow> P (s\<lparr>mlf := x\<rparr>)) \<Longrightarrow>
   (\<And>s k. P s \<Longrightarrow> P (s\<lparr>cpust := k\<rparr>)) \<Longrightarrow> keeps P (wakeup ch)"
  unfolding wakeup_def wakeup1_def by (intro keeps_intros; assumption)+

lemma keeps_sleep [keeps_intros]:
  "(\<And>s x. P s \<Longrightarrow> P (s\<lparr>procs := x\<rparr>)) \<Longrightarrow> (\<And>s k. P s \<Longrightarrow> P (s\<lparr>cpust := k\<rparr>)) \<Longrightarrow> keeps P (sleep ch lk)"
  "(\<And>s x. P s \<Longrightarrow> P (s\<lparr>procs := x\<rparr>)) \<Longrightarrow> (\<And>s k. P s \<Longrightarrow> P (s\<lparr>cpust := k\<rparr>)) \<Longrightarrow> keeps P (sleep_resume ie lk)"
  unfolding sleep_def sleep_resume_def sched_resume_def by (intro keeps_intros; assumption)+

text \<open>\<^verbatim>\<open>sched\<close>, and so \<^verbatim>\<open>sleep\<close>, does not return to its caller at once.\<close>

lemma sched_not_Ret: "sched s \<noteq> Ret u s'"
  by (simp add: sched_def bnd_def curproc_def split: option.split)

lemma sleep_not_Ret: "sleep ch lk s \<noteq> Ret u s'"
  unfolding sleep_def by (auto elim!: bnd_RetE sq_RetE simp: sched_not_Ret panic_def split: option.splits)

end
