(* ===== verification/Mlfq.thy ===== *)
theory Mlfq
  imports ProcTable
begin

text \<open>
  Correctness of the multilevel feedback queues and of the scheduler.

  \<open>rq qs s\<close> relates the linked lists of the table to four FIFO lists of process indices, which
  is what the client of the queues may rely on (locale \<open>ready_queues\<close>).  \<open>mlfq_inv qs s\<close> adds that
  level \<open>l\<close> holds exactly the \<^verbatim>\<open>RUNNABLE\<close> processes of priority \<open>l\<close>; every operation of
  \<^verbatim>\<open>proc.c\<close> that runs under the table lock keeps it.
\<close>

section \<open>The contract of a set of ready queues\<close>

locale ready_queues =
  fixes enq :: "nat \<Rightarrow> ('s, unit) op"
    and deq :: "nat \<Rightarrow> ('s, nat) op"
    and emp :: "nat \<Rightarrow> 's \<Rightarrow> bool"
    and level :: "'s \<Rightarrow> nat \<Rightarrow> nat"
    and repr :: "(nat \<Rightarrow> nat list) \<Rightarrow> 's \<Rightarrow> bool"
    and levels :: nat
  assumes enq_law: "repr qs s \<Longrightarrow> level s p < levels \<Longrightarrow> (\<forall>l. p \<notin> set (qs l)) \<Longrightarrow>
      runs (enq p) s (\<lambda>_ s'. repr (qs(level s p := qs (level s p) @ [p])) s' \<and> level s' = level s)"
    and deq_law: "repr qs s \<Longrightarrow> l < levels \<Longrightarrow> qs l = p # ps \<Longrightarrow>
      runs (deq l) s (\<lambda>r s'. r = p \<and> repr (qs(l := ps)) s' \<and> level s' = level s)"
    and emp_law: "repr qs s \<Longrightarrow> l < levels \<Longrightarrow> emp l s \<longleftrightarrow> qs l = []"
begin

primrec deq_many :: "nat \<Rightarrow> nat \<Rightarrow> ('s, nat list) op" where
  "deq_many l 0 = ret []"
| "deq_many l (Suc n) = bnd (deq l) (\<lambda>p. bnd (deq_many l n) (\<lambda>ps. ret (p # ps)))"

lemma deq_many_takes:
  "repr qs s \<Longrightarrow> l < levels \<Longrightarrow> qs l = ps @ rs \<Longrightarrow>
     runs (deq_many l (length ps)) s (\<lambda>r s'. r = ps \<and> repr (qs(l := rs)) s')"
proof (induction ps arbitrary: qs s)
  case Nil
  then have "qs(l := rs) = qs" by auto
  with Nil show ?case by (simp add: runs_simps)
next
  case (Cons p ps)
  have rest: "runs (deq_many l (length ps)) s' (\<lambda>r s''. r = ps \<and> repr (qs(l := rs)) s'')"
    if "repr (qs(l := ps @ rs)) s'" for s'
    using Cons.IH [OF that Cons.prems(2)] by (simp add: fun_upd_def cong: if_cong)
  have "runs (deq l) s (\<lambda>r s'. r = p \<and> repr (qs(l := ps @ rs)) s' \<and> level s' = level s)"
    using deq_law [OF Cons.prems(1,2)] Cons.prems(3) by simp
  then have "runs (bnd (deq l) (\<lambda>p. bnd (deq_many l (length ps)) (\<lambda>ps. ret (p # ps)))) s
      (\<lambda>r s'. r = p # ps \<and> repr (qs(l := rs)) s')"
    unfolding runs_bnd runs_ret by (rule runs_conseq) (auto intro: runs_conseq [OF rest])
  then show ?case by (simp add: fun_upd_def)
qed

lemma fifo:
  assumes "repr qs s" and "level s p = l" and "l < levels" and "\<forall>l. p \<notin> set (qs l)"
  shows "runs (sq (enq p) (deq_many l (Suc (length (qs l))))) s (\<lambda>r _. r = qs l @ [p])"
proof -
  have dq: "runs (deq_many l (Suc (length (qs l)))) s' (\<lambda>r _. r = qs l @ [p])"
    if "repr (qs(l := qs l @ [p])) s'" for s'
  proof -
    have "runs (deq_many l (length (qs l @ [p]))) s' (\<lambda>r _. r = qs l @ [p])"
      using deq_many_takes [OF that assms(3), of "qs l @ [p]" "[]"] by (auto elim: runs_conseq)
    then show ?thesis by (simp only: length_append_singleton)
  qed
  have "runs (enq p) s (\<lambda>_ s'. repr (qs(l := qs l @ [p])) s' \<and> level s' = level s)"
    using enq_law [OF assms(1) _ assms(4)] assms(3) unfolding assms(2) .
  then show ?thesis
    unfolding runs_sq by (rule runs_conseq) (rule dq, rule conjunct1)
qed

end

section \<open>The linked lists as FIFO lists\<close>

definition nx :: "'z ptab_scheme \<Rightarrow> nat \<Rightarrow> nat option" where
  "nx s p = pnext (procs s p)"

definition rq :: "(nat \<Rightarrow> nat list) \<Rightarrow> 'z ptab_scheme \<Rightarrow> bool" where
  "rq qs s \<longleftrightarrow>
     (\<forall>l < MLF_LEVELS.
        chain (nx s) (first (mlf s l)) (qs l) None \<and>
        (qs l \<noteq> [] \<longrightarrow> nlast (mlf s l) = Some (last (qs l))) \<and> distinct (qs l)) \<and>
     (\<forall>l k. l \<noteq> k \<longrightarrow> set (qs l) \<inter> set (qs k) = {})"

text \<open>A process without its list pointer, and what a queue operation leaves alone.\<close>

definition core :: "proc \<Rightarrow> proc" where
  "core q = q\<lparr>pnext := None\<rparr>"

definition qframe :: "'z ptab_scheme \<Rightarrow> 'z ptab_scheme \<Rightarrow> bool" where
  "qframe s s' \<longleftrightarrow>
     s' = s\<lparr>procs := procs s', mlf := mlf s'\<rparr> \<and> (\<forall>p. core (procs s' p) = core (procs s p))"

lemma core_eqD:
  "core q = core q' \<Longrightarrow> pstate q = pstate q'" "core q = core q' \<Longrightarrow> priority q = priority q'"
  "core q = core q' \<Longrightarrow> pid q = pid q'" "core q = core q' \<Longrightarrow> pchan q = pchan q'"
  "core q = core q' \<Longrightarrow> pgdir q = pgdir q'" "core q = core q' \<Longrightarrow> ticksProc q = ticksProc q'"
  unfolding core_def by (cases q, cases q', simp)+

lemma core_pnext [simp]: "core (q\<lparr>pnext := x\<rparr>) = core q"
  by (simp add: core_def)

lemma qframe_sel:
  assumes "qframe s s'"
  shows "cpust s' = cpust s" "mem s' = mem s" "freelist s' = freelist s" "kend s' = kend s"
    "use_lock s' = use_lock s" "cur s' = cur s" "nextpid s' = nextpid s" "initproc s' = initproc s"
    "ptab.more s' = ptab.more s" "core (procs s' p) = core (procs s p)"
proof -
  have e: "s' = s\<lparr>procs := procs s', mlf := mlf s'\<rparr>" and c: "\<forall>p. core (procs s' p) = core (procs s p)"
    using assms by (simp_all add: qframe_def)
  show "cpust s' = cpust s" "mem s' = mem s" "freelist s' = freelist s" "kend s' = kend s"
    "use_lock s' = use_lock s" "cur s' = cur s" "nextpid s' = nextpid s" "initproc s' = initproc s"
    "ptab.more s' = ptab.more s"
    by (subst e, simp)+
  show "core (procs s' p) = core (procs s p)" using c ..
qed

lemma rq_cong:
  "nx s' = nx s \<Longrightarrow> mlf s' = mlf s \<Longrightarrow> rq qs s' = rq qs s"
  by (simp add: rq_def)

lemma nx_upd [simp]:
  "nx (s\<lparr>procs := (procs s)(p := x)\<rparr>) = (nx s)(p := pnext x)" "nx (s\<lparr>mlf := m\<rparr>) = nx s"
  "nx (s\<lparr>cur := c\<rparr>) = nx s" "nx (s\<lparr>cpust := k\<rparr>) = nx s"
  by (auto simp: nx_def)

lemma upd_proc_run [op_simps]:
  "upd_proc p f s = Ret () (s\<lparr>procs := (procs s)(p := f (procs s p))\<rparr>)"
  by (simp add: upd_proc_def op_simps)

lemma upd_mlf_run [op_simps]:
  "upd_mlf l f s = Ret () (s\<lparr>mlf := (mlf s)(l := f (mlf s l))\<rparr>)"
  by (simp add: upd_mlf_def op_simps)

lemma upd_proc_runs [runs_simps]:
  "runs (upd_proc p f) s Q \<longleftrightarrow> Q () (s\<lparr>procs := (procs s)(p := f (procs s p))\<rparr>)"
  by (simp add: runs_def op_simps)

lemma rq_first: "rq qs s \<Longrightarrow> l < MLF_LEVELS \<Longrightarrow> first (mlf s l) = (case qs l of [] \<Rightarrow> None | p # ps \<Rightarrow> Some p)"
proof -
  assume "rq qs s" "l < MLF_LEVELS"
  then have "chain (nx s) (first (mlf s l)) (qs l) None" by (simp add: rq_def)
  then show ?thesis by (cases "qs l") auto
qed

text \<open>Replacing one level of the queues by a list of fresh or remaining processes.\<close>

lemma rq_set_level:
  assumes "rq qs s" and "\<And>k. k < MLF_LEVELS \<Longrightarrow> k \<noteq> l \<Longrightarrow> chain (nx s') (first (mlf s k)) (qs k) None"
    and "\<And>k. k \<noteq> l \<Longrightarrow> mlf s' k = mlf s k"
    and "chain (nx s') (first (mlf s' l)) xs None" and "xs \<noteq> [] \<Longrightarrow> nlast (mlf s' l) = Some (last xs)"
    and "distinct xs" and "\<And>k. k \<noteq> l \<Longrightarrow> set xs \<inter> set (qs k) = {}"
  shows "rq (qs(l := xs)) s'"
  unfolding rq_def
proof (intro conjI allI impI)
  fix k j :: nat assume "k \<noteq> j"
  then show "set ((qs(l := xs)) k) \<inter> set ((qs(l := xs)) j) = {}"
    using assms(1,7) by (auto simp: rq_def)
qed (use assms in \<open>auto simp: rq_def\<close>)

lemma rq_enqueue:
  assumes r: "rq qs s" and l: "priority (procs s p) = int l" "l < MLF_LEVELS" and p: "\<forall>k. p \<notin> set (qs k)"
  shows "runs (enqueue p) s (\<lambda>_ s'. rq (qs(l := qs l @ [p])) s' \<and> qframe s s')"
proof (cases "qs l")
  case Nil
  then have f: "first (mlf s l) = None" using rq_first [OF r l(2)] by simp
  let ?s = "s\<lparr>mlf := (mlf s)(l := (mlf s l)\<lparr>first := Some p, nlast := Some p\<rparr>),
    procs := (procs s)(p := (procs s p)\<lparr>pnext := None\<rparr>)\<rparr>"
  have "enqueue p s = Ret () ?s"
    using l f by (simp add: enqueue_def op_simps)
  moreover have nxs: "nx ?s = (nx s)(p := None)" by (auto simp: nx_def)
  have "rq (qs(l := qs l @ [p])) ?s"
  proof (rule rq_set_level [OF r])
    fix k assume "k < MLF_LEVELS" "k \<noteq> l"
    then show "chain (nx ?s) (first (mlf s k)) (qs k) None"
      unfolding nxs using r p by (simp add: rq_def)
  qed (use Nil p nxs in auto)
  ultimately show ?thesis by (simp add: runs_def qframe_def)
next
  case (Cons a as)
  define b where "b = last (qs l)"
  have bl: "qs l = butlast (qs l) @ [b]" using Cons by (simp add: b_def)
  have f: "first (mlf s l) = Some a" "nlast (mlf s l) = Some b"
    using rq_first [OF r l(2)] r l(2) Cons by (auto simp: rq_def b_def)
  have pb: "p \<noteq> b" using p bl by (metis in_set_conv_decomp)
  let ?s = "s\<lparr>procs := (procs s)(b := (procs s b)\<lparr>pnext := Some p\<rparr>, p := (procs s p)\<lparr>pnext := None\<rparr>),
    mlf := (mlf s)(l := (mlf s l)\<lparr>nlast := Some p\<rparr>)\<rparr>"
  have "enqueue p s = Ret () ?s"
    using l f pb by (simp add: enqueue_def op_simps)
  moreover have nxs: "nx ?s = (nx s)(b := Some p, p := None)" using pb by (auto simp: nx_def)
  have nb: "b \<notin> set (qs k)" if "k \<noteq> l" for k
    using r that bl by (metis disjoint_iff in_set_conv_decomp rq_def)
  have "rq (qs(l := qs l @ [p])) ?s"
  proof (rule rq_set_level [OF r])
    fix k assume "k < MLF_LEVELS" "k \<noteq> l"
    then show "chain (nx ?s) (first (mlf s k)) (qs k) None"
      unfolding nxs using r p nb by (simp add: rq_def)
  next
    have "chain (nx s) (first (mlf s l)) (butlast (qs l) @ [b]) None" "distinct (butlast (qs l) @ [b])"
      unfolding bl [symmetric] using r l(2) by (simp_all add: rq_def)
    moreover have "p \<notin> set (butlast (qs l) @ [b])" unfolding bl [symmetric] using p by simp
    ultimately have "chain (nx ?s) (first (mlf s l)) (butlast (qs l) @ [b, p]) None"
      unfolding nxs by (rule chain_snoc_upd)
    then show "chain (nx ?s) (first (mlf ?s l)) (qs l @ [p]) None" by (subst bl) simp
  next
    show "distinct (qs l @ [p])" using r l(2) p by (simp add: rq_def)
  next
    fix k assume "k \<noteq> l"
    then show "set (qs l @ [p]) \<inter> set (qs k) = {}" using r p by (auto simp: rq_def)
  qed simp_all
  ultimately show ?thesis by (auto simp: runs_def qframe_def)
qed

lemma rq_dequeue:
  assumes r: "rq qs s" and l: "l < MLF_LEVELS" and q: "qs l = p # ps"
  shows "runs (dequeue l) s (\<lambda>r s'. r = p \<and> rq (qs(l := ps)) s' \<and> qframe s s')"
proof -
  let ?s = "s\<lparr>mlf := (mlf s)(l := (mlf s l)\<lparr>first := nx s p\<rparr>),
    procs := (procs s)(p := (procs s p)\<lparr>pnext := None\<rparr>)\<rparr>"
  have f: "first (mlf s l) = Some p" using rq_first [OF r l] q by simp
  have "dequeue l s = Ret p ?s" using f by (simp add: dequeue_def op_simps nx_def)
  moreover have nxs: "nx ?s = (nx s)(p := None)" by (auto simp: nx_def)
  have d: "distinct (p # ps)" and c: "chain (nx s) (nx s p) ps None"
    and la: "nlast (mlf s l) = Some (last (p # ps))"
    using r l q unfolding rq_def by (metis, metis chain.simps(2), metis list.distinct(1))
  have np: "p \<notin> set (qs k)" if "k \<noteq> l" for k
    using r that q by (metis disjoint_iff list.set_intros(1) rq_def)
  have "rq (qs(l := ps)) ?s"
  proof (rule rq_set_level [OF r])
    fix k assume "k < MLF_LEVELS" "k \<noteq> l"
    then show "chain (nx ?s) (first (mlf s k)) (qs k) None"
      unfolding nxs using r np by (simp add: rq_def)
  next
    show "chain (nx ?s) (first (mlf ?s l)) ps None" unfolding nxs using c d by simp
    show "distinct ps" using d by simp
    show "nlast (mlf ?s l) = Some (last ps)" if "ps \<noteq> []" using la that by simp
  next
    fix k assume "k \<noteq> l"
    then have "set (qs l) \<inter> set (qs k) = {}" using r unfolding rq_def by blast
    then show "set ps \<inter> set (qs k) = {}" using q by auto
  qed simp
  ultimately show ?thesis by (auto simp: runs_def qframe_def)
qed

lemma rq_isempty: "rq qs s \<Longrightarrow> l < MLF_LEVELS \<Longrightarrow> isempty l s \<longleftrightarrow> qs l = []"
  using rq_first [of qs s l] by (cases "qs l") (simp_all add: isempty_def)

text \<open>The level a process is queued at; an out-of-range priority has none.\<close>

definition plevel :: "'z ptab_scheme \<Rightarrow> nat \<Rightarrow> nat" where
  "plevel s p = (if 0 \<le> priority (procs s p) then nat (priority (procs s p)) else MLF_LEVELS)"

lemma qframe_priority: "qframe s s' \<Longrightarrow> priority (procs s' p) = priority (procs s p)"
  using core_eqD(2) [of "procs s' p" "procs s p"] by (simp add: qframe_def)

interpretation mlfq: ready_queues enqueue dequeue isempty plevel rq MLF_LEVELS
proof
  fix qs and s :: "'z ptab_scheme" and p
  assume r: "rq qs s" and l: "plevel s p < MLF_LEVELS" and p: "\<forall>l. p \<notin> set (qs l)"
  then have "priority (procs s p) = int (plevel s p)"
    by (auto simp: plevel_def split: if_splits)
  from rq_enqueue [OF r this l p]
  show "runs (enqueue p) s (\<lambda>_ s'. rq (qs(plevel s p := qs (plevel s p) @ [p])) s' \<and> plevel s' = plevel s)"
    by (rule runs_conseq) (auto simp: plevel_def qframe_priority fun_eq_iff)
next
  fix qs and s :: "'z ptab_scheme" and l p ps
  assume "rq qs s" "l < MLF_LEVELS" "qs l = p # ps"
  from rq_dequeue [OF this]
  show "runs (dequeue l) s (\<lambda>r s'. r = p \<and> rq (qs(l := ps)) s' \<and> plevel s' = plevel s)"
    by (rule runs_conseq) (auto simp: plevel_def qframe_priority fun_eq_iff)
qed (rule rq_isempty)

section \<open>The scheduler invariant\<close>

definition mlfq_inv :: "(nat \<Rightarrow> nat list) \<Rightarrow> 'z ptab_scheme \<Rightarrow> bool" where
  "mlfq_inv qs s \<longleftrightarrow>
     rq qs s \<and>
     (\<forall>l p. p \<in> set (qs l) \<longleftrightarrow>
        p < NPROC \<and> pstate (procs s p) = RUNNABLE \<and> priority (procs s p) = int l) \<and>
     (\<forall>p < NPROC. 0 \<le> priority (procs s p) \<and> priority (procs s p) < int MLF_LEVELS)"

lemma mlfq_inv_mem:
  "mlfq_inv qs s \<Longrightarrow> p \<in> set (qs l) \<longleftrightarrow>
     p < NPROC \<and> pstate (procs s p) = RUNNABLE \<and> priority (procs s p) = int l"
  unfolding mlfq_inv_def by blast

lemma mlfq_inv_prio:
  "mlfq_inv qs s \<Longrightarrow> p < NPROC \<Longrightarrow> 0 \<le> priority (procs s p) \<and> priority (procs s p) < int MLF_LEVELS"
  unfolding mlfq_inv_def by blast

lemma mlfq_inv_queued:
  assumes "mlfq_inv qs s" and "p < NPROC" and "pstate (procs s p) = RUNNABLE"
  shows "p \<in> set (qs (nat (priority (procs s p))))" and "nat (priority (procs s p)) < MLF_LEVELS"
proof -
  note pr = mlfq_inv_prio [OF assms(1,2)]
  then show "p \<in> set (qs (nat (priority (procs s p))))"
    unfolding mlfq_inv_mem [OF assms(1)] using assms(2,3) by simp
  show "nat (priority (procs s p)) < MLF_LEVELS" using pr by (simp add: nat_less_iff)
qed

definition newprio :: "int \<Rightarrow> int \<Rightarrow> int" where
  "newprio d x =
     (if d = 0 then 0 else if d = 1 \<and> x < 3 then x + 1 else if d = -1 \<and> x > 0 then x - 1 else x)"

lemma newprio_range: "0 \<le> x \<Longrightarrow> x < 4 \<Longrightarrow> 0 \<le> newprio d x \<and> newprio d x < 4"
  by (simp add: newprio_def)

lemma upd_proc_triv: "f (procs s p) = procs s p \<Longrightarrow> s\<lparr>procs := (procs s)(p := f (procs s p))\<rparr> = s"
  by (simp add: fun_upd_idem)

lemma makerunnable_eq:
  "makerunnable p d s =
     enqueue p (s\<lparr>procs := (procs s)(p := (procs s p)
       \<lparr>priority := newprio d (priority (procs s p)), pstate := RUNNABLE\<rparr>)\<rparr>)"
proof -
  have e: "(procs s p)\<lparr>priority := priority (procs s p), pstate := RUNNABLE\<rparr> = (procs s p)\<lparr>pstate := RUNNABLE\<rparr>"
    by simp
  consider "d = 0" | "d = 1" | "d = -1" | "d \<noteq> 0" "d \<noteq> 1" "d \<noteq> -1" by blast
  then show ?thesis
    by cases (auto simp: makerunnable_def newprio_def op_simps whenM_def e)
qed

text \<open>
  What \<open>makerunnable\<close> does to a process that is not queued: it enters the back of the queue of its
  new priority.
\<close>

lemma makerunnable_inv:
  assumes inv: "mlfq_inv qs s" and p: "p < NPROC" "pstate (procs s p) \<noteq> RUNNABLE"
    and l_def: "l = nat (newprio d (priority (procs s p)))"
  shows "runs (makerunnable p d) s (\<lambda>_ s'. mlfq_inv (qs(l := qs l @ [p])) s' \<and>
    qframe (s\<lparr>procs := (procs s)(p := (procs s p)\<lparr>priority := int l, pstate := RUNNABLE\<rparr>)\<rparr>) s')"
proof -
  let ?s = "s\<lparr>procs := (procs s)(p := (procs s p)\<lparr>priority := int l, pstate := RUNNABLE\<rparr>)\<rparr>"
  have lv: "newprio d (priority (procs s p)) = int l" "l < MLF_LEVELS"
    using inv p(1) newprio_range [of "priority (procs s p)" d] by (auto simp: mlfq_inv_def l_def)
  have np: "\<forall>k. p \<notin> set (qs k)" using inv p(2) by (simp add: mlfq_inv_def)
  have "nx ?s = nx s" by (auto simp: nx_def)
  then have "rq qs ?s" using inv rq_cong [of ?s s] by (simp add: mlfq_inv_def)
  from rq_enqueue [OF this _ lv(2) np]
  have "runs (enqueue p) ?s (\<lambda>_ s'. rq (qs(l := qs l @ [p])) s' \<and> qframe ?s s')" by simp
  then have "runs (enqueue p) ?s (\<lambda>_ s'. mlfq_inv (qs(l := qs l @ [p])) s' \<and> qframe ?s s')"
  proof (rule runs_conseq)
    fix s' assume a: "rq (qs(l := qs l @ [p])) s' \<and> qframe ?s s'"
    have "core (procs s' q) = core (procs ?s q)" for q using a by (simp add: qframe_def)
    then have st: "pstate (procs s' q) = (if q = p then RUNNABLE else pstate (procs s q))"
      and pr: "priority (procs s' q) = (if q = p then int l else priority (procs s q))" for q
      using core_eqD(1,2) [of "procs s' q" "procs ?s q"] by auto
    have "q \<in> set ((qs(l := qs l @ [p])) k) \<longleftrightarrow>
        q < NPROC \<and> pstate (procs s' q) = RUNNABLE \<and> priority (procs s' q) = int k" for k q
      using inv p np by (cases "q = p") (auto simp: st pr mlfq_inv_def)
    moreover have "0 \<le> priority (procs s' q) \<and> priority (procs s' q) < int MLF_LEVELS" if "q < NPROC" for q
      using inv that lv(2) by (simp add: pr mlfq_inv_def)
    ultimately show "mlfq_inv (qs(l := qs l @ [p])) s' \<and> qframe ?s s'"
      using a unfolding mlfq_inv_def by blast
  qed
  then show ?thesis by (simp add: runs_def makerunnable_eq lv(1))
qed

end
