(* ===== verification/Sched.thy ===== *)
theory Sched
  imports Mlfq
begin

text \<open>
  What the scheduler, \<^verbatim>\<open>yield\<close>, \<^verbatim>\<open>sleep\<close>, \<^verbatim>\<open>wakeup\<close>, \<^verbatim>\<open>kill\<close> and \<^verbatim>\<open>allocproc\<close> do to the process table,
  and the invariant that all of them keep in every interleaving on one CPU.
\<close>

section \<open>Operations and the invariant\<close>

lemma mlfq_inv_cong:
  assumes "procs s' = procs s" and "mlf s' = mlf s"
  shows "mlfq_inv qs s' = mlfq_inv qs s"
proof -
  have "nx s' = nx s" using assms(1) by (simp add: nx_def fun_eq_iff)
  then show ?thesis using assms by (simp add: mlfq_inv_def rq_def)
qed

lemma mlfq_inv_upd [simp]:
  "mlfq_inv qs (s\<lparr>cpust := k\<rparr>) = mlfq_inv qs s" "mlfq_inv qs (s\<lparr>cur := c\<rparr>) = mlfq_inv qs s"
  "mlfq_inv qs (s\<lparr>mem := m\<rparr>) = mlfq_inv qs s" "mlfq_inv qs (s\<lparr>freelist := f\<rparr>) = mlfq_inv qs s"
  "mlfq_inv qs (s\<lparr>nextpid := n\<rparr>) = mlfq_inv qs s"
  by (rule mlfq_inv_cong; simp)+

text \<open>Changing a process that is neither runnable before nor after.\<close>

lemma mlfq_inv_other:
  assumes inv: "mlfq_inv qs s" and "pstate (procs s p) \<noteq> RUNNABLE" and "pstate x \<noteq> RUNNABLE"
    and "pnext x = pnext (procs s p)" and "p < NPROC \<Longrightarrow> 0 \<le> priority x \<and> priority x < int MLF_LEVELS"
  shows "mlfq_inv qs (s\<lparr>procs := (procs s)(p := x)\<rparr>)"
proof -
  have "nx (s\<lparr>procs := (procs s)(p := x)\<rparr>) = nx s" using assms(4) by (auto simp: nx_def)
  then have "rq qs (s\<lparr>procs := (procs s)(p := x)\<rparr>)"
    using inv rq_cong [of "s\<lparr>procs := (procs s)(p := x)\<rparr>" s] by (simp add: mlfq_inv_def)
  moreover have "q \<in> set (qs l) \<longleftrightarrow> q < NPROC \<and> pstate (((procs s)(p := x)) q) = RUNNABLE \<and>
      priority (((procs s)(p := x)) q) = int l" for q l
    using inv assms(2,3) by (cases "q = p") (auto simp: mlfq_inv_def)
  ultimately show ?thesis
    using inv assms(5) by (simp add: mlfq_inv_def)
qed

text \<open>Changing a field that the scheduler does not look at.\<close>

lemma mlfq_inv_same:
  assumes inv: "mlfq_inv qs s" and "pstate x = pstate (procs s p)"
    and "pnext x = pnext (procs s p)" and "priority x = priority (procs s p)"
  shows "mlfq_inv qs (s\<lparr>procs := (procs s)(p := x)\<rparr>)"
proof -
  let ?t = "s\<lparr>procs := (procs s)(p := x)\<rparr>"
  have e: "nx ?t = nx s" "\<And>q. pstate (procs ?t q) = pstate (procs s q)"
    "\<And>q. priority (procs ?t q) = priority (procs s q)"
    using assms(2-4) by (auto simp: nx_def)
  have "rq qs ?t = rq qs s" using e(1) rq_cong [of ?t s] by simp
  then show ?thesis using inv unfolding mlfq_inv_def e(2,3) by simp
qed

text \<open>Taking the head of a level: it stops being runnable.\<close>

lemma mlfq_inv_take:
  assumes inv: "mlfq_inv qs s" and q: "qs l = p # ps" and l: "l < MLF_LEVELS"
    and rq': "rq (qs(l := ps)) s'" and fr: "qframe s s'"
    and x: "pstate x \<noteq> RUNNABLE" "pnext x = pnext (procs s' p)" "priority x = int l"
  shows "mlfq_inv (qs(l := ps)) (s'\<lparr>procs := (procs s')(p := x)\<rparr>)"
proof -
  let ?t = "s'\<lparr>procs := (procs s')(p := x)\<rparr>"
  have "nx ?t = nx s'" using x(2) by (auto simp: nx_def)
  then have "rq (qs(l := ps)) ?t" using rq' rq_cong [of ?t s'] by simp
  moreover have c: "core (procs s' y) = core (procs s y)" for y using fr by (simp add: qframe_def)
  have st: "pstate (procs s' y) = pstate (procs s y)" "priority (procs s' y) = priority (procs s y)" for y
    using core_eqD(1,2) [OF c [of y]] by simp_all
  have d: "p \<notin> set ps" using inv q l unfolding mlfq_inv_def rq_def by (metis distinct.simps(2))
  have mem: "y \<in> set (qs k) \<longleftrightarrow> y < NPROC \<and> pstate (procs s y) = RUNNABLE \<and> priority (procs s y) = int k" for y k
    using inv by (simp add: mlfq_inv_def)
  have "y \<in> set ((qs(l := ps)) k) \<longleftrightarrow> y < NPROC \<and> pstate (procs ?t y) = RUNNABLE \<and>
      priority (procs ?t y) = int k" for y k
  proof (cases "y = p")
    case True
    then show ?thesis using x d mem [of p l] mem [of p k] q by (auto simp del: fun_upd_apply simp: fun_upd_def)
  next
    case False
    then have "y \<in> set ((qs(l := ps)) k) \<longleftrightarrow> y \<in> set (qs k)" using q by auto
    then show ?thesis using False mem by (simp add: st)
  qed
  moreover have "0 \<le> priority (procs ?t y) \<and> priority (procs ?t y) < int MLF_LEVELS" if "y < NPROC" for y
    using inv that x(3) l by (simp add: mlfq_inv_def st)
  ultimately show ?thesis by (simp add: mlfq_inv_def)
qed

section \<open>Picking a process\<close>

lemma pick_loop_run:
  assumes inv: "mlfq_inv qs s" and "\<And>l. l \<in> set ls \<Longrightarrow> l < MLF_LEVELS"
  shows "runs (pick_loop ls) s (\<lambda>r s'. case find (\<lambda>l. qs l \<noteq> []) ls of
      None \<Rightarrow> r = None \<and> s' = s
    | Some l \<Rightarrow> r = Some (hd (qs l)) \<and> rq (qs(l := tl (qs l))) s' \<and> qframe s s')"
  using assms(2)
proof (induction ls)
  case Nil
  then show ?case by (simp add: runs_simps)
next
  case (Cons l ls)
  have r: "rq qs s" using inv by (simp add: mlfq_inv_def)
  have e: "isempty l s \<longleftrightarrow> qs l = []" using rq_isempty [OF r] Cons.prems by simp
  show ?case
  proof (cases "qs l")
    case Nil
    then show ?thesis using Cons e by (simp add: runs_simps)
  next
    case (Cons p ps)
    have "runs (dequeue l) s (\<lambda>r s'. r = p \<and> rq (qs(l := ps)) s' \<and> qframe s s')"
      using rq_dequeue [OF r _ Cons] Cons.prems by simp
    then show ?thesis using Cons e by (auto simp: runs_simps elim!: runs_conseq)
  qed
qed

lemma switchuvm_run:
  assumes "cur s \<noteq> None" and "pgdir (procs s p) \<noteq> 0" and "cli_wf (cpust s)"
  shows "switchuvm p s = Ret () (s\<lparr>cpust := settled (cpust s)\<rparr>)"
  using assms popcli_pushcli [OF assms(3)]
  by (auto simp: switchuvm_def curproc_def on_cpust_def op_simps)

text \<open>The lowest level that is not empty.\<close>

definition top_level :: "(nat \<Rightarrow> nat list) \<Rightarrow> nat option" where
  "top_level qs = find (\<lambda>l. qs l \<noteq> []) [0..<MLF_LEVELS]"

lemma pick_run:
  assumes "mlfq_inv qs s"
  shows "runs pick s (\<lambda>r s'. case top_level qs of
      None \<Rightarrow> r = None \<and> s' = s
    | Some l \<Rightarrow> r = Some (hd (qs l)) \<and> rq (qs(l := tl (qs l))) s' \<and> qframe s s')"
  unfolding pick_def top_level_def by (rule pick_loop_run [OF assms]) simp

lemma top_level_None:
  assumes inv: "mlfq_inv qs s" and "top_level qs = None" and p: "p < NPROC"
  shows "pstate (procs s p) \<noteq> RUNNABLE"
proof
  assume "pstate (procs s p) = RUNNABLE"
  note q = mlfq_inv_queued [OF inv p this]
  have "qs (nat (priority (procs s p))) = []"
    using assms(2) q(2) unfolding top_level_def find_None_iff by simp
  then show False using q(1) by simp
qed

lemma top_level_Some:
  assumes inv: "mlfq_inv qs s" and t: "top_level qs = Some l"
  shows "l < MLF_LEVELS" and "qs l = hd (qs l) # tl (qs l)" and "hd (qs l) < NPROC"
    and "pstate (procs s (hd (qs l))) = RUNNABLE" and "priority (procs s (hd (qs l))) = int l"
    and "q < NPROC \<Longrightarrow> pstate (procs s q) = RUNNABLE \<Longrightarrow> int l \<le> priority (procs s q)"
proof -
  have l: "l < MLF_LEVELS" "qs l \<noteq> []" "\<forall>k < l. \<not> qs k \<noteq> []"
    using t scan_Some_iff [of "\<lambda>l. qs l \<noteq> []" MLF_LEVELS l] by (simp_all add: top_level_def scan_def)
  then show "l < MLF_LEVELS" and n: "qs l = hd (qs l) # tl (qs l)" by simp_all
  have "hd (qs l) \<in> set (qs l)" using l(2) by simp
  then show "hd (qs l) < NPROC" "pstate (procs s (hd (qs l))) = RUNNABLE" "priority (procs s (hd (qs l))) = int l"
    unfolding mlfq_inv_mem [OF inv] by simp_all
  assume q: "q < NPROC" "pstate (procs s q) = RUNNABLE"
  have "\<not> nat (priority (procs s q)) < l"
    using l(3) mlfq_inv_queued(1) [OF inv q] by force
  then show "int l \<le> priority (procs s q)" using mlfq_inv_prio [OF inv q(1)] by linarith
qed

text \<open>The lock state of the scheduler after \<^verbatim>\<open>sti\<close>.\<close>

definition sti :: "cpust \<Rightarrow> cpust" where
  "sti k = k\<lparr>eflags_IF := True\<rparr>"

lemma sti_wf:
  assumes "lock_free PtableLock k" and "ncli k = 0"
  shows "lock_free PtableLock (sti k)" "cli_wf (sti k)" "ncli (sti k) = 0"
  using assms by (simp_all add: sti_def lock_free_def cli_wf_def)

lemma scheduler_start:
  assumes "lock_free PtableLock (cpust s)" and "ncli (cpust s) = 0"
  shows "scheduler s = bnd pick (\<lambda>r. case r of
       Some p \<Rightarrow>
         sq (modify (\<lambda>s. s\<lparr>cur := Some p\<rparr>))
        (sq (switchuvm p)
        (sq (upd_proc p (\<lambda>q. q\<lparr>pstate := RUNNING\<rparr>))
        (sq (upd_proc p (\<lambda>q. q\<lparr>ticksProc := 0\<rparr>))
            (ret (Some p)))))
     | None \<Rightarrow> sq (release PtableLock) (ret None)) (s\<lparr>cpust := acq PtableLock (sti (cpust s))\<rparr>)"
proof -
  have "acquire PtableLock (s\<lparr>cpust := sti (cpust s)\<rparr>) = Ret () (s\<lparr>cpust := acq PtableLock (sti (cpust s))\<rparr>)"
    using sti_wf [OF assms] by (simp add: acquire_free)
  then show ?thesis by (simp add: scheduler_def modify_apply sq_Ret sti_def)
qed

lemma scheduler_none:
  assumes inv: "mlfq_inv qs s" and k: "lock_free PtableLock (cpust s)" "ncli (cpust s) = 0"
    and t: "top_level qs = None"
  shows "scheduler s = Ret None (s\<lparr>cpust := settled (sti (cpust s))\<rparr>)"
proof -
  define s2 where "s2 = s\<lparr>cpust := acq PtableLock (sti (cpust s))\<rparr>"
  have i2: "mlfq_inv qs s2" using inv by (simp add: s2_def)
  have "pick s2 = Ret None s2"
    using pick_run [OF i2] t by (auto simp: runs_iff)
  moreover have "release PtableLock s2 = Ret () (s2\<lparr>cpust := settled (sti (cpust s))\<rparr>)"
    using sti_wf [OF k] by (intro release_acq) (simp_all add: s2_def)
  ultimately show ?thesis
    unfolding scheduler_start [OF k] by (simp add: sq_Ret bnd_Ret ret_apply s2_def)
qed

lemma scheduler_picked:
  fixes s :: "'z ptab_scheme"
  assumes inv: "mlfq_inv qs s" and k: "lock_free PtableLock (cpust s)" "ncli (cpust s) = 0"
    and t: "top_level qs = Some l"
  obtains s3 where "pick (s\<lparr>cpust := acq PtableLock (sti (cpust s))\<rparr>) = Ret (Some (hd (qs l))) s3"
    and "rq (qs(l := tl (qs l))) s3" and "qframe (s\<lparr>cpust := acq PtableLock (sti (cpust s))\<rparr>) s3"
proof -
  have "mlfq_inv qs (s\<lparr>cpust := acq PtableLock (sti (cpust s))\<rparr>)" using inv by simp
  from pick_run [OF this] t that show thesis by (auto simp: runs_iff)
qed

lemma scheduler_some:
  fixes s :: "'z ptab_scheme"
  assumes inv: "mlfq_inv qs s" and k: "lock_free PtableLock (cpust s)" "ncli (cpust s) = 0"
    and t: "top_level qs = Some l" and pd: "pgdir (procs s (hd (qs l))) \<noteq> 0"
  shows "runs scheduler s (\<lambda>r s'. r = Some (hd (qs l)) \<and> cur s' = r \<and> nextpid s' = nextpid s \<and>
    mlfq_inv (qs(l := tl (qs l))) s' \<and>
    (\<forall>q. core (procs s' q) = (if q = hd (qs l)
       then core ((procs s q)\<lparr>pstate := RUNNING, ticksProc := 0\<rparr>) else core (procs s q))) \<and>
    cpust s' = acq PtableLock (sti (cpust s)))"
proof -
  let ?p = "hd (qs l)"
  define s2 where "s2 = s\<lparr>cpust := acq PtableLock (sti (cpust s))\<rparr>"
  have p2: "procs s2 = procs s" "nextpid s2 = nextpid s" and i2: "mlfq_inv qs s2"
    using inv by (simp_all add: s2_def)
  obtain s3 where s3: "pick s2 = Ret (Some ?p) s3" "rq (qs(l := tl (qs l))) s3" "qframe s2 s3"
    using scheduler_picked [OF inv k t] by (auto simp: s2_def)
  note fr = qframe_sel [OF s3(3)]
  have c3: "cpust s3 = acq PtableLock (sti (cpust s))" using fr(1) by (simp add: s2_def)
  have co: "core (procs s3 q) = core (procs s q)" for q using fr(10) by (simp add: p2)
  define s4 where "s4 = s3\<lparr>cur := Some ?p\<rparr>"
  have "pgdir (procs s4 ?p) \<noteq> 0" using core_eqD(5) [OF co [of ?p]] pd by (simp add: s4_def)
  then have sw: "switchuvm ?p s4 = Ret () s4"
    using sti_wf [OF k] c3 switchuvm_run [of s4 ?p] by (simp add: s4_def)
  define x where "x = (procs s3 ?p)\<lparr>pstate := RUNNING, ticksProc := 0\<rparr>"
  define s5 where "s5 = s4\<lparr>procs := (procs s4)(?p := x)\<rparr>"
  have "scheduler s = Ret (Some ?p) s5"
    unfolding scheduler_start [OF k] s2_def [symmetric]
    by (simp add: modify_apply sq_Ret bnd_Ret ret_apply s3(1) s4_def [symmetric] sw upd_proc_run)
      (simp add: s5_def s4_def x_def)
  moreover note top = top_level_Some [OF i2 t]
  have "mlfq_inv (qs(l := tl (qs l))) (s3\<lparr>procs := (procs s3)(?p := x)\<rparr>)"
    using mlfq_inv_take [OF i2 top(2,1) s3(2,3), of x] core_eqD(2) [OF co [of ?p]] top(5)
    by (simp add: x_def p2)
  then have "mlfq_inv (qs(l := tl (qs l))) s5"
    by (subst mlfq_inv_cong [of _ "s3\<lparr>procs := (procs s3)(?p := x)\<rparr>"]) (simp_all add: s5_def s4_def)
  moreover have "core x = core ((procs s ?p)\<lparr>pstate := RUNNING, ticksProc := 0\<rparr>)"
    using co [of ?p] unfolding x_def core_def by (cases "procs s3 ?p", cases "procs s ?p") simp
  ultimately show ?thesis
    using co c3 fr(7) p2 by (auto simp: runs_def s5_def s4_def)
qed

lemma scheduler_no_pgdir:
  fixes s :: "'z ptab_scheme"
  assumes inv: "mlfq_inv qs s" and k: "lock_free PtableLock (cpust s)" "ncli (cpust s) = 0"
    and t: "top_level qs = Some l" and pd: "pgdir (procs s (hd (qs l))) = 0"
  shows "scheduler s = Panic ''switchuvm: no pgdir''"
proof -
  let ?p = "hd (qs l)"
  obtain s3 where s3: "pick (s\<lparr>cpust := acq PtableLock (sti (cpust s))\<rparr>) = Ret (Some ?p) s3"
    "qframe (s\<lparr>cpust := acq PtableLock (sti (cpust s))\<rparr>) s3"
    using scheduler_picked [OF inv k t] by auto
  have "pgdir (procs s3 ?p) = 0"
    using core_eqD(5) [OF qframe_sel(10) [OF s3(2)], of ?p] pd by simp
  then have "switchuvm ?p (s3\<lparr>cur := Some ?p\<rparr>) = Panic ''switchuvm: no pgdir''"
    by (simp add: switchuvm_def modify_apply sq_Ret bnd_Ret curproc_def gets_apply panic_apply)
  then show ?thesis
    unfolding scheduler_start [OF k] by (simp add: s3(1) bnd_Ret sq_Ret modify_apply sq_Panic)
qed

section \<open>Waking up\<close>

text \<open>A process that \<open>wakeup ch\<close> makes runnable, and the level it goes to.\<close>

definition woken :: "chan \<Rightarrow> 'z ptab_scheme \<Rightarrow> nat \<Rightarrow> bool" where
  "woken ch s p \<longleftrightarrow> pstate (procs s p) = SLEEPING \<and> pchan (procs s p) = ch"

definition wake_level :: "'z ptab_scheme \<Rightarrow> nat \<Rightarrow> nat" where
  "wake_level s p = nat (newprio (-1) (priority (procs s p)))"

definition wake_queues :: "chan \<Rightarrow> 'z ptab_scheme \<Rightarrow> (nat \<Rightarrow> nat list) \<Rightarrow> nat list \<Rightarrow> nat \<Rightarrow> nat list" where
  "wake_queues ch s qs ps l = qs l @ filter (\<lambda>p. woken ch s p \<and> wake_level s p = l) ps"

definition wake_inv :: "chan \<Rightarrow> 'z ptab_scheme \<Rightarrow> (nat \<Rightarrow> nat list) \<Rightarrow> nat list \<Rightarrow> 'z ptab_scheme \<Rightarrow> bool" where
  "wake_inv ch s qs ps s' \<longleftrightarrow>
     mlfq_inv (wake_queues ch s qs ps) s' \<and>
     (\<exists>pr ml. s' = s\<lparr>procs := pr, mlf := ml\<rparr>) \<and>
     (\<forall>p. core (procs s' p) = (if p \<in> set ps \<and> woken ch s p
        then core ((procs s p)\<lparr>priority := int (wake_level s p), pstate := RUNNABLE\<rparr>)
        else core (procs s p)))"

lemma wake_inv_skip:
  assumes "wake_inv ch s qs ps t" and "\<not> woken ch s i"
  shows "wake_inv ch s qs (ps @ [i]) t"
proof -
  have "wake_queues ch s qs (ps @ [i]) = wake_queues ch s qs ps"
    using assms(2) by (simp add: wake_queues_def fun_eq_iff)
  moreover have "(p \<in> set (ps @ [i]) \<and> woken ch s p) = (p \<in> set ps \<and> woken ch s p)" for p
    using assms(2) by auto
  ultimately show ?thesis using assms(1) unfolding wake_inv_def by presburger
qed

lemma core_upd_cong:
  "core q = core q' \<Longrightarrow> core (q\<lparr>priority := x, pstate := y\<rparr>) = core (q'\<lparr>priority := x, pstate := y\<rparr>)"
  unfolding core_def by (cases q, cases q') simp

lemma wake_inv_step:
  fixes t :: "'z ptab_scheme"
  assumes I: "wake_inv ch s qs ps t" and i: "i < NPROC" "i \<notin> set ps" and w: "woken ch s i"
  shows "runs (makerunnable i (-1)) t (\<lambda>_ t'. wake_inv ch s qs (ps @ [i]) t')"
proof -
  let ?l = "wake_level s i"
  have c: "core (procs t i) = core (procs s i)" using I i(2) by (simp add: wake_inv_def)
  have st: "pstate (procs t i) \<noteq> RUNNABLE" and l: "?l = nat (newprio (-1) (priority (procs t i)))"
    using core_eqD(1,2) [OF c] w by (simp_all add: woken_def wake_level_def)
  have inv: "mlfq_inv (wake_queues ch s qs ps) t" using I by (simp add: wake_inv_def)
  have q: "(wake_queues ch s qs ps)(?l := wake_queues ch s qs ps ?l @ [i]) = wake_queues ch s qs (ps @ [i])"
    using w by (auto simp: wake_queues_def fun_eq_iff)
  show ?thesis
  proof (rule runs_conseq [OF makerunnable_inv [OF inv i(1) st l]], unfold q)
    fix t' :: "'z ptab_scheme"
    let ?u = "t\<lparr>procs := (procs t)(i := (procs t i)\<lparr>priority := int ?l, pstate := RUNNABLE\<rparr>)\<rparr>"
    assume a: "mlfq_inv (wake_queues ch s qs (ps @ [i])) t' \<and> qframe ?u t'"
    have "\<exists>pr ml. t' = s\<lparr>procs := pr, mlf := ml\<rparr>"
    proof -
      obtain pr ml where "t = s\<lparr>procs := pr, mlf := ml\<rparr>" using I unfolding wake_inv_def by blast
      moreover have "t' = ?u\<lparr>procs := procs t', mlf := mlf t'\<rparr>" using a unfolding qframe_def by blast
      ultimately have "t' = s\<lparr>procs := procs t', mlf := mlf t'\<rparr>" by simp
      then show ?thesis by blast
    qed
    moreover have "core (procs t' p) = (if p \<in> set (ps @ [i]) \<and> woken ch s p
        then core ((procs s p)\<lparr>priority := int (wake_level s p), pstate := RUNNABLE\<rparr>)
        else core (procs s p))" for p
    proof -
      have "core (procs t' p) = core (procs ?u p)" using a unfolding qframe_def by blast
      then show ?thesis
        using I w core_upd_cong [OF c] by (auto simp: wake_inv_def)
    qed
    ultimately show "wake_inv ch s qs (ps @ [i]) t'" using a by (simp add: wake_inv_def)
  qed
qed

lemma wakeup1_run:
  fixes s :: "'z ptab_scheme"
  assumes inv: "mlfq_inv qs s"
  shows "runs (wakeup1 ch) s (\<lambda>_ s'. wake_inv ch s qs [0..<NPROC] s')"
  unfolding wakeup1_def
proof (rule runs_for [where I = "\<lambda>i. wake_inv ch s qs [0..<i]"])
  have "wake_queues ch s qs [] = qs" by (simp add: wake_queues_def fun_eq_iff)
  moreover have "s = s\<lparr>procs := procs s, mlf := mlf s\<rparr>" by simp
  ultimately show "wake_inv ch s qs [0..<0] s" unfolding wake_inv_def using inv by (simp, blast)
next
  fix i and t :: "'z ptab_scheme"
  assume i: "i < NPROC" and I: "wake_inv ch s qs [0..<i] t"
  have c: "core (procs t i) = core (procs s i)" using I by (simp add: wake_inv_def)
  have w: "pstate (procs t i) = SLEEPING \<and> pchan (procs t i) = ch \<longleftrightarrow> woken ch s i"
    using core_eqD(1,4) [OF c] by (simp add: woken_def)
  show "runs (bnd (gets (\<lambda>s. procs s i)) (\<lambda>q.
      whenM (pstate q = SLEEPING \<and> pchan q = ch) (makerunnable i (-1)))) t
      (\<lambda>_ s'. wake_inv ch s qs [0..<Suc i] s')"
    unfolding runs_bnd runs_gets runs_whenM w
    using wake_inv_skip [OF I] wake_inv_step [OF I i] by simp
qed

lemma wake_upd [simp]:
  "woken ch (s\<lparr>cpust := k\<rparr>) = woken ch s" "wake_level (s\<lparr>cpust := k\<rparr>) = wake_level s"
  "wake_queues ch (s\<lparr>cpust := k\<rparr>) = wake_queues ch s"
  by (simp_all add: wake_queues_def woken_def wake_level_def fun_eq_iff)

lemma wake_inv_cpust:
  assumes "wake_inv ch (s\<lparr>cpust := k\<rparr>) qs ps t"
  shows "wake_inv ch (s\<lparr>cpust := k'\<rparr>) qs ps (t\<lparr>cpust := k'\<rparr>)"
proof -
  obtain pr ml where "t = s\<lparr>cpust := k\<rparr>\<lparr>procs := pr, mlf := ml\<rparr>"
    using assms unfolding wake_inv_def by blast
  then have "t\<lparr>cpust := k'\<rparr> = s\<lparr>cpust := k'\<rparr>\<lparr>procs := pr, mlf := ml\<rparr>" by simp
  then have "\<exists>pr ml. t\<lparr>cpust := k'\<rparr> = s\<lparr>cpust := k'\<rparr>\<lparr>procs := pr, mlf := ml\<rparr>" by blast
  moreover have "mlfq_inv (wake_queues ch s qs ps) t"
    using assms unfolding wake_inv_def by simp
  moreover have "\<forall>p. core (procs t p) = (if p \<in> set ps \<and> woken ch s p
      then core ((procs s p)\<lparr>priority := int (wake_level s p), pstate := RUNNABLE\<rparr>) else core (procs s p))"
    using assms unfolding wake_inv_def by simp
  ultimately show ?thesis unfolding wake_inv_def by simp
qed

lemma wakeup_run:
  fixes s :: "'z ptab_scheme"
  assumes inv: "mlfq_inv qs s" and k: "lock_free PtableLock (cpust s)" "cli_wf (cpust s)"
  shows "runs (wakeup ch) s (\<lambda>_ s'. wake_inv ch (s\<lparr>cpust := settled (cpust s)\<rparr>) qs [0..<NPROC] s')"
proof -
  let ?s1 = "s\<lparr>cpust := acq PtableLock (cpust s)\<rparr>" and ?s0 = "s\<lparr>cpust := settled (cpust s)\<rparr>"
  have "runs (wakeup1 ch) ?s1 (\<lambda>_ t. runs (release PtableLock) t (\<lambda>_ s'. wake_inv ch ?s0 qs [0..<NPROC] s'))"
  proof (rule runs_conseq [OF wakeup1_run])
    show "mlfq_inv qs ?s1" using inv by simp
  next
    fix t :: "'z ptab_scheme" assume I: "wake_inv ch ?s1 qs [0..<NPROC] t"
    then obtain pr ml where t: "t = ?s1\<lparr>procs := pr, mlf := ml\<rparr>" unfolding wake_inv_def by blast
    have "wake_inv ch ?s0 qs [0..<NPROC] (t\<lparr>cpust := settled (cpust s)\<rparr>)"
      by (rule wake_inv_cpust [OF I])
    then show "runs (release PtableLock) t (\<lambda>_ s'. wake_inv ch ?s0 qs [0..<NPROC] s')"
      using k by (subst runs_release [of t PtableLock "cpust s"]) (simp_all add: t)
  qed
  then show ?thesis using k by (simp add: wakeup_def runs_sq runs_acquire)
qed

section \<open>Giving up the CPU\<close>

text \<open>Running process \<open>p\<close> with interrupts manageable and no lock held.\<close>

definition on_cpu :: "nat \<Rightarrow> 'z ptab_scheme \<Rightarrow> bool" where
  "on_cpu p s \<longleftrightarrow> cur s = Some p \<and> p < NPROC \<and> pstate (procs s p) = RUNNING \<and>
     lock_free PtableLock (cpust s) \<and> cli_wf (cpust s) \<and> ncli (cpust s) = 0"

lemma sched_run:
  assumes "cpust s = acq PtableLock k" and "ncli k = 0" and "cur s = Some p" and "pstate (procs s p) \<noteq> RUNNING"
  shows "sched s = Sleep (pchan (procs s p)) s"
  using assms by (simp add: sched_def op_simps curproc_def)

lemma yield_run:
  fixes s :: "'z ptab_scheme"
  assumes inv: "mlfq_inv qs s" and c: "on_cpu p s"
    and l: "l = nat (min (priority (procs s p) + 2) 3)"
  shows "sleeps yield s (\<lambda>_ s'. mlfq_inv (qs(l := qs l @ [p])) s' \<and>
    cpust s' = acq PtableLock (cpust s) \<and> cur s' = Some p \<and> nextpid s' = nextpid s \<and>
    (\<forall>q. core (procs s' q) = (if q = p
       then core ((procs s p)\<lparr>priority := int l, pstate := RUNNABLE\<rparr>) else core (procs s q))))"
proof -
  let ?x = "priority (procs s p)"
  define s1 where "s1 = s\<lparr>cpust := acq PtableLock (cpust s)\<rparr>"
  define s2 where "s2 = s1\<lparr>procs := (procs s1)(p := (procs s1 p)\<lparr>priority := min (?x + 1) 3\<rparr>)\<rparr>"
  have ps: "procs s1 = procs s" by (simp add: s1_def)
  have x: "0 \<le> ?x" "?x < 4" using mlfq_inv_prio [OF inv] c by (auto simp: on_cpu_def)
  have i1: "mlfq_inv qs s1" using inv by (simp add: s1_def)
  have i2: "mlfq_inv qs s2"
    unfolding s2_def using x c by (intro mlfq_inv_other [OF i1]) (auto simp: ps on_cpu_def)
  have l2: "l = nat (newprio 1 (priority (procs s2 p)))"
    using x by (auto simp: l s2_def newprio_def)
  have "pstate (procs s2 p) \<noteq> RUNNABLE" "p < NPROC" using c by (simp_all add: s2_def ps on_cpu_def)
  then obtain s3 where m: "makerunnable p 1 s2 = Ret () s3" "mlfq_inv (qs(l := qs l @ [p])) s3"
    and q: "qframe (s2\<lparr>procs := (procs s2)(p := (procs s2 p)\<lparr>priority := int l, pstate := RUNNABLE\<rparr>)\<rparr>) s3"
    using makerunnable_inv [OF i2 _ _ l2] by (auto simp: runs_iff)
  note fr = qframe_sel [OF q]
  have co: "core (procs s3 q) = (if q = p
       then core ((procs s p)\<lparr>priority := int l, pstate := RUNNABLE\<rparr>) else core (procs s q))" for q
    using fr(10) [of q] by (simp add: s2_def ps)
  have "pstate (procs s3 p) = RUNNABLE" using core_eqD(1) [of "procs s3 p"] co [of p] by fastforce
  then have sc: "sched s3 = Sleep (pchan (procs s3 p)) s3"
    using fr(1,6) c by (intro sched_run [of _ "cpust s"]) (simp_all add: s2_def s1_def on_cpu_def)
  have "acquire PtableLock s = Ret () s1" "curproc s1 = Ret p s1"
    using c by (simp_all add: acquire_free s1_def on_cpu_def curproc_def)
  moreover have "whenM (?x < 3) (upd_proc p (\<lambda>q. q\<lparr>priority := priority q + 1\<rparr>)) s1 = Ret () s2"
  proof (cases "?x < 3")
    case True
    then show ?thesis using x by (simp add: upd_proc_run s2_def ps)
  next
    case False
    then have "(procs s p)\<lparr>priority := min (?x + 1) 3\<rparr> = procs s p"
      using x by (cases "procs s p") simp
    then have "s2 = s1" by (simp add: s2_def ps fun_upd_idem)
    then show ?thesis using False by (simp add: ret_apply)
  qed
  ultimately have "yield s = Sleep (pchan (procs s3 p)) s3"
    using m(1) sc by (simp add: yield_def sq_Ret bnd_Ret gets_apply ps sc)
  then show ?thesis
    using m(2) co fr(1,6,7) c by (auto simp: sleeps_def s2_def s1_def on_cpu_def)
qed

lemmas basic_ops = ret_apply gets_apply modify_apply bnd_Ret sq_Ret upd_proc_run

text \<open>\<open>sleep\<close> is called with its lock held and no other.\<close>

definition holds_only :: "lock \<Rightarrow> cpust \<Rightarrow> cpust \<Rightarrow> bool" where
  "holds_only lk k c \<longleftrightarrow> c = acq lk k \<and> lock_free lk k \<and> lock_free PtableLock k \<and> cli_wf k \<and> ncli k = 0"

lemma sleep_locks:
  assumes "holds_only lk k (cpust s)"
  shows "whenM (lk \<noteq> PtableLock) (sq (acquire PtableLock) (release lk)) s =
    Ret () (s\<lparr>cpust := acq PtableLock k\<rparr>)"
proof (cases "lk = PtableLock")
  case True
  then show ?thesis using assms by (simp add: ret_apply holds_only_def)
next
  case False
  have h: "cpust s = acq lk k" "lock_free lk k" "lock_free PtableLock k" "cli_wf k"
    using assms by (simp_all add: holds_only_def)
  let ?s1 = "s\<lparr>cpust := acq PtableLock (acq lk k)\<rparr>"
  have "acquire PtableLock s = Ret () ?s1" using h False by (simp add: acquire_free)
  moreover have "release lk ?s1 = Ret () (?s1\<lparr>cpust := settled (acq PtableLock k)\<rparr>)"
    using h False by (intro release_acq) (simp_all add: acq_commute)
  ultimately show ?thesis using False h by (simp add: sq_Ret)
qed

lemma sleep_run:
  fixes s :: "'z ptab_scheme"
  assumes inv: "mlfq_inv qs s" and c: "cur s = Some p" "p < NPROC" "pstate (procs s p) = RUNNING"
    and k: "holds_only lk k (cpust s)" and x_def: "x = priority (procs s p)"
    and q_def: "q = (procs s p)\<lparr>pchan := ch, pstate := SLEEPING, priority := (if x > 0 then x - 1 else x)\<rparr>"
  shows "sleep ch lk s = Sleep ch (s\<lparr>cpust := acq PtableLock k, procs := (procs s)(p := q)\<rparr>)"
    and "mlfq_inv qs (s\<lparr>cpust := acq PtableLock k, procs := (procs s)(p := q)\<rparr>)"
proof -
  define s1 where "s1 = s\<lparr>cpust := acq PtableLock k\<rparr>"
  define s2 where "s2 = s1\<lparr>procs := (procs s)(p := q)\<rparr>"
  have "sched s2 = Sleep (pchan (procs s2 p)) s2"
    using k c by (intro sched_run [of _ k]) (simp_all add: s2_def s1_def holds_only_def q_def)
  moreover have "x \<le> 0 \<Longrightarrow> (procs s p)\<lparr>pchan := ch, pstate := SLEEPING\<rparr> = q" by (simp add: q_def x_def)
  ultimately have "(sq (upd_proc p (\<lambda>q. q\<lparr>pchan := ch\<rparr>))
      (sq (upd_proc p (\<lambda>q. q\<lparr>pstate := SLEEPING\<rparr>))
      (sq (bnd (gets (\<lambda>s. priority (procs s p))) (\<lambda>x.
             whenM (x > 0) (upd_proc p (\<lambda>q. q\<lparr>priority := priority q - 1\<rparr>))))
          sched))) s1 = Sleep ch s2"
    by (cases "x > 0") (simp_all add: basic_ops s1_def s2_def q_def x_def)
  then have "sleep ch lk s = Sleep ch s2"
    using c(1) sleep_locks [OF k] by (simp add: sleep_def gets_apply bnd_Ret sq_Ret s1_def)
  then show "sleep ch lk s = Sleep ch (s\<lparr>cpust := acq PtableLock k, procs := (procs s)(p := q)\<rparr>)"
    by (simp add: s2_def s1_def)
  have "mlfq_inv qs (s1\<lparr>procs := (procs s1)(p := q)\<rparr>)"
    using inv c mlfq_inv_prio [OF inv c(2)]
    by (intro mlfq_inv_other) (auto simp: s1_def q_def x_def)
  then show "mlfq_inv qs (s\<lparr>cpust := acq PtableLock k, procs := (procs s)(p := q)\<rparr>)"
    by (simp add: s1_def)
qed

section \<open>Interleavings on one CPU\<close>

text \<open>
  A step is one trip through the table lock: the scheduler switches to a process (whose first act is
  to release the lock, in \<^verbatim>\<open>yield\<close>, \<^verbatim>\<open>sleep\<close> or \<^verbatim>\<open>forkret\<close>) or finds none, the running process yields or
  sleeps and the scheduler takes the CPU back, somebody wakes or kills processes, a slot is
  allocated, or a new process is made runnable.
\<close>

inductive pt_step :: "'z ptab_scheme \<Rightarrow> 'z ptab_scheme \<Rightarrow> bool" where
  run: "cur s = None \<Longrightarrow> scheduler s = Ret (Some p) s1 \<Longrightarrow> release PtableLock s1 = Ret () s' \<Longrightarrow> pt_step s s'"
| idle: "cur s = None \<Longrightarrow> scheduler s = Ret None s' \<Longrightarrow> pt_step s s'"
| yield: "yield s = Sleep c s1 \<Longrightarrow> scheduler_resume s1 = Ret () s' \<Longrightarrow> pt_step s s'"
| sleep: "lock_free lk (cpust s) \<Longrightarrow> acquire lk s = Ret () s0 \<Longrightarrow> sleep ch lk s0 = Sleep c s1 \<Longrightarrow>
    scheduler_resume s1 = Ret () s' \<Longrightarrow> pt_step s s'"
| wakeup: "wakeup ch s = Ret () s' \<Longrightarrow> pt_step s s'"
| kill: "kill n s = Ret r s' \<Longrightarrow> pt_step s s'"
| alloc: "allocproc s = Ret r s' \<Longrightarrow> pt_step s s'"
| ready: "p < NPROC \<Longrightarrow> pstate (procs s p) = EMBRYO \<Longrightarrow> makerunnable p 0 s = Ret () s' \<Longrightarrow> pt_step s s'"

text \<open>The part of the invariant that does not speak of the queues.\<close>

definition cpu_inv :: "'z ptab_scheme \<Rightarrow> bool" where
  "cpu_inv s \<longleftrightarrow>
     lock_free PtableLock (cpust s) \<and> kmem_ready s \<and> ncli (cpust s) = 0 \<and>
     (\<forall>p < NPROC. pstate (procs s p) = RUNNING \<longleftrightarrow> cur s = Some p) \<and> (\<forall>p. cur s = Some p \<longrightarrow> p < NPROC)"

definition pid_inv :: "'z ptab_scheme \<Rightarrow> bool" where
  "pid_inv s \<longleftrightarrow>
     (\<forall>p < NPROC. pstate (procs s p) \<noteq> UNUSED \<longrightarrow> pid (procs s p) < nextpid s) \<and>
     (\<forall>p < NPROC. \<forall>q < NPROC. pstate (procs s p) \<noteq> UNUSED \<longrightarrow> pstate (procs s q) \<noteq> UNUSED \<longrightarrow>
        pid (procs s p) = pid (procs s q) \<longrightarrow> p = q)"

definition sched_inv :: "'z ptab_scheme \<Rightarrow> bool" where
  "sched_inv s \<longleftrightarrow> (\<exists>qs. mlfq_inv qs s) \<and> cpu_inv s \<and> pid_inv s"

lemma pid_inv_cong:
  assumes "pid_inv s" and "nextpid s' = nextpid s" and "\<And>p. pid (procs s' p) = pid (procs s p)"
    and "\<And>p. p < NPROC \<Longrightarrow> pstate (procs s' p) \<noteq> UNUSED \<Longrightarrow> pstate (procs s p) \<noteq> UNUSED"
  shows "pid_inv s'"
  using assms unfolding pid_inv_def by simp

text \<open>
  All steps but \<open>alloc\<close> change the table only through states, priorities and channels:
  \<open>moved f s s'\<close> says that the state of each process \<open>p\<close> became \<open>f p\<close>.
\<close>

definition moved :: "(nat \<Rightarrow> procstate) \<Rightarrow> 'z ptab_scheme \<Rightarrow> 'z ptab_scheme \<Rightarrow> bool" where
  "moved f s s' \<longleftrightarrow> nextpid s' = nextpid s \<and>
     (\<forall>p. pid (procs s' p) = pid (procs s p) \<and> pstate (procs s' p) = f p)"

lemma sched_inv_moved:
  assumes "sched_inv s" and "mlfq_inv qs s'" and "moved f s s'"
    and "\<And>p. p < NPROC \<Longrightarrow> f p \<noteq> UNUSED \<Longrightarrow> pstate (procs s p) \<noteq> UNUSED"
    and "\<And>p. p < NPROC \<Longrightarrow> f p = RUNNING \<longleftrightarrow> cur s' = Some p" and "\<And>p. cur s' = Some p \<Longrightarrow> p < NPROC"
    and "lock_free PtableLock (cpust s')" and "kmem_ready s'" and "ncli (cpust s') = 0"
  shows "sched_inv s'"
proof -
  have "pid_inv s'"
    using assms(1,3,4) by (intro pid_inv_cong [of s s']) (auto simp: sched_inv_def moved_def)
  moreover have "cpu_inv s'"
    using assms(3,5-9) by (auto simp: cpu_inv_def moved_def)
  ultimately show ?thesis using assms(2) by (auto simp: sched_inv_def)
qed

lemma cpu_inv_locks:
  assumes "cpu_inv s"
  shows "lock_free PtableLock (cpust s)" "lock_free KmemLock (cpust s)" "cli_wf (cpust s)" "ncli (cpust s) = 0"
  using assms by (simp_all add: cpu_inv_def kmem_ready_def)

lemma cpu_inv_running: "cpu_inv s \<Longrightarrow> p < NPROC \<Longrightarrow> pstate (procs s p) = RUNNING \<longleftrightarrow> cur s = Some p"
  unfolding cpu_inv_def by blast

lemma cpu_inv_cur: "cpu_inv s \<Longrightarrow> cur s = Some p \<Longrightarrow> on_cpu p s"
  unfolding cpu_inv_def on_cpu_def kmem_ready_def by blast

lemma sched_invE:
  assumes "sched_inv s"
  obtains qs where "mlfq_inv qs s" and "cpu_inv s"
  using assms by (auto simp: sched_inv_def)

lemma step_run:
  fixes s :: "'z ptab_scheme"
  assumes inv: "sched_inv s" and c: "cur s = None" and r: "scheduler s = Ret (Some p) s1"
    and l: "release PtableLock s1 = Ret () s'"
  shows "sched_inv s'"
proof -
  obtain qs where m: "mlfq_inv qs s" and ci: "cpu_inv s" using inv by (rule sched_invE)
  note k = cpu_inv_locks [OF ci]
  obtain lv where t: "top_level qs = Some lv"
    using scheduler_none [OF m k(1,4)] r by (cases "top_level qs") auto
  have pd: "pgdir (procs s (hd (qs lv))) \<noteq> 0"
    using scheduler_no_pgdir [OF m k(1,4) t] r by auto
  have s1: "p = hd (qs lv)" "cur s1 = Some p" "nextpid s1 = nextpid s" "mlfq_inv (qs(lv := tl (qs lv))) s1"
    "cpust s1 = acq PtableLock (sti (cpust s))"
    and co: "\<And>q. core (procs s1 q) = (if q = p
       then core ((procs s q)\<lparr>pstate := RUNNING, ticksProc := 0\<rparr>) else core (procs s q))"
    using scheduler_some [OF m k(1,4) t pd] r by (auto simp: runs_def)
  have s': "s' = s1\<lparr>cpust := settled (sti (cpust s))\<rparr>"
    using l release_acq [OF s1(5)] sti_wf [OF k(1,4)] by simp
  have st: "pstate (procs s1 q) = (if q = p then RUNNING else pstate (procs s q))"
    and pi: "pid (procs s1 q) = pid (procs s q)" for q
    using core_eqD(1,3) [of "procs s1 q" "(procs s q)\<lparr>pstate := RUNNING, ticksProc := 0\<rparr>"]
      core_eqD(1,3) [of "procs s1 q" "procs s q"] co [of q] by (auto split: if_splits)
  note top = top_level_Some [OF m t]
  show ?thesis
  proof (rule sched_inv_moved [OF inv, of "qs(lv := tl (qs lv))"])
    show "mlfq_inv (qs(lv := tl (qs lv))) s'" using s1(4) by (simp add: s')
    show "moved (\<lambda>q. if q = p then RUNNING else pstate (procs s q)) s s'"
      using s1(3) st pi by (simp add: moved_def s')
    show "(if q = p then RUNNING else pstate (procs s q)) = RUNNING \<longleftrightarrow> cur s' = Some q" if "q < NPROC" for q
      using cpu_inv_running [OF ci that] c s1(2) by (auto simp: s')
    show "kmem_ready s'" "lock_free PtableLock (cpust s')" "ncli (cpust s') = 0"
      using k sti_wf [OF k(1,4)] by (simp_all add: s' kmem_ready_def) (simp add: sti_def lock_free_def)
  qed (use top s1 s' in \<open>auto split: if_splits\<close>)
qed

lemma step_idle:
  fixes s :: "'z ptab_scheme"
  assumes inv: "sched_inv s" and c: "cur s = None" and r: "scheduler s = Ret None s'"
  shows "sched_inv s'"
proof -
  obtain qs where m: "mlfq_inv qs s" and ci: "cpu_inv s" using inv by (rule sched_invE)
  note k = cpu_inv_locks [OF ci]
  have t: "top_level qs = None"
  proof (rule ccontr)
    assume "top_level qs \<noteq> None"
    then obtain lv where t: "top_level qs = Some lv" by auto
    then show False
      using scheduler_some [OF m k(1,4) t] scheduler_no_pgdir [OF m k(1,4) t] r
      by (cases "pgdir (procs s (hd (qs lv))) = 0") (auto simp: runs_def)
  qed
  have s': "s' = s\<lparr>cpust := settled (sti (cpust s))\<rparr>"
    using scheduler_none [OF m k(1,4) t] r by simp
  show ?thesis
  proof (rule sched_inv_moved [OF inv, of qs])
    show "moved (\<lambda>q. pstate (procs s q)) s s'" by (simp add: moved_def s')
    show "pstate (procs s q) = RUNNING \<longleftrightarrow> cur s' = Some q" if "q < NPROC" for q
      using cpu_inv_running [OF ci that] by (simp add: s')
    show "kmem_ready s'" "lock_free PtableLock (cpust s')" "ncli (cpust s') = 0"
      using k sti_wf [OF k(1,4)] by (simp_all add: s' kmem_ready_def) (simp add: sti_def lock_free_def)
  qed (use m c s' in auto)
qed

lemma scheduler_resume_run:
  assumes "cpust s = acq PtableLock k" and "lock_free PtableLock k" and "cli_wf k"
  shows "scheduler_resume s = Ret () (s\<lparr>cur := None, cpust := settled k\<rparr>)"
proof -
  have "release PtableLock (s\<lparr>cur := None\<rparr>) = Ret () (s\<lparr>cur := None\<rparr>\<lparr>cpust := settled k\<rparr>)"
    using assms by (intro release_acq) simp_all
  then show ?thesis by (simp add: scheduler_resume_def modify_apply sq_Ret)
qed

text \<open>The running process left the CPU in another state.\<close>

lemma sched_inv_left:
  assumes inv: "sched_inv s" and p: "cur s = Some p" and m: "mlfq_inv qs s'" and st: "st \<noteq> RUNNING" "st \<noteq> UNUSED"
    and mv: "moved (\<lambda>q. if q = p then st else pstate (procs s q)) s s'"
    and c: "cur s' = None" "cpust s' = settled (cpust s)"
  shows "sched_inv s'"
proof -
  have ci: "cpu_inv s" using inv by (rule sched_invE)
  note k = cpu_inv_locks [OF ci] and on = cpu_inv_cur [OF ci p]
  show ?thesis
  proof (rule sched_inv_moved [OF inv m mv])
    show "(if q = p then st else pstate (procs s q)) = RUNNING \<longleftrightarrow> cur s' = Some q" if "q < NPROC" for q
      using cpu_inv_running [OF ci that] c(1) p st by auto
    show "pstate (procs s q) \<noteq> UNUSED" if "(if q = p then st else pstate (procs s q)) \<noteq> UNUSED" for q
      using that on by (auto simp: on_cpu_def split: if_splits)
  qed (use c k in \<open>simp_all add: kmem_ready_def\<close>)
qed

lemma step_yield:
  fixes s :: "'z ptab_scheme"
  assumes inv: "sched_inv s" and y: "yield s = Sleep c s1" and r: "scheduler_resume s1 = Ret () s'"
  shows "sched_inv s'"
proof -
  obtain qs where m: "mlfq_inv qs s" and ci: "cpu_inv s" using inv by (rule sched_invE)
  note k = cpu_inv_locks [OF ci]
  obtain p where p: "cur s = Some p"
  proof (cases "cur s")
    case None
    then have "yield s = Undef ''proc is null''"
      using k by (simp add: yield_def acquire_free sq_Ret curproc_def bnd_Undef)
    then show thesis using y by simp
  qed
  define l where "l = nat (min (priority (procs s p) + 2) 3)"
  have s1: "mlfq_inv (qs(l := qs l @ [p])) s1" "cpust s1 = acq PtableLock (cpust s)"
    and co: "\<And>q. core (procs s1 q) = (if q = p
       then core ((procs s p)\<lparr>priority := int l, pstate := RUNNABLE\<rparr>) else core (procs s q))"
    and n1: "nextpid s1 = nextpid s"
    using yield_run [OF m cpu_inv_cur [OF ci p] l_def] y by (auto simp: sleeps_def)
  have s': "s' = s1\<lparr>cur := None, cpust := settled (cpust s)\<rparr>"
    using r scheduler_resume_run [OF s1(2)] k by simp
  have "pstate (procs s1 q) = (if q = p then RUNNABLE else pstate (procs s q))"
    and "pid (procs s1 q) = pid (procs s q)" for q
    using core_eqD(1,3) [of "procs s1 q" "(procs s p)\<lparr>priority := int l, pstate := RUNNABLE\<rparr>"]
      core_eqD(1,3) [of "procs s1 q" "procs s q"] co [of q] by (auto split: if_splits)
  then have "moved (\<lambda>q. if q = p then RUNNABLE else pstate (procs s q)) s s'"
    by (simp add: moved_def s' n1)
  moreover have "mlfq_inv (qs(l := qs l @ [p])) s'" using s1(1) by (simp add: s')
  ultimately show ?thesis by (intro sched_inv_left [OF inv p]) (simp_all add: s')
qed

lemma step_sleep:
  fixes s :: "'z ptab_scheme"
  assumes inv: "sched_inv s" and lk: "lock_free lk (cpust s)" "acquire lk s = Ret () s0"
    and sl: "sleep ch lk s0 = Sleep c s1" and r: "scheduler_resume s1 = Ret () s'"
  shows "sched_inv s'"
proof -
  obtain qs where m: "mlfq_inv qs s" and ci: "cpu_inv s" using inv by (rule sched_invE)
  note k = cpu_inv_locks [OF ci]
  have s0: "s0 = s\<lparr>cpust := acq lk (cpust s)\<rparr>" using lk by (simp add: acquire_free)
  obtain p where p: "cur s = Some p"
    using sl by (cases "cur s") (auto simp: sleep_def s0 gets_apply bnd_Ret panic_apply)
  have on: "p < NPROC" "pstate (procs s p) = RUNNING" using cpu_inv_cur [OF ci p] by (simp_all add: on_cpu_def)
  define x where "x = priority (procs s p)"
  define q where "q = (procs s p)\<lparr>pchan := ch, pstate := SLEEPING, priority := (if x > 0 then x - 1 else x)\<rparr>"
  have "mlfq_inv qs s0" "cur s0 = Some p" "pstate (procs s0 p) = RUNNING" "x = priority (procs s0 p)"
    "q = (procs s0 p)\<lparr>pchan := ch, pstate := SLEEPING, priority := (if x > 0 then x - 1 else x)\<rparr>"
    "holds_only lk (cpust s) (cpust s0)"
    using m p on k lk(1) by (simp_all add: s0 x_def q_def holds_only_def)
  note run = sleep_run [OF this(1,2) on(1) this(3,6,4,5)]
  have s1: "s1 = s\<lparr>cpust := acq PtableLock (cpust s), procs := (procs s)(p := q)\<rparr>"
    using run(1) sl by (simp add: s0)
  have s': "s' = s1\<lparr>cur := None, cpust := settled (cpust s)\<rparr>"
    using r scheduler_resume_run [of s1 "cpust s"] k by (simp add: s1)
  have "moved (\<lambda>y. if y = p then SLEEPING else pstate (procs s y)) s s'"
    by (simp add: moved_def s' s1 q_def)
  moreover have "mlfq_inv qs s1" using run(2) by (simp add: s1 s0)
  then have "mlfq_inv qs s'" by (simp add: s')
  ultimately show ?thesis by (intro sched_inv_left [OF inv p]) (simp_all add: s')
qed

text \<open>Sleeping or new processes became runnable.\<close>

lemma sched_inv_woken:
  assumes inv: "sched_inv s" and m: "mlfq_inv qs s'"
    and mv: "moved (\<lambda>q. if W q then RUNNABLE else pstate (procs s q)) s s'"
    and w: "\<And>q. W q \<Longrightarrow> pstate (procs s q) = SLEEPING \<or> pstate (procs s q) = EMBRYO"
    and c: "cur s' = cur s" "cpust s' = settled (cpust s) \<or> cpust s' = cpust s"
  shows "sched_inv s'"
proof -
  have ci: "cpu_inv s" using inv by (rule sched_invE)
  note k = cpu_inv_locks [OF ci]
  show ?thesis
  proof (rule sched_inv_moved [OF inv m mv])
    show "(if W q then RUNNABLE else pstate (procs s q)) = RUNNING \<longleftrightarrow> cur s' = Some q" if "q < NPROC" for q
      using cpu_inv_running [OF ci that] c(1) w [of q] by (cases "W q") auto
    show "pstate (procs s q) \<noteq> UNUSED" if "(if W q then RUNNABLE else pstate (procs s q)) \<noteq> UNUSED" for q
      using that w [of q] by (auto split: if_splits)
    show "p < NPROC" if "cur s' = Some p" for p
      using cpu_inv_cur [OF ci] c(1) that by (simp add: on_cpu_def)
  qed (use c k in \<open>auto simp: kmem_ready_def\<close>)
qed

lemma step_wakeup:
  fixes s :: "'z ptab_scheme"
  assumes inv: "sched_inv s" and w: "wakeup ch s = Ret () s'"
  shows "sched_inv s'"
proof -
  obtain qs where m: "mlfq_inv qs s" and ci: "cpu_inv s" using inv by (rule sched_invE)
  note k = cpu_inv_locks [OF ci]
  let ?s0 = "s\<lparr>cpust := settled (cpust s)\<rparr>"
  have I: "wake_inv ch ?s0 qs [0..<NPROC] s'"
    using wakeup_run [OF m k(1,3), of ch] w by (auto simp: runs_def)
  then obtain pr ml where s': "s' = ?s0\<lparr>procs := pr, mlf := ml\<rparr>" unfolding wake_inv_def by blast
  have co: "core (procs s' p) = (if p < NPROC \<and> woken ch s p
      then core ((procs s p)\<lparr>priority := int (wake_level s p), pstate := RUNNABLE\<rparr>) else core (procs s p))" for p
    using I unfolding wake_inv_def by (simp del: upt_rec_numeral)
  have "pstate (procs s' q) = (if q < NPROC \<and> woken ch s q then RUNNABLE else pstate (procs s q))"
    and "pid (procs s' q) = pid (procs s q)" for q
    using core_eqD(1,3) [of "procs s' q" "(procs s q)\<lparr>priority := int (wake_level s q), pstate := RUNNABLE\<rparr>"]
      core_eqD(1,3) [of "procs s' q" "procs s q"] co [of q] by (auto split: if_splits)
  then have "moved (\<lambda>q. if q < NPROC \<and> woken ch s q then RUNNABLE else pstate (procs s q)) s s'"
    by (simp add: moved_def) (simp add: s')
  moreover have "mlfq_inv (wake_queues ch ?s0 qs [0..<NPROC]) s'" using I unfolding wake_inv_def by blast
  ultimately show ?thesis
    by (intro sched_inv_woken [OF inv, where W = "\<lambda>q. q < NPROC \<and> woken ch s q"]) (auto simp: woken_def s')
qed

lemma step_ready:
  fixes s :: "'z ptab_scheme"
  assumes inv: "sched_inv s" and p: "p < NPROC" "pstate (procs s p) = EMBRYO"
    and r: "makerunnable p 0 s = Ret () s'"
  shows "sched_inv s'"
proof -
  obtain qs where m: "mlfq_inv qs s" using inv by (rule sched_invE)
  let ?u = "s\<lparr>procs := (procs s)(p := (procs s p)\<lparr>priority := int 0, pstate := RUNNABLE\<rparr>)\<rparr>"
  have s': "mlfq_inv (qs(0 := qs 0 @ [p])) s'" "qframe ?u s'"
    using makerunnable_inv [OF m p(1), of 0 0] p(2) r by (auto simp: runs_def newprio_def)
  have "pstate (procs s' q) = (if q = p then RUNNABLE else pstate (procs s q))"
    and "pid (procs s' q) = pid (procs s q)" for q
    using core_eqD(1,3) [OF qframe_sel(10) [OF s'(2)], of q] by simp_all
  then have "moved (\<lambda>q. if q = p then RUNNABLE else pstate (procs s q)) s s'"
    using qframe_sel(7) [OF s'(2)] by (simp add: moved_def)
  then show ?thesis
    using qframe_sel(1,6) [OF s'(2)] p(2) by (intro sched_inv_woken [OF inv s'(1), where W = "\<lambda>q. q = p"]) auto
qed

lemma kill_run:
  fixes s :: "'z ptab_scheme"
  assumes inv: "mlfq_inv qs s" and k: "lock_free PtableLock (cpust s)" "cli_wf (cpust s)"
  shows "runs (kill n) s (\<lambda>r s'. (\<exists>qs'. mlfq_inv qs' s') \<and> cpust s' = settled (cpust s) \<and>
    cur s' = cur s \<and> nextpid s' = nextpid s \<and>
    (case scan (\<lambda>p. pid (procs s p) = n) NPROC of
       None \<Rightarrow> r = -1 \<and> procs s' = procs s
     | Some p \<Rightarrow> r = 0 \<and> (\<forall>q. core (procs s' q) = core (if q \<noteq> p then procs s q
         else if pstate (procs s p) = SLEEPING then (procs s p)\<lparr>killed := True, priority := 0, pstate := RUNNABLE\<rparr>
         else (procs s p)\<lparr>killed := True\<rparr>))))"
proof -
  define s1 where "s1 = s\<lparr>cpust := acq PtableLock (cpust s)\<rparr>"
  have a: "acquire PtableLock s = Ret () s1" and p1: "procs s1 = procs s"
    using k by (simp_all add: s1_def acquire_free)
  have rel: "release PtableLock t = Ret () (t\<lparr>cpust := settled (cpust s)\<rparr>)"
    if "cpust t = acq PtableLock (cpust s)" for t :: "'z ptab_scheme"
    using that k by (intro release_acq)
  show ?thesis
  proof (cases "scan (\<lambda>p. pid (procs s p) = n) NPROC")
    case None
    then have "kill n s = Ret (-1) (s1\<lparr>cpust := settled (cpust s)\<rparr>)"
      using a rel [of s1] by (simp add: kill_def sq_Ret bnd_Ret gets_apply p1 ret_apply) (simp add: s1_def sq_Ret ret_apply)
    then show ?thesis using None inv by (auto simp: runs_def s1_def)
  next
    case (Some p)
    then have p: "p < NPROC" by (simp add: scan_Some_iff)
    define s2 where "s2 = s1\<lparr>procs := (procs s1)(p := (procs s1 p)\<lparr>killed := True\<rparr>)\<rparr>"
    have i2: "mlfq_inv qs s2"
      unfolding s2_def using inv by (intro mlfq_inv_same) (simp_all add: s1_def)
    have c2: "cpust s2 = acq PtableLock (cpust s)" "cur s2 = cur s" "nextpid s2 = nextpid s"
      by (simp_all add: s2_def s1_def)
    have kill: "kill n s = sq (whenM (pstate (procs s p) = SLEEPING) (makerunnable p 0))
        (sq (release PtableLock) (ret 0)) s2"
      using Some a
      by (simp add: kill_def sq_Ret bnd_Ret gets_apply p1 upd_proc_run s2_def) (simp add: sq_def bnd_def gets_apply p1)
    show ?thesis
    proof (cases "pstate (procs s p) = SLEEPING")
      case True
      then have "pstate (procs s2 p) \<noteq> RUNNABLE" by (simp add: s2_def p1)
      then obtain s3 where s3: "makerunnable p 0 s2 = Ret () s3" "mlfq_inv (qs(0 := qs 0 @ [p])) s3"
        "qframe (s2\<lparr>procs := (procs s2)(p := (procs s2 p)\<lparr>priority := int 0, pstate := RUNNABLE\<rparr>)\<rparr>) s3"
        using makerunnable_inv [OF i2 p, of 0 0] by (auto simp: runs_iff newprio_def)
      note fr = qframe_sel [OF s3(3)]
      have "kill n s = Ret 0 (s3\<lparr>cpust := settled (cpust s)\<rparr>)"
        using True s3(1) rel [of s3] fr(1) by (simp add: kill sq_Ret c2 ret_apply)
      moreover have "core (procs s3 q) = core (if q \<noteq> p then procs s q
          else (procs s p)\<lparr>killed := True, priority := 0, pstate := RUNNABLE\<rparr>)" for q
        using fr(10) [of q] by (simp add: s2_def p1)
      ultimately show ?thesis using Some True s3(2) fr(6,7) c2 by (auto simp: runs_def)
    next
      case False
      then have "kill n s = Ret 0 (s2\<lparr>cpust := settled (cpust s)\<rparr>)"
        using rel [of s2] c2 by (simp add: kill sq_Ret ret_apply)
      then show ?thesis using Some False i2 c2 by (auto simp: runs_def s2_def p1)
    qed
  qed
qed

lemma step_kill:
  fixes s :: "'z ptab_scheme"
  assumes inv: "sched_inv s" and w: "kill n s = Ret r s'"
  shows "sched_inv s'"
proof -
  obtain qs where m: "mlfq_inv qs s" and ci: "cpu_inv s" using inv by (rule sched_invE)
  note k = cpu_inv_locks [OF ci]
  let ?sc = "scan (\<lambda>p. pid (procs s p) = n) NPROC"
  let ?W = "\<lambda>q. ?sc = Some q \<and> pstate (procs s q) = SLEEPING"
  note kr = kill_run [OF m k(1,3), of n, unfolded runs_def w outcome.case]
  obtain qs' where m': "mlfq_inv qs' s'" and c: "cpust s' = settled (cpust s)" "cur s' = cur s"
    and n: "nextpid s' = nextpid s"
    using kr by blast
  have "pstate (procs s' q) = (if ?W q then RUNNABLE else pstate (procs s q)) \<and>
      pid (procs s' q) = pid (procs s q)" for q
  proof (cases ?sc)
    case None
    then show ?thesis using kr by simp
  next
    case (Some p)
    then have "core (procs s' q) = core (if q \<noteq> p then procs s q
         else if pstate (procs s p) = SLEEPING then (procs s p)\<lparr>killed := True, priority := 0, pstate := RUNNABLE\<rparr>
         else (procs s p)\<lparr>killed := True\<rparr>)"
      using kr by simp
    from core_eqD(1,3) [OF this] show ?thesis using Some by auto
  qed
  then have "moved (\<lambda>q. if ?W q then RUNNABLE else pstate (procs s q)) s s'" by (simp add: moved_def n)
  then show ?thesis using c by (intro sched_inv_woken [OF inv m', where W = ?W]) auto
qed

lemma kalloc_ptab:
  fixes s :: "'z ptab_scheme"
  assumes "kmem_ready s"
  obtains f where "kalloc s = Ret (freelist s) (s\<lparr>cpust := kmem_settled s, freelist := f\<rparr>)"
  using kalloc_run [OF assms] by blast

lemma alloc_kstack_run:
  fixes s :: "'z ptab_scheme"
  assumes "kmem_ready s"
  shows "\<exists>x m f. alloc_kstack p s =
      Ret (if freelist s = 0 then None else Some p)
        (s\<lparr>cpust := kmem_settled s, freelist := f, mem := m, procs := (procs s)(p := x)\<rparr>) \<and>
    pstate x = (if freelist s = 0 then UNUSED else pstate (procs s p)) \<and> pid x = pid (procs s p) \<and>
    priority x = 0 \<and> kstack x = freelist s \<and> pnext x = pnext (procs s p)"
proof -
  define s1 where "s1 = s\<lparr>procs := (procs s)(p := (procs s p)\<lparr>priority := 0\<rparr>)\<rparr>"
  have "kmem_ready s1" using assms by (simp add: s1_def kmem_ready_def)
  then obtain f where f: "kalloc s1 = Ret (freelist s1) (s1\<lparr>cpust := kmem_settled s1, freelist := f\<rparr>)"
    by (rule kalloc_ptab)
  have ks: "kmem_settled s1 = kmem_settled s" "freelist s1 = freelist s" by (simp_all add: s1_def kmem_settled_def)
  let ?p = "(procs s p)\<lparr>priority := 0, kstack := freelist s\<rparr>"
  show ?thesis
  proof (cases "freelist s = 0")
    case True
    then have "alloc_kstack p s = Ret None (s\<lparr>cpust := kmem_settled s, freelist := f, mem := mem s,
        procs := (procs s)(p := ?p\<lparr>pstate := UNUSED\<rparr>)\<rparr>)"
      using f ks by (simp add: alloc_kstack_def basic_ops s1_def [symmetric]) (simp add: s1_def)
    then show ?thesis
      using True by (intro exI [of _ "?p\<lparr>pstate := UNUSED\<rparr>"] exI [of _ "mem s"] exI [of _ f]) simp
  next
    case False
    let ?sp = "freelist s + KSTACKSIZE"
    let ?m = "st32 (memset (?sp - 76 - 4 - 20) 0 20 (st32 (mem s) (?sp - 76 - 4) (trapret s)))
      (?sp - 76 - 4 - 20 + 16) (forkret_addr s)"
    have "alloc_kstack p s = Ret (Some p) (s\<lparr>cpust := kmem_settled s, freelist := f, mem := ?m,
        procs := (procs s)(p := ?p\<lparr>tf := ?sp - 76, pcontext := ?sp - 76 - 4 - 20\<rparr>)\<rparr>)"
      using f ks False
      by (simp add: alloc_kstack_def basic_ops s1_def [symmetric] Let_def store_def update_mem_def)
        (simp add: s1_def)
    then show ?thesis
      using False
      by (intro exI [of _ "?p\<lparr>tf := ?sp - 76, pcontext := ?sp - 76 - 4 - 20\<rparr>"] exI [of _ ?m] exI [of _ f]) simp
  qed
qed

text \<open>Once the pids are used up a free slot is of no use.\<close>

lemma allocproc_overflow:
  assumes "cpu_inv s" and "scan (\<lambda>p. pstate (procs s p) = UNUSED) NPROC = Some p" and "nextpid s \<ge> 2 ^ 31 - 1"
  shows "allocproc s = Undef ''allocproc: nextpid overflow''"
  using assms(2,3) cpu_inv_locks(1) [OF assms(1)] by (simp add: allocproc_def acquire_free basic_ops undef_def)

text \<open>\<open>allocproc\<close>: the slot found first, with the next pid, or none.\<close>

lemma allocproc_run:
  fixes s :: "'z ptab_scheme"
  assumes inv: "mlfq_inv qs s" and ci: "cpu_inv s"
    and np: "scan (\<lambda>p. pstate (procs s p) = UNUSED) NPROC = None \<or> nextpid s < 2 ^ 31 - 1"
  shows "runs allocproc s (\<lambda>r s'. mlfq_inv qs s' \<and> cur s' = cur s \<and> lock_free PtableLock (cpust s') \<and>
    kmem_ready s' \<and> ncli (cpust s') = 0 \<and>
    (case scan (\<lambda>p. pstate (procs s p) = UNUSED) NPROC of
       None \<Rightarrow> r = None \<and> procs s' = procs s \<and> nextpid s' = nextpid s
     | Some p \<Rightarrow> nextpid s' = nextpid s + 1 \<and> (\<forall>q. q \<noteq> p \<longrightarrow> procs s' q = procs s q) \<and>
         (if freelist s = 0 then r = None \<and> pstate (procs s' p) = UNUSED
          else r = Some p \<and> pstate (procs s' p) = EMBRYO \<and> pid (procs s' p) = nextpid s \<and>
            priority (procs s' p) = 0 \<and> kstack (procs s' p) = freelist s)))"
proof -
  note k = cpu_inv_locks [OF ci]
  define s1 where "s1 = s\<lparr>cpust := acq PtableLock (cpust s)\<rparr>"
  have a: "acquire PtableLock s = Ret () s1" and p1: "procs s1 = procs s"
    using k by (simp_all add: s1_def acquire_free)
  have rel: "release PtableLock t = Ret () (t\<lparr>cpust := settled (cpust s)\<rparr>)"
    if "cpust t = acq PtableLock (cpust s)" for t :: "'z ptab_scheme"
    using that k by (intro release_acq)
  show ?thesis
  proof (cases "scan (\<lambda>p. pstate (procs s p) = UNUSED) NPROC")
    case None
    then have "allocproc s = Ret None (s1\<lparr>cpust := settled (cpust s)\<rparr>)"
      using a rel [of s1] by (simp add: allocproc_def sq_Ret bnd_Ret gets_apply p1 ret_apply) (simp add: s1_def sq_Ret ret_apply)
    then show ?thesis using None inv k by (auto simp: runs_def s1_def kmem_ready_def)
  next
    case (Some p)
    then have p: "p < NPROC" "pstate (procs s p) = UNUSED" by (simp_all add: scan_Some_iff)
    define x where "x = (procs s p)\<lparr>pstate := EMBRYO, pid := nextpid s\<rparr>"
    define s2 where "s2 = s1\<lparr>procs := (procs s)(p := x), nextpid := nextpid s + 1\<rparr>"
    define s3 where "s3 = s2\<lparr>cpust := settled (cpust s)\<rparr>"
    have r2: "release PtableLock s2 = Ret () s3"
      using rel [of s2] by (simp add: s3_def s2_def s1_def)
    have k3: "kmem_ready s3" using k by (simp add: s3_def s2_def s1_def kmem_ready_def)
    have f3: "freelist s3 = freelist s" "procs s3 = (procs s)(p := x)" "nextpid s3 = nextpid s + 1"
      "cur s3 = cur s" "mlf s3 = mlf s" by (simp_all add: s3_def s2_def s1_def)
    have x: "pstate x = EMBRYO" "pid x = nextpid s" "pnext x = pnext (procs s p)" by (simp_all add: x_def)
    obtain y m f where y: "alloc_kstack p s3 = Ret (if freelist s = 0 then None else Some p)
        (s3\<lparr>cpust := kmem_settled s3, freelist := f, mem := m, procs := (procs s)(p := y)\<rparr>)"
      "pstate y = (if freelist s = 0 then UNUSED else EMBRYO)" "pid y = nextpid s" "priority y = 0"
      "kstack y = freelist s" "pnext y = pnext (procs s p)"
      using alloc_kstack_run [OF k3, of p] by (auto simp: f3 x)
    define s5 where "s5 = s3\<lparr>cpust := kmem_settled s3, freelist := f, mem := m, procs := (procs s)(p := y)\<rparr>"
    have "allocproc s = Ret (if freelist s = 0 then None else Some p) s5"
      using Some a r2 y(1) np unfolding s5_def [symmetric]
      by (simp add: allocproc_def sq_Ret bnd_Ret gets_apply p1 modify_apply upd_proc_run)
        (simp add: s2_def x_def s1_def sq_Ret)
    moreover have "mlfq_inv qs (s\<lparr>procs := (procs s)(p := y)\<rparr>)"
      using p y by (intro mlfq_inv_other [OF inv]) simp_all
    then have "mlfq_inv qs s5"
      by (subst mlfq_inv_cong [of _ "s\<lparr>procs := (procs s)(p := y)\<rparr>"]) (simp_all add: s5_def f3)
    moreover have "kmem_ready s5" using k3 by (rule kmem_ready_settled) (simp add: s5_def)
    moreover have "lock_free PtableLock (cpust s5)" "ncli (cpust s5) = 0"
      using k by (simp_all add: s5_def kmem_settled_def s3_def s2_def s1_def)
    moreover have "cur s5 = cur s" "nextpid s5 = nextpid s + 1" "procs s5 = (procs s)(p := y)"
      by (simp_all add: s5_def f3)
    ultimately show ?thesis using Some y by (simp add: runs_def)
  qed
qed

lemma step_alloc:
  fixes s :: "'z ptab_scheme"
  assumes inv: "sched_inv s" and w: "allocproc s = Ret r s'"
  shows "sched_inv s'"
proof -
  obtain qs where m: "mlfq_inv qs s" and ci: "cpu_inv s" using inv by (rule sched_invE)
  have pi: "pid_inv s" using inv by (simp add: sched_inv_def)
  have np: "scan (\<lambda>p. pstate (procs s p) = UNUSED) NPROC = None \<or> nextpid s < 2 ^ 31 - 1"
    using allocproc_overflow [OF ci] w by fastforce
  note ar = allocproc_run [OF m ci np, unfolded runs_def w outcome.case]
  note c = ar [THEN conjunct1] ar [THEN conjunct2, THEN conjunct1]
    ar [THEN conjunct2, THEN conjunct2, THEN conjunct1]
    ar [THEN conjunct2, THEN conjunct2, THEN conjunct2, THEN conjunct1]
    ar [THEN conjunct2, THEN conjunct2, THEN conjunct2, THEN conjunct2, THEN conjunct1]
  note d = ar [THEN conjunct2, THEN conjunct2, THEN conjunct2, THEN conjunct2, THEN conjunct2]
  show ?thesis
  proof (cases "scan (\<lambda>p. pstate (procs s p) = UNUSED) NPROC")
    case None
    then have e: "procs s' = procs s" "nextpid s' = nextpid s" using d by simp_all
    have "cpu_inv s'" using ci c e unfolding cpu_inv_def by simp
    moreover have "pid_inv s'" using pi e unfolding pid_inv_def by simp
    ultimately show ?thesis using c(1) unfolding sched_inv_def by blast
  next
    case (Some p)
    then have p: "p < NPROC" "pstate (procs s p) = UNUSED" by (simp_all add: scan_Some_iff)
    note d = d [unfolded Some option.case]
    have n: "nextpid s' = nextpid s + 1" and o: "\<And>q. q \<noteq> p \<Longrightarrow> procs s' q = procs s q"
      using d by blast+
    have st: "pstate (procs s' p) = UNUSED \<or> pstate (procs s' p) = EMBRYO \<and> pid (procs s' p) = nextpid s"
      using d by (simp split: if_splits)
    have "pstate (procs s' q) = RUNNING \<longleftrightarrow> cur s' = Some q" if "q < NPROC" for q
      using cpu_inv_running [OF ci that] c(2) st o [of q] p(2) by (cases "q = p") auto
    then have "cpu_inv s'" using ci c unfolding cpu_inv_def by simp
    moreover have "pid_inv s'"
    proof -
      have lt: "pid (procs s q) < nextpid s" if "q < NPROC" "pstate (procs s q) \<noteq> UNUSED" for q
        using pi that unfolding pid_inv_def by blast
      have ij: "q = q'" if "q < NPROC" "q' < NPROC" "pstate (procs s q) \<noteq> UNUSED" "pstate (procs s q') \<noteq> UNUSED"
        "pid (procs s q) = pid (procs s q')" for q q'
        using pi that unfolding pid_inv_def by blast
      have "pid (procs s' q) < nextpid s'" if "q < NPROC" "pstate (procs s' q) \<noteq> UNUSED" for q
        using st lt [of q] o [of q] n that by (cases "q = p") auto
      moreover have "q = q'" if "q < NPROC" "q' < NPROC" "pstate (procs s' q) \<noteq> UNUSED"
        "pstate (procs s' q') \<noteq> UNUSED" "pid (procs s' q) = pid (procs s' q')" for q q'
        using st ij [of q q'] lt [of q] lt [of q'] o [of q] o [of q'] that by (cases "q = p"; cases "q' = p") auto
      ultimately show ?thesis unfolding pid_inv_def by blast
    qed
    ultimately show ?thesis using c(1) unfolding sched_inv_def by blast
  qed
qed

lemma pt_step_inv:
  assumes "pt_step s s'" and inv: "sched_inv s"
  shows "sched_inv s'"
  using assms(1)
proof cases
  case (run p s1)
  then show ?thesis by (rule step_run [OF inv])
next
  case idle
  then show ?thesis by (rule step_idle [OF inv])
next
  case (yield c s1)
  then show ?thesis by (rule step_yield [OF inv])
next
  case (sleep lk s0 ch c s1)
  then show ?thesis by (rule step_sleep [OF inv])
next
  case (wakeup ch)
  then show ?thesis by (rule step_wakeup [OF inv])
next
  case (kill n r)
  then show ?thesis by (rule step_kill [OF inv])
next
  case (alloc r)
  then show ?thesis by (rule step_alloc [OF inv])
next
  case (ready p)
  then show ?thesis by (rule step_ready [OF inv])
qed

inductive pt_steps :: "'z ptab_scheme \<Rightarrow> 'z ptab_scheme \<Rightarrow> bool" where
  none: "pt_steps s s"
| more: "pt_steps s t \<Longrightarrow> pt_step t u \<Longrightarrow> pt_steps s u"

lemma pt_steps_inv:
  assumes "pt_steps s s'" and "sched_inv s"
  shows "sched_inv s'"
  using assms by (induction rule: pt_steps.induct) (assumption, rule pt_step_inv)

end
