(* ===== verification/Scheduler.thy ===== *)
theory Scheduler
  imports Sched
begin

text \<open>
  What the scheduler of \<^verbatim>\<open>src/proc.c\<close> promises, from the invariant of the queues (\<open>Mlfq\<close>) and the
  behaviour of the operations under the table lock (\<open>Sched\<close>).
\<close>

section \<open>Properties\<close>

text \<open>
  (C4) The scheduler invariant holds in every interleaving on one CPU of scheduling, yielding, sleeping,
  waking, killing, allocating and readying: the ready queues hold each \<^verbatim>\<open>RUNNABLE\<close> process exactly once,
  at the level of its priority, and nothing else; priorities stay in range; the running process is the
  one \<^verbatim>\<open>proc\<close> points to; and no two live processes share a pid.
\<close>

theorem sched_invariant:
  assumes "sched_inv s" and "pt_steps s s'"
  shows "(\<exists>qs. rq qs s' \<and> (\<forall>p < NPROC. pstate (procs s' p) = RUNNABLE \<longrightarrow>
      (\<exists>!l. l < MLF_LEVELS \<and> p \<in> set (qs l) \<and> priority (procs s' p) = int l)) \<and>
      (\<forall>l. \<forall>p \<in> set (qs l). p < NPROC \<and> pstate (procs s' p) = RUNNABLE)) \<and>
    (\<forall>p < NPROC. pstate (procs s' p) = RUNNING \<longleftrightarrow> cur s' = Some p) \<and>
    (\<forall>p < NPROC. \<forall>q < NPROC. pstate (procs s' p) \<noteq> UNUSED \<longrightarrow> pstate (procs s' q) \<noteq> UNUSED \<longrightarrow>
      pid (procs s' p) = pid (procs s' q) \<longrightarrow> p = q)"
proof -
  have inv: "sched_inv s'" using pt_steps_inv assms by blast
  then obtain qs where m: "mlfq_inv qs s'" and ci: "cpu_inv s'" by (rule sched_invE)
  have lev: "\<exists>!l. l < MLF_LEVELS \<and> p \<in> set (qs l) \<and> priority (procs s' p) = int l"
    if "p < NPROC" "pstate (procs s' p) = RUNNABLE" for p
  proof (rule ex1I)
    note q = mlfq_inv_queued [OF m that]
    show "nat (priority (procs s' p)) < MLF_LEVELS \<and> p \<in> set (qs (nat (priority (procs s' p)))) \<and>
        priority (procs s' p) = int (nat (priority (procs s' p)))"
      using q mlfq_inv_prio [OF m that(1)] by simp
  next
    fix l assume "l < MLF_LEVELS \<and> p \<in> set (qs l) \<and> priority (procs s' p) = int l"
    then show "l = nat (priority (procs s' p))" by simp
  qed
  have r: "rq qs s'" using m by (simp add: mlfq_inv_def)
  have mem: "p < NPROC \<and> pstate (procs s' p) = RUNNABLE" if "p \<in> set (qs l)" for p l
    using that unfolding mlfq_inv_mem [OF m] by simp
  have run: "\<forall>p < NPROC. pstate (procs s' p) = RUNNING \<longleftrightarrow> cur s' = Some p"
    using ci unfolding cpu_inv_def by blast
  have "pid_inv s'" using inv unfolding sched_inv_def by blast
  then have "\<forall>p < NPROC. \<forall>q < NPROC. pstate (procs s' p) \<noteq> UNUSED \<longrightarrow> pstate (procs s' q) \<noteq> UNUSED \<longrightarrow>
      pid (procs s' p) = pid (procs s' q) \<longrightarrow> p = q"
    unfolding pid_inv_def by blast
  with run show ?thesis
    by (intro conjI exI [of _ qs]) (use r lev mem in blast)+
qed

text \<open>
  (C9) The scheduler picks a process of the best priority that is runnable, first come first served
  within its level, and makes it the running process; it finds none exactly when no process is
  runnable.
\<close>

theorem scheduler_picks_best:
  fixes s :: "'z ptab_scheme"
  assumes inv: "mlfq_inv qs s" and "lock_free PtableLock (cpust s)" and "ncli (cpust s) = 0"
    and "\<forall>p < NPROC. pstate (procs s p) = RUNNABLE \<longrightarrow> pgdir (procs s p) \<noteq> 0"
  shows "runs scheduler s (\<lambda>r s'. case r of
      None \<Rightarrow> (\<forall>p < NPROC. pstate (procs s p) \<noteq> RUNNABLE) \<and> procs s' = procs s
    | Some p \<Rightarrow> pstate (procs s p) = RUNNABLE \<and> cur s' = Some p \<and> pstate (procs s' p) = RUNNING \<and>
        ticksProc (procs s' p) = 0 \<and>
        (\<forall>q < NPROC. pstate (procs s q) = RUNNABLE \<longrightarrow> priority (procs s p) \<le> priority (procs s q)) \<and>
        (\<exists>l ps. qs l = p # ps \<and> mlfq_inv (qs(l := ps)) s'))"
proof (cases "top_level qs")
  case None
  then show ?thesis
    using scheduler_none [OF assms(1-3)] top_level_None [OF assms(1)] by (simp add: runs_def)
next
  case (Some l)
  note top = top_level_Some [OF assms(1) Some]
  have pd: "pgdir (procs s (hd (qs l))) \<noteq> 0" using assms(4) top(3,4) by blast
  show ?thesis
  proof (rule runs_conseq [OF scheduler_some [OF assms(1-3) Some pd]], elim conjE)
    fix r and s' :: "'z ptab_scheme"
    assume a: "r = Some (hd (qs l))" "cur s' = r" "mlfq_inv (qs(l := tl (qs l))) s'"
      and co: "\<forall>q. core (procs s' q) = (if q = hd (qs l)
         then core ((procs s q)\<lparr>pstate := RUNNING, ticksProc := 0\<rparr>) else core (procs s q))"
    have c: "core (procs s' (hd (qs l))) = core ((procs s (hd (qs l)))\<lparr>pstate := RUNNING, ticksProc := 0\<rparr>)"
      using co [rule_format, of "hd (qs l)"] by simp
    have "pstate (procs s' (hd (qs l))) = RUNNING" "ticksProc (procs s' (hd (qs l))) = 0"
      using core_eqD(1) [OF c] core_eqD(6) [OF c] by simp_all
    moreover have "\<exists>l' ps. qs l' = hd (qs l) # ps \<and> mlfq_inv (qs(l' := ps)) s'"
      using top(2) a(3) by blast
    moreover have "\<forall>q < NPROC. pstate (procs s q) = RUNNABLE \<longrightarrow>
        priority (procs s (hd (qs l))) \<le> priority (procs s q)"
      using top(5,6) by simp
    ultimately show "case r of None \<Rightarrow> (\<forall>p < NPROC. pstate (procs s p) \<noteq> RUNNABLE) \<and> procs s' = procs s
      | Some p \<Rightarrow> pstate (procs s p) = RUNNABLE \<and> cur s' = Some p \<and> pstate (procs s' p) = RUNNING \<and>
        ticksProc (procs s' p) = 0 \<and>
        (\<forall>q < NPROC. pstate (procs s q) = RUNNABLE \<longrightarrow> priority (procs s p) \<le> priority (procs s q)) \<and>
        (\<exists>l ps. qs l = p # ps \<and> mlfq_inv (qs(l := ps)) s')"
      using a(1,2) top(4) by simp
  qed
qed

text \<open>
  \<^verbatim>\<open>wakeup(chan)\<close> makes every process that sleeps on the channel runnable, one level better
  than before (level 0 stays), behind the processes already queued there and in table order, and
  changes no other process.
\<close>

theorem wakeup_exact:
  fixes s :: "'z ptab_scheme"
  assumes "mlfq_inv qs s" and "lock_free PtableLock (cpust s)" and "cli_wf (cpust s)"
  shows "runs (wakeup ch) s (\<lambda>_ s'.
    mlfq_inv (\<lambda>l. qs l @ filter (\<lambda>p. pstate (procs s p) = SLEEPING \<and> pchan (procs s p) = ch \<and>
      nat (max 0 (priority (procs s p) - 1)) = l) [0..<NPROC]) s' \<and>
    (\<forall>p. core (procs s' p) = core (if p < NPROC \<and> pstate (procs s p) = SLEEPING \<and> pchan (procs s p) = ch
       then (procs s p)\<lparr>priority := max 0 (priority (procs s p) - 1), pstate := RUNNABLE\<rparr> else procs s p)))"
proof (rule runs_conseq [OF wakeup_run [OF assms]])
  fix s' :: "'z ptab_scheme"
  have pr: "int (wake_level s p) = max 0 (priority (procs s p) - 1)"
    "wake_level s p = nat (max 0 (priority (procs s p) - 1))" if "p < NPROC" for p
    using mlfq_inv_prio [OF assms(1) that] by (auto simp: wake_level_def newprio_def)
  assume W: "wake_inv ch (s\<lparr>cpust := settled (cpust s)\<rparr>) qs [0..<NPROC] s'"
  then have m: "mlfq_inv (wake_queues ch s qs [0..<NPROC]) s'"
    and c: "core (procs s' p) = (if p < NPROC \<and> woken ch s p
       then core ((procs s p)\<lparr>priority := int (wake_level s p), pstate := RUNNABLE\<rparr>) else core (procs s p))" for p
    unfolding wake_inv_def by (simp_all del: upt_rec_numeral)
  have "wake_queues ch s qs [0..<NPROC] = (\<lambda>l. qs l @ filter (\<lambda>p. pstate (procs s p) = SLEEPING \<and>
      pchan (procs s p) = ch \<and> nat (max 0 (priority (procs s p) - 1)) = l) [0..<NPROC])"
    unfolding wake_queues_def woken_def fun_eq_iff
    by (intro allI arg_cong2 [where f = "(@)"] refl filter_cong) (auto simp: pr(2) simp del: upt_rec_numeral)
  moreover have "core (procs s' p) = core (if p < NPROC \<and> pstate (procs s p) = SLEEPING \<and> pchan (procs s p) = ch
       then (procs s p)\<lparr>priority := max 0 (priority (procs s p) - 1), pstate := RUNNABLE\<rparr> else procs s p)" for p
    using c [of p] pr(1) [of p] by (simp add: woken_def)
  ultimately show "mlfq_inv (\<lambda>l. qs l @ filter (\<lambda>p. pstate (procs s p) = SLEEPING \<and> pchan (procs s p) = ch \<and>
      nat (max 0 (priority (procs s p) - 1)) = l) [0..<NPROC]) s' \<and>
    (\<forall>p. core (procs s' p) = core (if p < NPROC \<and> pstate (procs s p) = SLEEPING \<and> pchan (procs s p) = ch
       then (procs s p)\<lparr>priority := max 0 (priority (procs s p) - 1), pstate := RUNNABLE\<rparr> else procs s p))"
    using m by simp
qed

text \<open>
  A process that uses up its quantum is demoted by two levels, not one: \<^verbatim>\<open>yield\<close> increments the
  priority and then \<^verbatim>\<open>makerunnable(proc, 1)\<close> increments it again, both up to the last level.
\<close>

theorem yield_demotes:
  fixes s :: "'z ptab_scheme"
  assumes "mlfq_inv qs s" and "on_cpu p s"
    and "l = nat (min (priority (procs s p) + 2) 3)"
  shows "sleeps yield s (\<lambda>_ s'. mlfq_inv (qs(l := qs l @ [p])) s' \<and> priority (procs s' p) = int l \<and>
    pstate (procs s' p) = RUNNABLE)"
proof -
  obtain c s' where y: "yield s = Sleep c s'" "mlfq_inv (qs(l := qs l @ [p])) s'"
    "core (procs s' p) = core ((procs s p)\<lparr>priority := int l, pstate := RUNNABLE\<rparr>)"
    using yield_run [OF assms] unfolding sleeps_iff by fastforce
  show ?thesis
    using y(1,2) core_eqD(1) [OF y(3)] core_eqD(2) [OF y(3)] by (simp add: sleeps_def)
qed

text \<open>What the two outcomes of \<open>allocproc_run\<close> mean for the caller.\<close>

lemma allocproc_post:
  fixes s s' :: "'z ptab_scheme"
  assumes "pid_inv s" and np: "scan (\<lambda>p. pstate (procs s p) = UNUSED) NPROC = None \<or> nextpid s < 2 ^ 31 - 1"
    and m: "mlfq_inv qs s'" and d: "case scan (\<lambda>p. pstate (procs s p) = UNUSED) NPROC of
       None \<Rightarrow> r = None \<and> procs s' = procs s \<and> nextpid s' = nextpid s
     | Some p \<Rightarrow> nextpid s' = nextpid s + 1 \<and> (\<forall>q. q \<noteq> p \<longrightarrow> procs s' q = procs s q) \<and>
         (if freelist s = 0 then r = None \<and> pstate (procs s' p) = UNUSED
          else r = Some p \<and> pstate (procs s' p) = EMBRYO \<and> pid (procs s' p) = nextpid s \<and>
            priority (procs s' p) = 0 \<and> kstack (procs s' p) = freelist s)"
  shows "mlfq_inv qs s' \<and>
    (r = None \<longleftrightarrow> (\<forall>p < NPROC. pstate (procs s p) \<noteq> UNUSED) \<or> freelist s = 0) \<and>
    (\<forall>q < NPROC. pstate (procs s q) \<noteq> UNUSED \<longrightarrow> procs s' q = procs s q) \<and>
    (\<forall>p. r = Some p \<longrightarrow> p < NPROC \<and> pstate (procs s p) = UNUSED \<and> (\<forall>q < p. pstate (procs s q) \<noteq> UNUSED) \<and>
       pstate (procs s' p) = EMBRYO \<and> priority (procs s' p) = 0 \<and> kstack (procs s' p) = freelist s \<and>
       pid (procs s' p) = nextpid s \<and> nextpid s' = nextpid s + 1 \<and> nextpid s' < 2 ^ 31 \<and>
       (\<forall>q < NPROC. pstate (procs s q) \<noteq> UNUSED \<longrightarrow> pid (procs s q) < pid (procs s' p)))"
proof -
  have lt: "pid (procs s q) < nextpid s" if "q < NPROC" "pstate (procs s q) \<noteq> UNUSED" for q
    using assms(1) that unfolding pid_inv_def by blast
  show ?thesis
  proof (cases "scan (\<lambda>p. pstate (procs s p) = UNUSED) NPROC")
    case None
    then have "\<forall>p < NPROC. pstate (procs s p) \<noteq> UNUSED" by (simp add: scan_None_iff)
    then show ?thesis using d None m by simp
  next
    case (Some p)
    then have p: "p < NPROC" "pstate (procs s p) = UNUSED" "\<forall>q < p. pstate (procs s q) \<noteq> UNUSED"
      by (simp_all add: scan_Some_iff)
    have o: "\<forall>q < NPROC. pstate (procs s q) \<noteq> UNUSED \<longrightarrow> procs s' q = procs s q"
      using d Some p(2) by fastforce
    have e: "(\<forall>p < NPROC. pstate (procs s p) \<noteq> UNUSED) \<longleftrightarrow> False" using p(1,2) by blast
    show ?thesis
      using d m o p lt np unfolding Some option.case e by (cases "freelist s = 0") simp_all
  qed
qed

text \<open>
  (C11) \<^verbatim>\<open>allocproc\<close> fails exactly when every slot is in use or no page is left for the kernel stack, and
  then leaves every slot that was in use alone; otherwise it returns the first free slot with the pid \<^verbatim>\<open>nextpid\<close>, which is larger than
  that of every process, the best priority and its own kernel stack, and advances \<^verbatim>\<open>nextpid\<close>.  The ready queues do not change.
  After \<open>2 ^ 31 - 2\<close> pids the increment of \<^verbatim>\<open>nextpid\<close> overflows as soon as a slot is free.
\<close>

theorem allocproc_correct:
  fixes s :: "'z ptab_scheme"
  assumes "mlfq_inv qs s" and "cpu_inv s" and "pid_inv s"
  shows "if (\<exists>p < NPROC. pstate (procs s p) = UNUSED) \<and> nextpid s \<ge> 2 ^ 31 - 1
    then allocproc s = Undef ''allocproc: nextpid overflow''
    else runs allocproc s (\<lambda>r s'. mlfq_inv qs s' \<and>
    (r = None \<longleftrightarrow> (\<forall>p < NPROC. pstate (procs s p) \<noteq> UNUSED) \<or> freelist s = 0) \<and>
    (\<forall>q < NPROC. pstate (procs s q) \<noteq> UNUSED \<longrightarrow> procs s' q = procs s q) \<and>
    (\<forall>p. r = Some p \<longrightarrow> p < NPROC \<and> pstate (procs s p) = UNUSED \<and> (\<forall>q < p. pstate (procs s q) \<noteq> UNUSED) \<and>
       pstate (procs s' p) = EMBRYO \<and> priority (procs s' p) = 0 \<and> kstack (procs s' p) = freelist s \<and>
       pid (procs s' p) = nextpid s \<and> nextpid s' = nextpid s + 1 \<and> nextpid s' < 2 ^ 31 \<and>
       (\<forall>q < NPROC. pstate (procs s q) \<noteq> UNUSED \<longrightarrow> pid (procs s q) < pid (procs s' p))))"
proof (cases "(\<exists>p < NPROC. pstate (procs s p) = UNUSED) \<and> nextpid s \<ge> 2 ^ 31 - 1")
  case True
  then obtain p where "scan (\<lambda>p. pstate (procs s p) = UNUSED) NPROC = Some p"
    using scan_None_iff [of "\<lambda>p. pstate (procs s p) = UNUSED" NPROC] by fastforce
  from allocproc_overflow [OF assms(2) this] True show ?thesis by simp
next
  case False
  then have np: "scan (\<lambda>p. pstate (procs s p) = UNUSED) NPROC = None \<or> nextpid s < 2 ^ 31 - 1"
    by (auto simp: scan_None_iff)
  have "runs allocproc s (\<lambda>r s'. mlfq_inv qs s' \<and>
    (r = None \<longleftrightarrow> (\<forall>p < NPROC. pstate (procs s p) \<noteq> UNUSED) \<or> freelist s = 0) \<and>
    (\<forall>q < NPROC. pstate (procs s q) \<noteq> UNUSED \<longrightarrow> procs s' q = procs s q) \<and>
    (\<forall>p. r = Some p \<longrightarrow> p < NPROC \<and> pstate (procs s p) = UNUSED \<and> (\<forall>q < p. pstate (procs s q) \<noteq> UNUSED) \<and>
       pstate (procs s' p) = EMBRYO \<and> priority (procs s' p) = 0 \<and> kstack (procs s' p) = freelist s \<and>
       pid (procs s' p) = nextpid s \<and> nextpid s' = nextpid s + 1 \<and> nextpid s' < 2 ^ 31 \<and>
       (\<forall>q < NPROC. pstate (procs s q) \<noteq> UNUSED \<longrightarrow> pid (procs s q) < pid (procs s' p))))"
    by (rule runs_conseq [OF allocproc_run [OF assms(1,2) np]], elim conjE) (rule allocproc_post [OF assms(3) np])
  then show ?thesis unfolding if_not_P [OF False] .
qed

section \<open>Enqueueing without the lock\<close>

text \<open>
  \<^verbatim>\<open>enqueue\<close> as a reading part, which loads the ends of the level, and a writing part, which links the
  process; between the two another CPU may run.
\<close>

definition enqueue_link :: "nat \<Rightarrow> nat \<Rightarrow> node \<Rightarrow> ('z ptab_scheme, unit) op" where
  "enqueue_link p l nd =
     (if first nd = None then
        sq (upd_mlf l (\<lambda>n. n\<lparr>first := Some p\<rparr>))
       (sq (upd_mlf l (\<lambda>n. n\<lparr>nlast := Some p\<rparr>))
           (upd_proc p (\<lambda>q. q\<lparr>pnext := None\<rparr>)))
      else
        (case nlast nd of
           None \<Rightarrow> undef ''enqueue: null last''
         | Some prev \<Rightarrow>
             sq (upd_proc prev (\<lambda>q. q\<lparr>pnext := Some p\<rparr>))
            (sq (upd_mlf l (\<lambda>n. n\<lparr>nlast := Some p\<rparr>))
                (upd_proc p (\<lambda>q. q\<lparr>pnext := None\<rparr>)))))"

lemma enqueue_split:
  "priority (procs s p) = int l \<Longrightarrow> l < MLF_LEVELS \<Longrightarrow>
     enqueue p s = bnd (gets (\<lambda>s. mlf s l)) (enqueue_link p l) s"
  unfolding enqueue_def enqueue_link_def by (simp add: bnd_Ret gets_apply cong: option.case_cong)

text \<open>
  (C12) \<^verbatim>\<open>fork\<close> enqueues the child without holding \<^verbatim>\<open>ptable.lock\<close>.  If another CPU enqueues a process at
  the same empty level between the two parts, that process is lost: it is in no queue, although
  its \<^verbatim>\<open>enqueue\<close> ran to completion.
\<close>

theorem unlocked_enqueue_loses:
  assumes r: "rq qs s" and l: "l < MLF_LEVELS" "qs l = []"
    and p: "priority (procs s p) = int l" "\<forall>k. p \<notin> set (qs k)"
    and q: "priority (procs s q) = int l" "\<forall>k. q \<notin> set (qs k)" and pq: "p \<noteq> q"
  shows "enqueue p s = bnd (gets (\<lambda>s. mlf s l)) (enqueue_link p l) s \<and>
    runs (bnd (gets (\<lambda>s. mlf s l)) (\<lambda>nd. sq (enqueue q) (enqueue_link p l nd))) s
      (\<lambda>_ s'. rq (qs(l := [p])) s' \<and> (\<forall>k. q \<notin> set ((qs(l := [p])) k)))"
proof -
  have sp: "enqueue p s = bnd (gets (\<lambda>s. mlf s l)) (enqueue_link p l) s"
    by (rule enqueue_split [OF p(1) l(1)])
  have f: "first (mlf s l) = None" using rq_first [OF r l(1)] l(2) by simp
  define s1 where "s1 = s\<lparr>mlf := (mlf s)(l := (mlf s l)\<lparr>first := Some q, nlast := Some q\<rparr>),
    procs := (procs s)(q := (procs s q)\<lparr>pnext := None\<rparr>)\<rparr>"
  define s2 where "s2 = s1\<lparr>mlf := (mlf s1)(l := (mlf s1 l)\<lparr>first := Some p, nlast := Some p\<rparr>),
    procs := (procs s1)(p := (procs s1 p)\<lparr>pnext := None\<rparr>)\<rparr>"
  have e: "enqueue q s = Ret () s1"
    unfolding enqueue_split [OF q(1) l(1)]
    using f by (simp add: enqueue_link_def s1_def bnd_Ret sq_Ret gets_apply upd_mlf_def modify_apply upd_proc_def)
  have k: "enqueue_link p l (mlf s l) s1 = Ret () s2"
    using f by (simp add: enqueue_link_def s2_def bnd_Ret sq_Ret gets_apply upd_mlf_def modify_apply upd_proc_def)
  have nx2: "nx s2 = (nx s)(q := None, p := None)" using pq by (auto simp: nx_def s2_def s1_def)
  have "rq (qs(l := [p])) s2"
    using r p(2) q(2) unfolding rq_def nx2 by (auto simp: s2_def s1_def)
  moreover have "q \<notin> set ((qs(l := [p])) k)" for k using q(2) pq by simp
  ultimately show ?thesis
    using sp by (simp add: runs_def bnd_Ret sq_Ret gets_apply e k)
qed

section \<open>A concrete table\<close>

text \<open>
  Process 0 runs, 1 and 2 are queued at level 1, 3 sleeps on \<^verbatim>\<open>ticks\<close> with priority 2, and one page is free.
\<close>

definition sample_proc :: "procstate \<Rightarrow> int \<Rightarrow> int \<Rightarrow> chan \<Rightarrow> nat option \<Rightarrow> proc" where
  "sample_proc st n pr ch nxt = \<lparr>psz = 0x1000, pgdir = 0x80200000, kstack = 0x80202000, pstate = st, pid = n,
     parent = None, tf = 0x80202fb4, pcontext = 0x80202f9c, pchan = ch, killed = False, ofile = (\<lambda>_. None),
     cwd = None, pname = (\<lambda>_. 0), ticksProc = 5, priority = pr, pnext = nxt, procsem = (\<lambda>_. None),
     semquantity = 0, shmemquantity = 0, shmref = (\<lambda>_. 0), shmem = (\<lambda>_. -1)\<rparr>"

definition sample_procs :: "nat \<Rightarrow> proc" where
  "sample_procs = (\<lambda>_. sample_proc UNUSED 0 0 NoChan None)
     (0 := sample_proc RUNNING 1 0 NoChan None, 1 := sample_proc RUNNABLE 2 1 NoChan (Some 2),
      2 := sample_proc RUNNABLE 3 1 NoChan None, 3 := sample_proc SLEEPING 4 2 ChanTicks None)"

definition sample_table :: "'z \<Rightarrow> 'z ptab_scheme" where
  "sample_table m = \<lparr>cpust = boot_cpust, mem = (\<lambda>_. 0), kend = 0x80115000, use_lock = True,
     freelist = 0x80201000, kdata = 0x80108000, kpgdir = 0x80200000,
     sharedmem = (\<lambda>_. \<lparr>shm_addr = 0, shm_refcount = -1\<rparr>), shm_quantity = 0, procs = sample_procs,
     mlf = (\<lambda>_. \<lparr>first = None, nlast = None\<rparr>)(1 := \<lparr>first = Some 1, nlast = Some 2\<rparr>),
     initproc = Some 0, nextpid = 5, cur = Some 0, trapret = 0x80104000, forkret_addr = 0x80103000, \<dots> = m\<rparr>"

abbreviation (input) sample_ptab :: ptab where
  "sample_ptab \<equiv> sample_table ()"

definition sample_queues :: "nat \<Rightarrow> nat list" where
  "sample_queues = (\<lambda>_. [])(1 := [1, 2])"

lemma sample_sel [simp]:
  "cpust (sample_table m) = boot_cpust" "procs (sample_table m) = sample_procs" "cur (sample_table m) = Some 0"
  "freelist (sample_table m) = 0x80201000" "nextpid (sample_table m) = 5"
  "mlf (sample_table m) = (\<lambda>_. \<lparr>first = None, nlast = None\<rparr>)(1 := \<lparr>first = Some 1, nlast = Some 2\<rparr>)"
  "ptab.more (sample_table m) = m"
  by (simp_all add: sample_table_def)

lemma sample_cpu [simp]: "lock_free l boot_cpust" "cli_wf boot_cpust" "ncli boot_cpust = 0"
  by (simp_all add: boot_cpust_def lock_free_def cli_wf_def)

lemma sample_state:
  "pstate (sample_procs p) = (if p = 0 then RUNNING else if p = 1 \<or> p = 2 then RUNNABLE
     else if p = 3 then SLEEPING else UNUSED)"
  "priority (sample_procs p) = (if p = 1 \<or> p = 2 then 1 else if p = 3 then 2 else 0)"
  "pid (sample_procs p) = (if p < 4 then int p + 1 else 0)" "pgdir (sample_procs p) = 0x80200000"
  "pnext (sample_procs p) = (if p = 1 then Some 2 else None)"
  "pchan (sample_procs p) = (if p = 3 then ChanTicks else NoChan)"
  by (auto simp: sample_procs_def sample_proc_def)

lemma sample_mlfq: "mlfq_inv sample_queues (sample_table m)"
  unfolding mlfq_inv_def rq_def
  by (auto simp: sample_queues_def nx_def sample_state split: if_splits)

lemma sample_inv: "cpu_inv (sample_table m)" "pid_inv (sample_table m)" "sched_inv (sample_table m)"
proof -
  show c: "cpu_inv (sample_table m)"
    by (auto simp: cpu_inv_def kmem_ready_def sample_state)
  show p: "pid_inv (sample_table m)"
    by (auto simp: pid_inv_def sample_state split: if_splits)
  show "sched_inv (sample_table m)" using c p sample_mlfq [of m] by (auto simp: sched_inv_def)
qed

theorem sched_invariant_witness:
  "\<exists>s'. pt_steps sample_ptab s' \<and> (\<exists>qs. rq qs s')"
proof -
  obtain s' where "wakeup ChanTicks sample_ptab = Ret () s'"
    using wakeup_run [OF sample_mlfq [of "()"], of ChanTicks] by (auto simp: runs_iff)
  then have st: "pt_steps sample_ptab s'" by (intro pt_steps.more [OF pt_steps.none] pt_step.wakeup)
  from sched_invariant [OF sample_inv(3) this] st show ?thesis by blast
qed

theorem scheduler_picks_best_witness:
  "runs scheduler (sample_ptab\<lparr>procs := sample_procs(0 := sample_proc SLEEPING 1 0 ChanTicks None), cur := None\<rparr>)
    (\<lambda>r s'. r = Some 1 \<and> pstate (procs s' 1) = RUNNING)"
proof -
  let ?s = "sample_ptab\<lparr>procs := sample_procs(0 := sample_proc SLEEPING 1 0 ChanTicks None), cur := None\<rparr>"
  have "mlfq_inv sample_queues ?s"
    unfolding mlfq_inv_def rq_def
    by (auto simp: sample_queues_def nx_def sample_state sample_proc_def split: if_splits)
  from scheduler_picks_best [OF this] show ?thesis
    by (rule runs_conseq)
      (auto simp: sample_state sample_proc_def sample_queues_def split: option.splits if_splits dest: spec [of _ 2])
qed

theorem wakeup_exact_witness:
  "runs (wakeup ChanTicks) sample_ptab (\<lambda>_ s'. core (procs s' 3) =
    core (sample_proc RUNNABLE 4 1 ChanTicks None) \<and> core (procs s' 0) = core (procs sample_ptab 0))"
  by (rule runs_conseq [OF wakeup_exact [OF sample_mlfq]])
    (auto simp: sample_state sample_procs_def sample_proc_def simp del: upt_rec_numeral)

theorem yield_demotes_witness:
  "sleeps yield sample_ptab (\<lambda>_ s'. mlfq_inv (sample_queues(2 := [0])) s' \<and> priority (procs s' 0) = 2 \<and>
    pstate (procs s' 0) = RUNNABLE)"
  using yield_demotes [OF sample_mlfq [of "()"], of 0 2] by (simp add: on_cpu_def sample_state sample_queues_def)

theorem allocproc_correct_witness:
  "runs allocproc sample_ptab (\<lambda>r s'. r \<noteq> None \<and> pstate (procs s' (the r)) = EMBRYO \<and> pid (procs s' (the r)) = 5 \<and>
    pid (procs sample_ptab 3) < pid (procs s' (the r)))"
proof -
  have np: "\<not> ((\<exists>p < NPROC. pstate (procs sample_ptab p) = UNUSED) \<and> nextpid sample_ptab \<ge> 2 ^ 31 - 1)" by simp
  have u: "pstate (procs sample_ptab 4) = UNUSED" "pstate (procs sample_ptab 3) \<noteq> UNUSED" "(3 :: nat) < NPROC" "(4 :: nat) < NPROC"
    by (simp_all add: sample_state)
  show ?thesis
    by (rule runs_conseq [OF allocproc_correct [OF sample_mlfq [of "()"] sample_inv(1,2), unfolded if_not_P [OF np]]])
      (use u in \<open>fastforce simp: sample_sel\<close>)
qed

theorem unlocked_enqueue_loses_witness:
  "runs (bnd (gets (\<lambda>s. mlf s 0)) (\<lambda>nd. sq (enqueue 5) (enqueue_link 4 0 nd))) sample_ptab
      (\<lambda>_ s'. rq (sample_queues(0 := [4])) s')"
proof -
  have "rq sample_queues sample_ptab" using sample_mlfq [of "()"] by (simp add: mlfq_inv_def)
  from unlocked_enqueue_loses [OF this, of 0 4 5] show ?thesis
    by (auto simp: sample_queues_def sample_state elim: runs_conseq)
qed

end
