(* ===== verification/Semaphore.thy ===== *)
theory Semaphore
  imports Scheduler
begin

text \<open>
  Counting semaphores (\<^verbatim>\<open>src/semaphore.c\<close>, \<^verbatim>\<open>src/semaphore.h\<close>).

  The table \<^verbatim>\<open>stable\<close> is part of the state; a pointer into it is its index.  A descriptor that is not an
  index of the table is an access out of bounds, which is undefined, as is the null pointer that
  \<^verbatim>\<open>checkprocsem\<close> returns for a process with four semaphores, and the overflow of a value.
\<close>

section \<open>State and operations\<close>

record sem =
  sem_value :: int
  refcount :: int

record semtab = ptab +
  sems :: "nat \<Rightarrow> sem"
  sem_first_time :: bool

definition upd_sem :: "nat \<Rightarrow> (sem \<Rightarrow> sem) \<Rightarrow> ('z semtab_scheme, unit) op" where
  "upd_sem i f = modify (\<lambda>s. s\<lparr>sems := (sems s)(i := f (sems s i))\<rparr>)"

text \<open>\<^verbatim>\<open>stable.sem + sem_id\<close>.\<close>

definition sem_at :: "int \<Rightarrow> ('z semtab_scheme, nat) op" where
  "sem_at sem_id =
     (if 0 \<le> sem_id \<and> sem_id < int MAXSEM then ret (nat sem_id) else undef ''stable.sem: out of bounds'')"

definition checkprocsem :: "('z semtab_scheme, nat option) op" where
  "checkprocsem =
     bnd curproc (\<lambda>p. gets (\<lambda>s. scan (\<lambda>k. procsem (procs s p) k = None) MAXSEMPROC))"

text \<open>The first call initialises the lock.\<close>

definition sem_init_once :: "('z semtab_scheme, unit) op" where
  "sem_init_once =
     bnd (gets sem_first_time) (\<lambda>ft. whenM ft
       (sq (modify (\<lambda>s. s\<lparr>cpust := (cpust s)\<lparr>lks := (lks (cpust s))(StableLock := initlock)\<rparr>\<rparr>))
           (modify (\<lambda>s. s\<lparr>sem_first_time := False\<rparr>))))"

definition semget :: "int \<Rightarrow> int \<Rightarrow> ('z semtab_scheme, int) op" where
  "semget sem_id init_value =
     sq sem_init_once
    (sq (acquire StableLock)
    (if sem_id = -1 then
       bnd (gets (\<lambda>s. scan (\<lambda>t. refcount (sems s t) = 0) MAXSEM)) (\<lambda>found.
       case found of
         None \<Rightarrow> sq (release StableLock) (ret (-3))
       | Some t \<Rightarrow>
           bnd checkprocsem (\<lambda>r.
           case r of
             None \<Rightarrow> undef ''semget: null procsem''
           | Some k \<Rightarrow>
               bnd curproc (\<lambda>p.
               bnd (gets (\<lambda>s. procsem (procs s p) k)) (\<lambda>x.
               if x = None then
                 sq (upd_sem t (\<lambda>m. m\<lparr>sem_value := init_value\<rparr>))
                (sq (upd_sem t (\<lambda>m. m\<lparr>refcount := 1\<rparr>))
                (sq (upd_proc p (\<lambda>q. q\<lparr>semquantity := semquantity q + 1\<rparr>))
                (sq (upd_proc p (\<lambda>q. q\<lparr>procsem := (procsem q)(k := Some t)\<rparr>))
                (sq (release StableLock)
                    (ret (int t))))))
               else sq (release StableLock) (ret (-2))))))
     else
       bnd (sem_at sem_id) (\<lambda>t.
       bnd (gets (\<lambda>s. refcount (sems s t))) (\<lambda>rc.
       if rc = 0 then sq (release StableLock) (ret (-1))
       else
         bnd checkprocsem (\<lambda>r.
         case r of
           None \<Rightarrow> undef ''semget: null procsem''
         | Some k \<Rightarrow>
             bnd curproc (\<lambda>p.
             bnd (gets (\<lambda>s. procsem (procs s p) k)) (\<lambda>x.
             if x = None then
               sq (upd_proc p (\<lambda>q. q\<lparr>procsem := (procsem q)(k := Some t)\<rparr>))
              (sq (upd_sem t (\<lambda>m. m\<lparr>refcount := refcount m + 1\<rparr>))
              (sq (release StableLock)
                  (ret sem_id)))
             else sq (release StableLock) (ret (-2)))))))))"

definition semfree :: "int \<Rightarrow> ('z semtab_scheme, int) op" where
  "semfree sem_id =
     bnd (sem_at sem_id) (\<lambda>t.
     bnd (gets (\<lambda>s. refcount (sems s t))) (\<lambda>rc.
     if rc = 0 then ret (-1)
     else
       bnd curproc (\<lambda>p.
       bnd (gets (\<lambda>s. scan (\<lambda>k. procsem (procs s p) k = Some t) MAXSEMPROC)) (\<lambda>found.
       case found of
         None \<Rightarrow> ret (-1)
       | Some k \<Rightarrow>
           sq (upd_proc p (\<lambda>q. q\<lparr>procsem := (procsem q)(k := None)\<rparr>))
          (sq (acquire StableLock)
          (sq (upd_sem t (\<lambda>m. m\<lparr>refcount := refcount m - 1\<rparr>))
          (sq (upd_proc p (\<lambda>q. q\<lparr>semquantity := semquantity q - 1\<rparr>))
          (sq (release StableLock)
              (ret 0)))))))))"

text \<open>
  The loop of \<^verbatim>\<open>semdown\<close>: a process that finds the value 0 sleeps, and runs \<open>semdown_resume\<close> when it has
  the CPU again.
\<close>

definition semdown_loop :: "nat \<Rightarrow> ('z semtab_scheme, int) op" where
  "semdown_loop t =
     bnd (gets (\<lambda>s. sem_value (sems s t))) (\<lambda>v.
     if v = 0 then sq (sleep (ChanSem t) StableLock) (ret 0)
     else if v = - (2 ^ 31) then undef ''semdown: overflow''
     else
       sq (upd_sem t (\<lambda>m. m\<lparr>sem_value := sem_value m - 1\<rparr>))
      (sq (release StableLock)
          (ret 0)))"

definition semdown :: "int \<Rightarrow> ('z semtab_scheme, int) op" where
  "semdown sem_id =
     bnd (sem_at sem_id) (\<lambda>t.
     sq (acquire StableLock)
    (bnd (gets (\<lambda>s. refcount (sems s t))) (\<lambda>rc.
     if rc \<le> 0 then sq (release StableLock) (ret (-1))
     else semdown_loop t)))"

definition semdown_resume :: "bool \<Rightarrow> nat \<Rightarrow> ('z semtab_scheme, int) op" where
  "semdown_resume ie t = sq (sleep_resume ie StableLock) (semdown_loop t)"

text \<open>\<^verbatim>\<open>semup\<close>: the lock is released inside the test of the value only.\<close>

definition semup_add :: "nat \<Rightarrow> int \<Rightarrow> ('z semtab_scheme, unit) op" where
  "semup_add t v =
     (if v = 0 then
        sq (upd_sem t (\<lambda>m. m\<lparr>sem_value := sem_value m + 1\<rparr>)) (wakeup (ChanSem t))
      else if v = 2 ^ 31 - 1 then undef ''semup: overflow''
      else upd_sem t (\<lambda>m. m\<lparr>sem_value := sem_value m + 1\<rparr>))"

definition semup :: "int \<Rightarrow> ('z semtab_scheme, int) op" where
  "semup sem_id =
     bnd (sem_at sem_id) (\<lambda>t.
     sq (acquire StableLock)
    (bnd (gets (\<lambda>s. refcount (sems s t))) (\<lambda>rc.
     if rc \<le> 0 then sq (release StableLock) (ret (-1))
     else
       sq (bnd (gets (\<lambda>s. sem_value (sems s t))) (\<lambda>v. whenM (v \<ge> 0)
            (sq (semup_add t v) (release StableLock))))
          (ret 0))))"

section \<open>Behaviour of the operations\<close>

text \<open>A running process that holds no lock calls the operations.\<close>

definition sem_ready :: "nat \<Rightarrow> 'z semtab_scheme \<Rightarrow> bool" where
  "sem_ready p s \<longleftrightarrow> on_cpu p s \<and> lock_free StableLock (cpust s)"

lemma sem_readyD:
  assumes "sem_ready p s"
  shows "cur s = Some p" "p < NPROC" "pstate (procs s p) = RUNNING" "lock_free PtableLock (cpust s)"
    "cli_wf (cpust s)" "ncli (cpust s) = 0" "lock_free StableLock (cpust s)"
  using assms by (simp_all add: sem_ready_def on_cpu_def)

lemma upd_sem_run: "upd_sem i f s = Ret () (s\<lparr>sems := (sems s)(i := f (sems s i))\<rparr>)"
  by (simp add: upd_sem_def modify_apply)

lemma sem_at_run: "i < MAXSEM \<Longrightarrow> sem_at (int i) s = Ret i s"
  by (simp add: sem_at_def ret_apply)

lemma sems_cpust: "s\<lparr>sems := x, cpust := k\<rparr> = s\<lparr>cpust := k, sems := x\<rparr>"
  by simp

lemmas sem_ops = basic_ops upd_sem_run sem_at_run

lemma semdown_unused:
  assumes "sem_ready p s" and "i < MAXSEM" and "refcount (sems s i) \<le> 0"
  shows "semdown (int i) s = Ret (-1) (s\<lparr>cpust := settled (cpust s)\<rparr>)"
  using assms sem_readyD [OF assms(1)] by (simp add: semdown_def sem_ops acquire_free release_acq)

lemma semdown_takes:
  assumes "sem_ready p s" and "i < MAXSEM" and "0 < refcount (sems s i)"
    and "sem_value (sems s i) \<noteq> 0" "sem_value (sems s i) \<noteq> - (2 ^ 31)"
  shows "semdown (int i) s = Ret 0 (s\<lparr>cpust := settled (cpust s),
    sems := (sems s)(i := (sems s i)\<lparr>sem_value := sem_value (sems s i) - 1\<rparr>)\<rparr>)"
  using assms sem_readyD [OF assms(1)]
  by (simp add: semdown_def semdown_loop_def sem_ops acquire_free release_acq)

lemma semdown_blocks:
  assumes inv: "mlfq_inv qs s" and r: "sem_ready p s" and i: "i < MAXSEM" "0 < refcount (sems s i)"
    and v: "sem_value (sems s i) = 0"
  shows "sleeps (semdown (int i)) s (\<lambda>c s'. c = ChanSem i \<and> mlfq_inv qs s' \<and> sems s' = sems s \<and>
    cpust s' = acq PtableLock (cpust s) \<and> pstate (procs s' p) = SLEEPING \<and> pchan (procs s' p) = ChanSem i \<and>
    (\<forall>q. q \<noteq> p \<longrightarrow> procs s' q = procs s q))"
proof -
  note k = sem_readyD [OF r]
  let ?s1 = "s\<lparr>cpust := acq StableLock (cpust s)\<rparr>"
  have h: "holds_only StableLock (cpust s) (cpust ?s1)" using k by (simp add: holds_only_def)
  have i1: "mlfq_inv qs ?s1" "cur ?s1 = Some p" "pstate (procs ?s1 p) = RUNNING" using inv k by simp_all
  note sl = sleep_run [OF i1(1,2) k(2) i1(3) h refl refl, of "ChanSem i"]
  have "semdown (int i) s = semdown_loop i ?s1"
    using i k by (simp add: semdown_def sem_ops acquire_free)
  also have "\<dots> = sq (sleep (ChanSem i) StableLock) (ret 0) ?s1"
    using v by (simp add: semdown_loop_def sem_ops)
  finally show ?thesis using sl by (simp add: sleeps_def sq_def bnd_def)
qed

lemma semup_unused:
  assumes "sem_ready p s" and "i < MAXSEM" and "refcount (sems s i) \<le> 0"
  shows "semup (int i) s = Ret (-1) (s\<lparr>cpust := settled (cpust s)\<rparr>)"
  using assms sem_readyD [OF assms(1)] by (simp add: semup_def sem_ops acquire_free release_acq)

lemma semup_positive:
  assumes "sem_ready p s" and "i < MAXSEM" and "0 < refcount (sems s i)"
    and "0 < sem_value (sems s i)" "sem_value (sems s i) < 2 ^ 31 - 1"
  shows "semup (int i) s = Ret 0 (s\<lparr>cpust := settled (cpust s),
    sems := (sems s)(i := (sems s i)\<lparr>sem_value := sem_value (sems s i) + 1\<rparr>)\<rparr>)"
  using assms sem_readyD [OF assms(1)] by (simp add: semup_def semup_add_def sem_ops acquire_free release_acq)


lemma semup_zero:
  fixes s :: "'z semtab_scheme"
  assumes inv: "mlfq_inv qs s" and r: "sem_ready p s" and i: "i < MAXSEM" "0 < refcount (sems s i)"
    and v: "sem_value (sems s i) = 0"
  shows "runs (semup (int i)) s (\<lambda>r s'. r = 0 \<and> wake_inv (ChanSem i)
    (s\<lparr>cpust := settled (cpust s), sems := (sems s)(i := (sems s i)\<lparr>sem_value := 1\<rparr>)\<rparr>) qs [0..<NPROC] s')"
proof -
  note k = sem_readyD [OF r]
  define k1 where "k1 = acq StableLock (cpust s)"
  define s1 where "s1 = s\<lparr>cpust := k1, sems := (sems s)(i := (sems s i)\<lparr>sem_value := 1\<rparr>)\<rparr>"
  have i1: "mlfq_inv qs s1"
    using inv by (subst mlfq_inv_cong [of _ s]) (simp_all add: s1_def)
  have k1: "lock_free PtableLock (cpust s1)" "cli_wf (cpust s1)" "settled (cpust s1) = k1"
    using k by (simp_all add: s1_def k1_def)
  have sc: "s1\<lparr>cpust := settled (cpust s1)\<rparr> = s1" using k1(3) by (simp add: s1_def)
  have "runs (wakeup (ChanSem i)) s1 (\<lambda>_ t. runs (release StableLock) t (\<lambda>_ s'.
      wake_inv (ChanSem i) (s1\<lparr>cpust := settled (cpust s)\<rparr>) qs [0..<NPROC] s'))"
  proof (rule runs_conseq [OF wakeup_run [OF i1 k1(1,2)]], unfold sc)
    fix t :: "'z semtab_scheme" assume W: "wake_inv (ChanSem i) s1 qs [0..<NPROC] t"
    then obtain pr ml where t: "t = s1\<lparr>procs := pr, mlf := ml\<rparr>" unfolding wake_inv_def by blast
    have W': "wake_inv (ChanSem i) (s1\<lparr>cpust := settled (cpust s)\<rparr>) qs [0..<NPROC] (t\<lparr>cpust := settled (cpust s)\<rparr>)"
    proof (rule wake_inv_cpust)
      have "s1\<lparr>cpust := k1\<rparr> = s1" by (simp add: s1_def)
      with W show "wake_inv (ChanSem i) (s1\<lparr>cpust := k1\<rparr>) qs [0..<NPROC] t" by (simp del: upt_rec_numeral)
    qed
    then show "runs (release StableLock) t (\<lambda>_ s'.
        wake_inv (ChanSem i) (s1\<lparr>cpust := settled (cpust s)\<rparr>) qs [0..<NPROC] s')"
      using k by (subst runs_release [of t StableLock "cpust s"]) (simp_all add: t s1_def k1_def)
  qed
  then show ?thesis
    using i v k by (simp add: semup_def semup_add_def runs_simps sem_at_def upd_sem_def s1_def k1_def sems_cpust
        del: upt_rec_numeral)
qed

section \<open>Descriptors and reference counts\<close>

text \<open>The descriptors of semaphore \<open>i\<close>: process and index into its \<^verbatim>\<open>procsem\<close>.\<close>

definition sem_slots :: "(nat \<Rightarrow> proc) \<Rightarrow> nat \<Rightarrow> (nat \<times> nat) set" where
  "sem_slots ps i = {(p, k). p < NPROC \<and> k < MAXSEMPROC \<and> procsem (ps p) k = Some i}"

definition sem_inv :: "'z semtab_scheme \<Rightarrow> bool" where
  "sem_inv s \<longleftrightarrow> (\<forall>i < MAXSEM. refcount (sems s i) = int (card (sem_slots (procs s) i))) \<and>
     (\<forall>p < NPROC. \<forall>k < MAXSEMPROC. \<forall>i. procsem (procs s p) k = Some i \<longrightarrow> i < MAXSEM)"

lemma finite_sem_slots [simp]: "finite (sem_slots ps i)"
  by (rule finite_subset [of _ "{..<NPROC} \<times> {..<MAXSEMPROC}"]) (auto simp: sem_slots_def)

lemma sem_slots_set:
  assumes "p < NPROC" "k < MAXSEMPROC" "procsem (ps p) k = None" "procsem q = (procsem (ps p))(k := Some t)"
  shows "sem_slots (ps(p := q)) i = (if i = t then insert (p, k) (sem_slots ps i) else sem_slots ps i)"
  using assms by (auto simp: sem_slots_def split: if_splits)

lemma sem_slots_clear:
  assumes "procsem (ps p) k = Some t" "procsem q = (procsem (ps p))(k := None)"
  shows "sem_slots (ps(p := q)) i = (if i = t then sem_slots ps i - {(p, k)} else sem_slots ps i)"
  using assms by (auto simp: sem_slots_def split: if_splits)

lemma sem_inv_set:
  assumes inv: "sem_inv s" and a: "p < NPROC" "k < MAXSEMPROC" "procsem (procs s p) k = None" "t < MAXSEM"
    and q: "procsem q = (procsem (procs s p))(k := Some t)"
    and s': "procs s' = (procs s)(p := q)" "sems s' = (sems s)(t := m)" "refcount m = refcount (sems s t) + 1"
  shows "sem_inv s'"
proof -
  have "(p, k) \<notin> sem_slots (procs s) t" using a(3) by (simp add: sem_slots_def)
  then have "refcount (sems s' i) = int (card (sem_slots (procs s') i))" if "i < MAXSEM" for i
    using inv that s' unfolding sem_inv_def s'(1) sem_slots_set [where ps = "procs s", OF a(1-3) q] by simp
  moreover have "\<forall>p' < NPROC. \<forall>k < MAXSEMPROC. \<forall>i. procsem (procs s' p') k = Some i \<longrightarrow> i < MAXSEM"
    using inv a(4) q unfolding sem_inv_def s'(1) by simp
  ultimately show ?thesis unfolding sem_inv_def by blast
qed

lemma sem_inv_clear:
  assumes inv: "sem_inv s" and a: "p < NPROC" "k < MAXSEMPROC" "procsem (procs s p) k = Some t"
    and q: "procsem q = (procsem (procs s p))(k := None)"
    and s': "procs s' = (procs s)(p := q)" "sems s' = (sems s)(t := m)" "refcount m = refcount (sems s t) - 1"
  shows "sem_inv s'"
proof -
  have mem: "(p, k) \<in> sem_slots (procs s) t" using a by (simp add: sem_slots_def)
  then have "0 < card (sem_slots (procs s) t)" by (auto simp: card_gt_0_iff)
  with mem have "int (card (sem_slots (procs s) t - {(p, k)})) = int (card (sem_slots (procs s) t)) - 1"
    by (simp add: card_Diff_singleton of_nat_diff)
  then have "refcount (sems s' i) = int (card (sem_slots (procs s') i))" if "i < MAXSEM" for i
    using inv that s' unfolding sem_inv_def s'(1) sem_slots_clear [of "procs s" p k t, OF a(3) q] by simp
  moreover have "\<forall>p' < NPROC. \<forall>k < MAXSEMPROC. \<forall>i. procsem (procs s' p') k = Some i \<longrightarrow> i < MAXSEM"
    using inv q unfolding sem_inv_def s'(1) by simp
  ultimately show ?thesis unfolding sem_inv_def by blast
qed

lemma sem_inv_upd [simp]:
  "sem_inv (s\<lparr>cpust := k\<rparr>) = sem_inv s" "sem_inv (s\<lparr>sem_first_time := b\<rparr>) = sem_inv s"
  by (simp_all add: sem_inv_def)

lemma semget_start:
  assumes "sem_ready p s"
  shows "sem_init_once s = Ret () (s\<lparr>sem_first_time := False\<rparr>)"
proof (cases "sem_first_time s")
  case True
  have "(lks (cpust s))(StableLock := initlock) = lks (cpust s)"
    using sem_readyD(7) [OF assms] by (simp add: lock_free_def fun_upd_idem)
  then show ?thesis using True by (simp add: sem_init_once_def basic_ops)
next
  case False
  then have "s\<lparr>sem_first_time := False\<rparr> = s" by simp
  then show ?thesis using False by (simp add: sem_init_once_def basic_ops)
qed

text \<open>Creating a semaphore.\<close>

lemma semget_create:
  assumes r: "sem_ready p s"
    and t: "scan (\<lambda>t. refcount (sems s t) = 0) MAXSEM = Some t"
    and k: "scan (\<lambda>k. procsem (procs s p) k = None) MAXSEMPROC = Some k"
  shows "semget (-1) v s = Ret (int t) (s\<lparr>cpust := settled (cpust s), sem_first_time := False,
    sems := (sems s)(t := (sems s t)\<lparr>sem_value := v, refcount := 1\<rparr>),
    procs := (procs s)(p := (procs s p)\<lparr>semquantity := semquantity (procs s p) + 1,
      procsem := (procsem (procs s p))(k := Some t)\<rparr>)\<rparr>)"
proof -
  have n: "procsem (procs s p) k = None" using k by (simp add: scan_Some_iff)
  show ?thesis
    using sem_readyD [OF r] t k n
    by (simp add: semget_def semget_start [OF r] sem_ops acquire_free release_acq checkprocsem_def curproc_def)
qed

lemma semget_full:
  assumes r: "sem_ready p s" and t: "scan (\<lambda>t. refcount (sems s t) = 0) MAXSEM = None"
  shows "semget (-1) v s = Ret (-3) (s\<lparr>cpust := settled (cpust s), sem_first_time := False\<rparr>)"
  using sem_readyD [OF r] t
  by (simp add: semget_def semget_start [OF r] sem_ops acquire_free release_acq)

lemma semget_null:
  assumes r: "sem_ready p s" and t: "scan (\<lambda>t. refcount (sems s t) = 0) MAXSEM = Some t"
    and k: "scan (\<lambda>k. procsem (procs s p) k = None) MAXSEMPROC = None"
  shows "semget (-1) v s = Undef ''semget: null procsem''"
  using sem_readyD [OF r] t k
  by (simp add: semget_def semget_start [OF r] sem_ops acquire_free checkprocsem_def curproc_def undef_def)

text \<open>Opening a semaphore that exists.\<close>

lemma semget_unused:
  assumes r: "sem_ready p s" and i: "i < MAXSEM" "refcount (sems s i) = 0"
  shows "semget (int i) v s = Ret (-1) (s\<lparr>cpust := settled (cpust s), sem_first_time := False\<rparr>)"
  using sem_readyD [OF r] i
  by (simp add: semget_def semget_start [OF r] sem_ops acquire_free release_acq)

lemma semget_open:
  assumes r: "sem_ready p s" and i: "i < MAXSEM" "refcount (sems s i) \<noteq> 0"
    and k: "scan (\<lambda>k. procsem (procs s p) k = None) MAXSEMPROC = Some k"
  shows "semget (int i) v s = Ret (int i) (s\<lparr>cpust := settled (cpust s), sem_first_time := False,
    sems := (sems s)(i := (sems s i)\<lparr>refcount := refcount (sems s i) + 1\<rparr>),
    procs := (procs s)(p := (procs s p)\<lparr>procsem := (procsem (procs s p))(k := Some i)\<rparr>)\<rparr>)"
proof -
  have n: "procsem (procs s p) k = None" using k by (simp add: scan_Some_iff)
  show ?thesis
    using sem_readyD [OF r] i k n
    by (simp add: semget_def semget_start [OF r] sem_ops acquire_free release_acq checkprocsem_def curproc_def)
qed

lemma semfree_run:
  assumes r: "sem_ready p s" and i: "i < MAXSEM" "refcount (sems s i) \<noteq> 0"
    and k: "scan (\<lambda>k. procsem (procs s p) k = Some i) MAXSEMPROC = Some k"
  shows "semfree (int i) s = Ret 0 (s\<lparr>cpust := settled (cpust s),
    sems := (sems s)(i := (sems s i)\<lparr>refcount := refcount (sems s i) - 1\<rparr>),
    procs := (procs s)(p := (procs s p)\<lparr>procsem := (procsem (procs s p))(k := None),
      semquantity := semquantity (procs s p) - 1\<rparr>)\<rparr>)"
  using sem_readyD [OF r] i k
  by (simp add: semfree_def sem_ops acquire_free release_acq curproc_def)

lemma semfree_fails:
  assumes r: "sem_ready p s" and i: "i < MAXSEM"
    and k: "refcount (sems s i) = 0 \<or> scan (\<lambda>k. procsem (procs s p) k = Some i) MAXSEMPROC = None"
  shows "semfree (int i) s = Ret (-1) s"
  using sem_readyD [OF r] i k by (auto simp: semfree_def sem_ops curproc_def)

section \<open>Sequences of operations\<close>

lemma semdown_loop_Ret:
  assumes "semdown_loop i s = Ret r s'"
  shows "sem_value (sems s i) \<noteq> 0" "sem_value (sems s' i) = sem_value (sems s i) - 1"
proof -
  show v: "sem_value (sems s i) \<noteq> 0"
    using assms by (auto simp: semdown_loop_def sem_ops sleep_not_Ret elim!: sq_RetE)
  have "leaves sems (release StableLock)" by (rule leavesI) (intro keeps_intros, simp)
  with assms v show "sem_value (sems s' i) = sem_value (sems s i) - 1"
    by (auto simp: semdown_loop_def sem_ops undef_def split: if_splits elim!: sq_RetE dest!: leavesD)
qed

lemma leaves_sems:
  "leaves sems (acquire l :: ('z semtab_scheme, unit) op)" "leaves sems (release l :: ('z semtab_scheme, unit) op)"
  "leaves sems (wakeup ch :: ('z semtab_scheme, unit) op)" "leaves sems (sleep_resume ie lk :: ('z semtab_scheme, unit) op)"
  by (rule leavesI, intro keeps_intros; simp)+

lemma semdown_Ret:
  fixes s :: "'z semtab_scheme"
  assumes "semdown (int i) s = Ret 0 s'"
  shows "sem_value (sems s i) \<noteq> 0 \<and> sem_value (sems s' i) = sem_value (sems s i) - 1"
proof -
  have i: "i < MAXSEM" using assms by (auto simp: semdown_def sem_at_def bnd_def undef_def split: if_splits)
  obtain u s1 where a: "acquire StableLock s = Ret u s1" "semdown_loop i s1 = Ret 0 s'"
    using assms i by (auto simp: semdown_def sem_ops split: if_splits elim!: sq_RetE)
  show ?thesis using semdown_loop_Ret [OF a(2)] leavesD [OF leaves_sems(1) a(1)] by simp
qed

lemma semdown_resume_Ret:
  fixes s :: "'z semtab_scheme"
  assumes "semdown_resume ie i s = Ret 0 s'"
  shows "sem_value (sems s i) \<noteq> 0 \<and> sem_value (sems s' i) = sem_value (sems s i) - 1"
proof -
  obtain u s1 where a: "sleep_resume ie StableLock s = Ret u s1" "semdown_loop i s1 = Ret 0 s'"
    using assms by (auto simp: semdown_resume_def elim!: sq_RetE)
  show ?thesis using semdown_loop_Ret [OF a(2)] leavesD [OF leaves_sems(4) a(1)] by simp
qed

lemma semup_Ret:
  fixes s :: "'z semtab_scheme"
  assumes "semup (int i) s = Ret 0 s'" and "0 \<le> sem_value (sems s i)"
  shows "sem_value (sems s' i) = sem_value (sems s i) + 1"
proof -
  have i: "i < MAXSEM" using assms(1) by (auto simp: semup_def sem_at_def bnd_def undef_def split: if_splits)
  obtain u s1 where a: "acquire StableLock s = Ret u s1"
    and b: "(if refcount (sems s1 i) \<le> 0 then sq (release StableLock) (ret (-1)) else
       sq (whenM (sem_value (sems s1 i) \<ge> 0) (sq (semup_add i (sem_value (sems s1 i))) (release StableLock)))
          (ret 0)) s1 = Ret (0 :: int) s'"
    using assms(1) i by (auto simp: semup_def sem_ops sq_def bnd_def gets_def elim!: sq_RetE split: outcome.splits if_splits)
  note e = leavesD [OF leaves_sems(1) a]
  obtain s2 where c: "semup_add i (sem_value (sems s1 i)) s1 = Ret () s2" "release StableLock s2 = Ret () s'"
    using b assms(2) e by (auto simp: ret_apply whenM_def elim!: sq_RetE split: if_splits)
  have "sem_value (sems s2 i) = sem_value (sems s1 i) + 1"
    using c(1) by (auto simp: semup_add_def sem_ops undef_def split: if_splits dest!: leavesD [OF leaves_sems(3)])
  then show ?thesis using leavesD [OF leaves_sems(2) c(2)] e by simp
qed

text \<open>
  A history of the semaphore \<open>i\<close>: completed downs (at once or after sleeping) and ups of any processes,
  with anything in between that leaves its value alone.
\<close>

datatype semop = Down | Up

inductive sem_trace :: "nat \<Rightarrow> 'z semtab_scheme \<Rightarrow> semop list \<Rightarrow> 'z semtab_scheme \<Rightarrow> bool" where
  start: "sem_trace i s [] s"
| down: "sem_trace i s tr s1 \<Longrightarrow> semdown (int i) s1 = Ret 0 s2 \<Longrightarrow> sem_trace i s (tr @ [Down]) s2"
| woken: "sem_trace i s tr s1 \<Longrightarrow> semdown_resume ie i s1 = Ret 0 s2 \<Longrightarrow> sem_trace i s (tr @ [Down]) s2"
| up: "sem_trace i s tr s1 \<Longrightarrow> semup (int i) s1 = Ret 0 s2 \<Longrightarrow> sem_trace i s (tr @ [Up]) s2"
| other: "sem_trace i s tr s1 \<Longrightarrow> sem_value (sems s2 i) = sem_value (sems s1 i) \<Longrightarrow> sem_trace i s tr s2"

lemma sem_trace_counts:
  "sem_trace i s tr s' \<Longrightarrow> 0 \<le> sem_value (sems s i) \<Longrightarrow>
     0 \<le> sem_value (sems s' i) \<and>
     sem_value (sems s' i) = sem_value (sems s i) + int (count_list tr Up) - int (count_list tr Down)"
proof (induction rule: sem_trace.induct)
  case (down i s tr s1 s2)
  then show ?case using semdown_Ret [OF down.hyps(2)] by auto
next
  case (woken i s tr s1 ie s2)
  then show ?case using semdown_resume_Ret [OF woken.hyps(2)] by auto
next
  case (up i s tr s1 s2)
  then show ?case using semup_Ret [OF up.hyps(2)] by auto
qed simp_all

section \<open>Properties\<close>

text \<open>
  (C19) A semaphore counts: over any history of completed downs and ups by any processes, its value is
  the initial value plus the ups minus the downs, and is never negative.  So with the initial value 1
  at most one process is between its down and its up.
\<close>

theorem semaphore_counts:
  assumes "sem_trace i s tr s'" and "0 \<le> sem_value (sems s i)"
  shows "0 \<le> sem_value (sems s' i) \<and>
    sem_value (sems s' i) = sem_value (sems s i) + int (count_list tr Up) - int (count_list tr Down)"
  by (rule sem_trace_counts [OF assms])

text \<open>
  (C20) \<^verbatim>\<open>semdown\<close> on a semaphore in use takes one unit if there is one; on the value 0 it puts the caller
  to sleep on the semaphore, without the lock and without changing any semaphore.
\<close>

theorem semdown_correct:
  fixes s :: "'z semtab_scheme"
  assumes "mlfq_inv qs s" and "sem_ready p s" and "i < MAXSEM" and "0 < refcount (sems s i)"
    and "0 \<le> sem_value (sems s i)"
  shows "if sem_value (sems s i) = 0 then
      sleeps (semdown (int i)) s (\<lambda>c s'. c = ChanSem i \<and> sems s' = sems s \<and> lock_free StableLock (cpust s') \<and>
        pstate (procs s' p) = SLEEPING \<and> pchan (procs s' p) = ChanSem i \<and> mlfq_inv qs s')
    else
      runs (semdown (int i)) s (\<lambda>r s'. r = 0 \<and> lock_free StableLock (cpust s') \<and> procs s' = procs s \<and>
        sems s' = (sems s)(i := (sems s i)\<lparr>sem_value := sem_value (sems s i) - 1\<rparr>))"
proof (cases "sem_value (sems s i) = 0")
  case True
  then show ?thesis
    using semdown_blocks [OF assms(1-4) True] sem_readyD(7) [OF assms(2)] by (auto simp: sleeps_iff)
next
  case False
  then show ?thesis
    using semdown_takes [OF assms(2-4) False] assms(5) sem_readyD(7) [OF assms(2)] by (simp add: runs_def)
qed

text \<open>
  (C21) \<^verbatim>\<open>semup\<close> on a semaphore in use whose value is not negative adds one unit and gives the lock back; if
  the value was 0, every process that sleeps on the semaphore is runnable and queued afterwards.
\<close>

theorem semup_correct:
  fixes s :: "'z semtab_scheme"
  assumes "mlfq_inv qs s" and "sem_ready p s" and "i < MAXSEM" and "0 < refcount (sems s i)"
    and "0 \<le> sem_value (sems s i)" and "sem_value (sems s i) < 2 ^ 31 - 1"
  shows "runs (semup (int i)) s (\<lambda>r s'. r = 0 \<and> lock_free StableLock (cpust s') \<and>
    sems s' = (sems s)(i := (sems s i)\<lparr>sem_value := sem_value (sems s i) + 1\<rparr>) \<and>
    (\<forall>q < NPROC. sem_value (sems s i) = 0 \<and> pstate (procs s q) = SLEEPING \<and> pchan (procs s q) = ChanSem i \<longrightarrow>
       pstate (procs s' q) = RUNNABLE \<and> (\<exists>qs' l. mlfq_inv qs' s' \<and> q \<in> set (qs' l))))"
proof (cases "sem_value (sems s i) = 0")
  case False
  then show ?thesis
    using semup_positive [OF assms(2-4)] assms(5,6) sem_readyD(7) [OF assms(2)] by (simp add: runs_def)
next
  case True
  let ?t = "s\<lparr>cpust := settled (cpust s), sems := (sems s)(i := (sems s i)\<lparr>sem_value := 1\<rparr>)\<rparr>"
  show ?thesis
  proof (rule runs_conseq [OF semup_zero [OF assms(1-4) True]], elim conjE)
    fix r and s' :: "'z semtab_scheme" assume r: "r = 0" and W: "wake_inv (ChanSem i) ?t qs [0..<NPROC] s'"
    then obtain pr ml where e: "s' = ?t\<lparr>procs := pr, mlf := ml\<rparr>" unfolding wake_inv_def by blast
    have m: "mlfq_inv (wake_queues (ChanSem i) ?t qs [0..<NPROC]) s'" using W unfolding wake_inv_def by blast
    have "pstate (procs s' q) = RUNNABLE"
      if "q < NPROC" "pstate (procs s q) = SLEEPING" "pchan (procs s q) = ChanSem i" for q
    proof -
      have "woken (ChanSem i) ?t q" using that by (simp add: woken_def)
      then have "core (procs s' q) = core ((procs ?t q)\<lparr>priority := int (wake_level ?t q), pstate := RUNNABLE\<rparr>)"
        using W that(1) unfolding wake_inv_def by (simp del: upt_rec_numeral)
      from core_eqD(1) [OF this] show ?thesis by simp
    qed
    then show "r = 0 \<and> lock_free StableLock (cpust s') \<and>
      sems s' = (sems s)(i := (sems s i)\<lparr>sem_value := sem_value (sems s i) + 1\<rparr>) \<and>
      (\<forall>q < NPROC. sem_value (sems s i) = 0 \<and> pstate (procs s q) = SLEEPING \<and> pchan (procs s q) = ChanSem i \<longrightarrow>
        pstate (procs s' q) = RUNNABLE \<and> (\<exists>qs' l. mlfq_inv qs' s' \<and> q \<in> set (qs' l)))"
      using r True m mlfq_inv_queued(1) [OF m] sem_readyD(7) [OF assms(2)] by (auto simp: e)
  qed
qed


text \<open>
  (C22) Reference counts are exact: while a process with a free slot opens, creates and closes
  semaphores, the count of every semaphore is the number of descriptors that refer to it.  Creating
  fails exactly when every semaphore has a descriptor and otherwise takes one that has none.
\<close>

theorem sem_refcounts:
  fixes s :: "'z semtab_scheme"
  assumes inv: "sem_inv s" and r: "sem_ready p s" and i: "i < MAXSEM"
    and k: "\<exists>k < MAXSEMPROC. procsem (procs s p) k = None"
  shows "runs (semget (-1) v) s (\<lambda>t s'. sem_inv s' \<and>
      (t = -3 \<longleftrightarrow> (\<forall>j < MAXSEM. sem_slots (procs s) j \<noteq> {})) \<and>
      (t \<noteq> -3 \<longrightarrow> 0 \<le> t \<and> t < int MAXSEM \<and> sem_slots (procs s) (nat t) = {} \<and>
         sem_value (sems s' (nat t)) = v \<and> (\<exists>k. sem_slots (procs s') (nat t) = {(p, k)}))) \<and>
    runs (semget (int i) v) s (\<lambda>t s'. sem_inv s' \<and> (t = -1 \<longleftrightarrow> sem_slots (procs s) i = {})) \<and>
    runs (semfree (int i)) s (\<lambda>t s'. sem_inv s' \<and> (t = 0 \<longleftrightarrow> (\<exists>k < MAXSEMPROC. procsem (procs s p) k = Some i)))"
proof (intro conjI)
  note rd = sem_readyD [OF r]
  have rc: "refcount (sems s j) = 0 \<longleftrightarrow> sem_slots (procs s) j = {}" if "j < MAXSEM" for j
    using inv that unfolding sem_inv_def by simp
  obtain k where k: "scan (\<lambda>k. procsem (procs s p) k = None) MAXSEMPROC = Some k"
    using k scan_None_iff [of "\<lambda>k. procsem (procs s p) k = None" MAXSEMPROC] by fastforce
  then have kn: "k < MAXSEMPROC" "procsem (procs s p) k = None" by (simp_all add: scan_Some_iff)
  show "runs (semget (-1) v) s (\<lambda>t s'. sem_inv s' \<and>
      (t = -3 \<longleftrightarrow> (\<forall>j < MAXSEM. sem_slots (procs s) j \<noteq> {})) \<and>
      (t \<noteq> -3 \<longrightarrow> 0 \<le> t \<and> t < int MAXSEM \<and> sem_slots (procs s) (nat t) = {} \<and>
         sem_value (sems s' (nat t)) = v \<and> (\<exists>k. sem_slots (procs s') (nat t) = {(p, k)})))"
  proof (cases "scan (\<lambda>t. refcount (sems s t) = 0) MAXSEM")
    case None
    then have "\<forall>j < MAXSEM. sem_slots (procs s) j \<noteq> {}" using rc by (auto simp: scan_None_iff)
    then show ?thesis
      using semget_full [OF r None, of v] inv by (simp add: runs_def)
  next
    case (Some t)
    then have t: "t < MAXSEM" "refcount (sems s t) = 0" by (simp_all add: scan_Some_iff)
    let ?q = "(procs s p)\<lparr>semquantity := semquantity (procs s p) + 1, procsem := (procsem (procs s p))(k := Some t)\<rparr>"
    let ?s = "s\<lparr>cpust := settled (cpust s), sem_first_time := False,
      sems := (sems s)(t := (sems s t)\<lparr>sem_value := v, refcount := 1\<rparr>), procs := (procs s)(p := ?q)\<rparr>"
    have "sem_inv ?s"
      by (rule sem_inv_set [where q = ?q and m = "(sems s t)\<lparr>sem_value := v, refcount := 1\<rparr>", OF inv rd(2) kn t(1)])
        (simp_all add: t)
    moreover have "sem_slots ((procs s)(p := ?q)) t = {(p, k)}"
      using sem_slots_set [where ps = "procs s" and q = ?q and t = t, OF rd(2) kn] rc [OF t(1)] t(2) by simp
    moreover have "\<not> (\<forall>j < MAXSEM. sem_slots (procs s) j \<noteq> {})" using rc [OF t(1)] t by blast
    ultimately show ?thesis
      using semget_create [OF r Some k, of v] rc [OF t(1)] t by (auto simp: runs_def)
  qed
  show "runs (semget (int i) v) s (\<lambda>t s'. sem_inv s' \<and> (t = -1 \<longleftrightarrow> sem_slots (procs s) i = {}))"
  proof (cases "refcount (sems s i) = 0")
    case True
    then show ?thesis
      using semget_unused [OF r i True, of v] inv rc [OF i] True by (simp add: runs_def)
  next
    case False
    let ?q = "(procs s p)\<lparr>procsem := (procsem (procs s p))(k := Some i)\<rparr>"
    let ?s = "s\<lparr>cpust := settled (cpust s), sem_first_time := False,
      sems := (sems s)(i := (sems s i)\<lparr>refcount := refcount (sems s i) + 1\<rparr>), procs := (procs s)(p := ?q)\<rparr>"
    have "sem_inv ?s"
      by (rule sem_inv_set [where q = ?q and m = "(sems s i)\<lparr>refcount := refcount (sems s i) + 1\<rparr>", OF inv rd(2) kn i])
        simp_all
    then show ?thesis
      using semget_open [OF r i False k, of v] rc [OF i] False by (simp add: runs_def)
  qed
  show "runs (semfree (int i)) s (\<lambda>t s'. sem_inv s' \<and> (t = 0 \<longleftrightarrow> (\<exists>k < MAXSEMPROC. procsem (procs s p) k = Some i)))"
  proof (cases "scan (\<lambda>k. procsem (procs s p) k = Some i) MAXSEMPROC")
    case None
    then show ?thesis
      using semfree_fails [OF r i] inv by (auto simp: runs_def scan_None_iff)
  next
    case (Some k')
    then have k': "k' < MAXSEMPROC" "procsem (procs s p) k' = Some i" by (simp_all add: scan_Some_iff)
    then have "(p, k') \<in> sem_slots (procs s) i" using rd(2) by (simp add: sem_slots_def)
    then have n: "refcount (sems s i) \<noteq> 0" using rc [OF i] by auto
    let ?q = "(procs s p)\<lparr>procsem := (procsem (procs s p))(k' := None), semquantity := semquantity (procs s p) - 1\<rparr>"
    let ?s = "s\<lparr>cpust := settled (cpust s),
      sems := (sems s)(i := (sems s i)\<lparr>refcount := refcount (sems s i) - 1\<rparr>), procs := (procs s)(p := ?q)\<rparr>"
    have "sem_inv ?s"
      by (rule sem_inv_clear [where q = ?q and m = "(sems s i)\<lparr>refcount := refcount (sems s i) - 1\<rparr>", OF inv rd(2) k'])
        simp_all
    then show ?thesis
      using semfree_run [OF r i n Some] k' by (auto simp: runs_def)
  qed
qed

text \<open>
  A process that already has four semaphores cannot create a fifth: instead of returning the error
  code \<^verbatim>\<open>-2\<close>, \<^verbatim>\<open>semget\<close> dereferences the null pointer that \<^verbatim>\<open>checkprocsem\<close> returns.
\<close>

theorem semget_fifth:
  assumes "sem_ready p s" and "\<forall>k < MAXSEMPROC. procsem (procs s p) k \<noteq> None"
    and "t < MAXSEM" and "refcount (sems s t) = 0"
  shows "semget (-1) v s = Undef ''semget: null procsem''"
proof -
  obtain t' where "scan (\<lambda>t. refcount (sems s t) = 0) MAXSEM = Some t'"
    using assms(3,4) scan_None_iff [of "\<lambda>t. refcount (sems s t) = 0" MAXSEM] by fastforce
  moreover have "scan (\<lambda>k. procsem (procs s p) k = None) MAXSEMPROC = None"
    using assms(2) by (simp add: scan_None_iff)
  ultimately show ?thesis by (rule semget_null [OF assms(1)])
qed

section \<open>A concrete table\<close>

text \<open>Process 0 runs and has semaphore 0 open, with the value \<open>v\<close>; the other semaphores are free.\<close>

definition sample_sems :: "int \<Rightarrow> semtab" where
  "sample_sems v = (sample_table (semtab.fields
      ((\<lambda>_. \<lparr>sem_value = 0, refcount = 0\<rparr>)(0 := \<lparr>sem_value = v, refcount = 1\<rparr>)) True))
    \<lparr>procs := sample_procs(0 := (sample_procs 0)\<lparr>procsem := (\<lambda>_. None)(0 := Some 0)\<rparr>)\<rparr>"

lemma sample_sems_sel [simp]:
  "procs (sample_sems v) = sample_procs(0 := (sample_procs 0)\<lparr>procsem := (\<lambda>_. None)(0 := Some 0)\<rparr>)"
  "cpust (sample_sems v) = boot_cpust" "cur (sample_sems v) = Some 0"
  "sems (sample_sems v) = (\<lambda>_. \<lparr>sem_value = 0, refcount = 0\<rparr>)(0 := \<lparr>sem_value = v, refcount = 1\<rparr>)"
  by (simp_all add: sample_sems_def semtab.defs sample_table_def)

lemma sample_sems_ready: "sem_ready 0 (sample_sems v)"
  by (simp add: sem_ready_def on_cpu_def sample_state)

lemma sample_sems_mlfq: "mlfq_inv sample_queues (sample_sems v)"
  unfolding sample_sems_def
  by (subst sample_sel(2) [symmetric], rule mlfq_inv_same [OF sample_mlfq]) simp_all

lemma sample_procsem: "procsem (sample_procs p) k = None"
  by (simp add: sample_procs_def sample_proc_def)

lemma sample_slots:
  "sem_slots (sample_procs(0 := (sample_procs 0)\<lparr>procsem := (\<lambda>_. None)(0 := Some 0)\<rparr>)) i =
     (if i = 0 then {(0, 0)} else {})"
  by (auto simp: sem_slots_def sample_procsem split: if_splits)

lemma sample_sems_inv: "sem_inv (sample_sems v)"
  by (auto simp: sem_inv_def sample_slots sample_procsem split: if_splits)

theorem semaphore_counts_witness:
  "\<exists>s'. sem_trace 0 (sample_sems 1) [Down] s' \<and> sem_value (sems s' 0) = 0"
proof -
  obtain s' where "semdown (int 0) (sample_sems 1) = Ret 0 s'"
    using semdown_takes [OF sample_sems_ready, of 0 1] by simp
  from sem_trace.down [OF sem_trace.start this] have tr: "sem_trace 0 (sample_sems 1) [Down] s'" by simp
  from semaphore_counts [OF this] tr show ?thesis by auto
qed

theorem semdown_correct_witness:
  "sleeps (semdown 0) (sample_sems 0) (\<lambda>c s'. c = ChanSem 0 \<and> pstate (procs s' 0) = SLEEPING)"
  using semdown_correct [OF sample_sems_mlfq sample_sems_ready, of 0 0] by (auto simp: sleeps_iff)

theorem semup_correct_witness:
  "runs (semup 0) (sample_sems 0\<lparr>procs := (procs (sample_sems 0))(3 := (sample_procs 3)\<lparr>pchan := ChanSem 0\<rparr>)\<rparr>)
     (\<lambda>r s'. r = 0 \<and> sem_value (sems s' 0) = 1 \<and> pstate (procs s' 3) = RUNNABLE)"
proof -
  let ?s = "sample_sems 0\<lparr>procs := (procs (sample_sems 0))(3 := (sample_procs 3)\<lparr>pchan := ChanSem 0\<rparr>)\<rparr>"
  have "procs (sample_sems 0) 3 = sample_procs 3" by simp
  then have m: "mlfq_inv sample_queues ?s" using mlfq_inv_same [OF sample_sems_mlfq [of 0], of "(sample_procs 3)\<lparr>pchan := ChanSem 0\<rparr>" 3] by simp
  have r: "sem_ready 0 ?s" by (simp add: sem_ready_def on_cpu_def sample_state)
  have "pstate (procs ?s 3) = SLEEPING" "pchan (procs ?s 3) = ChanSem 0" by (simp_all add: sample_state)
  then show ?thesis using semup_correct [OF m r, of 0] by (auto elim!: runs_conseq)
qed


theorem sem_refcounts_witness:
  "runs (semget (-1) 5) (sample_sems 1) (\<lambda>t s'. sem_inv s' \<and> t \<noteq> -3) \<and>
   runs (semfree 0) (sample_sems 1) (\<lambda>t s'. sem_inv s' \<and> t = 0)"
proof -
  have i: "(0 :: nat) < MAXSEM" by simp
  have "\<exists>k < MAXSEMPROC. procsem (procs (sample_sems 1) 0) k = None" by (rule exI [of _ 1]) simp
  note th = sem_refcounts [OF sample_sems_inv sample_sems_ready i this, of 5]
  have "sem_slots (procs (sample_sems 1)) 1 = {}" "(1 :: nat) < MAXSEM" by (simp_all add: sample_slots)
  then have "\<not> (\<forall>j < MAXSEM. sem_slots (procs (sample_sems 1)) j \<noteq> {})" by blast
  then have a: "runs (semget (-1) 5) (sample_sems 1) (\<lambda>t s'. sem_inv s' \<and> t \<noteq> -3)"
    by (intro runs_conseq [OF conjunct1 [OF th]]) (simp_all del: sample_sems_sel)
  have "\<exists>k < MAXSEMPROC. procsem (procs (sample_sems 1) 0) k = Some 0" by (rule exI [of _ 0]) simp
  then have "runs (semfree (int 0)) (sample_sems 1) (\<lambda>t s'. sem_inv s' \<and> t = 0)"
    by (intro runs_conseq [OF conjunct2 [OF conjunct2 [OF th]]]) (simp_all del: sample_sems_sel)
  with a show ?thesis by simp
qed

theorem semget_fifth_witness:
  "semget (-1) 5 ((sample_sems 1)\<lparr>procs := sample_procs(0 := (sample_procs 0)\<lparr>procsem := (\<lambda>_. Some 0)\<rparr>)\<rparr>) =
     Undef ''semget: null procsem''"
  by (rule semget_fifth [of 0 _ 1]) (simp_all add: sem_ready_def on_cpu_def sample_state)

end
