(* ===== verification/Bio.thy ===== *)
theory Bio
  imports Semaphore
begin

text \<open>
  The buffer cache (\<^verbatim>\<open>src/bio.c\<close>, \<^verbatim>\<open>src/buf.h\<close>) over the memory disk (\<^verbatim>\<open>src/memide.c\<close>), whose \<^verbatim>\<open>iderw\<close>
  completes at once; the queue of the interrupt-driven driver is in \<open>Ide\<close>.

  A buffer is its index in \<^verbatim>\<open>bcache.buf\<close>, and \<^verbatim>\<open>bcache.head\<close> has the index \<open>NBUF\<close>.  The flags are three
  booleans.  A block is a function of the offset, of which the first 512 values are the data, so that
  copying a block is copying the function.  \<open>disk_writes\<close> is a history variable: the writes the disk has
  performed, the latest last; no operation reads it.
\<close>

section \<open>State\<close>

abbreviation (input) NBUF :: nat where "NBUF \<equiv> 10"
abbreviation (input) BSIZE :: nat where "BSIZE \<equiv> 512"
abbreviation (input) ROOTDEV :: uint where "ROOTDEV \<equiv> 1"

type_synonym block = "nat \<Rightarrow> uchar"

record buf =
  b_busy :: bool
  b_valid :: bool
  b_dirty :: bool
  b_dev :: uint
  b_sector :: uint
  b_prev :: nat
  b_next :: nat
  b_qnext :: "nat option"
  b_data :: block

record bcst = semtab +
  bufs :: "nat \<Rightarrow> buf"
  disk :: "uint \<Rightarrow> block"
  disksize :: uint
  disk_writes :: "(uint \<times> block) list"

definition upd_buf :: "nat \<Rightarrow> (buf \<Rightarrow> buf) \<Rightarrow> ('z bcst_scheme, unit) op" where
  "upd_buf b f = modify (\<lambda>s. s\<lparr>bufs := (bufs s)(b := f (bufs s b))\<rparr>)"

section \<open>The memory disk\<close>

text \<open>The image of the disk is given to \<^verbatim>\<open>ideinit\<close> by the linker.\<close>

definition memide_init :: "(uint \<Rightarrow> block) \<Rightarrow> uint \<Rightarrow> ('z bcst_scheme, unit) op" where
  "memide_init img imgsize = modify (\<lambda>s. s\<lparr>disk := img, disksize := imgsize div 512\<rparr>)"

definition iderw :: "nat \<Rightarrow> ('z bcst_scheme, unit) op" where
  "iderw b =
     bnd (gets (\<lambda>s. bufs s b)) (\<lambda>m.
     if \<not> b_busy m then panic ''iderw: buf not busy''
     else if b_valid m \<and> \<not> b_dirty m then panic ''iderw: nothing to do''
     else if b_dev m \<noteq> 1 then panic ''iderw: request not for disk 1''
     else
       bnd (gets disksize) (\<lambda>n.
       if b_sector m \<ge> n then panic ''iderw: sector out of range''
       else
         sq (if b_dirty m then
               sq (upd_buf b (\<lambda>m. m\<lparr>b_dirty := False\<rparr>))
                  (modify (\<lambda>s. s\<lparr>disk := (disk s)(b_sector m := b_data m),
                     disk_writes := disk_writes s @ [(b_sector m, b_data m)]\<rparr>))
             else
               bnd (gets (\<lambda>s. disk s (b_sector m))) (\<lambda>d. upd_buf b (\<lambda>m. m\<lparr>b_data := d\<rparr>)))
            (upd_buf b (\<lambda>m. m\<lparr>b_valid := True\<rparr>))))"

section \<open>The cache\<close>

definition binit :: "('z bcst_scheme, unit) op" where
  "binit =
     sq (modify (\<lambda>s. s\<lparr>cpust := (cpust s)\<lparr>lks := (lks (cpust s))(BcacheLock := initlock)\<rparr>\<rparr>))
    (sq (upd_buf NBUF (\<lambda>h. h\<lparr>b_prev := NBUF\<rparr>))
    (sq (upd_buf NBUF (\<lambda>h. h\<lparr>b_next := NBUF\<rparr>))
        (foreach [0..<NBUF] (\<lambda>b.
           bnd (gets (\<lambda>s. b_next (bufs s NBUF))) (\<lambda>f.
           sq (upd_buf b (\<lambda>m. m\<lparr>b_next := f\<rparr>))
          (sq (upd_buf b (\<lambda>m. m\<lparr>b_prev := NBUF\<rparr>))
          (sq (upd_buf b (\<lambda>m. m\<lparr>b_dev := -1\<rparr>))
          (sq (upd_buf f (\<lambda>m. m\<lparr>b_prev := b\<rparr>))
              (upd_buf NBUF (\<lambda>h. h\<lparr>b_next := b\<rparr>))))))))))"

text \<open>
  Walking the list from the buffer \<open>b\<close> along \<open>nxt\<close>: \<open>Some (Some b')\<close> is the first buffer that satisfies the
  test, \<open>Some None\<close> means the walk came back to the head.  The list lives in \<open>NBUF + 1\<close> cells, so a walk
  that does not end within \<open>NBUF + 1\<close> steps never ends; it is the value \<open>None\<close>.
\<close>

fun bwalk :: "nat \<Rightarrow> (nat \<Rightarrow> nat) \<Rightarrow> (nat \<Rightarrow> bool) \<Rightarrow> nat \<Rightarrow> nat option option" where
  "bwalk 0 nxt P b = None"
| "bwalk (Suc n) nxt P b =
     (if b = NBUF then Some None else if P b then Some (Some b) else bwalk n nxt P (nxt b))"

definition bget_loop :: "uint \<Rightarrow> uint \<Rightarrow> ('z bcst_scheme, nat) op" where
  "bget_loop dev sector =
     bnd (gets bufs) (\<lambda>bs.
     case bwalk (NBUF + 1) (\<lambda>b. b_next (bs b)) (\<lambda>b. b_dev (bs b) = dev \<and> b_sector (bs b) = sector) (b_next (bs NBUF)) of
       None \<Rightarrow> (\<lambda>s. Spin)
     | Some (Some b) \<Rightarrow>
         if \<not> b_busy (bs b) then
           sq (upd_buf b (\<lambda>m. m\<lparr>b_busy := True\<rparr>)) (sq (release BcacheLock) (ret b))
         else sq (sleep (ChanBuf b) BcacheLock) (ret b)
     | Some None \<Rightarrow>
         (case bwalk (NBUF + 1) (\<lambda>b. b_prev (bs b)) (\<lambda>b. \<not> b_busy (bs b) \<and> \<not> b_dirty (bs b)) (b_prev (bs NBUF)) of
            None \<Rightarrow> (\<lambda>s. Spin)
          | Some (Some b) \<Rightarrow>
              sq (upd_buf b (\<lambda>m. m\<lparr>b_dev := dev\<rparr>))
             (sq (upd_buf b (\<lambda>m. m\<lparr>b_sector := sector\<rparr>))
             (sq (upd_buf b (\<lambda>m. m\<lparr>b_busy := True, b_valid := False, b_dirty := False\<rparr>))
             (sq (release BcacheLock)
                 (ret b))))
          | Some None \<Rightarrow> panic ''bget: no buffers''))"

definition bget :: "uint \<Rightarrow> uint \<Rightarrow> ('z bcst_scheme, nat) op" where
  "bget dev sector = sq (acquire BcacheLock) (bget_loop dev sector)"

text \<open>After sleeping on a busy buffer the search starts again.\<close>

definition bget_resume :: "bool \<Rightarrow> uint \<Rightarrow> uint \<Rightarrow> ('z bcst_scheme, nat) op" where
  "bget_resume ie dev sector = sq (sleep_resume ie BcacheLock) (bget_loop dev sector)"

definition bread :: "uint \<Rightarrow> uint \<Rightarrow> ('z bcst_scheme, nat) op" where
  "bread dev sector =
     bnd (bget dev sector) (\<lambda>b.
     bnd (gets (\<lambda>s. b_valid (bufs s b))) (\<lambda>v.
     sq (whenM (\<not> v) (iderw b))
        (ret b)))"

definition bwrite :: "nat \<Rightarrow> ('z bcst_scheme, unit) op" where
  "bwrite b =
     bnd (gets (\<lambda>s. b_busy (bufs s b))) (\<lambda>busy.
     if \<not> busy then panic ''bwrite''
     else sq (upd_buf b (\<lambda>m. m\<lparr>b_dirty := True\<rparr>)) (iderw b))"

definition brelse :: "nat \<Rightarrow> ('z bcst_scheme, unit) op" where
  "brelse b =
     bnd (gets (\<lambda>s. b_busy (bufs s b))) (\<lambda>busy.
     if \<not> busy then panic ''brelse''
     else
       sq (acquire BcacheLock)
      (sq (bnd (gets (\<lambda>s. bufs s b)) (\<lambda>m. upd_buf (b_next m) (\<lambda>x. x\<lparr>b_prev := b_prev m\<rparr>)))
      (sq (bnd (gets (\<lambda>s. bufs s b)) (\<lambda>m. upd_buf (b_prev m) (\<lambda>x. x\<lparr>b_next := b_next m\<rparr>)))
      (sq (bnd (gets (\<lambda>s. b_next (bufs s NBUF))) (\<lambda>f. upd_buf b (\<lambda>m. m\<lparr>b_next := f\<rparr>)))
      (sq (upd_buf b (\<lambda>m. m\<lparr>b_prev := NBUF\<rparr>))
      (sq (bnd (gets (\<lambda>s. b_next (bufs s NBUF))) (\<lambda>f. upd_buf f (\<lambda>m. m\<lparr>b_prev := b\<rparr>)))
      (sq (upd_buf NBUF (\<lambda>h. h\<lparr>b_next := b\<rparr>))
      (sq (upd_buf b (\<lambda>m. m\<lparr>b_busy := False\<rparr>))
      (sq (wakeup (ChanBuf b))
          (release BcacheLock))))))))))"

section \<open>A concrete state\<close>

text \<open>The cache as \<^verbatim>\<open>binit\<close> leaves it, over an empty disk of 1024 sectors.\<close>

definition sample_bufs :: "nat \<Rightarrow> buf" where
  "sample_bufs b = \<lparr>b_busy = False, b_valid = False, b_dirty = False, b_dev = -1, b_sector = 0,
     b_prev = (if b = NBUF then 0 else b + 1), b_next = (if b = NBUF then 9 else if b = 0 then NBUF else b - 1),
     b_qnext = None, b_data = (\<lambda>_. 0)\<rparr>"

definition sample_bc :: "'z \<Rightarrow> 'z bcst_scheme" where
  "sample_bc m = sample_table \<lparr>sems = (\<lambda>_. \<lparr>sem_value = 0, refcount = 0\<rparr>), sem_first_time = False,
     bufs = sample_bufs, disk = (\<lambda>_ _. 0), disksize = 1024, disk_writes = [], \<dots> = m\<rparr>"

end
