(* ===== verification/Log.thy ===== *)
theory Log
  imports Bio
begin

text \<open>
  The write-ahead log (\<^verbatim>\<open>src/log.c\<close>) and the super block (\<^verbatim>\<open>readsb\<close> of \<^verbatim>\<open>src/fs.c\<close>).

  A header on the disk whose count exceeds \<^verbatim>\<open>LOGSIZE\<close> would be copied past the end of \<^verbatim>\<open>log.lh.sector\<close>, which
  is undefined.
\<close>

section \<open>State\<close>

abbreviation (input) LOGSIZE :: int where "LOGSIZE \<equiv> 10"

record logst = bcst +
  log_start :: uint
  log_size :: int
  log_busy :: bool
  log_dev :: uint
  lh_n :: int
  lh_sector :: "nat \<Rightarrow> uint"

section \<open>The super block\<close>

record superblock =
  sb_size :: uint
  sb_nblocks :: uint
  sb_ninodes :: uint
  sb_nlog :: uint

definition superblock_of :: "block \<Rightarrow> superblock" where
  "superblock_of d = \<lparr>sb_size = ld32 d 0, sb_nblocks = ld32 d 4, sb_ninodes = ld32 d 8, sb_nlog = ld32 d 12\<rparr>"

definition readsb :: "uint \<Rightarrow> ('z bcst_scheme, superblock) op" where
  "readsb dev =
     bnd (bread dev 1) (\<lambda>bp.
     bnd (gets (\<lambda>s. superblock_of (b_data (bufs s bp)))) (\<lambda>sb.
     sq (brelse bp)
        (ret sb)))"

section \<open>Operations\<close>

text \<open>The offset of \<^verbatim>\<open>sector[i]\<close> in the header block.\<close>

definition lh_off :: "nat \<Rightarrow> nat" where
  "lh_off i = 4 + 4 * i"

text \<open>One block of the log.\<close>

definition install_step :: "nat \<Rightarrow> ('z logst_scheme, unit) op" where
  "install_step tail =
       bnd (gets (\<lambda>s. (log_dev s, log_start s + of_nat tail + 1))) (\<lambda>(dev, lsec).
       bnd (bread dev lsec) (\<lambda>lbuf.
       bnd (gets (\<lambda>s. (log_dev s, lh_sector s tail))) (\<lambda>(dev, sec).
       bnd (bread dev sec) (\<lambda>dbuf.
       sq (bnd (gets (\<lambda>s. b_data (bufs s lbuf))) (\<lambda>d. upd_buf dbuf (\<lambda>m. m\<lparr>b_data := d\<rparr>)))
      (sq (bwrite dbuf)
      (sq (brelse lbuf)
          (brelse dbuf)))))))"

definition install_trans :: "('z logst_scheme, unit) op" where
  "install_trans =
     bnd (gets (\<lambda>s. nat (lh_n s))) (\<lambda>n.
     foreach [0..<n] install_step)"

definition read_head :: "('z logst_scheme, unit) op" where
  "read_head =
     bnd (gets (\<lambda>s. (log_dev s, log_start s))) (\<lambda>(dev, sec).
     bnd (bread dev sec) (\<lambda>b.
     sq (modify (\<lambda>s. s\<lparr>lh_n := sint (ld32 (b_data (bufs s b)) 0)\<rparr>))
    (bnd (gets lh_n) (\<lambda>n.
     if n > LOGSIZE then undef ''read_head: sector out of bounds''
     else
       sq (foreach [0..<nat n] (\<lambda>i.
             modify (\<lambda>s. s\<lparr>lh_sector := (lh_sector s)(i := ld32 (b_data (bufs s b)) (lh_off i))\<rparr>)))
          (brelse b)))))"

definition write_head :: "('z logst_scheme, unit) op" where
  "write_head =
     bnd (gets (\<lambda>s. (log_dev s, log_start s))) (\<lambda>(dev, sec).
     bnd (bread dev sec) (\<lambda>b.
     sq (bnd (gets lh_n) (\<lambda>n. upd_buf b (\<lambda>m. m\<lparr>b_data := st32 (b_data m) 0 (of_int n)\<rparr>)))
    (sq (bnd (gets (\<lambda>s. nat (lh_n s))) (\<lambda>n. foreach [0..<n] (\<lambda>i.
           bnd (gets (\<lambda>s. lh_sector s i)) (\<lambda>sec.
           upd_buf b (\<lambda>m. m\<lparr>b_data := st32 (b_data m) (lh_off i) sec\<rparr>)))))
    (sq (bwrite b)
        (brelse b)))))"

definition recover_from_log :: "('z logst_scheme, unit) op" where
  "recover_from_log =
     sq read_head
    (sq install_trans
    (sq (modify (\<lambda>s. s\<lparr>lh_n := 0\<rparr>))
        write_head))"

text \<open>\<^verbatim>\<open>sizeof(struct logheader)\<close> is 44, so the first test of \<^verbatim>\<open>initlog\<close> never panics.\<close>

definition initlog :: "('z logst_scheme, unit) op" where
  "initlog =
     (if (44 :: nat) \<ge> BSIZE then panic ''initlog: too big logheader''
      else
        sq (modify (\<lambda>s. s\<lparr>cpust := (cpust s)\<lparr>lks := (lks (cpust s))(LogLock := initlock)\<rparr>\<rparr>))
       (bnd (readsb ROOTDEV) (\<lambda>sb.
        sq (modify (\<lambda>s. s\<lparr>log_start := sb_size sb - sb_nlog sb\<rparr>))
       (sq (modify (\<lambda>s. s\<lparr>log_size := sint (sb_nlog sb)\<rparr>))
       (sq (modify (\<lambda>s. s\<lparr>log_dev := ROOTDEV\<rparr>))
           recover_from_log)))))"

definition begin_trans_loop :: "('z logst_scheme, unit) op" where
  "begin_trans_loop =
     bnd (gets log_busy) (\<lambda>busy.
     if busy then sleep ChanLog LogLock
     else
       sq (modify (\<lambda>s. s\<lparr>log_busy := True\<rparr>))
          (release LogLock))"

definition begin_trans :: "('z logst_scheme, unit) op" where
  "begin_trans = sq (acquire LogLock) begin_trans_loop"

definition begin_trans_resume :: "bool \<Rightarrow> ('z logst_scheme, unit) op" where
  "begin_trans_resume ie = sq (sleep_resume ie LogLock) begin_trans_loop"

definition commit_trans :: "('z logst_scheme, unit) op" where
  "commit_trans =
     sq (bnd (gets lh_n) (\<lambda>n. whenM (n > 0)
          (sq write_head
          (sq install_trans
          (sq (modify (\<lambda>s. s\<lparr>lh_n := 0\<rparr>))
              write_head)))))
    (sq (acquire LogLock)
    (sq (modify (\<lambda>s. s\<lparr>log_busy := False\<rparr>))
    (sq (wakeup ChanLog)
        (release LogLock))))"

text \<open>The first index below \<^verbatim>\<open>lh.n\<close> that already logs the sector, or \<^verbatim>\<open>lh.n\<close>.\<close>

definition log_index :: "uint \<Rightarrow> 'z logst_scheme \<Rightarrow> nat" where
  "log_index sec s =
     (case scan (\<lambda>i. lh_sector s i = sec) (nat (lh_n s)) of None \<Rightarrow> nat (lh_n s) | Some i \<Rightarrow> i)"

definition log_write :: "nat \<Rightarrow> ('z logst_scheme, unit) op" where
  "log_write b =
     bnd (gets (\<lambda>s. (lh_n s, log_size s))) (\<lambda>(n, size).
     if n \<ge> LOGSIZE \<or> n \<ge> size - 1 then panic ''too big a transaction''
     else
       bnd (gets log_busy) (\<lambda>busy.
       if \<not> busy then panic ''write outside of trans''
       else
         bnd (gets (\<lambda>s. b_sector (bufs s b))) (\<lambda>sec.
         bnd (gets (log_index sec)) (\<lambda>i.
         sq (modify (\<lambda>s. s\<lparr>lh_sector := (lh_sector s)(i := sec)\<rparr>))
        (bnd (gets (\<lambda>s. (b_dev (bufs s b), log_start s + of_nat i + 1))) (\<lambda>(dev, lsec).
         bnd (bread dev lsec) (\<lambda>lbuf.
         sq (bnd (gets (\<lambda>s. b_data (bufs s b))) (\<lambda>d. upd_buf lbuf (\<lambda>m. m\<lparr>b_data := d\<rparr>)))
        (sq (bwrite lbuf)
        (sq (brelse lbuf)
        (sq (bnd (gets lh_n) (\<lambda>n. whenM (int i = n) (modify (\<lambda>s. s\<lparr>lh_n := lh_n s + 1\<rparr>))))
            (upd_buf b (\<lambda>m. m\<lparr>b_dirty := True\<rparr>))))))))))))"

section \<open>A concrete state\<close>

text \<open>No transaction; the log is the last ten sectors of the disk.\<close>

definition sample_log :: "'z \<Rightarrow> 'z logst_scheme" where
  "sample_log m = sample_bc \<lparr>log_start = 1014, log_size = 10, log_busy = False, log_dev = 1, lh_n = 0,
     lh_sector = (\<lambda>_. 0), \<dots> = m\<rparr>"

end
