(* ===== verification/Fs.thy ===== *)
theory Fs
  imports Log
begin

text \<open>
  The file system below the system calls (\<^verbatim>\<open>src/fs.c\<close>, \<^verbatim>\<open>src/fs.h\<close>, the inode of \<^verbatim>\<open>src/file.h\<close>): block
  allocation, inodes, their contents, directories and path names.

  A pointer into the inode cache is an index, \<open>None\<close> being null.  Data that C copies through a pointer is
  passed as a list of bytes: \<open>readi\<close> returns what the C function stores at \<^verbatim>\<open>dst\<close> (\<open>None\<close> is the result -1), and
  \<open>writei\<close> takes the bytes at \<^verbatim>\<open>src\<close>, whose number is \<^verbatim>\<open>n\<close>.  The device switch \<^verbatim>\<open>devsw\<close>, whose entries are
  the functions of \<^verbatim>\<open>console.c\<close>, is an argument.  Path names are the bytes before the NUL.
\<close>

section \<open>State\<close>

abbreviation (input) NINODE :: nat where "NINODE \<equiv> 50"
abbreviation (input) NDEV :: int where "NDEV \<equiv> 10"
abbreviation (input) NDIRECT :: nat where "NDIRECT \<equiv> 12"
abbreviation (input) NINDIRECT :: nat where "NINDIRECT \<equiv> 128"
abbreviation (input) MAXFILE :: nat where "MAXFILE \<equiv> 140"
abbreviation (input) ROOTINO :: uint where "ROOTINO \<equiv> 1"
abbreviation (input) DIRSIZ :: nat where "DIRSIZ \<equiv> 14"
abbreviation (input) T_DIR :: ushort where "T_DIR \<equiv> 1"
abbreviation (input) T_FILE :: ushort where "T_FILE \<equiv> 2"
abbreviation (input) T_DEV :: ushort where "T_DEV \<equiv> 3"
abbreviation (input) BPB :: nat where "BPB \<equiv> 4096"

record inode =
  i_dev :: uint
  i_inum :: uint
  i_ref :: int
  i_busy :: bool
  i_valid :: bool
  i_type :: ushort
  i_major :: ushort
  i_minor :: ushort
  i_nlink :: ushort
  i_size :: uint
  i_addrs :: "nat \<Rightarrow> uint"

record fsst = logst +
  inodes :: "nat \<Rightarrow> inode"

type_synonym 's devsw = "int \<Rightarrow> (nat \<Rightarrow> uint \<Rightarrow> ('s, uchar list option) op) option \<times>
  (nat \<Rightarrow> uchar list \<Rightarrow> ('s, int) op) option"

definition upd_inode :: "nat \<Rightarrow> (inode \<Rightarrow> inode) \<Rightarrow> ('z fsst_scheme, unit) op" where
  "upd_inode ip f = modify (\<lambda>s. s\<lparr>inodes := (inodes s)(ip := f (inodes s ip))\<rparr>)"

text \<open>\<^verbatim>\<open>IBLOCK\<close> and \<^verbatim>\<open>BBLOCK\<close>; four inodes of 128 bytes fit a block.\<close>

definition IBLOCK :: "uint \<Rightarrow> uint" where
  "IBLOCK i = i div 4 + 2"

definition BBLOCK :: "uint \<Rightarrow> uint \<Rightarrow> uint" where
  "BBLOCK b ninodes = b div 4096 + ninodes div 4 + 3"

section \<open>Blocks\<close>

definition bzero :: "uint \<Rightarrow> uint \<Rightarrow> ('z logst_scheme, unit) op" where
  "bzero dev bno =
     bnd (bread dev bno) (\<lambda>bp.
     sq (upd_buf bp (\<lambda>m. m\<lparr>b_data := (\<lambda>_. 0)\<rparr>))
    (sq (log_write bp)
        (brelse bp)))"

text \<open>Bit \<^verbatim>\<open>bi\<close> of a bitmap block.\<close>

definition bmask :: "nat \<Rightarrow> uchar" where
  "bmask bi = push_bit (bi mod 8) 1"

definition bit_free :: "block \<Rightarrow> nat \<Rightarrow> bool" where
  "bit_free d bi \<longleftrightarrow> d (bi div 8) AND bmask bi = 0"

definition balloc :: "uint \<Rightarrow> ('z logst_scheme, uint) op" where
  "balloc dev =
     bnd (readsb dev) (\<lambda>sb.
     bnd (forsome [0..<(unat (sb_size sb) + BPB - 1) div BPB] (\<lambda>k.
       let b = k * BPB in
       bnd (bread dev (BBLOCK (of_nat b) (sb_ninodes sb))) (\<lambda>bp.
       bnd (gets (\<lambda>s. scan (\<lambda>bi. b + bi < unat (sb_size sb) \<and> bit_free (b_data (bufs s bp)) bi) BPB)) (\<lambda>found.
       case found of
         Some bi \<Rightarrow>
           sq (upd_buf bp (\<lambda>m. m\<lparr>b_data := (b_data m)(bi div 8 := b_data m (bi div 8) OR bmask bi)\<rparr>))
          (sq (log_write bp)
          (sq (brelse bp)
          (sq (bzero dev (of_nat (b + bi)))
              (ret (Some (of_nat (b + bi)))))))
       | None \<Rightarrow> sq (brelse bp) (ret None))))) (\<lambda>r.
     case r of Some a \<Rightarrow> ret a | None \<Rightarrow> panic ''balloc: out of blocks''))"

definition bfree :: "uint \<Rightarrow> uint \<Rightarrow> ('z logst_scheme, unit) op" where
  "bfree dev b =
     bnd (readsb dev) (\<lambda>sb.
     bnd (bread dev (BBLOCK b (sb_ninodes sb))) (\<lambda>bp.
     let bi = unat b mod BPB in
     bnd (gets (\<lambda>s. bit_free (b_data (bufs s bp)) bi)) (\<lambda>fr.
     if fr then panic ''freeing free block''
     else
       sq (upd_buf bp (\<lambda>m. m\<lparr>b_data := (b_data m)(bi div 8 := b_data m (bi div 8) AND NOT (bmask bi))\<rparr>))
      (sq (log_write bp)
          (brelse bp)))))"

section \<open>Inodes\<close>

text \<open>
  The on-disk inode: its offset in the block, and the fields at the offsets of \<^verbatim>\<open>struct dinode\<close>
  (type 0, major 2, minor 4, nlink 6, size 8, addrs 76).
\<close>

definition dip_off :: "uint \<Rightarrow> nat" where
  "dip_off inum = 128 * (unat inum mod 4)"

definition put_addrs :: "nat \<Rightarrow> (nat \<Rightarrow> uint) \<Rightarrow> block \<Rightarrow> block" where
  "put_addrs o0 a d = fold (\<lambda>i d. st32 d (o0 + 76 + 4 * i) (a i)) [0..<NDIRECT + 1] d"

definition put_dinode :: "nat \<Rightarrow> inode \<Rightarrow> block \<Rightarrow> block" where
  "put_dinode o0 ip d =
     put_addrs o0 (i_addrs ip)
       (st32 (st16 (st16 (st16 (st16 d o0 (i_type ip)) (o0 + 2) (i_major ip)) (o0 + 4) (i_minor ip)) (o0 + 6) (i_nlink ip))
          (o0 + 8) (i_size ip))"

definition get_dinode :: "nat \<Rightarrow> block \<Rightarrow> inode \<Rightarrow> inode" where
  "get_dinode o0 d ip =
     ip\<lparr>i_type := ld16 d o0, i_major := ld16 d (o0 + 2), i_minor := ld16 d (o0 + 4), i_nlink := ld16 d (o0 + 6),
        i_size := ld32 d (o0 + 8),
        i_addrs := (\<lambda>i. if i < NDIRECT + 1 then ld32 d (o0 + 76 + 4 * i) else i_addrs ip i)\<rparr>"

definition iinit :: "('z fsst_scheme, unit) op" where
  "iinit = modify (\<lambda>s. s\<lparr>cpust := (cpust s)\<lparr>lks := (lks (cpust s))(IcacheLock := initlock)\<rparr>\<rparr>)"

definition iget :: "uint \<Rightarrow> uint \<Rightarrow> ('z fsst_scheme, nat) op" where
  "iget dev inum =
     sq (acquire IcacheLock)
    (bnd (gets inodes) (\<lambda>is.
     case scan (\<lambda>ip. i_ref (is ip) > 0 \<and> i_dev (is ip) = dev \<and> i_inum (is ip) = inum) NINODE of
       Some ip \<Rightarrow>
         sq (upd_inode ip (\<lambda>m. m\<lparr>i_ref := i_ref m + 1\<rparr>)) (sq (release IcacheLock) (ret ip))
     | None \<Rightarrow>
         (case scan (\<lambda>ip. i_ref (is ip) = 0) NINODE of
            None \<Rightarrow> panic ''iget: no inodes''
          | Some ip \<Rightarrow>
              sq (upd_inode ip (\<lambda>m. m\<lparr>i_dev := dev\<rparr>))
             (sq (upd_inode ip (\<lambda>m. m\<lparr>i_inum := inum\<rparr>))
             (sq (upd_inode ip (\<lambda>m. m\<lparr>i_ref := 1\<rparr>))
             (sq (upd_inode ip (\<lambda>m. m\<lparr>i_busy := False, i_valid := False\<rparr>))
             (sq (release IcacheLock)
                 (ret ip))))))))"

definition ialloc :: "uint \<Rightarrow> ushort \<Rightarrow> ('z fsst_scheme, nat) op" where
  "ialloc dev type =
     bnd (readsb dev) (\<lambda>sb.
     bnd (forsome [1..<unat (sb_ninodes sb)] (\<lambda>k.
       let inum = of_nat k in
       bnd (bread dev (IBLOCK inum)) (\<lambda>bp.
       bnd (gets (\<lambda>s. ld16 (b_data (bufs s bp)) (dip_off inum))) (\<lambda>t.
       if t = 0 then
         sq (upd_buf bp (\<lambda>m. m\<lparr>b_data := (\<lambda>x. if dip_off inum \<le> x \<and> x < dip_off inum + 128 then 0 else b_data m x)\<rparr>))
        (sq (upd_buf bp (\<lambda>m. m\<lparr>b_data := st16 (b_data m) (dip_off inum) type\<rparr>))
        (sq (log_write bp)
        (sq (brelse bp)
        (bnd (iget dev inum) (\<lambda>ip. ret (Some ip))))))
       else sq (brelse bp) (ret None))))) (\<lambda>r.
     case r of Some ip \<Rightarrow> ret ip | None \<Rightarrow> panic ''ialloc: no inodes''))"

definition iupdate :: "nat \<Rightarrow> ('z fsst_scheme, unit) op" where
  "iupdate ip =
     bnd (gets (\<lambda>s. inodes s ip)) (\<lambda>m.
     bnd (bread (i_dev m) (IBLOCK (i_inum m))) (\<lambda>bp.
     sq (upd_buf bp (\<lambda>x. x\<lparr>b_data := put_dinode (dip_off (i_inum m)) m (b_data x)\<rparr>))
    (sq (log_write bp)
        (brelse bp))))"

definition idup :: "nat \<Rightarrow> ('z fsst_scheme, nat) op" where
  "idup ip =
     sq (acquire IcacheLock)
    (sq (upd_inode ip (\<lambda>m. m\<lparr>i_ref := i_ref m + 1\<rparr>))
    (sq (release IcacheLock)
        (ret ip)))"

text \<open>The loop of \<^verbatim>\<open>ilock\<close> and what follows it; a process that finds the inode locked sleeps on it.\<close>

definition ilock_loop :: "nat \<Rightarrow> ('z fsst_scheme, unit) op" where
  "ilock_loop ip =
     bnd (gets (\<lambda>s. i_busy (inodes s ip))) (\<lambda>busy.
     if busy then sleep (ChanInode ip) IcacheLock
     else
       sq (upd_inode ip (\<lambda>m. m\<lparr>i_busy := True\<rparr>))
      (sq (release IcacheLock)
      (bnd (gets (\<lambda>s. inodes s ip)) (\<lambda>m.
       whenM (\<not> i_valid m)
         (bnd (bread (i_dev m) (IBLOCK (i_inum m))) (\<lambda>bp.
          sq (bnd (gets (\<lambda>s. b_data (bufs s bp))) (\<lambda>d. upd_inode ip (get_dinode (dip_off (i_inum m)) d)))
         (sq (brelse bp)
         (sq (upd_inode ip (\<lambda>m. m\<lparr>i_valid := True\<rparr>))
         (bnd (gets (\<lambda>s. i_type (inodes s ip))) (\<lambda>t.
          whenM (t = 0) (panic ''ilock: no type'')))))))))))"

definition ilock :: "nat option \<Rightarrow> ('z fsst_scheme, unit) op" where
  "ilock p =
     (case p of
        None \<Rightarrow> panic ''ilock''
      | Some ip \<Rightarrow>
          bnd (gets (\<lambda>s. i_ref (inodes s ip))) (\<lambda>r.
          if r < 1 then panic ''ilock''
          else sq (acquire IcacheLock) (ilock_loop ip)))"

definition ilock_resume :: "bool \<Rightarrow> nat \<Rightarrow> ('z fsst_scheme, unit) op" where
  "ilock_resume ie ip = sq (sleep_resume ie IcacheLock) (ilock_loop ip)"

definition iunlock :: "nat option \<Rightarrow> ('z fsst_scheme, unit) op" where
  "iunlock p =
     (case p of
        None \<Rightarrow> panic ''iunlock''
      | Some ip \<Rightarrow>
          bnd (gets (\<lambda>s. inodes s ip)) (\<lambda>m.
          if \<not> i_busy m \<or> i_ref m < 1 then panic ''iunlock''
          else
            sq (acquire IcacheLock)
           (sq (upd_inode ip (\<lambda>m. m\<lparr>i_busy := False\<rparr>))
           (sq (wakeup (ChanInode ip))
               (release IcacheLock)))))"

section \<open>Inode content\<close>

definition set_addr :: "nat \<Rightarrow> nat \<Rightarrow> uint \<Rightarrow> ('z fsst_scheme, unit) op" where
  "set_addr ip i a = upd_inode ip (\<lambda>m. m\<lparr>i_addrs := (i_addrs m)(i := a)\<rparr>)"

text \<open>\<^verbatim>\<open>if((addr = ip->addrs[i]) == 0) ip->addrs[i] = addr = balloc(ip->dev);\<close>\<close>

definition addr_or_alloc :: "nat \<Rightarrow> nat \<Rightarrow> ('z fsst_scheme, uint) op" where
  "addr_or_alloc ip i =
     bnd (gets (\<lambda>s. inodes s ip)) (\<lambda>m.
     if i_addrs m i = 0 then
       bnd (balloc (i_dev m)) (\<lambda>a. sq (set_addr ip i a) (ret a))
     else ret (i_addrs m i))"

definition bmap :: "nat \<Rightarrow> uint \<Rightarrow> ('z fsst_scheme, uint) op" where
  "bmap ip bn =
     (if unat bn < NDIRECT then addr_or_alloc ip (unat bn)
      else
        (let bi = unat bn - NDIRECT in
         if bi < NINDIRECT then
           bnd (addr_or_alloc ip NDIRECT) (\<lambda>ind.
           bnd (gets (\<lambda>s. i_dev (inodes s ip))) (\<lambda>dev.
           bnd (bread dev ind) (\<lambda>bp.
           bnd (gets (\<lambda>s. ld32 (b_data (bufs s bp)) (4 * bi))) (\<lambda>addr.
           bnd (if addr = 0 then
                  bnd (balloc dev) (\<lambda>a.
                  sq (upd_buf bp (\<lambda>m. m\<lparr>b_data := st32 (b_data m) (4 * bi) a\<rparr>))
                 (sq (log_write bp)
                     (ret a)))
                else ret addr) (\<lambda>a.
           sq (brelse bp)
              (ret a))))))
         else panic ''bmap: out of range''))"

definition itrunc :: "nat \<Rightarrow> ('z fsst_scheme, unit) op" where
  "itrunc ip =
     sq (foreach [0..<NDIRECT] (\<lambda>i.
           bnd (gets (\<lambda>s. inodes s ip)) (\<lambda>m.
           whenM (i_addrs m i \<noteq> 0)
             (sq (bfree (i_dev m) (i_addrs m i)) (set_addr ip i 0)))))
    (sq (bnd (gets (\<lambda>s. inodes s ip)) (\<lambda>m.
         whenM (i_addrs m NDIRECT \<noteq> 0)
           (bnd (bread (i_dev m) (i_addrs m NDIRECT)) (\<lambda>bp.
            sq (foreach [0..<NINDIRECT] (\<lambda>j.
                  bnd (gets (\<lambda>s. ld32 (b_data (bufs s bp)) (4 * j))) (\<lambda>a.
                  whenM (a \<noteq> 0) (bfree (i_dev m) a))))
           (sq (brelse bp)
           (sq (bfree (i_dev m) (i_addrs m NDIRECT))
               (set_addr ip NDIRECT 0)))))))
    (sq (upd_inode ip (\<lambda>m. m\<lparr>i_size := 0\<rparr>))
        (iupdate ip)))"

definition iput :: "nat \<Rightarrow> ('z fsst_scheme, unit) op" where
  "iput ip =
     sq (acquire IcacheLock)
    (sq (bnd (gets (\<lambda>s. inodes s ip)) (\<lambda>m.
         whenM (i_ref m = 1 \<and> i_valid m \<and> i_nlink m = 0)
           (if i_busy m then panic ''iput busy''
            else
              sq (upd_inode ip (\<lambda>m. m\<lparr>i_busy := True\<rparr>))
             (sq (release IcacheLock)
             (sq (itrunc ip)
             (sq (upd_inode ip (\<lambda>m. m\<lparr>i_type := 0\<rparr>))
             (sq (iupdate ip)
             (sq (acquire IcacheLock)
             (sq (upd_inode ip (\<lambda>m. m\<lparr>i_busy := False, i_valid := False\<rparr>))
                 (wakeup (ChanInode ip)))))))))))
    (sq (upd_inode ip (\<lambda>m. m\<lparr>i_ref := i_ref m - 1\<rparr>))
        (release IcacheLock)))"

definition iunlockput :: "nat \<Rightarrow> ('z fsst_scheme, unit) op" where
  "iunlockput ip = sq (iunlock (Some ip)) (iput ip)"

record stat =
  st_type :: ushort
  st_dev :: uint
  st_ino :: uint
  st_nlink :: ushort
  st_size :: uint

definition stati :: "nat \<Rightarrow> ('z fsst_scheme, stat) op" where
  "stati ip = gets (\<lambda>s. let m = inodes s ip in
     \<lparr>st_type = i_type m, st_dev = i_dev m, st_ino = i_inum m, st_nlink = i_nlink m, st_size = i_size m\<rparr>)"

text \<open>
  The transfer loops: each round moves at least one byte, so one more round than bytes is enough fuel.
\<close>

definition chunk :: "uint \<Rightarrow> nat \<Rightarrow> nat" where
  "chunk off n = min n (BSIZE - unat off mod BSIZE)"

fun readi_loop :: "nat \<Rightarrow> nat \<Rightarrow> uint \<Rightarrow> nat \<Rightarrow> ('z fsst_scheme, uchar list) op" where
  "readi_loop 0 ip off n = (\<lambda>s. Spin)"
| "readi_loop (Suc fuel) ip off n =
     (if n = 0 then ret []
      else
        bnd (bmap ip (off div 512)) (\<lambda>sec.
        bnd (gets (\<lambda>s. i_dev (inodes s ip))) (\<lambda>dev.
        bnd (bread dev sec) (\<lambda>bp.
        let m = chunk off n; o0 = unat off mod BSIZE in
        bnd (gets (\<lambda>s. map (b_data (bufs s bp)) [o0..<o0 + m])) (\<lambda>bs.
        sq (brelse bp)
       (bnd (readi_loop fuel ip (off + of_nat m) (n - m)) (\<lambda>rest.
        ret (bs @ rest))))))))"

definition readi :: "'z fsst_scheme devsw \<Rightarrow> nat \<Rightarrow> uint \<Rightarrow> uint \<Rightarrow> ('z fsst_scheme, uchar list option) op" where
  "readi dv ip off n =
     bnd (gets (\<lambda>s. inodes s ip)) (\<lambda>m.
     if i_type m = T_DEV then
       (if sint (i_major m) < 0 \<or> sint (i_major m) \<ge> NDEV then ret None
        else case fst (dv (sint (i_major m))) of
            None \<Rightarrow> ret None
          | Some rd \<Rightarrow> rd ip n)
     else if off > i_size m \<or> off + n < off then ret None
     else
       (let n' = (if off + n > i_size m then i_size m - off else n) in
        bnd (readi_loop (Suc (unat n')) ip off (unat n')) (\<lambda>bs. ret (Some bs))))"

fun writei_loop :: "nat \<Rightarrow> nat \<Rightarrow> uint \<Rightarrow> uchar list \<Rightarrow> ('z fsst_scheme, uint) op" where
  "writei_loop 0 ip off src = (\<lambda>s. Spin)"
| "writei_loop (Suc fuel) ip off src =
     (if src = [] then ret off
      else
        bnd (bmap ip (off div 512)) (\<lambda>sec.
        bnd (gets (\<lambda>s. i_dev (inodes s ip))) (\<lambda>dev.
        bnd (bread dev sec) (\<lambda>bp.
        let m = chunk off (length src); o0 = unat off mod BSIZE in
        sq (upd_buf bp (\<lambda>x. x\<lparr>b_data := (\<lambda>i. if o0 \<le> i \<and> i < o0 + m then src ! (i - o0) else b_data x i)\<rparr>))
       (sq (log_write bp)
       (sq (brelse bp)
           (writei_loop fuel ip (off + of_nat m) (drop m src))))))))"

definition writei :: "'z fsst_scheme devsw \<Rightarrow> nat \<Rightarrow> uchar list \<Rightarrow> uint \<Rightarrow> ('z fsst_scheme, int) op" where
  "writei dv ip src off =
     bnd (gets (\<lambda>s. inodes s ip)) (\<lambda>m.
     if i_type m = T_DEV then
       (if sint (i_major m) < 0 \<or> sint (i_major m) \<ge> NDEV then ret (-1)
        else case snd (dv (sint (i_major m))) of
            None \<Rightarrow> ret (-1)
          | Some wr \<Rightarrow> wr ip src)
     else
       (let n = of_nat (length src) :: uint in
        if off > i_size m \<or> off + n < off then ret (-1)
        else if unat (off + n) > MAXFILE * BSIZE then ret (-1)
        else
          bnd (writei_loop (Suc (length src)) ip off src) (\<lambda>off'.
          sq (bnd (gets (\<lambda>s. i_size (inodes s ip))) (\<lambda>sz. whenM (n > 0 \<and> off' > sz)
               (sq (upd_inode ip (\<lambda>m. m\<lparr>i_size := off'\<rparr>)) (iupdate ip))))
             (ret (int (length src))))))"

section \<open>Directories\<close>

text \<open>A name of at most \<^verbatim>\<open>DIRSIZ\<close> bytes as a C string.\<close>

definition cstr_of :: "uchar list \<Rightarrow> cstr" where
  "cstr_of xs = (\<lambda>i. if i < length xs then xs ! i else 0)"

definition namecmp :: "cstr \<Rightarrow> cstr \<Rightarrow> int" where
  "namecmp s t = strncmp s t DIRSIZ"

text \<open>A directory entry has 16 bytes: the number and the name.\<close>

definition de_inum :: "uchar list \<Rightarrow> ushort" where
  "de_inum de = ld16 (\<lambda>i. de ! i) 0"

definition de_name :: "uchar list \<Rightarrow> cstr" where
  "de_name de = (\<lambda>i. de ! (2 + i))"

definition mk_dirent :: "ushort \<Rightarrow> cstr \<Rightarrow> uchar list" where
  "mk_dirent inum nm = [ucast inum, ucast (drop_bit 8 inum)] @ map nm [0..<DIRSIZ]"

text \<open>
  Offsets are multiples of 16, of which a file of 32-bit size has \<open>2 ^ 28\<close>; a scan that takes more steps
  wraps around and never ends.
\<close>

fun dirlookup_loop :: "nat \<Rightarrow> 'z fsst_scheme devsw \<Rightarrow> nat \<Rightarrow> uchar list \<Rightarrow> uint \<Rightarrow> ('z fsst_scheme, (nat \<times> uint) option) op" where
  "dirlookup_loop 0 dv dp name off = (\<lambda>s. Spin)"
| "dirlookup_loop (Suc fuel) dv dp name off =
     bnd (gets (\<lambda>s. inodes s dp)) (\<lambda>m.
     if off < i_size m then
       bnd (readi dv dp off 16) (\<lambda>r.
       case r of
         None \<Rightarrow> panic ''dirlink read''
       | Some de \<Rightarrow>
           if length de \<noteq> 16 then panic ''dirlink read''
           else if de_inum de = 0 then dirlookup_loop fuel dv dp name (off + 16)
           else if namecmp (cstr_of name) (de_name de) = 0 then
             bnd (iget (i_dev m) (ucast (de_inum de))) (\<lambda>ip. ret (Some (ip, off)))
           else dirlookup_loop fuel dv dp name (off + 16))
     else ret None)"

definition dirlookup :: "'z fsst_scheme devsw \<Rightarrow> nat \<Rightarrow> uchar list \<Rightarrow> ('z fsst_scheme, (nat \<times> uint) option) op" where
  "dirlookup dv dp name =
     bnd (gets (\<lambda>s. i_type (inodes s dp))) (\<lambda>t.
     if t \<noteq> T_DIR then panic ''dirlookup not DIR''
     else dirlookup_loop (2 ^ 28 + 1) dv dp name 0)"

fun dirlink_loop :: "nat \<Rightarrow> 'z fsst_scheme devsw \<Rightarrow> nat \<Rightarrow> uint \<Rightarrow> ('z fsst_scheme, uint) op" where
  "dirlink_loop 0 dv dp off = (\<lambda>s. Spin)"
| "dirlink_loop (Suc fuel) dv dp off =
     bnd (gets (\<lambda>s. i_size (inodes s dp))) (\<lambda>sz.
     if off < sz then
       bnd (readi dv dp off 16) (\<lambda>r.
       case r of
         None \<Rightarrow> panic ''dirlink read''
       | Some de \<Rightarrow>
           if length de \<noteq> 16 then panic ''dirlink read''
           else if de_inum de = 0 then ret off
           else dirlink_loop fuel dv dp (off + 16))
     else ret off)"

definition dirlink :: "'z fsst_scheme devsw \<Rightarrow> nat \<Rightarrow> uchar list \<Rightarrow> uint \<Rightarrow> ('z fsst_scheme, int) op" where
  "dirlink dv dp name inum =
     bnd (dirlookup dv dp name) (\<lambda>r.
     case r of
       Some (ip, _) \<Rightarrow> sq (iput ip) (ret (-1))
     | None \<Rightarrow>
         bnd (dirlink_loop (2 ^ 28 + 1) dv dp 0) (\<lambda>off.
         bnd (writei dv dp (mk_dirent (ucast inum) (strncpy (\<lambda>_. 0) (cstr_of name) (int DIRSIZ))) off) (\<lambda>w.
         if w \<noteq> 16 then panic ''dirlink'' else ret 0)))"

section \<open>Paths\<close>

abbreviation (input) slash :: uchar where "slash \<equiv> 47"

text \<open>
  \<open>skipelem path\<close> is the rest of the path and the element removed from it, of which at most \<^verbatim>\<open>DIRSIZ\<close> bytes
  are copied; \<open>None\<close> is the result 0.
\<close>

definition skipelem :: "uchar list \<Rightarrow> (uchar list \<times> uchar list) option" where
  "skipelem path =
     (let p = dropWhile (\<lambda>c. c = slash) path in
      if p = [] then None
      else
        (let e = takeWhile (\<lambda>c. c \<noteq> slash) p;
             name = (if length e \<ge> DIRSIZ then take DIRSIZ e else e)
         in Some (dropWhile (\<lambda>c. c = slash) (dropWhile (\<lambda>c. c \<noteq> slash) p), name)))"

text \<open>Every round removes an element, so the length of the path bounds the number of rounds.\<close>

fun namex_loop :: "nat \<Rightarrow> 'z fsst_scheme devsw \<Rightarrow> bool \<Rightarrow> uchar list \<Rightarrow> nat \<Rightarrow> uchar list \<Rightarrow>
    ('z fsst_scheme, (nat \<times> uchar list) option) op" where
  "namex_loop 0 dv par path ip name = (\<lambda>s. Spin)"
| "namex_loop (Suc fuel) dv par path ip name =
     (case skipelem path of
        None \<Rightarrow> if par then sq (iput ip) (ret None) else ret (Some (ip, name))
      | Some (path', name') \<Rightarrow>
          sq (ilock (Some ip))
         (bnd (gets (\<lambda>s. i_type (inodes s ip))) (\<lambda>t.
          if t \<noteq> T_DIR then sq (iunlockput ip) (ret None)
          else if par \<and> path' = [] then sq (iunlock (Some ip)) (ret (Some (ip, name')))
          else
            bnd (dirlookup dv ip name') (\<lambda>r.
            case r of
              None \<Rightarrow> sq (iunlockput ip) (ret None)
            | Some (next, _) \<Rightarrow> sq (iunlockput ip) (namex_loop fuel dv par path' next name')))))"

definition namex :: "'z fsst_scheme devsw \<Rightarrow> uchar list \<Rightarrow> bool \<Rightarrow> ('z fsst_scheme, (nat \<times> uchar list) option) op" where
  "namex dv path par =
     bnd (if path \<noteq> [] \<and> hd path = slash then iget ROOTDEV ROOTINO
          else
            bnd curproc (\<lambda>p.
            bnd (gets (\<lambda>s. cwd (procs s p))) (\<lambda>c.
            case c of None \<Rightarrow> undef ''idup: null inode'' | Some ip \<Rightarrow> idup ip))) (\<lambda>ip.
     namex_loop (Suc (length path)) dv par path ip [])"

definition namei :: "'z fsst_scheme devsw \<Rightarrow> uchar list \<Rightarrow> ('z fsst_scheme, nat option) op" where
  "namei dv path = bnd (namex dv path False) (\<lambda>r. ret (map_option fst r))"

definition nameiparent :: "'z fsst_scheme devsw \<Rightarrow> uchar list \<Rightarrow> ('z fsst_scheme, (nat \<times> uchar list) option) op" where
  "nameiparent dv path = namex dv path True"

section \<open>A concrete state\<close>

text \<open>An empty inode cache.\<close>

definition sample_fs :: "'z \<Rightarrow> 'z fsst_scheme" where
  "sample_fs m = sample_log \<lparr>inodes = (\<lambda>_. \<lparr>i_dev = 0, i_inum = 0, i_ref = 0, i_busy = False, i_valid = False,
     i_type = 0, i_major = 0, i_minor = 0, i_nlink = 0, i_size = 0, i_addrs = (\<lambda>_. 0)\<rparr>), \<dots> = m\<rparr>"

end
