(* ===== verification/Ring.thy ===== *)
theory Ring
  imports Prelude
begin

text \<open>
  Ring buffers with 32-bit counters that are never reduced, as the pipes and the console input use them: the
  byte with number \<open>k\<close> is stored in slot \<open>k mod N\<close>, and the counters wrap around at \<open>2 ^ 32\<close>.  The contract of
  such a buffer is a bounded queue.
\<close>

section \<open>The bytes between two counters\<close>

definition ring_content :: "nat \<Rightarrow> (nat \<Rightarrow> 'a) \<Rightarrow> uint \<Rightarrow> uint \<Rightarrow> 'a list" where
  "ring_content N d r w = map (\<lambda>i. d (unat (r + of_nat i) mod N)) [0..<unat (w - r)]"

lemma length_ring_content [simp]: "length (ring_content N d r w) = unat (w - r)"
  by (simp add: ring_content_def)

lemma ring_content_same [simp]: "ring_content N d r r = []"
  by (simp add: ring_content_def)

lemma unat_between:
  fixes r w e :: uint
  assumes "unat (w - r) \<le> unat (e - r)"
  shows "unat (e - w) = unat (e - r) - unat (w - r)"
proof -
  have "e - w = (e - r) - (w - r)" by simp
  then show ?thesis using assms by (simp only: unat_sub word_le_nat_alt)
qed

lemma ring_content_take:
  assumes "unat (w - r) \<le> unat (e - r)"
  shows "ring_content N d r w = take (unat (w - r)) (ring_content N d r e)"
  using assms by (simp add: ring_content_def take_map)

lemma ring_content_drop:
  assumes "unat (w - r) \<le> unat (e - r)"
  shows "ring_content N d w e = drop (unat (w - r)) (ring_content N d r e)"
proof (rule nth_equalityI)
  show "length (ring_content N d w e) = length (drop (unat (w - r)) (ring_content N d r e))"
    using unat_between [OF assms] by simp
  fix i assume "i < length (ring_content N d w e)"
  then have i: "i < unat (e - w)" by simp
  have "r + of_nat (unat (w - r) + i) = w + of_nat i" by simp
  then show "ring_content N d w e ! i = drop (unat (w - r)) (ring_content N d r e) ! i"
    using i unat_between [OF assms] by (simp add: ring_content_def)
qed

lemma ring_content_back:
  assumes "w \<noteq> e"
  shows "ring_content N d w e = ring_content N d w (e - 1) @ [d (unat (e - 1) mod N)]"
proof -
  have "unat (e - w - 1) = unat (e - w) - 1" using assms by (intro unat_minus_one) simp
  moreover have "0 < unat (e - w)" using assms by (simp add: unat_gt_0)
  ultimately have n: "unat (e - w) = Suc (unat (e - 1 - w))" by (simp add: algebra_simps)
  have "w + of_nat (unat (e - 1 - w)) = e - 1" by simp
  then show ?thesis by (simp add: ring_content_def n)
qed

locale ring =
  fixes N :: nat
  assumes N_pos: "0 < N" and N_less: "N < 2 ^ 32" and N_dvd: "N dvd 2 ^ 32"
begin

lemma slot: "unat (r + of_nat i :: uint) mod N = (unat r + i) mod N"
proof -
  have "unat (r + of_nat i :: uint) = (unat r + i) mod 2 ^ 32"
    by (simp add: unat_word_ariths unat_of_nat mod_simps)
  then show ?thesis using N_dvd by (simp add: mod_mod_cancel)
qed

lemma slots_differ:
  assumes "i < N" "j < N" "(a + i) mod N = (a + j) mod N"
  shows "i = j"
proof -
  have "i' = j'" if "i' \<le> j'" "j' < N" "(a + j') mod N = (a + i') mod N" for i' j'
  proof -
    have "N dvd (a + j') - (a + i')" using that(1,3) by (subst mod_eq_dvd_iff_nat [symmetric]) auto
    then have "N dvd j' - i'" by simp
    moreover have "j' - i' < N" using that(2) by simp
    ultimately show ?thesis using that(1) nat_dvd_not_less by fastforce
  qed
  from this [of i j] this [of j i] show ?thesis using assms by (cases "i \<le> j") auto
qed

text \<open>A buffer that is neither empty nor overfull.\<close>

lemma count_put:
  fixes r w :: uint
  assumes "unat (w - r) \<le> N" "w \<noteq> r + of_nat N"
  shows "unat (w + 1 - r) = Suc (unat (w - r))" and "unat (w - r) < N"
proof -
  have "w - r \<noteq> of_nat N" using assms(2) by (auto simp: algebra_simps)
  moreover have "w - r = of_nat (unat (w - r))" by simp
  ultimately have "unat (w - r) \<noteq> N" by metis
  then show less: "unat (w - r) < N" using assms(1) by simp
  have "unat (w - r + 1) = Suc (unat (w - r))"
    using less N_less unat_word_ariths(1) [of "w - r" "1"] by simp
  then show "unat (w + 1 - r) = Suc (unat (w - r))" by (simp add: algebra_simps)
qed

lemma count_get:
  fixes r w :: uint
  assumes "r \<noteq> w"
  shows "unat (w - r) = Suc (unat (w - (r + 1)))"
proof -
  have "w - r \<noteq> 0" using assms by simp
  then have "unat (w - r - 1) = unat (w - r) - 1" by (rule unat_minus_one)
  moreover have "0 < unat (w - r)" using \<open>w - r \<noteq> 0\<close> by (simp add: unat_gt_0)
  ultimately show ?thesis by (simp add: algebra_simps)
qed

lemma content_put:
  assumes "unat (w - r) \<le> N" "w \<noteq> r + of_nat N"
  shows "ring_content N (d(unat w mod N := c)) r (w + 1) = ring_content N d r w @ [c]"
proof -
  let ?n = "unat (w - r)"
  have w: "unat w mod N = (unat r + ?n) mod N" using slot [of r ?n] by simp
  have "(unat r + i) mod N \<noteq> (unat r + ?n) mod N" if "i < ?n" for i
    using slots_differ [of i ?n "unat r"] count_put(2) [OF assms] that by auto
  then show ?thesis
    using count_put(1) [OF assms] by (simp add: ring_content_def slot w)
qed

lemma content_get:
  assumes "r \<noteq> w"
  shows "ring_content N d r w = d (unat r mod N) # ring_content N d (r + 1) w"
proof -
  have "[0..<unat (w - r)] = 0 # map Suc [0..<unat (w - (r + 1))]"
    using count_get [OF assms] by (simp add: upt_conv_Cons map_Suc_upt)
  then show ?thesis by (simp add: ring_content_def algebra_simps)
qed

end

end
