(* ===== verification/Blocking.thy ===== *)
theory Blocking
  imports Scheduler
begin

text \<open>
  What the components that make processes wait rely on: \<^verbatim>\<open>wakeup\<close> and \<^verbatim>\<open>sleep\<close> as seen by a caller that holds
  the lock of its own data.
\<close>

section \<open>Waking up with a lock held\<close>

text \<open>A process without the fields the scheduler changes.\<close>

definition still :: "proc \<Rightarrow> proc" where
  "still q = q\<lparr>pstate := UNUSED, priority := 0, pnext := None\<rparr>"

definition sched_ok :: "'z ptab_scheme \<Rightarrow> bool" where
  "sched_ok s \<longleftrightarrow> (\<exists>qs. mlfq_inv qs s)"

text \<open>
  \<open>woke ch s s'\<close>: the state differs from \<open>s\<close> only in that the processes sleeping on \<open>ch\<close> are runnable and
  queued.
\<close>

definition woke :: "chan \<Rightarrow> 'z ptab_scheme \<Rightarrow> 'z ptab_scheme \<Rightarrow> bool" where
  "woke ch s s' \<longleftrightarrow>
     (\<exists>pr ml. s' = s\<lparr>procs := pr, mlf := ml\<rparr>) \<and> sched_ok s' \<and>
     (\<forall>p. still (procs s' p) = still (procs s p)) \<and>
     (\<forall>p. pstate (procs s' p) = (if p < NPROC \<and> woken ch s p then RUNNABLE else pstate (procs s p)))"

lemma core_still: "core q = core q' \<Longrightarrow> still q = still q'"
  by (cases q; cases q') (simp add: core_def still_def)

lemma stillD:
  "still q = still q' \<Longrightarrow> pchan q = pchan q'" "still q = still q' \<Longrightarrow> killed q = killed q'"
  "still q = still q' \<Longrightarrow> pgdir q = pgdir q'" "still q = still q' \<Longrightarrow> pid q = pid q'"
  "still q = still q' \<Longrightarrow> parent q = parent q'" "still q = still q' \<Longrightarrow> ofile q = ofile q'"
  by (cases q; cases q'; simp add: still_def)+

lemma wake_inv_woke:
  assumes "wake_inv ch s qs [0..<NPROC] s'"
  shows "woke ch s s'"
proof -
  have c: "core (procs s' p) = (if p < NPROC \<and> woken ch s p
      then core ((procs s p)\<lparr>priority := int (wake_level s p), pstate := RUNNABLE\<rparr>) else core (procs s p))" for p
    using assms unfolding wake_inv_def by (simp del: upt_rec_numeral)
  have "still (procs s' p) = still (procs s p)" for p
    using c [of p] core_still [of "procs s' p"] by (fastforce simp: still_def split: if_splits)
  moreover have "pstate (procs s' p) = (if p < NPROC \<and> woken ch s p then RUNNABLE else pstate (procs s p))" for p
  proof (cases "p < NPROC \<and> woken ch s p")
    case True
    then show ?thesis using core_eqD(1) [of "procs s' p"] c [of p] by fastforce
  next
    case False
    then have "core (procs s' p) = core (procs s p)" using c [of p] by argo
    from core_eqD(1) [OF this] show ?thesis using False by argo
  qed
  moreover have "(\<exists>pr ml. s' = s\<lparr>procs := pr, mlf := ml\<rparr>) \<and> sched_ok s'"
    using assms unfolding wake_inv_def sched_ok_def by blast
  ultimately show ?thesis unfolding woke_def by blast
qed

lemma woke_cpust: "woke ch s t \<Longrightarrow> woke ch (s\<lparr>cpust := k\<rparr>) (t\<lparr>cpust := k\<rparr>)"
proof -
  assume w: "woke ch s t"
  then obtain pr ml where "t = s\<lparr>procs := pr, mlf := ml\<rparr>" by (auto simp: woke_def)
  then have "t\<lparr>cpust := k\<rparr> = s\<lparr>cpust := k\<rparr>\<lparr>procs := pr, mlf := ml\<rparr>" by simp
  then have "\<exists>pr ml. t\<lparr>cpust := k\<rparr> = s\<lparr>cpust := k\<rparr>\<lparr>procs := pr, mlf := ml\<rparr>" by blast
  then show ?thesis using w by (simp add: woke_def woken_def sched_ok_def)
qed

text \<open>What the CPU must look like for a caller that takes the lock \<open>lk\<close>: nothing held that is needed.\<close>

definition can_lock :: "lock \<Rightarrow> cpust \<Rightarrow> bool" where
  "can_lock lk k \<longleftrightarrow> lk \<noteq> PtableLock \<and> lock_free lk k \<and> lock_free PtableLock k \<and> cli_wf k"

lemma wakeup_held:
  fixes s :: "'z ptab_scheme"
  assumes "sched_ok s" and "can_lock lk k" and "cpust s = acq lk k"
  shows "runs (wakeup ch) s (\<lambda>_ s'. woke ch s s')"
proof -
  obtain qs where "mlfq_inv qs s" using assms(1) by (auto simp: sched_ok_def)
  moreover have "lock_free PtableLock (cpust s)" "cli_wf (cpust s)" "s\<lparr>cpust := settled (cpust s)\<rparr> = s"
    using assms(2,3) by (auto simp: can_lock_def)
  ultimately show ?thesis using wakeup_run [of qs s ch] by (auto elim!: runs_conseq intro: wake_inv_woke)
qed

lemma wakeup_release:
  fixes s :: "'z ptab_scheme"
  assumes "sched_ok s" and "can_lock lk k" and "cpust s = acq lk k"
  shows "runs (sq (wakeup ch) (release lk)) s (\<lambda>_ s'. woke ch (s\<lparr>cpust := settled k\<rparr>) s')"
  unfolding runs_sq
proof (rule runs_conseq [OF wakeup_held [OF assms]])
  fix t :: "'z ptab_scheme" assume w: "woke ch s t"
  then have "cpust t = acq lk k" using assms(3) by (auto simp: woke_def)
  then show "runs (release lk) t (\<lambda>_ s'. woke ch (s\<lparr>cpust := settled k\<rparr>) s')"
    using woke_cpust [OF w, of "settled k"] assms(2) by (auto simp: can_lock_def runs_release [of t lk k])
qed

section \<open>Going to sleep with a lock held\<close>

text \<open>
  \<open>asleep ch p k s s'\<close>: in \<open>s'\<close> process \<open>p\<close> sleeps on \<open>ch\<close>, only the lock of the table is held, and nothing else has
  changed.
\<close>

definition asleep :: "chan \<Rightarrow> nat \<Rightarrow> cpust \<Rightarrow> 'z ptab_scheme \<Rightarrow> 'z ptab_scheme \<Rightarrow> bool" where
  "asleep ch p k s s' \<longleftrightarrow>
     (\<exists>q. s' = s\<lparr>cpust := acq PtableLock k, procs := (procs s)(p := q)\<rparr> \<and>
        pstate q = SLEEPING \<and> pchan q = ch) \<and> sched_ok s'"

lemma sleep_held:
  fixes s :: "'z ptab_scheme"
  assumes "sched_ok s" and "can_lock lk k" and "ncli k = 0" and "cpust s = acq lk k"
    and "cur s = Some p" and "p < NPROC" and "pstate (procs s p) = RUNNING"
  shows "sleeps (sleep ch lk) s (\<lambda>c s'. c = ch \<and> asleep ch p k s s')"
proof -
  obtain qs where i: "mlfq_inv qs s" using assms(1) by (auto simp: sched_ok_def)
  have h: "holds_only lk k (cpust s)" using assms(2-4) by (simp add: holds_only_def can_lock_def)
  define q where "q = (procs s p)\<lparr>pchan := ch, pstate := SLEEPING,
    priority := (if priority (procs s p) > 0 then priority (procs s p) - 1 else priority (procs s p))\<rparr>"
  note sl = sleep_run [OF i assms(5-7) h refl q_def]
  have "pstate q = SLEEPING" "pchan q = ch" by (simp_all add: q_def)
  then have "asleep ch p k s (s\<lparr>cpust := acq PtableLock k, procs := (procs s)(p := q)\<rparr>)"
    using sl(2) unfolding asleep_def sched_ok_def by blast
  then show ?thesis using sl(1) by (simp add: sleeps_def)
qed

section \<open>A caller\<close>

text \<open>A running process, with the lock \<open>lk\<close> and that of the table free.\<close>

definition caller :: "lock \<Rightarrow> nat \<Rightarrow> 'z ptab_scheme \<Rightarrow> bool" where
  "caller lk p s \<longleftrightarrow> sched_ok s \<and> on_cpu p s \<and> can_lock lk (cpust s)"

lemma callerD:
  assumes "caller lk p s"
  shows "sched_ok s" "cur s = Some p" "p < NPROC" "pstate (procs s p) = RUNNING" "can_lock lk (cpust s)"
    "ncli (cpust s) = 0" "lock_free lk (cpust s)" "cli_wf (cpust s)"
  using assms by (simp_all add: caller_def on_cpu_def can_lock_def)

lemma caller_acquire: "caller lk p s \<Longrightarrow> acquire lk s = Ret () (s\<lparr>cpust := acq lk (cpust s)\<rparr>)"
  by (simp add: acquire_free callerD)

lemma sched_ok_cpust [simp]: "sched_ok (s\<lparr>cpust := k\<rparr>) = sched_ok s"
  by (simp add: sched_ok_def)

lemma sched_ok_cong: "procs s' = procs s \<Longrightarrow> mlf s' = mlf s \<Longrightarrow> sched_ok s' = sched_ok s"
  unfolding sched_ok_def using mlfq_inv_cong [of s' s] by simp

lemma sample_caller:
  assumes "lk \<noteq> PtableLock"
  shows "caller lk 0 (sample_table m)"
proof -
  have "sched_ok (sample_table m)" unfolding sched_ok_def using sample_mlfq [of m] by blast
  then show ?thesis using assms by (simp add: caller_def on_cpu_def can_lock_def sample_state)
qed

section \<open>Operations that do not sleep\<close>

lemma nosleep_locks: "nosleep (acquire l)" "nosleep (release l)"
  by (auto simp: nosleep_def acquire_def release_def on_cpust_def acquire_k_def release_k_def popcli_def Let_def
      xchg_locked_def split: if_splits outcome.splits)

lemma nosleep_sleep_resume: "nosleep (sleep_resume ie lk)"
proof -
  have "nosleep curproc" by (simp add: nosleep_def curproc_def split: option.split)
  then show ?thesis
    unfolding sleep_resume_def sched_resume_def upd_proc_def by (intro nosleep_ctrl nosleep_locks)
qed

end
