(* ===== verification/Pipe.thy ===== *)
theory Pipe
  imports Fs Ring Blocking
begin

text \<open>
  Pipes (\<^verbatim>\<open>src/pipe.c\<close>; \<^verbatim>\<open>pipealloc\<close>, which also makes two files, is in \<open>File\<close>).

  A pipe lives in a page of its own; the store \<open>pipes\<close> maps the address of the page to its contents.  The
  bytes that \<^verbatim>\<open>piperead\<close> stores through its pointer are its result (\<open>None\<close> is -1), and \<^verbatim>\<open>pipewrite\<close> takes
  the bytes it reads.  The counters are 32-bit words and wrap around.
\<close>

section \<open>Operations\<close>

abbreviation (input) PIPESIZE :: nat where "PIPESIZE \<equiv> 512"

record pipe =
  p_data :: "nat \<Rightarrow> uchar"
  nread :: uint
  nwrite :: uint
  readopen :: bool
  writeopen :: bool

record pipest = fsst +
  pipes :: "uint \<Rightarrow> pipe"

definition upd_pipe :: "uint \<Rightarrow> (pipe \<Rightarrow> pipe) \<Rightarrow> ('z pipest_scheme, unit) op" where
  "upd_pipe a f = modify (\<lambda>s. s\<lparr>pipes := (pipes s)(a := f (pipes s a))\<rparr>)"

definition pipeclose :: "uint \<Rightarrow> bool \<Rightarrow> ('z pipest_scheme, unit) op" where
  "pipeclose a writable =
     sq (acquire (PipeLock a))
    (sq (if writable then
           sq (upd_pipe a (\<lambda>p. p\<lparr>writeopen := False\<rparr>)) (wakeup (ChanPipeR a))
         else
           sq (upd_pipe a (\<lambda>p. p\<lparr>readopen := False\<rparr>)) (wakeup (ChanPipeW a)))
    (bnd (gets (\<lambda>s. pipes s a)) (\<lambda>p.
     if \<not> readopen p \<and> \<not> writeopen p then sq (release (PipeLock a)) (kfree a)
     else release (PipeLock a))))"

text \<open>One byte: \<^verbatim>\<open>p->data[p->nwrite++ % PIPESIZE] = c\<close>, and its inverse in \<^verbatim>\<open>piperead\<close>.\<close>

definition pipe_put :: "uchar \<Rightarrow> pipe \<Rightarrow> pipe" where
  "pipe_put c p = p\<lparr>p_data := (p_data p)(unat (nwrite p) mod PIPESIZE := c), nwrite := nwrite p + 1\<rparr>"

definition pipe_full :: "pipe \<Rightarrow> bool" where
  "pipe_full p \<longleftrightarrow> nwrite p = nread p + 512"

text \<open>
  \<open>pipewrite_loop a n cs\<close> writes the remaining bytes \<open>cs\<close> of a call for \<open>n\<close> bytes; a writer that finds the pipe
  full sleeps, and continues with \<open>pipewrite_resume\<close> and the same remaining bytes.
\<close>

fun pipewrite_loop :: "uint \<Rightarrow> int \<Rightarrow> uchar list \<Rightarrow> ('z pipest_scheme, int) op" where
  "pipewrite_loop a n [] =
     sq (wakeup (ChanPipeR a)) (sq (release (PipeLock a)) (ret n))"
| "pipewrite_loop a n (c # cs) =
     bnd (gets (\<lambda>s. pipes s a)) (\<lambda>p.
     if pipe_full p then
       bnd curproc (\<lambda>me.
       bnd (gets (\<lambda>s. killed (procs s me))) (\<lambda>kl.
       if \<not> readopen p \<or> kl then sq (release (PipeLock a)) (ret (-1))
       else sq (wakeup (ChanPipeR a)) (sq (sleep (ChanPipeW a) (PipeLock a)) (ret n))))
     else sq (upd_pipe a (pipe_put c)) (pipewrite_loop a n cs))"

text \<open>The bytes \<open>src\<close> are those at \<^verbatim>\<open>addr[0 .. n-1]\<close>; a negative \<open>n\<close> has none.\<close>

definition pipewrite :: "uint \<Rightarrow> uchar list \<Rightarrow> int \<Rightarrow> ('z pipest_scheme, int) op" where
  "pipewrite a src n =
     (if length src \<noteq> nat n then undef ''pipewrite: addr''
      else sq (acquire (PipeLock a)) (pipewrite_loop a n src))"

definition pipewrite_resume :: "bool \<Rightarrow> uint \<Rightarrow> int \<Rightarrow> uchar list \<Rightarrow> ('z pipest_scheme, int) op" where
  "pipewrite_resume ie a n cs = sq (sleep_resume ie (PipeLock a)) (pipewrite_loop a n cs)"

primrec piperead_copy :: "nat \<Rightarrow> uint \<Rightarrow> ('z pipest_scheme, uchar list) op" where
  "piperead_copy 0 a = ret []"
| "piperead_copy (Suc n) a =
     bnd (gets (\<lambda>s. pipes s a)) (\<lambda>p.
     if nread p = nwrite p then ret []
     else
       sq (upd_pipe a (\<lambda>p. p\<lparr>nread := nread p + 1\<rparr>))
      (bnd (piperead_copy n a) (\<lambda>rest.
       ret (p_data p (unat (nread p) mod PIPESIZE) # rest))))"

definition piperead_loop :: "uint \<Rightarrow> int \<Rightarrow> ('z pipest_scheme, uchar list option) op" where
  "piperead_loop a n =
     bnd (gets (\<lambda>s. pipes s a)) (\<lambda>p.
     if nread p = nwrite p \<and> writeopen p then
       bnd curproc (\<lambda>me.
       bnd (gets (\<lambda>s. killed (procs s me))) (\<lambda>kl.
       if kl then sq (release (PipeLock a)) (ret None)
       else sq (sleep (ChanPipeR a) (PipeLock a)) (ret None)))
     else
       bnd (piperead_copy (nat n) a) (\<lambda>cs.
       sq (wakeup (ChanPipeW a))
      (sq (release (PipeLock a))
          (ret (Some cs)))))"

definition piperead :: "uint \<Rightarrow> int \<Rightarrow> ('z pipest_scheme, uchar list option) op" where
  "piperead a n = sq (acquire (PipeLock a)) (piperead_loop a n)"

definition piperead_resume :: "bool \<Rightarrow> uint \<Rightarrow> int \<Rightarrow> ('z pipest_scheme, uchar list option) op" where
  "piperead_resume ie a n = sq (sleep_resume ie (PipeLock a)) (piperead_loop a n)"

section \<open>A pipe is a bounded queue\<close>

interpretation pipe_ring: ring 512
  by unfold_locales simp_all

definition pipe_content :: "pipe \<Rightarrow> uchar list" where
  "pipe_content p = ring_content PIPESIZE (p_data p) (nread p) (nwrite p)"

definition pipe_wf :: "pipe \<Rightarrow> bool" where
  "pipe_wf p \<longleftrightarrow> length (pipe_content p) \<le> PIPESIZE"

definition pipe_get :: "pipe \<Rightarrow> pipe" where
  "pipe_get p = p\<lparr>nread := nread p + 1\<rparr>"

lemma pipe_full_iff:
  assumes "pipe_wf p"
  shows "pipe_full p \<longleftrightarrow> length (pipe_content p) = PIPESIZE"
proof
  assume "pipe_full p"
  then show "length (pipe_content p) = PIPESIZE" by (simp add: pipe_full_def pipe_content_def)
next
  assume "length (pipe_content p) = PIPESIZE"
  then have "unat (nwrite p - nread p) = unat (512 :: uint)" by (simp add: pipe_content_def)
  then have "nwrite p - nread p = 512" unfolding word_unat_eq_iff .
  then have "nwrite p = 512 + nread p" by (rule diff_eq_eq [THEN iffD1])
  then show "pipe_full p" by (simp add: pipe_full_def add.commute)
qed

lemma pipe_empty_iff: "nread p = nwrite p \<longleftrightarrow> pipe_content p = []"
proof -
  have "pipe_content p = [] \<longleftrightarrow> unat (nwrite p - nread p) = 0"
    unfolding pipe_content_def length_0_conv [symmetric] length_ring_content ..
  then show ?thesis by (auto simp: unat_eq_0)
qed

lemma pipe_put_content:
  assumes "pipe_wf p" and "\<not> pipe_full p"
  shows "pipe_content (pipe_put c p) = pipe_content p @ [c]" and "pipe_wf (pipe_put c p)"
proof -
  show e: "pipe_content (pipe_put c p) = pipe_content p @ [c]"
    using assms pipe_ring.content_put [of "nwrite p" "nread p"]
    by (simp add: pipe_content_def pipe_put_def pipe_full_def pipe_wf_def)
  show "pipe_wf (pipe_put c p)"
    using assms pipe_full_iff [OF assms(1)] by (simp add: pipe_wf_def e)
qed

lemma pipe_get_content:
  assumes "nread p \<noteq> nwrite p"
  shows "pipe_content p = p_data p (unat (nread p) mod PIPESIZE) # pipe_content (pipe_get p)"
  using pipe_ring.content_get [OF assms] by (simp add: pipe_content_def pipe_get_def)

text \<open>The contract, and what a caller of a queue that keeps it can rely on.\<close>

locale bounded_queue =
  fixes wf :: "'q \<Rightarrow> bool" and items :: "'q \<Rightarrow> 'a list" and cap :: nat
    and full :: "'q \<Rightarrow> bool" and put :: "'a \<Rightarrow> 'q \<Rightarrow> 'q"
  assumes full_iff: "wf q \<Longrightarrow> full q \<longleftrightarrow> length (items q) = cap"
    and in_cap: "wf q \<Longrightarrow> length (items q) \<le> cap"
    and put_ok: "wf q \<Longrightarrow> \<not> full q \<Longrightarrow> wf (put c q) \<and> items (put c q) = items q @ [c]"
begin

lemma put_many:
  assumes "wf q" and "length (items q) + length cs \<le> cap"
  shows "wf (fold put cs q) \<and> items (fold put cs q) = items q @ cs"
  using assms
proof (induction cs arbitrary: q)
  case (Cons c cs)
  have "\<not> full q" using Cons.prems by (simp add: full_iff)
  note po = put_ok [OF Cons.prems(1) this, of c]
  then show ?case using Cons.IH [of "put c q"] Cons.prems by simp
qed simp

end

interpretation pipe_queue: bounded_queue pipe_wf pipe_content 512 pipe_full pipe_put
proof (rule bounded_queue.intro)
  fix p :: pipe and c :: uchar
  assume w: "pipe_wf p"
  show "pipe_full p = (length (pipe_content p) = 512)" by (rule pipe_full_iff [OF w])
  show "length (pipe_content p) \<le> 512" using w unfolding pipe_wf_def .
  assume f: "\<not> pipe_full p"
  show "pipe_wf (pipe_put c p) \<and> pipe_content (pipe_put c p) = pipe_content p @ [c]"
    using pipe_put_content [OF w f] by blast
qed

section \<open>Writing and reading\<close>

abbreviation (input) room :: "pipe \<Rightarrow> nat" where
  "room p \<equiv> PIPESIZE - length (pipe_content p)"

definition with_pipe :: "uint \<Rightarrow> pipe \<Rightarrow> 'z pipest_scheme \<Rightarrow> 'z pipest_scheme" where
  "with_pipe a p s = s\<lparr>pipes := (pipes s)(a := p)\<rparr>"

lemma with_pipe_sel [simp]:
  "pipes (with_pipe a p s) = (pipes s)(a := p)" "procs (with_pipe a p s) = procs s" "mlf (with_pipe a p s) = mlf s"
  "cur (with_pipe a p s) = cur s" "cpust (with_pipe a p s) = cpust s"
  "with_pipe a q (with_pipe a p s) = with_pipe a q s" "with_pipe a (pipes s a) s = s"
  "sched_ok (with_pipe a p s) = sched_ok s"
  by (simp_all add: with_pipe_def sched_ok_cong [of "s\<lparr>pipes := (pipes s)(a := p)\<rparr>" s])

lemma with_pipe_cpust: "with_pipe a p (s\<lparr>cpust := k\<rparr>) = (with_pipe a p s)\<lparr>cpust := k\<rparr>"
  by (simp add: with_pipe_def)

lemma upd_pipe_run: "upd_pipe a f s = Ret () (with_pipe a (f (pipes s a)) s)"
  by (simp add: upd_pipe_def modify_apply with_pipe_def)

lemmas pipe_ops = basic_ops upd_pipe_run

text \<open>The loop stores as many bytes as there is room for and then is at its next test.\<close>

lemma pipewrite_loop_eq:
  assumes "pipe_wf (pipes s a)"
  shows "pipewrite_loop a n cs s = pipewrite_loop a n (drop (room (pipes s a)) cs)
    (with_pipe a (fold pipe_put (take (room (pipes s a)) cs) (pipes s a)) s)"
  using assms
proof (induction cs arbitrary: s)
  case (Cons c cs)
  let ?p = "pipes s a"
  show ?case
  proof (cases "pipe_full ?p")
    case True
    then show ?thesis using pipe_full_iff [OF Cons.prems] by simp
  next
    case False
    note pc = pipe_put_content [OF Cons.prems False, of c]
    have "length (pipe_content ?p) < PIPESIZE"
      using pipe_queue.in_cap [OF Cons.prems] pipe_full_iff [OF Cons.prems] False by simp
    then have r: "room ?p = Suc (room (pipe_put c ?p))" by (simp add: pc(1))
    have "pipewrite_loop a n (c # cs) s = pipewrite_loop a n cs (with_pipe a (pipe_put c ?p) s)"
      using False by (simp add: pipe_ops)
    also have "\<dots> = pipewrite_loop a n (drop (room (pipe_put c ?p)) cs)
        (with_pipe a (fold pipe_put (take (room (pipe_put c ?p)) cs) (pipe_put c ?p)) s)"
      using Cons.IH [of "with_pipe a (pipe_put c ?p) s"] pc(2) by simp
    finally show ?thesis unfolding r by simp
  qed
qed simp

lemma pipewrite_fits:
  fixes s :: "'z pipest_scheme"
  assumes c: "caller (PipeLock a) me s" and w: "pipe_wf (pipes s a)" and n: "length src = nat n" and l: "length src \<le> room (pipes s a)"
  shows "runs (pipewrite a src n) s (\<lambda>r s'. r = n \<and>
    woke (ChanPipeR a) (with_pipe a (fold pipe_put src (pipes s a)) s\<lparr>cpust := settled (cpust s)\<rparr>) s')"
proof -
  note k = callerD [OF c]
  let ?s1 = "with_pipe a (fold pipe_put src (pipes s a)) s\<lparr>cpust := acq (PipeLock a) (cpust s)\<rparr>"
  have "pipewrite a src n s = pipewrite_loop a n [] ?s1"
    using pipewrite_loop_eq [of "s\<lparr>cpust := acq (PipeLock a) (cpust s)\<rparr>" a n src] w n l
    by (simp add: pipewrite_def sq_Ret caller_acquire [OF c] with_pipe_cpust)
  moreover have "runs (sq (wakeup (ChanPipeR a)) (release (PipeLock a))) ?s1
      (\<lambda>_ s'. woke (ChanPipeR a) (?s1\<lparr>cpust := settled (cpust s)\<rparr>) s')"
    using k by (intro wakeup_release) simp_all
  ultimately show ?thesis by (auto simp: runs_iff runs_sq sq_Ret ret_apply elim!: sq_RetE)
qed

lemma fold_put_open [simp]:
  "readopen (fold pipe_put cs p) = readopen p" "writeopen (fold pipe_put cs p) = writeopen p"
  by (induction cs arbitrary: p) (simp_all add: pipe_put_def)

lemma pipe_filled:
  assumes "pipe_wf p"
  shows "pipe_wf (fold pipe_put (take (room p) cs) p)"
    and "pipe_content (fold pipe_put (take (room p) cs) p) = pipe_content p @ take (room p) cs"
    and "drop (room p) cs \<noteq> [] \<Longrightarrow> pipe_full (fold pipe_put (take (room p) cs) p)"
proof -
  have "length (pipe_content p) + length (take (room p) cs) \<le> 512"
    using pipe_queue.in_cap [OF assms] by simp
  note pm = pipe_queue.put_many [OF assms this]
  show w: "pipe_wf (fold pipe_put (take (room p) cs) p)" using pm ..
  show c: "pipe_content (fold pipe_put (take (room p) cs) p) = pipe_content p @ take (room p) cs" using pm ..
  show "pipe_full (fold pipe_put (take (room p) cs) p)" if "drop (room p) cs \<noteq> []"
    unfolding pipe_full_iff [OF w] c using that pipe_queue.in_cap [OF assms] by simp
qed

text \<open>With too many bytes the loop gets to its test of the full pipe.\<close>

lemma pipewrite_full:
  fixes s :: "'z pipest_scheme"
  assumes c: "caller (PipeLock a) me s" and w: "pipe_wf (pipes s a)" and n: "length src = nat n" and l: "room (pipes s a) < length src"
  shows "pipewrite a src n s =
    (if \<not> readopen (pipes s a) \<or> killed (procs s me) then sq (release (PipeLock a)) (ret (-1))
     else sq (wakeup (ChanPipeR a)) (sq (sleep (ChanPipeW a) (PipeLock a)) (ret n)))
    (with_pipe a (fold pipe_put (take (room (pipes s a)) src) (pipes s a)) s\<lparr>cpust := acq (PipeLock a) (cpust s)\<rparr>)"
proof -
  let ?p = "fold pipe_put (take (room (pipes s a)) src) (pipes s a)"
  obtain b bs where d: "drop (room (pipes s a)) src = b # bs" using l by (cases "drop (room (pipes s a)) src") auto
  have full: "pipe_full ?p" using pipe_filled(3) [OF w, of src] d by simp
  have "pipewrite a src n s = pipewrite_loop a n (b # bs) (with_pipe a ?p s\<lparr>cpust := acq (PipeLock a) (cpust s)\<rparr>)"
    using pipewrite_loop_eq [of "s\<lparr>cpust := acq (PipeLock a) (cpust s)\<rparr>" a n src] w n
    by (simp add: pipewrite_def sq_Ret caller_acquire [OF c] with_pipe_cpust d)
  then show ?thesis using full callerD(2) [OF c] by (simp add: pipe_ops curproc_def)
qed

lemma pipewrite_blocks:
  fixes s :: "'z pipest_scheme"
  assumes c: "caller (PipeLock a) me s" and w: "pipe_wf (pipes s a)" and n: "length src = nat n" and l: "room (pipes s a) < length src"
    and r: "readopen (pipes s a)" "\<not> killed (procs s me)"
  shows "sleeps (pipewrite a src n) s (\<lambda>ch s'. ch = ChanPipeW a \<and> (\<exists>s1.
    woke (ChanPipeR a) (with_pipe a (fold pipe_put (take (room (pipes s a)) src) (pipes s a)) s
      \<lparr>cpust := acq (PipeLock a) (cpust s)\<rparr>) s1 \<and> asleep (ChanPipeW a) me (cpust s) s1 s'))"
proof -
  note k = callerD [OF c]
  let ?s1 = "with_pipe a (fold pipe_put (take (room (pipes s a)) src) (pipes s a)) s\<lparr>cpust := acq (PipeLock a) (cpust s)\<rparr>"
  have e: "pipewrite a src n s = sq (wakeup (ChanPipeR a)) (sq (sleep (ChanPipeW a) (PipeLock a)) (ret n)) ?s1"
    using pipewrite_full [OF c w n l] r by simp
  have "runs (wakeup (ChanPipeR a)) ?s1 (\<lambda>_ s1. woke (ChanPipeR a) ?s1 s1)"
    using k by (intro wakeup_held) simp_all
  then obtain s1 where s1: "wakeup (ChanPipeR a) ?s1 = Ret () s1" "woke (ChanPipeR a) ?s1 s1" by (auto simp: runs_iff)
  have f: "sched_ok s1" "cpust s1 = acq (PipeLock a) (cpust s)" "cur s1 = Some me" "pstate (procs s1 me) = RUNNING"
    using s1(2) k by (auto simp: woke_def woken_def)
  have "sleeps (sleep (ChanPipeW a) (PipeLock a)) s1 (\<lambda>ch s'. ch = ChanPipeW a \<and> asleep (ChanPipeW a) me (cpust s) s1 s')"
    using f k by (intro sleep_held) simp_all
  then show ?thesis
    using s1 by (auto simp: sleeps_iff e sq_Ret sq_Sleep)
qed

text \<open>What fitted stays in the pipe, and no reader is told.\<close>

lemma pipewrite_refused:
  fixes s :: "'z pipest_scheme"
  assumes c: "caller (PipeLock a) me s" and w: "pipe_wf (pipes s a)" and n: "length src = nat n" and l: "room (pipes s a) < length src"
    and r: "\<not> readopen (pipes s a) \<or> killed (procs s me)"
  shows "pipewrite a src n s =
    Ret (-1) (with_pipe a (fold pipe_put (take (room (pipes s a)) src) (pipes s a)) s\<lparr>cpust := settled (cpust s)\<rparr>)"
  using pipewrite_full [OF c w n l] r callerD [OF c] by (simp add: basic_ops release_acq [of _ _ "cpust s"])

lemma piperead_copy_run:
  "\<exists>q. piperead_copy n a s = Ret (take n (pipe_content (pipes s a))) (with_pipe a q s) \<and>
     pipe_content q = drop n (pipe_content (pipes s a)) \<and> readopen q = readopen (pipes s a) \<and>
     writeopen q = writeopen (pipes s a)"
proof (induction n arbitrary: s)
  case 0
  show ?case by (rule exI [of _ "pipes s a"]) (simp add: ret_apply)
next
  case (Suc n)
  let ?p = "pipes s a"
  show ?case
  proof (cases "nread ?p = nwrite ?p")
    case True
    then have "pipe_content ?p = []" by (simp add: pipe_empty_iff)
    with True show ?thesis by (intro exI [of _ ?p]) (simp add: pipe_ops)
  next
    case False
    note g = pipe_get_content [OF False]
    obtain q where q: "piperead_copy n a (with_pipe a (pipe_get ?p) s) =
        Ret (take n (pipe_content (pipe_get ?p))) (with_pipe a q s)" "pipe_content q = drop n (pipe_content (pipe_get ?p))"
      "readopen q = readopen ?p" "writeopen q = writeopen ?p"
      using Suc.IH [of "with_pipe a (pipe_get ?p) s"] by (auto simp: pipe_get_def)
    have "piperead_copy (Suc n) a s = Ret (take (Suc n) (pipe_content ?p)) (with_pipe a q s)"
      using False q(1) by (simp add: pipe_ops g flip: pipe_get_def)
    then show ?thesis using q g by auto
  qed
qed

lemma piperead_some:
  fixes s :: "'z pipest_scheme"
  assumes c: "caller (PipeLock a) me s" and e: "pipe_content (pipes s a) \<noteq> [] \<or> \<not> writeopen (pipes s a)"
  shows "runs (piperead a n) s (\<lambda>r s'. r = Some (take (nat n) (pipe_content (pipes s a))) \<and>
    (\<exists>q. pipe_content q = drop (nat n) (pipe_content (pipes s a)) \<and>
      woke (ChanPipeW a) (with_pipe a q s\<lparr>cpust := settled (cpust s)\<rparr>) s'))"
proof -
  note k = callerD [OF c]
  let ?s0 = "s\<lparr>cpust := acq (PipeLock a) (cpust s)\<rparr>"
  obtain q where q: "piperead_copy (nat n) a ?s0 = Ret (take (nat n) (pipe_content (pipes s a))) (with_pipe a q ?s0)"
    "pipe_content q = drop (nat n) (pipe_content (pipes s a))"
    using piperead_copy_run [of "nat n" a ?s0] by auto
  let ?s1 = "with_pipe a q s\<lparr>cpust := acq (PipeLock a) (cpust s)\<rparr>"
  have "runs (sq (wakeup (ChanPipeW a)) (release (PipeLock a))) ?s1
      (\<lambda>_ s'. woke (ChanPipeW a) (?s1\<lparr>cpust := settled (cpust s)\<rparr>) s')"
    using k by (intro wakeup_release) simp_all
  moreover have "\<not> (nread (pipes s a) = nwrite (pipes s a) \<and> writeopen (pipes s a))"
    using e by (simp add: pipe_empty_iff)
  ultimately show ?thesis
    using q by (auto simp: piperead_def piperead_loop_def runs_iff sq_Ret caller_acquire [OF c] bnd_Ret gets_apply
        with_pipe_cpust ret_apply elim!: sq_RetE)
qed

lemma piperead_blocks:
  fixes s :: "'z pipest_scheme"
  assumes c: "caller (PipeLock a) me s" and e: "pipe_content (pipes s a) = []" "writeopen (pipes s a)"
    and "\<not> killed (procs s me)"
  shows "sleeps (piperead a n) s (\<lambda>ch s'. ch = ChanPipeR a \<and>
    asleep (ChanPipeR a) me (cpust s) (s\<lparr>cpust := acq (PipeLock a) (cpust s)\<rparr>) s')"
proof -
  note k = callerD [OF c]
  let ?s0 = "s\<lparr>cpust := acq (PipeLock a) (cpust s)\<rparr>"
  have "piperead a n s = sq (sleep (ChanPipeR a) (PipeLock a)) (ret None) ?s0"
    using e assms(4) k(2) by (simp add: piperead_def piperead_loop_def caller_acquire [OF c] pipe_ops curproc_def pipe_empty_iff)
  moreover have "sleeps (sleep (ChanPipeR a) (PipeLock a)) ?s0
      (\<lambda>ch s'. ch = ChanPipeR a \<and> asleep (ChanPipeR a) me (cpust s) ?s0 s')"
    using k by (intro sleep_held) simp_all
  ultimately show ?thesis by (auto simp: sleeps_iff sq_Sleep)
qed

section \<open>Sequences of operations\<close>

lemma leaves_pipes:
  "leaves pipes (acquire l :: ('z pipest_scheme, unit) op)" "leaves pipes (release l :: ('z pipest_scheme, unit) op)"
  "leaves pipes (wakeup ch :: ('z pipest_scheme, unit) op)" "leaves pipes (sleep ch lk :: ('z pipest_scheme, unit) op)"
  "leaves pipes (sleep_resume ie lk :: ('z pipest_scheme, unit) op)"
  by (rule leavesI, intro keeps_intros; simp)+

lemma pipewrite_end_leaves: "leaves pipes (pipewrite_loop a n [] :: ('z pipest_scheme, int) op)"
  unfolding pipewrite_loop.simps by (rule leavesI, intro keeps_intros; simp)

lemma pipewrite_loop_ends:
  fixes s :: "'z pipest_scheme"
  assumes w: "pipe_wf (pipes s a)" and e: "ends (pipewrite_loop a n cs) s s'"
  shows "pipes s' a = fold pipe_put (take (room (pipes s a)) cs) (pipes s a)"
proof -
  let ?p = "fold pipe_put (take (room (pipes s a)) cs) (pipes s a)"
  let ?s1 = "with_pipe a ?p s"
  have e1: "ends (pipewrite_loop a n (drop (room (pipes s a)) cs)) ?s1 s'"
    using e unfolding ends_def pipewrite_loop_eq [OF w, of n cs] .
  have "pipes s' = pipes ?s1"
  proof (cases "drop (room (pipes s a)) cs")
    case Nil
    then show ?thesis using ends_leaves [OF e1 [unfolded Nil] pipewrite_end_leaves] by simp
  next
    case (Cons b bs)
    let ?m = "bnd curproc (\<lambda>me.
       bnd (gets (\<lambda>s. killed (procs s me))) (\<lambda>kl.
       if \<not> readopen ?p \<or> kl then sq (release (PipeLock a)) (ret (-1))
       else sq (wakeup (ChanPipeR a)) (sq (sleep (ChanPipeW a) (PipeLock a)) (ret n)))) :: ('z pipest_scheme, int) op"
    have "drop (room (pipes s a)) cs \<noteq> []" unfolding Cons by simp
    then have "pipe_full ?p" by (rule pipe_filled(3) [OF w])
    then have "ends ?m ?s1 s'" using e1 unfolding ends_def Cons by (simp add: pipe_ops)
    moreover have "leaves pipes ?m" by (rule leavesI, intro keeps_intros; simp)
    ultimately show ?thesis by (rule ends_leaves)
  qed
  then show ?thesis by simp
qed

lemma ends_undef: "\<not> ends (undef msg) s s'"
  by (simp add: ends_def undef_def)

lemma pipewrite_ends:
  fixes s :: "'z pipest_scheme"
  assumes "pipe_wf (pipes s a)" and "ends (pipewrite a src n) s s' \<or> ends (pipewrite_resume ie a n src) s s'"
  shows "pipes s' a = fold pipe_put (take (room (pipes s a)) src) (pipes s a)"
proof -
  obtain s1 where "pipes s1 = pipes s" "ends (pipewrite_loop a n src) s1 s'"
    using assms(2)
    by (auto simp: pipewrite_def pipewrite_resume_def ends_undef split: if_splits dest: leavesD [OF leaves_pipes(1)] leavesD [OF leaves_pipes(5)]
        elim!: ends_sq [OF _ nosleep_locks(1)] ends_sq [OF _ nosleep_sleep_resume])
  with pipewrite_loop_ends [of s1 a n src s'] assms(1) show ?thesis by simp
qed

lemma piperead_loop_Ret:
  fixes s :: "'z pipest_scheme"
  assumes "piperead_loop a n s = Ret (Some bs) s'"
  shows "pipe_content (pipes s a) = bs @ pipe_content (pipes s' a)"
proof -
  obtain q where q: "piperead_copy (nat n) a s = Ret (take (nat n) (pipe_content (pipes s a))) (with_pipe a q s)"
    "pipe_content q = drop (nat n) (pipe_content (pipes s a))"
    using piperead_copy_run [of "nat n" a s] by auto
  have "\<not> (nread (pipes s a) = nwrite (pipes s a) \<and> writeopen (pipes s a))"
    using assms by (auto simp: piperead_loop_def bnd_Ret gets_apply ret_apply curproc_def sleep_not_Ret undef_def
        elim!: sq_RetE bnd_RetE split: option.splits if_splits)
  then have "(sq (wakeup (ChanPipeW a)) (sq (release (PipeLock a)) (ret (Some (take (nat n) (pipe_content (pipes s a)))))))
      (with_pipe a q s) = Ret (Some bs) s'"
    using assms q(1) by (auto simp: piperead_loop_def bnd_Ret gets_apply)
  then show ?thesis
    using q(2) by (auto simp: ret_apply elim!: sq_RetE dest!: leavesD [OF leaves_pipes(2)] leavesD [OF leaves_pipes(3)])
qed

lemma piperead_Ret:
  fixes s :: "'z pipest_scheme"
  assumes "piperead a n s = Ret (Some bs) s' \<or> piperead_resume ie a n s = Ret (Some bs) s'"
  shows "pipe_content (pipes s a) = bs @ pipe_content (pipes s' a)"
proof -
  obtain s1 where "pipes s1 = pipes s" "piperead_loop a n s1 = Ret (Some bs) s'"
    using assms by (auto simp: piperead_def piperead_resume_def elim!: sq_RetE
        dest: leavesD [OF leaves_pipes(1)] leavesD [OF leaves_pipes(5)])
  with piperead_loop_Ret [of a n s1] show ?thesis by simp
qed

text \<open>
  A history of the pipe at \<open>a\<close>: calls of \<^verbatim>\<open>pipewrite\<close> and \<^verbatim>\<open>piperead\<close> by any processes, each run until it returns or sleeps
  and continued later, with anything in between that leaves the pipe alone.  The lists are the bytes that went
  into the pipe and the bytes that came out of it.
\<close>

inductive pipe_trace :: "uint \<Rightarrow> 'z pipest_scheme \<Rightarrow> uchar list \<Rightarrow> uchar list \<Rightarrow> 'z pipest_scheme \<Rightarrow> bool" where
  start: "pipe_trace a s [] [] s"
| wr: "pipe_trace a s ins outs s1 \<Longrightarrow> ends (pipewrite a src n) s1 s2 \<or> ends (pipewrite_resume ie a n src) s1 s2 \<Longrightarrow>
    pipe_trace a s (ins @ take (room (pipes s1 a)) src) outs s2"
| rd: "pipe_trace a s ins outs s1 \<Longrightarrow> piperead a n s1 = Ret (Some bs) s2 \<or> piperead_resume ie a n s1 = Ret (Some bs) s2 \<Longrightarrow>
    pipe_trace a s ins (outs @ bs) s2"
| other: "pipe_trace a s ins outs s1 \<Longrightarrow> pipes s2 a = pipes s1 a \<Longrightarrow> pipe_trace a s ins outs s2"

lemma pipe_trace_content:
  "pipe_trace a s ins outs s' \<Longrightarrow> pipe_wf (pipes s a) \<Longrightarrow>
     pipe_wf (pipes s' a) \<and> pipe_content (pipes s a) @ ins = outs @ pipe_content (pipes s' a)"
proof (induction rule: pipe_trace.induct)
  case (wr a s ins outs s1 src n s2 ie)
  then have w: "pipe_wf (pipes s1 a)" and c: "pipe_content (pipes s a) @ ins = outs @ pipe_content (pipes s1 a)" by simp_all
  show ?case
    using pipe_filled(1,2) [OF w, of src] c unfolding pipewrite_ends [OF w wr.hyps(2)] by simp
next
  case (rd a s ins outs s1 n bs s2 ie)
  then have w: "pipe_wf (pipes s1 a)" and c: "pipe_content (pipes s a) @ ins = outs @ pipe_content (pipes s1 a)" by simp_all
  show ?case using w c unfolding pipe_wf_def piperead_Ret [OF rd.hyps(2)] by simp
qed simp_all

section \<open>Properties\<close>

text \<open>
  (C28) A pipe is a queue: whatever writes and reads happen in whatever order, by any processes, completed or
  interrupted by sleeping, and whether or not the 32-bit counters wrap around, the bytes read are the bytes written,
  in order and without loss, and what is still in the pipe, at most 512 bytes, is the rest.
\<close>

theorem pipe_fifo:
  assumes "pipe_trace a s ins outs s'" and "pipe_wf (pipes s a)"
  shows "pipe_content (pipes s a) @ ins = outs @ pipe_content (pipes s' a) \<and> length (pipe_content (pipes s' a)) \<le> 512"
  using pipe_trace_content [OF assms] unfolding pipe_wf_def by blast

text \<open>
  (C29) \<^verbatim>\<open>pipewrite\<close> in all its cases.  If there is room for all the bytes it appends them, wakes the readers and returns their number, also when
  the read end is closed or the writer was killed.  Otherwise it appends what fits and then, if the read end is closed or the writer was killed,
  returns -1 and wakes nobody; else it wakes the readers and goes to sleep.  The lock of the pipe is free in every case.
\<close>

theorem pipewrite_correct:
  fixes s :: "'z pipest_scheme"
  assumes "caller (PipeLock a) me s" and "pipe_wf (pipes s a)"
  shows "if length (pipe_content (pipes s a)) + length src \<le> 512
    then runs (pipewrite a src (int (length src))) s (\<lambda>r s'. r = int (length src) \<and> lock_free (PipeLock a) (cpust s') \<and>
      pipe_content (pipes s' a) = pipe_content (pipes s a) @ src \<and>
      (\<forall>p < NPROC. pstate (procs s p) = SLEEPING \<and> pchan (procs s p) = ChanPipeR a \<longrightarrow> pstate (procs s' p) = RUNNABLE))
    else if \<not> readopen (pipes s a) \<or> killed (procs s me)
    then runs (pipewrite a src (int (length src))) s (\<lambda>r s'. r = -1 \<and> lock_free (PipeLock a) (cpust s') \<and> procs s' = procs s \<and>
      pipe_content (pipes s' a) = pipe_content (pipes s a) @ take (512 - length (pipe_content (pipes s a))) src)
    else sleeps (pipewrite a src (int (length src))) s (\<lambda>ch s'. ch = ChanPipeW a \<and> lock_free (PipeLock a) (cpust s') \<and>
      pipe_content (pipes s' a) = pipe_content (pipes s a) @ take (512 - length (pipe_content (pipes s a))) src \<and>
      pstate (procs s' me) = SLEEPING \<and> pchan (procs s' me) = ChanPipeW a \<and>
      (\<forall>p < NPROC. pstate (procs s p) = SLEEPING \<and> pchan (procs s p) = ChanPipeR a \<longrightarrow> pstate (procs s' p) = RUNNABLE))"
proof -
  note k = callerD [OF assms(1)] and f = pipe_filled(2) [OF assms(2), of src]
  have n: "length src = nat (int (length src))" by simp
  consider (fits) "length src \<le> room (pipes s a)" | (refused) "room (pipes s a) < length src" "\<not> readopen (pipes s a) \<or> killed (procs s me)"
    | (blocks) "room (pipes s a) < length src" "readopen (pipes s a)" "\<not> killed (procs s me)"
    by linarith
  then show ?thesis
  proof cases
    case fits
    then have "length (pipe_content (pipes s a)) + length src \<le> 512"
      using pipe_queue.in_cap [OF assms(2)] by simp
    then show ?thesis
      using pipewrite_fits [OF assms n fits] k(7) f fits by (auto simp: woke_def woken_def elim!: runs_conseq)
  next
    case refused
    have "\<not> length (pipe_content (pipes s a)) + length src \<le> 512" using refused(1) by simp
    then show ?thesis using refused(2) pipewrite_refused [OF assms n refused] k(7) f by (simp add: runs_def)
  next
    case blocks
    from pipewrite_blocks [OF assms n blocks]
    obtain s1 s' where e: "pipewrite a src (int (length src)) s = Sleep (ChanPipeW a) s'"
      and w: "woke (ChanPipeR a) (with_pipe a (fold pipe_put (take (room (pipes s a)) src) (pipes s a)) s
        \<lparr>cpust := acq (PipeLock a) (cpust s)\<rparr>) s1" and z: "asleep (ChanPipeW a) me (cpust s) s1 s'"
      unfolding sleeps_iff by blast
    have me: "pstate (procs s' me) = SLEEPING" "pchan (procs s' me) = ChanPipeW a" "lock_free (PipeLock a) (cpust s')"
      and pi: "pipes s' = pipes s1" and other: "\<And>p. p \<noteq> me \<Longrightarrow> procs s' p = procs s1 p"
      using z k(5) by (auto simp: asleep_def can_lock_def)
    have "pipe_content (pipes s' a) = pipe_content (pipes s a) @ take (room (pipes s a)) src"
      using w f unfolding pi by (auto simp: woke_def)
    moreover have "pstate (procs s' p) = RUNNABLE"
      if "p < NPROC" "pstate (procs s p) = SLEEPING" "pchan (procs s p) = ChanPipeR a" for p
    proof -
      have "p \<noteq> me" using that(2) k(4) by auto
      moreover have "pstate (procs s1 p) = RUNNABLE" using w that by (simp add: woke_def woken_def)
      ultimately show ?thesis using other by simp
    qed
    moreover have "\<not> length (pipe_content (pipes s a)) + length src \<le> 512" using blocks(1) by simp
    ultimately show ?thesis using blocks(2,3) me e unfolding sleeps_iff by simp
  qed
qed

text \<open>
  \<^verbatim>\<open>piperead\<close> from a pipe that has bytes, or whose write end is closed, removes and returns the first bytes, at most
  as many as asked for, and wakes the writers; from an empty pipe with an open write end a process that is not killed goes
  to sleep with the lock of the pipe free.
\<close>

theorem piperead_correct:
  fixes s :: "'z pipest_scheme"
  assumes "caller (PipeLock a) me s" and "\<not> killed (procs s me)"
  shows "if pipe_content (pipes s a) \<noteq> [] \<or> \<not> writeopen (pipes s a)
    then runs (piperead a n) s (\<lambda>r s'. r = Some (take (nat n) (pipe_content (pipes s a))) \<and>
      pipe_content (pipes s' a) = drop (nat n) (pipe_content (pipes s a)) \<and> lock_free (PipeLock a) (cpust s') \<and>
      (\<forall>p < NPROC. pstate (procs s p) = SLEEPING \<and> pchan (procs s p) = ChanPipeW a \<longrightarrow> pstate (procs s' p) = RUNNABLE))
    else sleeps (piperead a n) s (\<lambda>ch s'. ch = ChanPipeR a \<and> pipes s' = pipes s \<and> lock_free (PipeLock a) (cpust s') \<and>
      pstate (procs s' me) = SLEEPING \<and> pchan (procs s' me) = ChanPipeR a)"
proof (cases "pipe_content (pipes s a) \<noteq> [] \<or> \<not> writeopen (pipes s a)")
  case True
  then show ?thesis
    using piperead_some [OF assms(1) True, of n] callerD(7) [OF assms(1)]
    by (auto simp: woke_def woken_def elim!: runs_conseq)
next
  case False
  then show ?thesis
    using piperead_blocks [OF assms(1) _ _ assms(2), of n] callerD(5,7) [OF assms(1)]
    by (auto simp: sleeps_iff asleep_def can_lock_def)
qed

section \<open>A concrete state\<close>

text \<open>Every page is a pipe with the two bytes 7 and 8, whose counters are about to wrap around, and both ends open.\<close>

definition sample_pipe :: pipe where
  "sample_pipe = \<lparr>p_data = (\<lambda>i. if i = 510 then 7 else 8), nread = -2, nwrite = 0, readopen = True, writeopen = True\<rparr>"

definition sample_pipes :: "'z \<Rightarrow> 'z pipest_scheme" where
  "sample_pipes m = sample_fs \<lparr>pipes = (\<lambda>_. sample_pipe), \<dots> = m\<rparr>"

lemma sample_pipe_content: "pipe_content sample_pipe = [7, 8]" "pipe_wf sample_pipe"
proof -
  have n: "unat (nwrite sample_pipe - nread sample_pipe) = 2" "nread sample_pipe = 0xfffffffe"
    by (simp_all add: sample_pipe_def)
  have "[0..<2] = [0, Suc 0]" by (simp add: upt_rec)
  then show e: "pipe_content sample_pipe = [7, 8]"
    unfolding pipe_content_def ring_content_def n by (simp add: sample_pipe_def)
  then show "pipe_wf sample_pipe" by (simp add: pipe_wf_def)
qed

lemma sample_pipes_sel [simp]:
  "pipes (sample_pipes m) = (\<lambda>_. sample_pipe)" "procs (sample_pipes m) = sample_procs"
  by (simp_all add: sample_pipes_def sample_fs_def sample_log_def sample_bc_def sample_table_def)

lemma sample_pipes_caller: "caller (PipeLock a) 0 (sample_pipes m)"
  by (simp add: sample_pipes_def sample_fs_def sample_log_def sample_bc_def sample_caller)

theorem pipe_fifo_witness:
  "\<exists>s'. pipe_trace 0x80300000 (sample_pipes ()) [9] [7] s' \<and> pipe_content (pipes s' 0x80300000) = [8, 9]"
proof -
  let ?a = "0x80300000 :: uint" and ?s = "sample_pipes ()"
  have w: "pipe_wf (pipes ?s ?a)" by (simp add: sample_pipe_content)
  have c: "caller (PipeLock ?a) 0 ?s" by (rule sample_pipes_caller)
  have "length [9 :: uchar] = nat 1" "length [9 :: uchar] \<le> room (pipes ?s ?a)" by (simp_all add: sample_pipe_content)
  from pipewrite_fits [OF c w this] obtain s1 where
    s1: "pipewrite ?a [9] 1 ?s = Ret 1 s1"
    "woke (ChanPipeR ?a) (with_pipe ?a (fold pipe_put [9] (pipes ?s ?a)) ?s\<lparr>cpust := settled (cpust ?s)\<rparr>) s1"
    unfolding runs_iff by blast
  have "pipe_trace ?a ?s ([] @ take (room (pipes ?s ?a)) [9]) [] s1"
    by (rule pipe_trace.wr [OF pipe_trace.start, where n = 1]) (simp add: ends_def s1(1))
  then have t1: "pipe_trace ?a ?s [9] [] s1" by (simp add: sample_pipe_content)
  have c1: "pipe_content (pipes s1 ?a) = [7, 8, 9]" using pipe_fifo [OF t1 w] by (simp add: sample_pipe_content)
  have c2: "caller (PipeLock ?a) 0 s1"
    using s1(2) c by (auto simp: caller_def on_cpu_def can_lock_def woke_def woken_def sample_state)
  from piperead_some [OF c2, of 1] c1 obtain s2 where s2: "piperead ?a 1 s1 = Ret (Some [7]) s2"
    unfolding runs_iff by auto
  have "pipe_trace ?a ?s [9] ([] @ [7]) s2"
    by (rule pipe_trace.rd [OF t1, where n = 1]) (simp add: s2)
  then have t2: "pipe_trace ?a ?s [9] [7] s2" by simp
  with pipe_fifo [OF t2 w] show ?thesis by (auto simp: sample_pipe_content)
qed

theorem pipewrite_correct_witness:
  "runs (pipewrite 0x80300000 [9] 1) (sample_pipes ()) (\<lambda>r s'. r = 1 \<and> pipe_content (pipes s' 0x80300000) = [7, 8, 9])"
proof -
  have "pipe_wf (pipes (sample_pipes ()) 0x80300000)" by (simp add: sample_pipe_content)
  from pipewrite_correct [OF sample_pipes_caller this, of "[9]"] show ?thesis
    by (auto simp: sample_pipe_content elim!: runs_conseq)
qed

theorem piperead_correct_witness:
  "runs (piperead 0x80300000 1) (sample_pipes ()) (\<lambda>r s'. r = Some [7] \<and> pipe_content (pipes s' 0x80300000) = [8])"
proof -
  have "\<not> killed (procs (sample_pipes ()) 0)" by (simp add: sample_procs_def sample_proc_def)
  from piperead_correct [OF sample_pipes_caller this, where a = "0x80300000" and n = 1] show ?thesis
    by (auto simp: sample_pipe_content elim!: runs_conseq)
qed

end
