(* ===== verification/File.thy ===== *)
theory File
  imports Pipe
begin

text \<open>
  Open files (\<^verbatim>\<open>src/file.c\<close>, \<^verbatim>\<open>src/file.h\<close>) and \<^verbatim>\<open>pipealloc\<close> (\<^verbatim>\<open>src/pipe.c\<close>).

  A pointer into \<^verbatim>\<open>ftable.file\<close> is an index.
\<close>

section \<open>State\<close>

abbreviation (input) NFILE :: nat where "NFILE \<equiv> 100"

datatype filetype = FD_NONE | FD_PIPE | FD_INODE

record filerec =
  f_type :: filetype
  f_ref :: int
  f_readable :: bool
  f_writable :: bool
  f_pipe :: uint
  f_ip :: "nat option"
  f_off :: uint

record filest = pipest +
  files :: "nat \<Rightarrow> filerec"

definition upd_file :: "nat \<Rightarrow> (filerec \<Rightarrow> filerec) \<Rightarrow> ('z filest_scheme, unit) op" where
  "upd_file f g = modify (\<lambda>s. s\<lparr>files := (files s)(f := g (files s f))\<rparr>)"

text \<open>Dereferencing an inode pointer.\<close>

definition deref :: "nat option \<Rightarrow> ('s, nat) op" where
  "deref p = (case p of None \<Rightarrow> undef ''null pointer'' | Some i \<Rightarrow> ret i)"

section \<open>Operations\<close>

definition fileinit :: "('z filest_scheme, unit) op" where
  "fileinit = modify (\<lambda>s. s\<lparr>cpust := (cpust s)\<lparr>lks := (lks (cpust s))(FtableLock := initlock)\<rparr>\<rparr>)"

definition filealloc :: "('z filest_scheme, nat option) op" where
  "filealloc =
     sq (acquire FtableLock)
    (bnd (gets (\<lambda>s. scan (\<lambda>f. f_ref (files s f) = 0) NFILE)) (\<lambda>found.
     case found of
       Some f \<Rightarrow>
         sq (upd_file f (\<lambda>x. x\<lparr>f_ref := 1\<rparr>)) (sq (release FtableLock) (ret (Some f)))
     | None \<Rightarrow> sq (release FtableLock) (ret None)))"

definition filedup :: "nat \<Rightarrow> ('z filest_scheme, nat) op" where
  "filedup f =
     sq (acquire FtableLock)
    (bnd (gets (\<lambda>s. f_ref (files s f))) (\<lambda>r.
     if r < 1 then panic ''filedup''
     else
       sq (upd_file f (\<lambda>x. x\<lparr>f_ref := f_ref x + 1\<rparr>))
      (sq (release FtableLock)
          (ret f))))"

definition fileclose :: "nat \<Rightarrow> ('z filest_scheme, unit) op" where
  "fileclose f =
     sq (acquire FtableLock)
    (bnd (gets (\<lambda>s. f_ref (files s f))) (\<lambda>r.
     if r < 1 then panic ''fileclose''
     else
       sq (upd_file f (\<lambda>x. x\<lparr>f_ref := f_ref x - 1\<rparr>))
      (bnd (gets (\<lambda>s. files s f)) (\<lambda>ff.
       if f_ref ff > 0 then release FtableLock
       else
         sq (upd_file f (\<lambda>x. x\<lparr>f_ref := 0\<rparr>))
        (sq (upd_file f (\<lambda>x. x\<lparr>f_type := FD_NONE\<rparr>))
        (sq (release FtableLock)
        (case f_type ff of
           FD_PIPE \<Rightarrow> pipeclose (f_pipe ff) (f_writable ff)
         | FD_INODE \<Rightarrow>
             sq begin_trans
            (bnd (deref (f_ip ff)) (\<lambda>ip.
             sq (iput ip)
                commit_trans))
         | FD_NONE \<Rightarrow> ret ())))))))"

definition filestat :: "nat \<Rightarrow> ('z filest_scheme, stat option) op" where
  "filestat f =
     bnd (gets (\<lambda>s. files s f)) (\<lambda>ff.
     if f_type ff = FD_INODE then
       sq (ilock (f_ip ff))
      (bnd (deref (f_ip ff)) (\<lambda>ip.
       bnd (stati ip) (\<lambda>st.
       sq (iunlock (f_ip ff))
          (ret (Some st)))))
     else ret None)"

definition fileread :: "'z filest_scheme devsw \<Rightarrow> nat \<Rightarrow> int \<Rightarrow> ('z filest_scheme, uchar list option) op" where
  "fileread dv f n =
     bnd (gets (\<lambda>s. files s f)) (\<lambda>ff.
     if \<not> f_readable ff then ret None
     else case f_type ff of
         FD_PIPE \<Rightarrow> piperead (f_pipe ff) n
       | FD_INODE \<Rightarrow>
           sq (ilock (f_ip ff))
          (bnd (deref (f_ip ff)) (\<lambda>ip.
           bnd (readi dv ip (f_off ff) (of_int n)) (\<lambda>r.
           sq (case r of
                 None \<Rightarrow> ret ()
               | Some bs \<Rightarrow> whenM (bs \<noteq> []) (upd_file f (\<lambda>x. x\<lparr>f_off := f_off x + of_nat (length bs)\<rparr>)))
          (sq (iunlock (f_ip ff))
              (ret r)))))
       | FD_NONE \<Rightarrow> panic ''fileread'')"

text \<open>
  \<^verbatim>\<open>max\<close> is \<open>((LOGSIZE - 1 - 1 - 2) / 2) * 512 = 1536\<close>.  The loop is given the remaining bytes and returns
  whether all of them were written; every round that continues writes at least one byte.
\<close>

definition write_max :: nat where
  "write_max = ((nat LOGSIZE - 1 - 1 - 2) div 2) * 512"

fun filewrite_loop :: "nat \<Rightarrow> 'z filest_scheme devsw \<Rightarrow> nat \<Rightarrow> nat option \<Rightarrow> uchar list \<Rightarrow> ('z filest_scheme, bool) op" where
  "filewrite_loop 0 dv f ip src = (\<lambda>s. Spin)"
| "filewrite_loop (Suc fuel) dv f ip src =
     (if src = [] then ret True
      else
        (let n1 = (if length src > write_max then write_max else length src) in
         sq begin_trans
        (sq (ilock ip)
        (bnd (deref ip) (\<lambda>i.
         bnd (gets (\<lambda>s. f_off (files s f))) (\<lambda>off.
         bnd (writei dv i (take n1 src) off) (\<lambda>r.
         sq (whenM (r > 0) (upd_file f (\<lambda>x. x\<lparr>f_off := f_off x + of_int r\<rparr>)))
        (sq (iunlock ip)
        (sq commit_trans
        (if r < 0 then ret False
         else if r \<noteq> int n1 then panic ''short filewrite''
         else filewrite_loop fuel dv f ip (drop n1 src)))))))))))"

definition filewrite :: "'z filest_scheme devsw \<Rightarrow> nat \<Rightarrow> uchar list \<Rightarrow> int \<Rightarrow> ('z filest_scheme, int) op" where
  "filewrite dv f src n =
     bnd (gets (\<lambda>s. files s f)) (\<lambda>ff.
     if \<not> f_writable ff then ret (-1)
     else case f_type ff of
         FD_PIPE \<Rightarrow> pipewrite (f_pipe ff) src n
       | FD_INODE \<Rightarrow>
           bnd (filewrite_loop (Suc (length src)) dv f (f_ip ff) src) (\<lambda>ok.
           ret (if ok \<and> 0 \<le> n then n else -1))
       | FD_NONE \<Rightarrow> panic ''filewrite'')"

section \<open>Making a pipe\<close>

definition pipealloc_bad :: "nat option \<Rightarrow> nat option \<Rightarrow> ('z filest_scheme, (nat \<times> nat) option) op" where
  "pipealloc_bad f0 f1 =
     sq (case f0 of None \<Rightarrow> ret () | Some f \<Rightarrow> fileclose f)
    (sq (case f1 of None \<Rightarrow> ret () | Some f \<Rightarrow> fileclose f)
        (ret None))"

text \<open>The result is the pair of files, or \<open>None\<close> for -1; at \<^verbatim>\<open>bad\<close> the page is never allocated.\<close>

definition pipealloc :: "('z filest_scheme, (nat \<times> nat) option) op" where
  "pipealloc =
     bnd filealloc (\<lambda>r0.
     case r0 of
       None \<Rightarrow> pipealloc_bad None None
     | Some f0 \<Rightarrow>
         bnd filealloc (\<lambda>r1.
         case r1 of
           None \<Rightarrow> pipealloc_bad (Some f0) None
         | Some f1 \<Rightarrow>
             bnd kalloc (\<lambda>p.
             if p = 0 then pipealloc_bad (Some f0) (Some f1)
             else
               sq (upd_pipe p (\<lambda>x. x\<lparr>readopen := True\<rparr>))
              (sq (upd_pipe p (\<lambda>x. x\<lparr>writeopen := True\<rparr>))
              (sq (upd_pipe p (\<lambda>x. x\<lparr>nwrite := 0\<rparr>))
              (sq (upd_pipe p (\<lambda>x. x\<lparr>nread := 0\<rparr>))
              (sq (modify (\<lambda>s. s\<lparr>cpust := (cpust s)\<lparr>lks := (lks (cpust s))(PipeLock p := initlock)\<rparr>\<rparr>))
              (sq (upd_file f0 (\<lambda>x. x\<lparr>f_type := FD_PIPE, f_readable := True, f_writable := False, f_pipe := p\<rparr>))
              (sq (upd_file f1 (\<lambda>x. x\<lparr>f_type := FD_PIPE, f_readable := False, f_writable := True, f_pipe := p\<rparr>))
                  (ret (Some (f0, f1))))))))))))"

end
