(* ===== verification/Sharedmem.thy ===== *)
theory Sharedmem
  imports Pagetable Scheduler
begin

text \<open>
  Shared memory (\<^verbatim>\<open>src/sharedmem.c\<close>): the table \<^verbatim>\<open>shmtable\<close> is part of \<open>vmem\<close>, because \<^verbatim>\<open>vm.c\<close> consults it.

  \<open>shm_get\<close> returns the address that the C function stores through its second argument.  The key 12
  passes the bounds test and is an access past the end of the array, which is undefined.
\<close>

section \<open>Operations\<close>

definition shm_create :: "('z ptab_scheme, int) op" where
  "shm_create =
     sq (acquire ShmtableLock)
    (bnd (gets shm_quantity) (\<lambda>n.
     if n = of_nat MAXSHM then sq (release ShmtableLock) (ret (-1))
     else
       bnd (gets (\<lambda>s. scan (\<lambda>i. shm_refcount (sharedmem s i) = -1) MAXSHM)) (\<lambda>found.
       case found of
         None \<Rightarrow> sq (release ShmtableLock) (ret (-1))
       | Some i \<Rightarrow>
           bnd kalloc (\<lambda>a.
           sq (upd_shm i (\<lambda>m. m\<lparr>shm_addr := a\<rparr>))
          (if a = 0 then undef ''shm_create: null page''
           else
             sq (update_mem (memset a 0 PGSIZE))
            (sq (upd_shm i (\<lambda>m. m\<lparr>shm_refcount := shm_refcount m + 1\<rparr>))
            (sq (modify (\<lambda>s. s\<lparr>shm_quantity := shm_quantity s + 1\<rparr>))
            (sq (release ShmtableLock)
                (ret (int i))))))))))"

text \<open>\<^verbatim>\<open>shmtable.sharedmemory[key].refcount\<close> for a key that passed the test \<^verbatim>\<open>0 <= key <= MAXSHM\<close>.\<close>

definition shm_refs :: "nat \<Rightarrow> ('z ptab_scheme, int) op" where
  "shm_refs k = (if k < MAXSHM then gets (\<lambda>s. shm_refcount (sharedmem s k)) else undef ''sharedmemory: out of bounds'')"

definition shm_close :: "int \<Rightarrow> ('z ptab_scheme, int) op" where
  "shm_close key =
     sq (acquire ShmtableLock)
    (if key < 0 \<or> key > int MAXSHM then sq (release ShmtableLock) (ret (-1))
     else
       bnd (shm_refs (nat key)) (\<lambda>rc.
       if rc = -1 then sq (release ShmtableLock) (ret (-1))
       else
         bnd curproc (\<lambda>p.
         bnd (gets (\<lambda>s. scan (\<lambda>i. shmem (procs s p) i = key) MAXSHMPROC)) (\<lambda>found.
         case found of
           None \<Rightarrow> sq (release ShmtableLock) (ret (-1))
         | Some i \<Rightarrow>
             sq (upd_proc p (\<lambda>q. q\<lparr>shmemquantity := shmemquantity q - 1\<rparr>))
            (sq (upd_proc p (\<lambda>q. q\<lparr>shmem := (shmem q)(i := -1)\<rparr>))
            (sq (upd_shm (nat key) (\<lambda>m. m\<lparr>shm_refcount := shm_refcount m - 1\<rparr>))
            (sq (bnd (shm_refs (nat key)) (\<lambda>r. whenM (r = 0)
                  (sq (upd_shm (nat key) (\<lambda>m. m\<lparr>shm_refcount := -1\<rparr>))
                      (modify (\<lambda>s. s\<lparr>shm_quantity := shm_quantity s - 1\<rparr>)))))
            (bnd (gets (\<lambda>s. (pgdir (procs s p), shmref (procs s p) i))) (\<lambda>(pd, va).
             bnd (shm_refs (nat key)) (\<lambda>r.
             sq (unmap pd va PGSIZE r)
            (sq (release ShmtableLock)
                (ret 0))))))))))))"

text \<open>\<open>shm_get\<close> returns \<open>Some a\<close> for the result 0 with \<^verbatim>\<open>*addr = a\<close>, and \<open>None\<close> for the result -1.\<close>

definition shm_get :: "int \<Rightarrow> ('z ptab_scheme, uint option) op" where
  "shm_get key =
     sq (acquire ShmtableLock)
    (if key < 0 \<or> key > int MAXSHM then sq (release ShmtableLock) (ret None)
     else
       bnd (shm_refs (nat key)) (\<lambda>rc.
       if rc = int MAXSHMPROC then sq (release ShmtableLock) (ret None)
       else
         bnd curproc (\<lambda>p.
         bnd (gets (\<lambda>s. scan (\<lambda>i. \<not> shmem (procs s p) i \<noteq> -1) MAXSHMPROC)) (\<lambda>found.
         case found of
           None \<Rightarrow> sq (release ShmtableLock) (ret None)
         | Some i \<Rightarrow>
             sq (upd_shm (nat key) (\<lambda>m. m\<lparr>shm_refcount := shm_refcount m + 1\<rparr>))
            (sq (upd_proc p (\<lambda>q. q\<lparr>shmem := (shmem q)(i := key)\<rparr>))
            (sq (upd_proc p (\<lambda>q. q\<lparr>shmemquantity := shmemquantity q + 1\<rparr>))
            (bnd (gets (\<lambda>s. (pgdir (procs s p), PGROUNDDOWN (psz (procs s p)), shm_addr (sharedmem s i)))) (\<lambda>(pd, va, a).
             sq (mappages pd va PGSIZE (v2p a) (PTE_W OR PTE_U))
            (sq (upd_proc p (\<lambda>q. q\<lparr>shmref := (shmref q)(i := va)\<rparr>))
            (sq (upd_proc p (\<lambda>q. q\<lparr>psz := psz q + PGSIZE\<rparr>))
            (sq (release ShmtableLock)
                (ret (Some va)))))))))))))"

section \<open>Behaviour of the operations\<close>

text \<open>The number of regions in use is kept in \<^verbatim>\<open>quantity\<close>.\<close>

definition shm_inv :: "'z vmem_scheme \<Rightarrow> bool" where
  "shm_inv s \<longleftrightarrow> shm_quantity s = of_nat (card {i. i < MAXSHM \<and> shm_refcount (sharedmem s i) \<noteq> -1})"

lemma shm_card_less:
  "(of_nat (card {i. i < MAXSHM \<and> shm_refcount (sharedmem s i) \<noteq> -1}) :: ushort) = of_nat MAXSHM \<longleftrightarrow>
    (\<forall>i < MAXSHM. shm_refcount (sharedmem s i) \<noteq> -1)"
proof -
  define A where "A = {i. i < MAXSHM \<and> shm_refcount (sharedmem s i) \<noteq> -1}"
  have sub: "A \<subseteq> {..<MAXSHM}" unfolding A_def by blast
  then have le: "card A \<le> MAXSHM" using card_mono [OF finite_lessThan sub] by simp
  have "card A = MAXSHM \<Longrightarrow> A = {..<MAXSHM}"
    using card_subset_eq [OF finite_lessThan sub] by simp
  then have c: "card A = MAXSHM \<longleftrightarrow> A = {..<MAXSHM}" by (auto simp del: card_lessThan) (simp add: card_lessThan)
  have e: "unat (of_nat n :: ushort) = n" if "n \<le> MAXSHM" for n
    using that by (simp add: unsigned_of_nat take_bit_nat_eq_self)
  have "(of_nat (card A) :: ushort) = of_nat MAXSHM \<longleftrightarrow> card A = MAXSHM"
  proof
    assume "(of_nat (card A) :: ushort) = of_nat MAXSHM"
    then have "unat (of_nat (card A) :: ushort) = unat (of_nat MAXSHM :: ushort)" by (rule arg_cong)
    then show "card A = MAXSHM" unfolding e [OF le] e [OF order.refl] .
  qed (rule arg_cong)
  moreover have "A = {..<MAXSHM} \<longleftrightarrow> (\<forall>i < MAXSHM. shm_refcount (sharedmem s i) \<noteq> -1)" unfolding A_def by blast
  ultimately show ?thesis using c by (simp only: A_def)
qed

lemma upd_shm_run: "upd_shm i f s = Ret () (s\<lparr>sharedmem := (sharedmem s)(i := f (sharedmem s i))\<rparr>)"
  by (simp add: upd_shm_def modify_apply)

lemma shm_refs_run: "k < MAXSHM \<Longrightarrow> shm_refs k s = Ret (shm_refcount (sharedmem s k)) s"
  by (simp add: shm_refs_def gets_apply)

lemmas shm_ops = basic_ops upd_shm_run shm_refs_run update_mem_def

lemma shm_create_full:
  assumes "lock_free ShmtableLock (cpust s)" "cli_wf (cpust s)" "shm_inv s"
    and "\<forall>i < MAXSHM. shm_refcount (sharedmem s i) \<noteq> -1"
  shows "shm_create s = Ret (-1) (s\<lparr>cpust := settled (cpust s)\<rparr>)"
proof -
  have "shm_quantity s = of_nat MAXSHM" using assms(3,4) shm_card_less [of s] by (simp add: shm_inv_def)
  then show ?thesis using assms(1,2) by (simp add: shm_create_def shm_ops acquire_free release_acq)
qed

lemma shm_create_new:
  assumes l: "lock_free ShmtableLock (cpust s)" and inv: "shm_inv s" and k: "kmem_ready s" and f: "freelist s \<noteq> 0"
    and i: "scan (\<lambda>i. shm_refcount (sharedmem s i) = -1) MAXSHM = Some i"
  shows "shm_create s = Ret (int i) (s\<lparr>cpust := settled (cpust s), freelist := ld32 (mem s) (freelist s),
    sharedmem := (sharedmem s)(i := \<lparr>shm_addr = freelist s, shm_refcount = 0\<rparr>),
    mem := memset (freelist s) 0 PGSIZE (mem s), shm_quantity := shm_quantity s + 1\<rparr>)"
proof -
  have ii: "i < MAXSHM" "shm_refcount (sharedmem s i) = -1" using i by (simp_all add: scan_Some_iff)
  then have q: "shm_quantity s \<noteq> of_nat MAXSHM" using inv shm_card_less [of s] by (auto simp: shm_inv_def)
  have wf: "cli_wf (cpust s)" "lock_free KmemLock (cpust s)" using k by (simp_all add: kmem_ready_def)
  let ?s1 = "s\<lparr>cpust := acq ShmtableLock (cpust s)\<rparr>"
  have r1: "kmem_ready ?s1" using wf by (simp add: kmem_ready_def)
  have ks: "kmem_settled ?s1 = acq ShmtableLock (cpust s)" using wf by (simp add: kmem_settled_def)
  have ka: "kalloc ?s1 = Ret (freelist s) (?s1\<lparr>freelist := ld32 (mem s) (freelist s)\<rparr>)"
    using kalloc_run [OF r1] f ks by simp
  have e: "(sharedmem s i)\<lparr>shm_addr := freelist s, shm_refcount := 0\<rparr> = \<lparr>shm_addr = freelist s, shm_refcount = 0\<rparr>"
    by (cases "sharedmem s i") simp
  show ?thesis
    using l wf q i f ii by (simp add: shm_create_def shm_ops acquire_free ka release_acq e)
qed

lemma shm_inv_new:
  assumes inv: "shm_inv s" and i: "i < MAXSHM" "shm_refcount (sharedmem s i) = -1"
    and s': "sharedmem s' = (sharedmem s)(i := m)" "shm_refcount m \<noteq> -1" "shm_quantity s' = shm_quantity s + 1"
  shows "shm_inv s'"
proof -
  let ?A = "{i. i < MAXSHM \<and> shm_refcount (sharedmem s i) \<noteq> -1}"
  have "{i. i < MAXSHM \<and> shm_refcount (sharedmem s' i) \<noteq> -1} = insert i ?A" using i s' by auto
  moreover have "i \<notin> ?A" using i by simp
  ultimately show ?thesis using inv s'(3) by (simp add: shm_inv_def)
qed

lemma pte_of_PGROUNDDOWN: "pte_of m pd (PGROUNDDOWN x) = pte_of m pd x"
  by (simp add: pte_of_def pde_of_def pde_addr_def pgtab_of_def pte_at_def)

lemma pte_of_page: "PGROUNDDOWN x = PGROUNDDOWN y \<Longrightarrow> pte_of m pd x = pte_of m pd y"
  using pte_of_PGROUNDDOWN [of m pd x] pte_of_PGROUNDDOWN [of m pd y] by simp

lemma PGROUNDDOWN_last: "pgalign va \<Longrightarrow> PGROUNDDOWN (va + PGSIZE - 1) = va"
  proof -
  assume "pgalign va"
  then have "PGROUNDDOWN (va + 4095) = va" by (rule PGROUNDDOWN_add) simp
  moreover have "va + PGSIZE - 1 = va + 4095" by simp
  ultimately show ?thesis by (simp only:)
qed

text \<open>The table is part of what the page operations do not touch.\<close>

lemma kframe_ptab:
  fixes s s' :: "'z ptab_scheme"
  assumes "kframe s s'"
  shows "procs s' = procs s" "sharedmem s' = sharedmem s" "cur s' = cur s" "shm_quantity s' = shm_quantity s"
  using assms unfolding kframe_def by (cases s, cases s', simp)+

section \<open>Properties\<close>

text \<open>
  \<^verbatim>\<open>shm_create\<close>, while pages are left, fails exactly when all twelve regions are in use; otherwise it takes
  the first free region, gives it a page of zeros that was free, and keeps the count of regions.
\<close>

theorem shm_create_correct:
  assumes inv: "shm_inv s" and ps: "kmem_inv (a # ps) s" and k: "kmem_ready s"
    and l: "lock_free ShmtableLock (cpust s)"
  shows "runs shm_create s (\<lambda>r s'. shm_inv s' \<and> lock_free ShmtableLock (cpust s') \<and>
    (r = -1 \<longleftrightarrow> (\<forall>i < MAXSHM. shm_refcount (sharedmem s i) \<noteq> -1)) \<and>
    (r \<noteq> -1 \<longrightarrow> (\<exists>i < MAXSHM. r = int i \<and> shm_refcount (sharedmem s i) = -1 \<and>
       sharedmem s' = (sharedmem s)(i := \<lparr>shm_addr = a, shm_refcount = 0\<rparr>) \<and> kmem_inv ps s' \<and>
       (\<forall>x. inpg a x \<longrightarrow> mem s' x = 0))))"
proof (cases "scan (\<lambda>i. shm_refcount (sharedmem s i) = -1) MAXSHM")
  case None
  then have "\<forall>i < MAXSHM. shm_refcount (sharedmem s i) \<noteq> -1" by (simp add: scan_None_iff)
  then show ?thesis
    using shm_create_full [OF l _ inv] k l inv by (simp add: runs_def kmem_ready_def shm_inv_def)
next
  case (Some i)
  then have i: "i < MAXSHM" "shm_refcount (sharedmem s i) = -1" by (simp_all add: scan_Some_iff)
  have a: "freelist s = a" "a \<noteq> 0" using kmem_inv_kalloc [OF ps] by simp_all
  have pa: "kpage s a" "a \<notin> set ps" "\<And>p. p \<in> set ps \<Longrightarrow> kpage s p" using ps by (simp_all add: kmem_inv_def)
  let ?s' = "s\<lparr>cpust := settled (cpust s), freelist := ld32 (mem s) a,
    sharedmem := (sharedmem s)(i := \<lparr>shm_addr = a, shm_refcount = 0\<rparr>),
    mem := memset a 0 PGSIZE (mem s), shm_quantity := shm_quantity s + 1\<rparr>"
  have run: "shm_create s = Ret (int i) ?s'"
    using shm_create_new [OF l inv k _ Some] a by simp
  have "shm_inv ?s'"
    by (rule shm_inv_new [OF inv i, where m = "\<lparr>shm_addr = a, shm_refcount = 0\<rparr>"]) simp_all
  moreover have "kmem_inv ps ?s'"
  proof -
    have "kmem_inv ps (s\<lparr>cpust := settled (cpust s), freelist := ld32 (mem s) a\<rparr>)"
      by (rule kmem_inv_kalloc(3) [OF ps])
    then show ?thesis
      by (subst kmem_inv_cong [of _ "s\<lparr>cpust := settled (cpust s), freelist := ld32 (mem s) a\<rparr>"])
        (use pa in \<open>auto intro!: agree_memset simp: kpage_def\<close>)
  qed
  moreover have "mem ?s' x = 0" if "inpg a x" for x
    using that by (simp add: memset_apply inpg_def)
  moreover have "\<not> (\<forall>i < MAXSHM. shm_refcount (sharedmem s i) \<noteq> -1)" using i by blast
  ultimately show ?thesis
    using run i l by (simp add: runs_def)
qed

text \<open>
  (C24) \<^verbatim>\<open>shm_get\<close> maps the region whose number is the caller's own slot, not the region of the key: with \<open>i\<close> the
  first free slot of the process, the page below the new end of its memory is mapped to the frame of
  region \<open>i\<close>, while the reference count of region \<open>key\<close> grows.  (If no page is free for a page table the
  call still succeeds, with nothing mapped.)
\<close>

theorem shm_get_maps_slot:
  fixes s :: "'z ptab_scheme"
  assumes ok: "vm_ok ps pd s" and p: "on_cpu p s" "pgdir (procs s p) = pd" and l: "lock_free ShmtableLock (cpust s)"
    and k: "k < MAXSHM" "shm_refcount (sharedmem s k) \<noteq> int MAXSHMPROC"
    and i: "scan (\<lambda>i. \<not> shmem (procs s p) i \<noteq> -1) MAXSHMPROC = Some i"
    and va: "va = PGROUNDDOWN (psz (procs s p))" "\<not> has (pte_of (mem s) pd va) PTE_P"
  shows "runs (shm_get (int k)) s (\<lambda>r s'. r = Some va \<and> psz (procs s' p) = psz (procs s p) + PGSIZE \<and>
    shmem (procs s' p) i = int k \<and> shm_refcount (sharedmem s' k) = shm_refcount (sharedmem s k) + 1 \<and>
    lock_free ShmtableLock (cpust s') \<and>
    (pte_of (mem s') pd va = v2p (shm_addr (sharedmem s i)) OR (PTE_W OR PTE_U) OR PTE_P \<or>
     freelist s = 0 \<and> freelist s' = 0))"
proof -
  let ?K = "acq ShmtableLock (cpust s)"
  define q1 where "q1 = (procs s p)\<lparr>shmem := (shmem (procs s p))(i := int k), shmemquantity := shmemquantity (procs s p) + 1\<rparr>"
  define s1 where "s1 = s\<lparr>cpust := ?K, sharedmem := (sharedmem s)(k := (sharedmem s k)\<lparr>shm_refcount := shm_refcount (sharedmem s k) + 1\<rparr>),
    procs := (procs s)(p := q1)\<rparr>"
  have c: "cur s = Some p" "cli_wf (cpust s)" using p by (simp_all add: on_cpu_def)
  have kf: "lock_free KmemLock (cpust s)" using ok by (simp add: vm_ok_def kmem_ready_def)
  have ok1: "vm_ok ps pd s1"
    by (rule vm_ok_cong [OF _ _ _ _ ok]) (use kf c in \<open>simp_all add: s1_def kmem_ready_def\<close>)
  have pg: "PGROUNDDOWN va = va" "PGROUNDDOWN (va + PGSIZE - 1) = va"
    unfolding va(1) by (simp_all only: PGROUNDDOWN_last PGROUNDDOWN_pgalign pgalign_PGROUNDDOWN)
  have al: "pgalign va" unfolding va(1) by (rule pgalign_PGROUNDDOWN)
  have a1: "shm_addr (sharedmem s1 i) = shm_addr (sharedmem s i)" by (simp add: s1_def)
  have np: "\<not> has (pte_of (mem s1) pd va) PTE_P" using va(2) by (simp add: s1_def)
  have z: "ps = [] \<longleftrightarrow> freelist s = 0" using ok by (cases ps) (auto simp: vm_ok_def kmem_inv_def ptr_def split: if_splits)
  have mp: "runs (mappages pd va PGSIZE (v2p (shm_addr (sharedmem s i))) (PTE_W OR PTE_U)) s1
    (\<lambda>r t. map_post ps pd va va (v2p (shm_addr (sharedmem s i))) (PTE_W OR PTE_U) s1 r t \<and> (r = -1 \<longrightarrow> ps = []) \<and> cpust t = ?K)"
    unfolding conj_assoc [symmetric]
  proof (rule runs_keeps)
    show "runs (mappages pd va PGSIZE (v2p (shm_addr (sharedmem s i))) (PTE_W OR PTE_U)) s1
      (\<lambda>r t. map_post ps pd va va (v2p (shm_addr (sharedmem s i))) (PTE_W OR PTE_U) s1 r t \<and> (r = -1 \<longrightarrow> ps = []))"
      unfolding mappages_def pg using mappages_page [OF ok1 al np, of "2 ^ 20 - 1"] by (simp del: mappages_loop.simps)
    show "keeps (\<lambda>t :: 'z ptab_scheme. cpust t = ?K) (mappages pd va PGSIZE (v2p (shm_addr (sharedmem s i))) (PTE_W OR PTE_U))"
      by (intro keeps_mappages keeps_kalloc_lock) (use kf c in simp_all)
  qed (simp add: s1_def)
  have fin: "runs (sq (upd_proc p (\<lambda>q. q\<lparr>shmref := (shmref q)(i := va)\<rparr>))
            (sq (upd_proc p (\<lambda>q. q\<lparr>psz := psz q + PGSIZE\<rparr>))
            (sq (release ShmtableLock)
                (ret (Some va))))) t
    (\<lambda>r s'. r = Some va \<and> psz (procs s' p) = psz (procs s p) + PGSIZE \<and>
    shmem (procs s' p) i = int k \<and> shm_refcount (sharedmem s' k) = shm_refcount (sharedmem s k) + 1 \<and>
    lock_free ShmtableLock (cpust s') \<and>
    (pte_of (mem s') pd va = v2p (shm_addr (sharedmem s i)) OR (PTE_W OR PTE_U) OR PTE_P \<or> freelist s = 0 \<and> freelist s' = 0))"
    if post: "map_post ps pd va va (v2p (shm_addr (sharedmem s i))) (PTE_W OR PTE_U) s1 r t" and r: "r = -1 \<longrightarrow> ps = []" and t: "cpust t = ?K"
    for r and t :: "'z ptab_scheme"
  proof -
    have kf1: "kframe s1 t" using post by (simp add: map_post_def)
    have "pte_of (mem t) pd va = v2p (shm_addr (sharedmem s i)) OR (PTE_W OR PTE_U) OR PTE_P \<or> freelist s = 0 \<and> freelist t = 0"
      using post pg r z unfolding map_post_def mapped_def by (auto simp: vm_ok_def kmem_inv_Nil)
    then show ?thesis
      using kframe_ptab [OF kf1] t l c by (simp add: runs_def basic_ops release_acq s1_def q1_def)
  qed
  have "runs (shm_get (int k)) s Q \<longleftrightarrow> runs (bnd (mappages pd va PGSIZE (v2p (shm_addr (sharedmem s i))) (PTE_W OR PTE_U))
      (\<lambda>_. sq (upd_proc p (\<lambda>q. q\<lparr>shmref := (shmref q)(i := va)\<rparr>))
            (sq (upd_proc p (\<lambda>q. q\<lparr>psz := psz q + PGSIZE\<rparr>))
            (sq (release ShmtableLock)
                (ret (Some va)))))) s1 Q" for Q
    using l k i c p va(1)
    by (simp add: runs_def shm_get_def shm_ops acquire_free curproc_def s1_def q1_def sq_def [of "mappages _ _ _ _ _"])
  then show ?thesis
    unfolding runs_bnd by (simp only:) (rule runs_conseq [OF mp], elim conjE, rule fin)
qed

text \<open>
  (C25) \<^verbatim>\<open>shm_close\<close> never gives a frame back to the allocator, not even when the last reference goes: it sets the
  count of the region to -1 and then passes that count to \<^verbatim>\<open>unmap\<close>, which frees frames for the count 0 only.
\<close>

theorem shm_close_never_frees:
  "leaves freelist (shm_close key :: ('z ptab_scheme, int) op)"
proof -
  let ?drop = "\<lambda>k. bnd (shm_refs k) (\<lambda>r. whenM (r = 0)
      (sq (upd_shm k (\<lambda>m. m\<lparr>shm_refcount := -1\<rparr>)) (modify (\<lambda>s. s\<lparr>shm_quantity := shm_quantity s - 1\<rparr>))))"
  have un: "keeps (\<lambda>s :: 'z ptab_scheme. freelist s = x) (?drop k)" for x k
    unfolding shm_refs_def upd_shm_def by (intro keeps_ctrl) simp_all
  have nz: "sq (?drop k) (bnd (gets g) (\<lambda>(pd, va). bnd (shm_refs k) (\<lambda>r. sq (unmap pd va PGSIZE r) rest))) =
    sq (?drop k) (bnd (gets g) (\<lambda>(pd, va). bnd (shm_refs k) (\<lambda>r.
      if r = 0 then undef [] else sq (unmap pd va PGSIZE r) rest)))"
    for k g and rest :: "('z ptab_scheme, int) op"
    by (rule ext) (auto simp: sq_def bnd_def shm_refs_def gets_def undef_def whenM_def upd_shm_def modify_def ret_def
      split: if_splits prod.splits)
  show ?thesis
    unfolding shm_close_def nz
    by (rule leavesI, intro keeps_ctrl un keeps_locks keeps_upd keeps_curproc keeps_unmap)
      (simp_all add: shm_refs_def upd_shm_def keeps_ctrl)
qed

section \<open>A concrete table\<close>

lemma sample_kmem: "kmem_inv [0x80201000] (sample_table m)" "kmem_ready (sample_table m)"
  by (simp_all add: kmem_inv_def sample_table_def ld32_def kpage_def pgalign_def v2p_def kmem_ready_def)

lemma sample_shm: "shm_inv (sample_table m)"
  by (simp add: shm_inv_def sample_table_def)

theorem shm_create_correct_witness:
  "runs shm_create sample_ptab (\<lambda>r s'. r \<noteq> -1 \<and> shm_inv s')"
proof -
  have "\<not> (\<forall>i < MAXSHM. shm_refcount (sharedmem sample_ptab i) \<noteq> -1)"
    by (auto simp: sample_table_def intro: exI [of _ 0])
  with shm_create_correct [OF sample_shm [of "()"] sample_kmem] show ?thesis
    by (auto elim: runs_conseq)
qed

lemma sample_zero: "mem (sample_table m) = (\<lambda>_. 0)"
  by (simp add: sample_table_def)

lemma sample_pte: "pte_of (mem (sample_table m)) 0x80200000 x = 0"
  by (simp add: pte_of_def pde_of_def sample_zero sample_vm_zero)

lemma sample_vm_table: "vm_ok [0x80201000] 0x80200000 (sample_table m)"
proof -
  have "pt_page (mem (sample_table m)) 0x80200000 q \<longleftrightarrow> q = 0x80200000" for q
    by (simp add: pt_page_def pde_of_def sample_zero sample_vm_zero)
  moreover have "kpage (sample_table m) 0x80200000" by (simp add: sample_table_def kpage_def pgalign_def v2p_def)
  ultimately show ?thesis
    using sample_kmem [of m] by (simp add: vm_ok_def vm_wf_def pde_of_def sample_zero sample_vm_zero)
qed

theorem shm_get_maps_slot_witness:
  "runs (shm_get 3) (sample_ptab\<lparr>sharedmem := (\<lambda>i. \<lparr>shm_addr = 0x80300000 + 0x1000 * of_nat i, shm_refcount = 0\<rparr>)\<rparr>)
    (\<lambda>r s'. r = Some 0x1000 \<and> shm_refcount (sharedmem s' 3) = 1 \<and>
      pte_of (mem s') 0x80200000 0x1000 = 0x300007)"
proof -
  let ?s = "sample_ptab\<lparr>sharedmem := (\<lambda>i. \<lparr>shm_addr = 0x80300000 + 0x1000 * of_nat i, shm_refcount = 0\<rparr>)\<rparr>"
  have ok: "vm_ok [0x80201000] 0x80200000 ?s"
    by (rule vm_ok_cong [OF _ _ _ _ sample_vm_table [of "()"]])
      (use sample_kmem(2) [of "()"] in \<open>simp_all add: kmem_ready_def\<close>)
  have i: "scan (\<lambda>i. \<not> shmem (procs ?s 0) i \<noteq> -1) MAXSHMPROC = Some 0"
    by (simp add: scan_Some_iff sample_procs_def sample_proc_def)
  have "psz (procs ?s 0) = 0x1000" by (simp add: sample_procs_def sample_proc_def)
  then have va: "(0x1000 :: uint) = PGROUNDDOWN (psz (procs ?s 0))" "\<not> has (pte_of (mem ?s) 0x80200000 0x1000) PTE_P"
    using sample_pte [of "()" "0x1000"] by (simp_all add: PGROUNDDOWN_def has_def)
  have "on_cpu 0 ?s" "pgdir (procs ?s 0) = 0x80200000" "lock_free ShmtableLock (cpust ?s)"
    by (simp_all add: on_cpu_def sample_state)
  moreover have "(3 :: nat) < MAXSHM" "shm_refcount (sharedmem ?s 3) \<noteq> int MAXSHMPROC" by simp_all
  ultimately have "runs (shm_get (int 3)) ?s (\<lambda>r s'. r = Some 0x1000 \<and> psz (procs s' 0) = psz (procs ?s 0) + PGSIZE \<and>
    shmem (procs s' 0) 0 = int 3 \<and> shm_refcount (sharedmem s' 3) = shm_refcount (sharedmem ?s 3) + 1 \<and>
    lock_free ShmtableLock (cpust s') \<and>
    (pte_of (mem s') 0x80200000 0x1000 = v2p (shm_addr (sharedmem ?s 0)) OR (PTE_W OR PTE_U) OR PTE_P \<or>
     freelist ?s = 0 \<and> freelist s' = 0))"
    by (intro shm_get_maps_slot [OF ok _ _ _ _ _ i va])
  moreover have "freelist ?s \<noteq> 0" using ok by (auto simp: vm_ok_def kmem_inv_def)
  moreover have "int 3 = 3" by simp
  moreover have "v2p (shm_addr (sharedmem ?s 0)) OR (PTE_W OR PTE_U) OR PTE_P = 0x300007" by (simp add: v2p_def)
  moreover have "shm_refcount (sharedmem ?s 3) = 0" by simp
  ultimately show ?thesis by (simp only:) (erule runs_conseq, simp)
qed

end
