(* ===== verification/Process.thy ===== *)
theory Process
  imports File Sharedmem
begin

text \<open>
  The life of a process (\<^verbatim>\<open>src/proc.c\<close>): \<^verbatim>\<open>userinit\<close>, \<^verbatim>\<open>fork\<close>, \<^verbatim>\<open>exit\<close>, \<^verbatim>\<open>wait\<close> and \<^verbatim>\<open>forkret\<close>.  These
  operations use every component below them: the table and the queues, page tables, open files, inodes and the
  log, semaphores and shared memory.

  \<^verbatim>\<open>fork_first\<close> is the static variable \<^verbatim>\<open>first\<close> of \<^verbatim>\<open>forkret\<close>.
\<close>

section \<open>State\<close>

abbreviation (input) NOFILE :: nat where "NOFILE \<equiv> 16"

record procst = filest +
  fork_first :: bool

text \<open>Fields of the trap frame, by their offsets in \<^verbatim>\<open>struct trapframe\<close> (76 bytes).\<close>

abbreviation (input) tf_eax :: uint where "tf_eax \<equiv> 28"
abbreviation (input) tf_es :: uint where "tf_es \<equiv> 40"
abbreviation (input) tf_ds :: uint where "tf_ds \<equiv> 44"
abbreviation (input) tf_trapno :: uint where "tf_trapno \<equiv> 48"
abbreviation (input) tf_err :: uint where "tf_err \<equiv> 52"
abbreviation (input) tf_eip :: uint where "tf_eip \<equiv> 56"
abbreviation (input) tf_cs :: uint where "tf_cs \<equiv> 60"
abbreviation (input) tf_eflags :: uint where "tf_eflags \<equiv> 64"
abbreviation (input) tf_esp :: uint where "tf_esp \<equiv> 68"
abbreviation (input) tf_ss :: uint where "tf_ss \<equiv> 72"

abbreviation (input) FL_IF :: uint where "FL_IF \<equiv> 0x200"

definition store16 :: "uint \<Rightarrow> ushort \<Rightarrow> ('z kmem_scheme, unit) op" where
  "store16 a v = modify (\<lambda>s. s\<lparr>mem := st16 (mem s) a v\<rparr>)"

section \<open>The first process\<close>

text \<open>
  The trap frame of the first process.  The selectors are \<^verbatim>\<open>(SEG_UCODE << 3) | DPL_USER\<close> and
  \<^verbatim>\<open>(SEG_UDATA << 3) | DPL_USER\<close>.
\<close>

definition init_tf :: "uint \<Rightarrow> ('z kmem_scheme, unit) op" where
  "init_tf t =
     sq (update_mem (memset t 0 76))
    (sq (store16 (t + tf_cs) 0x23)
    (sq (store16 (t + tf_ds) 0x2b)
    (sq (store16 (t + tf_es) 0x2b)
    (sq (store16 (t + tf_ss) 0x2b)
    (sq (store (t + tf_eflags) FL_IF)
    (sq (store (t + tf_esp) PGSIZE)
        (store (t + tf_eip) 0)))))))"

text \<open>
  \<open>init\<close> and \<open>sz\<close> are the linker symbols \<^verbatim>\<open>_binary_initcode_start\<close> and \<^verbatim>\<open>_binary_initcode_size\<close>, and
  the name stored is \<^verbatim>\<open>initcode\<close>.
\<close>

definition initcode_name :: cstr where
  "initcode_name = cstr_of [105, 110, 105, 116, 99, 111, 100, 101]"

definition userinit :: "'z procst_scheme devsw \<Rightarrow> uint \<Rightarrow> uint \<Rightarrow> ('z procst_scheme, unit) op" where
  "userinit dv init sz =
     bnd allocproc (\<lambda>r.
     sq (modify (\<lambda>s. s\<lparr>initproc := r\<rparr>))
    (case r of
       None \<Rightarrow> undef ''userinit: null process''
     | Some p \<Rightarrow>
         bnd setupkvm (\<lambda>pd.
         sq (upd_proc p (\<lambda>q. q\<lparr>pgdir := pd\<rparr>))
        (if pd = 0 then panic ''userinit: out of memory?''
         else
           sq (inituvm pd init sz)
          (sq (upd_proc p (\<lambda>q. q\<lparr>psz := PGSIZE\<rparr>))
          (sq (bnd (gets (\<lambda>s. tf (procs s p))) init_tf)
          (sq (upd_proc p (\<lambda>q. q\<lparr>pname := safestrcpy (pname q) initcode_name 16\<rparr>))
          (bnd (namei dv [slash]) (\<lambda>ip.
           sq (upd_proc p (\<lambda>q. q\<lparr>cwd := ip\<rparr>))
              (makerunnable p 0))))))))))"

section \<open>fork\<close>

definition fork_files :: "nat \<Rightarrow> nat \<Rightarrow> ('z filest_scheme, unit) op" where
  "fork_files me np =
     foreach [0..<NOFILE] (\<lambda>i.
       bnd (gets (\<lambda>s. ofile (procs s me) i)) (\<lambda>o0.
       case o0 of
         None \<Rightarrow> ret ()
       | Some f \<Rightarrow> bnd (filedup f) (\<lambda>f'. upd_proc np (\<lambda>q. q\<lparr>ofile := (ofile q)(i := Some f')\<rparr>))))"

definition fork :: "('z procst_scheme, int) op" where
  "fork =
     bnd allocproc (\<lambda>r.
     case r of
       None \<Rightarrow> ret (-1)
     | Some np \<Rightarrow>
         bnd curproc (\<lambda>me.
         bnd (bnd (gets (\<lambda>s. procs s me)) (\<lambda>q. copyuvm (pgdir q) (psz q))) (\<lambda>pd.
         sq (upd_proc np (\<lambda>q. q\<lparr>pgdir := pd\<rparr>))
        (if pd = 0 then
           sq (bnd (gets (\<lambda>s. kstack (procs s np))) kfree)
          (sq (upd_proc np (\<lambda>q. q\<lparr>pstate := UNUSED\<rparr>))
              (ret (-1)))
         else
           sq (bnd (gets (\<lambda>s. psz (procs s me))) (\<lambda>z. upd_proc np (\<lambda>q. q\<lparr>psz := z\<rparr>)))
          (sq (upd_proc np (\<lambda>q. q\<lparr>parent := Some me\<rparr>))
          (bnd (gets (\<lambda>s. tf (procs s np))) (\<lambda>tn.
           bnd (gets (\<lambda>s. tf (procs s me))) (\<lambda>tm.
           sq (update_mem (memmove tn tm 76))
          (sq (store (tn + tf_eax) 0)
          (sq (fork_files me np)
          (bnd (gets (\<lambda>s. cwd (procs s me))) (\<lambda>c.
           bnd (deref c) (\<lambda>ip.
           bnd (idup ip) (\<lambda>ip'.
           sq (upd_proc np (\<lambda>q. q\<lparr>cwd := Some ip'\<rparr>))
          (bnd (gets (\<lambda>s. pid (procs s np))) (\<lambda>pd'.
           sq (foreach [0..<MAXSHMPROC] (\<lambda>i. upd_proc np (\<lambda>q. q\<lparr>shmem := (shmem q)(i := -1)\<rparr>)))
          (sq (makerunnable np 0)
          (sq (bnd (gets (\<lambda>s. pname (procs s me))) (\<lambda>nm.
                 upd_proc np (\<lambda>q. q\<lparr>pname := safestrcpy (pname q) nm 16\<rparr>)))
              (ret pd')))))))))))))))))))"

section \<open>exit\<close>

text \<open>The channel of a process pointer; a null parent is the null channel.\<close>

definition proc_chan :: "nat option \<Rightarrow> chan" where
  "proc_chan p = (case p of None \<Rightarrow> NoChan | Some i \<Rightarrow> ChanProc i)"

definition exit_files :: "nat \<Rightarrow> ('z filest_scheme, unit) op" where
  "exit_files me =
     foreach [0..<NOFILE] (\<lambda>fd.
       bnd (gets (\<lambda>s. ofile (procs s me) fd)) (\<lambda>o0.
       case o0 of
         None \<Rightarrow> ret ()
       | Some f \<Rightarrow> sq (fileclose f) (upd_proc me (\<lambda>q. q\<lparr>ofile := (ofile q)(fd := None)\<rparr>))))"

definition exit_sems :: "nat \<Rightarrow> ('z semtab_scheme, unit) op" where
  "exit_sems me =
     sq (foreach [0..<MAXSEMPROC] (\<lambda>sd.
           bnd (gets (\<lambda>s. procsem (procs s me) sd)) (\<lambda>o0.
           case o0 of
             None \<Rightarrow> ret ()
           | Some i \<Rightarrow> sq (semfree (int i)) (ret ()))))
        (upd_proc me (\<lambda>q. q\<lparr>semquantity := 0\<rparr>))"

definition exit_shm :: "nat \<Rightarrow> ('z ptab_scheme, unit) op" where
  "exit_shm me =
     sq (foreach [0..<MAXSHMPROC] (\<lambda>i.
           bnd (gets (\<lambda>s. shmem (procs s me) i)) (\<lambda>k.
           whenM (k \<noteq> -1) (sq (shm_close k) (ret ())))))
        (upd_proc me (\<lambda>q. q\<lparr>shmemquantity := 0\<rparr>))"

definition exit_children :: "nat \<Rightarrow> ('z ptab_scheme, unit) op" where
  "exit_children me =
     foreach [0..<NPROC] (\<lambda>p.
       bnd (gets (\<lambda>s. procs s p)) (\<lambda>q.
       whenM (parent q = Some me)
         (bnd (gets initproc) (\<lambda>ip.
          sq (upd_proc p (\<lambda>q. q\<lparr>parent := ip\<rparr>))
             (whenM (pstate q = ZOMBIE) (wakeup1 (proc_chan ip)))))))"

definition exit :: "('z procst_scheme, unit) op" where
  "exit =
     bnd (gets cur) (\<lambda>c.
     bnd (gets initproc) (\<lambda>ip.
     if c = ip then panic ''init exiting''
     else
       bnd curproc (\<lambda>me.
       sq (exit_files me)
      (sq (exit_sems me)
      (sq begin_trans
      (sq (bnd (gets (\<lambda>s. cwd (procs s me))) (\<lambda>c. bnd (deref c) iput))
      (sq commit_trans
      (sq (upd_proc me (\<lambda>q. q\<lparr>cwd := None\<rparr>))
      (sq (exit_shm me)
      (sq (acquire PtableLock)
      (sq (bnd (gets (\<lambda>s. parent (procs s me))) (\<lambda>pp. wakeup1 (proc_chan pp)))
      (sq (exit_children me)
      (sq (upd_proc me (\<lambda>q. q\<lparr>pstate := ZOMBIE\<rparr>))
      (sq sched
          (panic ''zombie exit'')))))))))))))))"

section \<open>wait\<close>

definition reap :: "nat \<Rightarrow> ('z ptab_scheme, int) op" where
  "reap p =
     bnd (gets (\<lambda>s. pid (procs s p))) (\<lambda>n.
     sq (bnd (gets (\<lambda>s. kstack (procs s p))) kfree)
    (sq (upd_proc p (\<lambda>q. q\<lparr>kstack := 0\<rparr>))
    (sq (bnd (gets (\<lambda>s. pgdir (procs s p))) freevm)
    (sq (upd_proc p (\<lambda>q. q\<lparr>pstate := UNUSED\<rparr>))
    (sq (upd_proc p (\<lambda>q. q\<lparr>pid := 0\<rparr>))
    (sq (upd_proc p (\<lambda>q. q\<lparr>parent := None\<rparr>))
    (sq (upd_proc p (\<lambda>q. q\<lparr>pname := (pname q)(0 := 0)\<rparr>))
    (sq (upd_proc p (\<lambda>q. q\<lparr>killed := False\<rparr>))
    (sq (release PtableLock)
        (ret n))))))))))"

text \<open>
  One round of the loop of \<^verbatim>\<open>wait\<close>.  The scan stops at the first child that is a zombie; without one,
  \<^verbatim>\<open>havekids\<close> says whether any process has the caller as its parent.
\<close>

definition wait_loop :: "('z ptab_scheme, int) op" where
  "wait_loop =
     bnd curproc (\<lambda>me.
     bnd (gets procs) (\<lambda>ps.
     case scan (\<lambda>p. parent (ps p) = Some me \<and> pstate (ps p) = ZOMBIE) NPROC of
       Some p \<Rightarrow> reap p
     | None \<Rightarrow>
         if scan (\<lambda>p. parent (ps p) = Some me) NPROC = None \<or> killed (ps me) then
           sq (release PtableLock) (ret (-1))
         else sq (sleep (ChanProc me) PtableLock) (ret 0)))"

definition wait :: "('z ptab_scheme, int) op" where
  "wait = sq (acquire PtableLock) wait_loop"

definition wait_resume :: "bool \<Rightarrow> ('z ptab_scheme, int) op" where
  "wait_resume ie = sq (sleep_resume ie PtableLock) wait_loop"

section \<open>A new process starts\<close>

definition forkret :: "('z procst_scheme, unit) op" where
  "forkret =
     sq (release PtableLock)
    (bnd (gets fork_first) (\<lambda>f.
     whenM f (sq (modify (\<lambda>s. s\<lparr>fork_first := False\<rparr>)) initlog)))"

end
