(* ===== verification/Console.thy ===== *)
theory Console
  imports Process
begin

text \<open>
  The console (\<^verbatim>\<open>src/console.c\<close>), its devices (\<^verbatim>\<open>src/uart.c\<close>, \<^verbatim>\<open>src/kbd.c\<close>, \<^verbatim>\<open>src/kbd.h\<close>) and
  \<^verbatim>\<open>procdump\<close> (\<^verbatim>\<open>src/proc.c\<close>).

  The record \<open>kst\<close> is the state of the whole kernel.  Of the devices it has what the code reads and writes
  through their ports: the cursor register of the screen, the bytes sent to the serial line, and the bytes that
  wait in the serial port and in the keyboard controller.  The screen itself is memory at physical address
  \<^verbatim>\<open>0xb8000\<close>.
\<close>

section \<open>State\<close>

abbreviation (input) INPUT_BUF :: nat where "INPUT_BUF \<equiv> 128"
abbreviation (input) BACKSPACE :: int where "BACKSPACE \<equiv> 0x100"

record kst = procst +
  ticks :: uint
  panicked :: bool
  cons_locking :: bool
  crt_cursor :: ushort
  uart :: bool
  uart_out :: "uchar list"
  uart_in :: "uchar list"
  kbd_in :: "uchar list"
  kbd_shift :: uint
  in_buf :: "nat \<Rightarrow> uchar"
  in_r :: uint
  in_w :: uint
  in_e :: uint

section \<open>Output\<close>

text \<open>\<^verbatim>\<open>uartputc\<close> polls the port at most 128 times and then sends the byte in any case.\<close>

definition uartputc :: "int \<Rightarrow> ('z kst_scheme, unit) op" where
  "uartputc c = modify (\<lambda>s. if \<not> uart s then s else s\<lparr>uart_out := uart_out s @ [of_int c]\<rparr>)"

abbreviation (input) crt :: uint where "crt \<equiv> 0x800b8000"

definition crt_put :: "uint \<Rightarrow> ushort \<Rightarrow> ('z kmem_scheme, unit) op" where
  "crt_put pos v = store16 (crt + 2 * pos) v"

definition cgaputc :: "int \<Rightarrow> ('z kst_scheme, unit) op" where
  "cgaputc c =
     bnd (gets crt_cursor) (\<lambda>cursor.
     let pos = ucast cursor :: uint in
     bnd (if c = 10 then ret (pos + (80 - pos mod 80))
          else if c = BACKSPACE then ret (if pos > 0 then pos - 1 else pos)
          else sq (crt_put pos ((of_int c AND 0xff) OR 0x0700)) (ret (pos + 1))) (\<lambda>pos1.
     bnd (if pos1 div 80 \<ge> 24 then
            sq (update_mem (memmove crt (crt + 160) 3680))
           (let pos2 = pos1 - 80 in
            sq (update_mem (memset (crt + 2 * pos2) 0 (2 * (1920 - pos2))))
               (ret pos2))
          else ret pos1) (\<lambda>pos3.
     sq (modify (\<lambda>s. s\<lparr>crt_cursor := ucast pos3\<rparr>))
        (crt_put pos3 0x0720))))"

definition consputc :: "int \<Rightarrow> ('z kst_scheme, unit) op" where
  "consputc c =
     bnd (gets panicked) (\<lambda>pk.
     if pk then (\<lambda>s. Spin)
     else
       sq (if c = BACKSPACE then sq (uartputc 8) (sq (uartputc 32) (uartputc 8)) else uartputc c)
          (cgaputc c))"

text \<open>
  The digits that the loop of \<^verbatim>\<open>printint\<close> stores in \<^verbatim>\<open>buf\<close>, lowest first.  The first argument is the room
  left in the buffer, whose overflow is undefined.
\<close>

primrec digits_of :: "nat \<Rightarrow> uint \<Rightarrow> uint \<Rightarrow> uint list option" where
  "digits_of 0 base x = None"
| "digits_of (Suc k) base x =
     (if x div base = 0 then Some [x mod base]
      else map_option (\<lambda>ds. x mod base # ds) (digits_of k base (x div base)))"

definition digit_char :: "uint \<Rightarrow> int" where
  "digit_char d = (if d < 10 then 48 + uint d else 87 + uint d)"

text \<open>
  \<^verbatim>\<open>x = -xx\<close> for the most negative \<^verbatim>\<open>xx\<close> overflows, which the C standard leaves undefined; it is taken to wrap around, as the negation
  of the machine does, and then gives the right digits.
\<close>

definition printint_chars :: "uint \<Rightarrow> uint \<Rightarrow> bool \<Rightarrow> int list option" where
  "printint_chars xx base sign =
     (let neg = (sign \<and> sint xx < 0);
          x = (if neg then - xx else xx)
      in case digits_of 16 base x of
           None \<Rightarrow> None
         | Some ds \<Rightarrow>
             if neg \<and> length ds = 16 then None
             else Some (rev (map digit_char ds @ (if neg then [45] else []))))"

definition printint :: "uint \<Rightarrow> uint \<Rightarrow> bool \<Rightarrow> ('z kst_scheme, unit) op" where
  "printint xx base sign =
     (case printint_chars xx base sign of
        None \<Rightarrow> undef ''printint: buffer overflow''
      | Some cs \<Rightarrow> foreach cs consputc)"

text \<open>
  The variable arguments of \<^verbatim>\<open>cprintf\<close>: a word, or a pointer to a string (\<open>None\<close> is null).  An argument of the
  other kind or a missing one is undefined.
\<close>

datatype carg = Num uint | Str "uchar list option"

fun cprintf_loop :: "string \<Rightarrow> carg list \<Rightarrow> ('z kst_scheme, unit) op" where
  "cprintf_loop [] args = ret ()"
| "cprintf_loop (c # cs) args =
     (if c \<noteq> CHR ''%'' then sq (consputc (of_char c)) (cprintf_loop cs args)
      else case cs of
        [] \<Rightarrow> ret ()
      | d # ds \<Rightarrow>
          if d = CHR ''d'' then
            (case args of
               Num x # as \<Rightarrow> sq (printint x 10 True) (cprintf_loop ds as)
             | _ \<Rightarrow> undef ''cprintf argument'')
          else if d = CHR ''x'' \<or> d = CHR ''p'' then
            (case args of
               Num x # as \<Rightarrow> sq (printint x 16 False) (cprintf_loop ds as)
             | _ \<Rightarrow> undef ''cprintf argument'')
          else if d = CHR ''s'' then
            (case args of
               Str None # as \<Rightarrow> sq (foreach (map of_char ''(null)'') consputc) (cprintf_loop ds as)
             | Str (Some bs) # as \<Rightarrow> sq (foreach (map sint bs) consputc) (cprintf_loop ds as)
             | _ \<Rightarrow> undef ''cprintf argument'')
          else if d = CHR ''%'' then sq (consputc 37) (cprintf_loop ds args)
          else sq (consputc 37) (sq (consputc (of_char d)) (cprintf_loop ds args)))"

definition cprintf :: "string \<Rightarrow> carg list \<Rightarrow> ('z kst_scheme, unit) op" where
  "cprintf fmt args =
     bnd (gets cons_locking) (\<lambda>locking.
     sq (whenM locking (acquire ConsLock))
    (sq (cprintf_loop fmt args)
        (whenM locking (release ConsLock))))"

section \<open>Listing the processes\<close>

primrec getcallerpcs_loop :: "nat \<Rightarrow> uint \<Rightarrow> memory \<Rightarrow> uint list" where
  "getcallerpcs_loop 0 ebp m = []"
| "getcallerpcs_loop (Suc k) ebp m =
     (if ebp = 0 \<or> ebp < KERNBASE \<or> ebp = 0xffffffff then replicate (Suc k) 0
      else ld32 m (ebp + 4) # getcallerpcs_loop k (ld32 m ebp) m)"

definition getcallerpcs :: "uint \<Rightarrow> memory \<Rightarrow> uint list" where
  "getcallerpcs v m = getcallerpcs_loop 10 (v - 8) m"

definition state_name :: "procstate \<Rightarrow> string" where
  "state_name st =
     (case st of
        UNUSED \<Rightarrow> ''unused'' | EMBRYO \<Rightarrow> ''embryo'' | SLEEPING \<Rightarrow> ''sleep '' | RUNNABLE \<Rightarrow> ''runnable''
      | RUNNING \<Rightarrow> ''run   '' | ZOMBIE \<Rightarrow> ''zombie'')"

definition name_bytes :: "cstr \<Rightarrow> uchar list" where
  "name_bytes nm = takeWhile (\<lambda>b. b \<noteq> 0) (map nm [0..<16])"

text \<open>The saved \<^verbatim>\<open>ebp\<close> is the fourth word of the context.\<close>

definition procdump :: "('z kst_scheme, unit) op" where
  "procdump =
     foreach [0..<NPROC] (\<lambda>p.
       bnd (gets (\<lambda>s. procs s p)) (\<lambda>q.
       whenM (pstate q \<noteq> UNUSED)
         (sq (cprintf ''%d %s %s %d''
                [Num (of_int (pid q)), Str (Some (map of_char (state_name (pstate q)))), Str (Some (name_bytes (pname q))),
                 Num (of_int (priority q))])
         (sq (whenM (pstate q = SLEEPING)
                (bnd (load (pcontext q + 12)) (\<lambda>ebp.
                 bnd (gets (\<lambda>s. getcallerpcs (ebp + 8) (mem s))) (\<lambda>pcs.
                 foreach (takeWhile (\<lambda>a. a \<noteq> 0) pcs) (\<lambda>a. cprintf '' %p'' [Num a])))))
             (cprintf [CHR 0x0A] [])))))"

section \<open>Keyboard and serial line\<close>

text \<open>A table given by its first entries and by the entries at given indices; the others are 0.\<close>

definition key_table :: "uchar list \<Rightarrow> (uint \<times> uchar) list \<Rightarrow> uint \<Rightarrow> uchar" where
  "key_table base sparse i =
     (if unat i < length base then base ! unat i
      else case map_of sparse i of None \<Rightarrow> 0 | Some v \<Rightarrow> v)"

definition shiftcode :: "uint \<Rightarrow> uchar" where
  "shiftcode = key_table [] [(0x1D, 2), (0x2A, 1), (0x36, 1), (0x38, 4), (0x9D, 2), (0xB8, 4)]"

definition togglecode :: "uint \<Rightarrow> uchar" where
  "togglecode = key_table [] [(0x3A, 8), (0x45, 16), (0x46, 32)]"

definition normalmap :: "uint \<Rightarrow> uchar" where
  "normalmap = key_table
     [0, 27, 49, 50, 51, 52, 53, 54, 55, 56, 57, 48, 45, 61, 8, 9,
      113, 119, 101, 114, 116, 121, 117, 105, 111, 112, 91, 93, 10, 0, 97, 115,
      100, 102, 103, 104, 106, 107, 108, 59, 39, 96, 0, 92, 122, 120, 99, 118,
      98, 110, 109, 44, 46, 47, 0, 42, 0, 32, 0, 0, 0, 0, 0, 0,
      0, 0, 0, 0, 0, 0, 0, 55, 56, 57, 45, 52, 53, 54, 43, 49,
      50, 51, 48, 46, 0, 0, 0, 0]
     [(0x9C, 10), (0xB5, 47), (0xC8, 226), (0xD0, 227), (0xC9, 230), (0xD1, 231), (0xCB, 228), (0xCD, 229), (0x97, 224), (0xCF, 225), (0xD2, 232), (0xD3, 233)]"

definition shiftmap :: "uint \<Rightarrow> uchar" where
  "shiftmap = key_table
     [0, 27, 33, 64, 35, 36, 37, 94, 38, 42, 40, 41, 95, 43, 8, 9,
      81, 87, 69, 82, 84, 89, 85, 73, 79, 80, 123, 125, 10, 0, 65, 83,
      68, 70, 71, 72, 74, 75, 76, 58, 34, 126, 0, 124, 90, 88, 67, 86,
      66, 78, 77, 60, 62, 63, 0, 42, 0, 32, 0, 0, 0, 0, 0, 0,
      0, 0, 0, 0, 0, 0, 0, 55, 56, 57, 45, 52, 53, 54, 43, 49,
      50, 51, 48, 46, 0, 0, 0, 0]
     [(0x9C, 10), (0xB5, 47), (0xC8, 226), (0xD0, 227), (0xC9, 230), (0xD1, 231), (0xCB, 228), (0xCD, 229), (0x97, 224), (0xCF, 225), (0xD2, 232), (0xD3, 233)]"

definition ctlmap :: "uint \<Rightarrow> uchar" where
  "ctlmap = key_table
     [0, 0, 0, 0, 0, 0, 0, 0, 0, 0, 0, 0, 0, 0, 0, 0,
      17, 23, 5, 18, 20, 25, 21, 9, 15, 16, 0, 0, 13, 0, 1, 19,
      4, 6, 7, 8, 10, 11, 12, 0, 0, 0, 0, 28, 26, 24, 3, 22,
      2, 14, 13, 0, 0, -17, 0, 0]
     [(0x9C, 13), (0xB5, -17), (0xC8, 226), (0xD0, 227), (0xC9, 230), (0xD1, 231), (0xCB, 228), (0xCD, 229), (0x97, 224), (0xCF, 225), (0xD2, 232), (0xD3, 233)]"

abbreviation (input) E0ESC :: uint where "E0ESC \<equiv> 0x40"
abbreviation (input) CAPSLOCK :: uint where "CAPSLOCK \<equiv> 8"

definition charcode :: "uint \<Rightarrow> uint \<Rightarrow> uchar" where
  "charcode k = (if k = 0 then normalmap else if k = 1 then shiftmap else ctlmap)"

text \<open>
  What \<^verbatim>\<open>kbdgetc\<close> does with a byte from the controller: the new value of \<^verbatim>\<open>shift\<close> and the result.
\<close>

definition kbd_decode :: "uint \<Rightarrow> uint \<Rightarrow> uint \<times> uint" where
  "kbd_decode shift data =
     (if data = 0xE0 then (shift OR E0ESC, 0)
      else if data AND 0x80 \<noteq> 0 then
        (let d = (if shift AND E0ESC \<noteq> 0 then data else data AND 0x7F)
         in (shift AND NOT (ucast (shiftcode d) OR E0ESC), 0))
      else
        (let esc = (shift AND E0ESC \<noteq> 0);
             d = (if esc then data OR 0x80 else data);
             sh0 = (if esc then shift AND NOT E0ESC else shift);
             sh1 = sh0 OR ucast (shiftcode d);
             sh2 = sh1 XOR ucast (togglecode d);
             c = ucast (charcode (sh2 AND 3) d) :: uint
         in (sh2,
             if sh2 AND CAPSLOCK \<noteq> 0 then
               (if 97 \<le> c \<and> c \<le> 122 then c - 32 else if 65 \<le> c \<and> c \<le> 90 then c + 32 else c)
             else c)))"

definition kbdgetc :: "('z kst_scheme, int) op" where
  "kbdgetc =
     bnd (gets kbd_in) (\<lambda>q.
     case q of
       [] \<Rightarrow> ret (-1)
     | b # rest \<Rightarrow>
         sq (modify (\<lambda>s. s\<lparr>kbd_in := rest\<rparr>))
        (bnd (gets (\<lambda>s. kbd_decode (kbd_shift s) (ucast b))) (\<lambda>r.
         sq (modify (\<lambda>s. s\<lparr>kbd_shift := fst r\<rparr>))
            (ret (sint (snd r))))))"

definition uartgetc :: "('z kst_scheme, int) op" where
  "uartgetc =
     bnd (gets uart) (\<lambda>u.
     if \<not> u then ret (-1)
     else
       bnd (gets uart_in) (\<lambda>q.
       case q of
         [] \<Rightarrow> ret (-1)
       | b # rest \<Rightarrow> sq (modify (\<lambda>s. s\<lparr>uart_in := rest\<rparr>)) (ret (uint b))))"

section \<open>Input\<close>

text \<open>
  \<^verbatim>\<open>^U\<close> erases back to the last newline or to what has been handed to readers already; there are
  \<^verbatim>\<open>input.e - input.w\<close> characters it could erase.
\<close>

primrec kill_line :: "nat \<Rightarrow> ('z kst_scheme, unit) op" where
  "kill_line 0 = (\<lambda>s. Spin)"
| "kill_line (Suc k) =
     bnd (gets (\<lambda>s. in_e s \<noteq> in_w s \<and> in_buf s (unat (in_e s - 1) mod INPUT_BUF) \<noteq> 10)) (\<lambda>more.
     if more then
       sq (modify (\<lambda>s. s\<lparr>in_e := in_e s - 1\<rparr>))
      (sq (consputc BACKSPACE)
          (kill_line k))
     else ret ())"

text \<open>The default case: a character is stored in the buffer and echoed.\<close>

definition console_char :: "int \<Rightarrow> ('z kst_scheme, unit) op" where
  "console_char c =
     bnd (gets (\<lambda>s. in_e s - in_r s)) (\<lambda>n.
     whenM (c \<noteq> 0 \<and> n < 128)
       (let c1 = (if c = 13 then 10 else c) in
        sq (modify (\<lambda>s. s\<lparr>in_buf := (in_buf s)(unat (in_e s) mod INPUT_BUF := of_int c1)\<rparr>))
       (sq (modify (\<lambda>s. s\<lparr>in_e := in_e s + 1\<rparr>))
       (sq (consputc c1)
       (bnd (gets (\<lambda>s. in_e s = in_r s + 128)) (\<lambda>full.
        whenM (c1 = 10 \<or> c1 = 4 \<or> full)
          (sq (modify (\<lambda>s. s\<lparr>in_w := in_e s\<rparr>))
              (wakeup ChanInput))))))))"

definition console_key :: "int \<Rightarrow> ('z kst_scheme, unit) op" where
  "console_key c =
     (if c = 16 then procdump
      else if c = 21 then bnd (gets (\<lambda>s. unat (in_e s - in_w s))) (\<lambda>n. kill_line (Suc n))
      else if c = 8 \<or> c = 127 then
        bnd (gets (\<lambda>s. in_e s \<noteq> in_w s)) (\<lambda>more.
        whenM more
          (sq (modify (\<lambda>s. s\<lparr>in_e := in_e s - 1\<rparr>))
              (consputc BACKSPACE)))
      else console_char c)"

text \<open>
  The loop runs as long as the device has bytes; \<^verbatim>\<open>kbdintr\<close> and \<^verbatim>\<open>uartintr\<close> give it one round more than the
  device has.
\<close>

primrec consoleintr_loop :: "nat \<Rightarrow> ('z kst_scheme, int) op \<Rightarrow> ('z kst_scheme, unit) op" where
  "consoleintr_loop 0 getc = (\<lambda>s. Spin)"
| "consoleintr_loop (Suc k) getc =
     bnd getc (\<lambda>c.
     if c \<ge> 0 then sq (console_key c) (consoleintr_loop k getc)
     else ret ())"

definition consoleintr :: "nat \<Rightarrow> ('z kst_scheme, int) op \<Rightarrow> ('z kst_scheme, unit) op" where
  "consoleintr k getc =
     sq (acquire InputLock)
    (sq (consoleintr_loop k getc)
        (release InputLock))"

definition kbdintr :: "('z kst_scheme, unit) op" where
  "kbdintr = bnd (gets (\<lambda>s. length (kbd_in s))) (\<lambda>n. consoleintr (Suc n) kbdgetc)"

definition uartintr :: "('z kst_scheme, unit) op" where
  "uartintr = bnd (gets (\<lambda>s. length (uart_in s))) (\<lambda>n. consoleintr (Suc n) uartgetc)"

section \<open>Reading and writing\<close>

definition consoleread_done :: "nat \<Rightarrow> uchar list \<Rightarrow> ('z kst_scheme, uchar list option) op" where
  "consoleread_done ip bs =
     sq (release InputLock)
    (sq (ilock (Some ip))
        (ret (Some bs)))"

text \<open>
  \<open>consoleread_loop n ip target bs\<close> has \<open>n\<close> bytes to go and has stored \<open>bs\<close>; a reader that finds nothing sleeps,
  and continues with \<open>consoleread_resume\<close>.
\<close>

primrec consoleread_loop :: "nat \<Rightarrow> nat \<Rightarrow> nat \<Rightarrow> uchar list \<Rightarrow> ('z kst_scheme, uchar list option) op" where
  "consoleread_loop 0 ip target bs = consoleread_done ip bs"
| "consoleread_loop (Suc n) ip target bs =
     bnd (gets (\<lambda>s. in_r s = in_w s)) (\<lambda>none.
     if none then
       bnd curproc (\<lambda>me.
       bnd (gets (\<lambda>s. killed (procs s me))) (\<lambda>kl.
       if kl then sq (release InputLock) (sq (ilock (Some ip)) (ret None))
       else sq (sleep ChanInput InputLock) (ret None)))
     else
       bnd (gets (\<lambda>s. in_buf s (unat (in_r s) mod INPUT_BUF))) (\<lambda>c.
       sq (modify (\<lambda>s. s\<lparr>in_r := in_r s + 1\<rparr>))
      (if c = 4 then
         sq (whenM (Suc n < target) (modify (\<lambda>s. s\<lparr>in_r := in_r s - 1\<rparr>)))
            (consoleread_done ip bs)
       else if c = 10 then consoleread_done ip (bs @ [c])
       else consoleread_loop n ip target (bs @ [c]))))"

definition consoleread :: "nat \<Rightarrow> uint \<Rightarrow> ('z kst_scheme, uchar list option) op" where
  "consoleread ip n =
     sq (iunlock (Some ip))
    (sq (acquire InputLock)
        (consoleread_loop (nat (sint n)) ip (nat (sint n)) []))"

definition consoleread_resume :: "bool \<Rightarrow> nat \<Rightarrow> nat \<Rightarrow> nat \<Rightarrow> uchar list \<Rightarrow> ('z kst_scheme, uchar list option) op" where
  "consoleread_resume ie n ip target bs = sq (sleep_resume ie InputLock) (consoleread_loop n ip target bs)"

definition consolewrite :: "nat \<Rightarrow> uchar list \<Rightarrow> ('z kst_scheme, int) op" where
  "consolewrite ip bs =
     sq (iunlock (Some ip))
    (sq (acquire ConsLock)
    (sq (foreach bs (\<lambda>b. consputc (uint b)))
    (sq (release ConsLock)
    (sq (ilock (Some ip))
        (ret (int (length bs)))))))"

text \<open>The device switch after \<^verbatim>\<open>consoleinit\<close>: device 1 is the console.\<close>

definition devsw :: "'z kst_scheme devsw" where
  "devsw = (\<lambda>major. if major = 1 then (Some consoleread, Some consolewrite) else (None, None))"

definition consoleinit :: "('z kst_scheme, unit) op" where
  "consoleinit =
     sq (modify (\<lambda>s. s\<lparr>cpust := (cpust s)\<lparr>lks := (lks (cpust s))(ConsLock := initlock)\<rparr>\<rparr>))
    (sq (modify (\<lambda>s. s\<lparr>cpust := (cpust s)\<lparr>lks := (lks (cpust s))(InputLock := initlock)\<rparr>\<rparr>))
        (modify (\<lambda>s. s\<lparr>cons_locking := True\<rparr>)))"

definition uartinit :: "bool \<Rightarrow> ('z kst_scheme, unit) op" where
  "uartinit present =
     whenM present
       (sq (modify (\<lambda>s. s\<lparr>uart := True\<rparr>))
       (sq (modify (\<lambda>s. s\<lparr>uart_in := drop 1 (uart_in s)\<rparr>))
           (foreach (map of_char ''xv6...'' @ [10]) uartputc)))"

end
