(* ===== verification/Syscall.thy ===== *)
theory Syscall
  imports Console
begin

text \<open>
  Arguments of system calls (the first part of \<^verbatim>\<open>src/syscall.c\<close>) and the system calls on processes,
  semaphores and shared memory (\<^verbatim>\<open>src/sysproc.c\<close>, \<^verbatim>\<open>src/syssharedmem.c\<close>).

  The kernel dereferences user pointers directly, under the page table of the current process.  The model
  walks that table for every byte.  An access to a page that is not present, or a write to one that is read-only
  (\<^verbatim>\<open>CR0_WP\<close> is set), traps in the kernel, where \<^verbatim>\<open>trap\<close> panics.
\<close>

section \<open>User memory\<close>

definition translate :: "bool \<Rightarrow> uint \<Rightarrow> ('z ptab_scheme, uint) op" where
  "translate wr va =
     bnd curproc (\<lambda>me.
     bnd (gets (\<lambda>s. pgdir (procs s me))) (\<lambda>pd.
     bnd (walkpgdir pd va False) (\<lambda>pte.
     if pte = 0 then panic ''trap''
     else
       bnd (load pte) (\<lambda>e.
       if \<not> has e PTE_P \<or> wr \<and> \<not> has e PTE_W then panic ''trap''
       else ret (p2v (PTE_ADDR e) + (va AND 0xfff))))))"

definition uread8 :: "uint \<Rightarrow> ('z ptab_scheme, uchar) op" where
  "uread8 va = bnd (translate False va) (\<lambda>a. gets (\<lambda>s. mem s a))"

definition uwrite8 :: "uint \<Rightarrow> uchar \<Rightarrow> ('z ptab_scheme, unit) op" where
  "uwrite8 va b = bnd (translate True va) (\<lambda>a. update_mem (\<lambda>m. m(a := b)))"

primrec uread :: "nat \<Rightarrow> uint \<Rightarrow> ('z ptab_scheme, uchar list) op" where
  "uread 0 va = ret []"
| "uread (Suc n) va = bnd (uread8 va) (\<lambda>b. bnd (uread n (va + 1)) (\<lambda>bs. ret (b # bs)))"

primrec uwrite :: "uint \<Rightarrow> uchar list \<Rightarrow> ('z ptab_scheme, unit) op" where
  "uwrite va [] = ret ()"
| "uwrite va (b # bs) = sq (uwrite8 va b) (uwrite (va + 1) bs)"

definition word_of :: "uchar list \<Rightarrow> uint" where
  "word_of bs = ld32 (\<lambda>i. bs ! i) 0"

definition bytes_of :: "uint \<Rightarrow> uchar list" where
  "bytes_of w = map (st32 (\<lambda>_. 0) 0 w) [0, 1, 2, 3::nat]"

section \<open>Arguments\<close>

text \<open>A result -1 is \<open>None\<close>, and what the function stores through its pointer argument is \<open>Some\<close>.\<close>

definition fetchint :: "uint \<Rightarrow> ('z ptab_scheme, uint option) op" where
  "fetchint addr =
     bnd curproc (\<lambda>me.
     bnd (gets (\<lambda>s. psz (procs s me))) (\<lambda>sz.
     if addr \<ge> sz \<or> addr + 4 > sz then ret None
     else bnd (uread 4 addr) (\<lambda>bs. ret (Some (word_of bs)))))"

text \<open>The string, without its NUL, instead of the pointer to it.\<close>

primrec fetchstr_loop :: "nat \<Rightarrow> uint \<Rightarrow> ('z ptab_scheme, uchar list option) op" where
  "fetchstr_loop 0 s = ret None"
| "fetchstr_loop (Suc n) s =
     bnd (uread8 s) (\<lambda>b.
     if b = 0 then ret (Some [])
     else bnd (fetchstr_loop n (s + 1)) (\<lambda>r. ret (map_option (\<lambda>bs. b # bs) r)))"

definition fetchstr :: "uint \<Rightarrow> ('z ptab_scheme, uchar list option) op" where
  "fetchstr addr =
     bnd curproc (\<lambda>me.
     bnd (gets (\<lambda>s. psz (procs s me))) (\<lambda>sz.
     if addr \<ge> sz then ret None
     else fetchstr_loop (unat (sz - addr)) addr))"

definition argint :: "nat \<Rightarrow> ('z procst_scheme, uint option) op" where
  "argint n =
     bnd curproc (\<lambda>me.
     bnd (gets (\<lambda>s. tf (procs s me))) (\<lambda>t.
     bnd (load (t + tf_esp)) (\<lambda>esp.
     fetchint (esp + 4 + 4 * of_nat n))))"

definition argptr :: "nat \<Rightarrow> int \<Rightarrow> ('z procst_scheme, uint option) op" where
  "argptr n len =
     bnd (argint n) (\<lambda>r.
     case r of
       None \<Rightarrow> ret None
     | Some i \<Rightarrow>
         bnd curproc (\<lambda>me.
         bnd (gets (\<lambda>s. psz (procs s me))) (\<lambda>sz.
         if i \<ge> sz \<or> i + of_int len > sz then ret None
         else ret (Some i))))"

definition argstr :: "nat \<Rightarrow> ('z procst_scheme, uchar list option) op" where
  "argstr n =
     bnd (argint n) (\<lambda>r.
     case r of
       None \<Rightarrow> ret None
     | Some addr \<Rightarrow> fetchstr addr)"

text \<open>\<open>need m k\<close> returns -1 when the argument could not be fetched, and goes on with it otherwise.\<close>

definition need :: "('s, 'a option) op \<Rightarrow> ('a \<Rightarrow> ('s, int) op) \<Rightarrow> ('s, int) op" where
  "need m k = bnd m (\<lambda>r. case r of None \<Rightarrow> ret (-1) | Some x \<Rightarrow> k x)"

text \<open>An argument whose fetch is not checked: after a failure the variable is not initialised.\<close>

definition trusting :: "('s, 'a option) op \<Rightarrow> ('a \<Rightarrow> ('s, int) op) \<Rightarrow> ('s, int) op" where
  "trusting m k = bnd m (\<lambda>r. case r of None \<Rightarrow> undef ''uninitialised variable'' | Some x \<Rightarrow> k x)"

section \<open>System calls on processes\<close>

definition sys_fork :: "('z kst_scheme, int) op" where
  "sys_fork = fork"

definition sys_exit :: "('z kst_scheme, int) op" where
  "sys_exit = sq exit (ret 0)"

definition sys_wait :: "('z kst_scheme, int) op" where
  "sys_wait = wait"

definition sys_kill :: "('z kst_scheme, int) op" where
  "sys_kill = need (argint 0) (\<lambda>p. kill (sint p))"

definition sys_getpid :: "('z kst_scheme, int) op" where
  "sys_getpid = bnd curproc (\<lambda>me. gets (\<lambda>s. pid (procs s me)))"

definition sys_sbrk :: "('z kst_scheme, int) op" where
  "sys_sbrk =
     need (argint 0) (\<lambda>n.
     bnd curproc (\<lambda>me.
     bnd (gets (\<lambda>s. psz (procs s me))) (\<lambda>addr.
     bnd (growproc (sint n)) (\<lambda>r.
     if r < 0 then ret (-1) else ret (sint addr)))))"

text \<open>The comparison in the loop of \<^verbatim>\<open>sys_sleep\<close> is unsigned: a negative \<^verbatim>\<open>n\<close> is a large number.\<close>

definition sys_sleep_loop :: "uint \<Rightarrow> uint \<Rightarrow> ('z kst_scheme, int) op" where
  "sys_sleep_loop ticks0 n =
     bnd (gets (\<lambda>s. ticks s - ticks0 < n)) (\<lambda>more.
     if more then
       bnd curproc (\<lambda>me.
       bnd (gets (\<lambda>s. killed (procs s me))) (\<lambda>kl.
       if kl then sq (release TicksLock) (ret (-1))
       else sq (sleep ChanTicks TicksLock) (ret 0)))
     else sq (release TicksLock) (ret 0))"

definition sys_sleep :: "('z kst_scheme, int) op" where
  "sys_sleep =
     need (argint 0) (\<lambda>n.
     sq (acquire TicksLock)
    (bnd (gets ticks) (\<lambda>ticks0.
     sys_sleep_loop ticks0 n)))"

definition sys_sleep_resume :: "bool \<Rightarrow> uint \<Rightarrow> uint \<Rightarrow> ('z kst_scheme, int) op" where
  "sys_sleep_resume ie ticks0 n = sq (sleep_resume ie TicksLock) (sys_sleep_loop ticks0 n)"

definition sys_uptime :: "('z kst_scheme, int) op" where
  "sys_uptime =
     sq (acquire TicksLock)
    (bnd (gets ticks) (\<lambda>xticks.
     sq (release TicksLock)
        (ret (sint xticks))))"

definition sys_procstat :: "('z kst_scheme, int) op" where
  "sys_procstat = sq procdump (ret 0)"

definition sys_set_priority :: "('z kst_scheme, int) op" where
  "sys_set_priority =
     trusting (argint 0) (\<lambda>pr.
     bnd curproc (\<lambda>me.
     sq (upd_proc me (\<lambda>q. q\<lparr>priority := sint pr\<rparr>))
        (ret 0)))"

definition sys_semget :: "('z kst_scheme, int) op" where
  "sys_semget = need (argint 1) (\<lambda>v. need (argint 0) (\<lambda>i. semget (sint i) (sint v)))"

definition sys_semfree :: "('z kst_scheme, int) op" where
  "sys_semfree = need (argint 0) (\<lambda>i. semfree (sint i))"

definition sys_semdown :: "('z kst_scheme, int) op" where
  "sys_semdown = need (argint 0) (\<lambda>i. semdown (sint i))"

definition sys_semup :: "('z kst_scheme, int) op" where
  "sys_semup = need (argint 0) (\<lambda>i. semup (sint i))"

section \<open>System calls on shared memory\<close>

text \<open>\<^verbatim>\<open>sys_shm_create\<close> fails only when the fetch fails and the variable it left alone is positive.\<close>

definition sys_shm_create :: "('z kst_scheme, int) op" where
  "sys_shm_create = trusting (argint 0) (\<lambda>_. shm_create)"

text \<open>The pointer is not checked; when it cannot be fetched it is 0.\<close>

definition sys_shm_get :: "('z kst_scheme, int) op" where
  "sys_shm_get =
     bnd curproc (\<lambda>me.
     bnd (gets (\<lambda>s. shmemquantity (procs s me))) (\<lambda>n.
     if n \<ge> int MAXSHMPROC then ret (-1)
     else
       need (argint 0) (\<lambda>k.
       bnd (argint 1) (\<lambda>r.
       bnd (shm_get (sint k)) (\<lambda>res.
       case res of
         None \<Rightarrow> ret (-1)
       | Some a \<Rightarrow> sq (uwrite (case r of None \<Rightarrow> 0 | Some p \<Rightarrow> p) (bytes_of a)) (ret 0))))))"

definition sys_shm_close :: "('z kst_scheme, int) op" where
  "sys_shm_close =
     need (argint 0) (\<lambda>k.
     bnd (shm_close (sint k)) (\<lambda>r. ret (if r = 0 then 0 else -1)))"

end
