(* ===== verification/Exec.thy ===== *)
theory Exec
  imports Syscall
begin

text \<open>
  Running a program: \<^verbatim>\<open>exec\<close> (\<^verbatim>\<open>src/exec.c\<close>, \<^verbatim>\<open>src/elf.h\<close>) and \<^verbatim>\<open>loaduvm\<close> (\<^verbatim>\<open>src/vm.c\<close>).

  The path and the argument strings are the bytes before their NULs, fetched by \<^verbatim>\<open>sys_exec\<close>.
\<close>

section \<open>Bytes into pages\<close>

definition put_bytes :: "uint \<Rightarrow> uchar list \<Rightarrow> memory \<Rightarrow> memory" where
  "put_bytes a bs m = (\<lambda>x. if unat (x - a) < length bs then bs ! unat (x - a) else m x)"

fun loaduvm_loop :: "nat \<Rightarrow> 'z kst_scheme devsw \<Rightarrow> uint \<Rightarrow> uint \<Rightarrow> nat \<Rightarrow> uint \<Rightarrow> uint \<Rightarrow> uint \<Rightarrow> ('z kst_scheme, int) op" where
  "loaduvm_loop 0 dv pd addr ip off sz i = (\<lambda>s. Spin)"
| "loaduvm_loop (Suc fuel) dv pd addr ip off sz i =
     (if i < sz then
        bnd (walkpgdir pd (addr + i) False) (\<lambda>pte.
        if pte = 0 then panic ''loaduvm: address should exist''
        else
          bnd (load pte) (\<lambda>e.
          let pa = PTE_ADDR e; n = (if sz - i < PGSIZE then sz - i else PGSIZE) in
          bnd (readi dv ip (off + i) n) (\<lambda>r.
          case r of
            None \<Rightarrow> ret (-1)
          | Some bs \<Rightarrow>
              sq (update_mem (put_bytes (p2v pa) bs))
             (if of_nat (length bs) \<noteq> n then ret (-1)
              else loaduvm_loop fuel dv pd addr ip off sz (i + PGSIZE)))))
      else ret 0)"

text \<open>There are \<open>2 ^ 20\<close> pages.\<close>

definition loaduvm :: "'z kst_scheme devsw \<Rightarrow> uint \<Rightarrow> uint \<Rightarrow> nat \<Rightarrow> uint \<Rightarrow> uint \<Rightarrow> ('z kst_scheme, int) op" where
  "loaduvm dv pd addr ip off sz =
     (if addr mod PGSIZE \<noteq> 0 then panic ''loaduvm: addr must be page aligned''
      else loaduvm_loop (2 ^ 20 + 1) dv pd addr ip off sz 0)"

text \<open>\<^verbatim>\<open>copyout\<close> with the source as a list of bytes.\<close>

fun copyout_bytes_loop :: "nat \<Rightarrow> uint \<Rightarrow> uint \<Rightarrow> uchar list \<Rightarrow> ('z kmem_scheme, int) op" where
  "copyout_bytes_loop 0 pd va bs = (\<lambda>s. Spin)"
| "copyout_bytes_loop (Suc fuel) pd va bs =
     (if bs \<noteq> [] then
        (let va0 = PGROUNDDOWN va in
         bnd (uva2ka pd va0) (\<lambda>pa0.
         if pa0 = 0 then ret (-1)
         else
           (let n0 = unat (PGSIZE - (va - va0)); n = (if n0 > length bs then length bs else n0) in
            sq (update_mem (put_bytes (pa0 + (va - va0)) (take n bs)))
               (copyout_bytes_loop fuel pd (va0 + PGSIZE) (drop n bs)))))
      else ret 0)"

definition copyout_bytes :: "uint \<Rightarrow> uint \<Rightarrow> uchar list \<Rightarrow> ('z kmem_scheme, int) op" where
  "copyout_bytes pd va bs = copyout_bytes_loop (length bs + 1) pd va bs"

section \<open>exec\<close>

abbreviation (input) ELF_MAGIC :: uint where "ELF_MAGIC \<equiv> 0x464C457F"
abbreviation (input) MAXARG :: nat where "MAXARG \<equiv> 32"

text \<open>Words and half words of a header that has been read, at the offsets of \<^verbatim>\<open>struct elfhdr\<close> and \<^verbatim>\<open>struct proghdr\<close>.\<close>

definition w_at :: "uchar list \<Rightarrow> nat \<Rightarrow> uint" where
  "w_at bs i = ld32 (\<lambda>j. bs ! j) i"

definition h_at :: "uchar list \<Rightarrow> nat \<Rightarrow> ushort" where
  "h_at bs i = ld16 (\<lambda>j. bs ! j) i"

text \<open>The program headers; \<open>None\<close> is the jump to \<^verbatim>\<open>bad\<close>, and otherwise the result is \<^verbatim>\<open>sz\<close>.\<close>

primrec exec_load :: "nat \<Rightarrow> 'z kst_scheme devsw \<Rightarrow> nat \<Rightarrow> uint \<Rightarrow> uint \<Rightarrow> uint \<Rightarrow> ('z kst_scheme, uint option) op" where
  "exec_load 0 dv ip pd off sz = ret (Some sz)"
| "exec_load (Suc k) dv ip pd off sz =
     bnd (readi dv ip off 32) (\<lambda>r.
     case r of
       None \<Rightarrow> ret None
     | Some ph \<Rightarrow>
         if length ph \<noteq> 32 then ret None
         else if w_at ph 0 \<noteq> 1 then exec_load k dv ip pd (off + 32) sz
         else if w_at ph 20 < w_at ph 16 then ret None
         else
           bnd (allocuvm pd sz (w_at ph 8 + w_at ph 20)) (\<lambda>sz'.
           if sz' = 0 then ret None
           else
             bnd (loaduvm dv pd (w_at ph 8) ip (w_at ph 4) (w_at ph 16)) (\<lambda>l.
             if l < 0 then ret None
             else exec_load k dv ip pd (off + 32) sz')))"

text \<open>The argument strings are pushed in order; the result is the stack pointer and the pointers to them.\<close>

primrec exec_push :: "uchar list list \<Rightarrow> nat \<Rightarrow> uint \<Rightarrow> uint \<Rightarrow> uint list \<Rightarrow> ('z kmem_scheme, (uint \<times> uint list) option) op" where
  "exec_push [] argc pd sp ps = ret (Some (sp, ps))"
| "exec_push (a # as) argc pd sp ps =
     (if argc \<ge> MAXARG then ret None
      else
        (let sp' = (sp - (of_nat (length a) + 1)) AND NOT 3 in
         bnd (copyout_bytes pd sp' (a @ [0])) (\<lambda>r.
         if r < 0 then ret None
         else exec_push as (argc + 1) pd sp' (ps @ [sp']))))"

text \<open>The part of the path after its last slash.\<close>

primrec last_elem :: "uchar list \<Rightarrow> uchar list \<Rightarrow> uchar list" where
  "last_elem [] l = l"
| "last_elem (c # cs) l = last_elem cs (if c = slash then cs else l)"

definition exec_bad :: "uint \<Rightarrow> nat option \<Rightarrow> ('z kst_scheme, int) op" where
  "exec_bad pd ip =
     sq (whenM (pd \<noteq> 0) (freevm pd))
    (sq (case ip of None \<Rightarrow> ret () | Some i \<Rightarrow> iunlockput i)
        (ret (-1)))"

text \<open>The new image replaces the old one.\<close>

definition exec_commit :: "uchar list \<Rightarrow> uint \<Rightarrow> uint \<Rightarrow> uint \<Rightarrow> uint \<Rightarrow> ('z kst_scheme, int) op" where
  "exec_commit path pd sz entry sp =
     bnd curproc (\<lambda>me.
     sq (upd_proc me (\<lambda>q. q\<lparr>pname := safestrcpy (pname q) (cstr_of (last_elem path path)) 16\<rparr>))
    (bnd (gets (\<lambda>s. pgdir (procs s me))) (\<lambda>oldpgdir.
     sq (upd_proc me (\<lambda>q. q\<lparr>pgdir := pd\<rparr>))
    (sq (upd_proc me (\<lambda>q. q\<lparr>psz := sz\<rparr>))
    (bnd (gets (\<lambda>s. tf (procs s me))) (\<lambda>t.
     sq (store (t + tf_eip) entry)
    (sq (store (t + tf_esp) sp)
    (sq (switchuvm me)
    (sq (freevm oldpgdir)
        (ret 0))))))))))"

text \<open>The user stack: two pages, the first of them inaccessible, and on top the arguments.\<close>

definition exec_stack :: "uchar list \<Rightarrow> uchar list list \<Rightarrow> uint \<Rightarrow> uint \<Rightarrow> uint \<Rightarrow> ('z kst_scheme, int) op" where
  "exec_stack path argv pd sz0 entry =
     bnd (allocuvm pd (PGROUNDUP sz0) (PGROUNDUP sz0 + 2 * PGSIZE)) (\<lambda>sz.
     if sz = 0 then exec_bad pd None
     else
       sq (clearpteu pd (sz - 2 * PGSIZE))
      (bnd (exec_push argv 0 pd sz []) (\<lambda>r.
       case r of
         None \<Rightarrow> exec_bad pd None
       | Some (sp, ps) \<Rightarrow>
           (let argc = of_nat (length ps) :: uint;
                ustack = [0xffffffff, argc, sp - (argc + 1) * 4] @ ps @ [0];
                sp' = sp - (3 + argc + 1) * 4 in
            bnd (copyout_bytes pd sp' (concat (map bytes_of ustack))) (\<lambda>c.
            if c < 0 then exec_bad pd None
            else exec_commit path pd sz entry sp')))))"

text \<open>
  \<^verbatim>\<open>readi(...) < sizeof(elf)\<close> compares without sign: when \<^verbatim>\<open>readi\<close> returns -1 the check passes and the header
  is used without having been read.
\<close>

definition exec :: "'z kst_scheme devsw \<Rightarrow> uchar list \<Rightarrow> uchar list list \<Rightarrow> ('z kst_scheme, int) op" where
  "exec dv path argv =
     bnd (namei dv path) (\<lambda>r.
     case r of
       None \<Rightarrow> ret (-1)
     | Some ip \<Rightarrow>
         sq (ilock (Some ip))
        (bnd (readi dv ip 0 52) (\<lambda>h.
         case h of
           None \<Rightarrow> undef ''exec: uninitialised header''
         | Some elf \<Rightarrow>
             if length elf < 52 then exec_bad 0 (Some ip)
             else if w_at elf 0 \<noteq> ELF_MAGIC then exec_bad 0 (Some ip)
             else
               bnd setupkvm (\<lambda>pd.
               if pd = 0 then exec_bad 0 (Some ip)
               else
                 bnd (exec_load (unat (h_at elf 44)) dv ip pd (w_at elf 28) 0) (\<lambda>l.
                 case l of
                   None \<Rightarrow> exec_bad pd (Some ip)
                 | Some sz \<Rightarrow> sq (iunlockput ip) (exec_stack path argv pd sz (w_at elf 24)))))))"

end
