(* ===== verification/Sysfile.thy ===== *)
theory Sysfile
  imports Exec
begin

text \<open>
  The system calls on files (\<^verbatim>\<open>src/sysfile.c\<close>).

  A buffer of user memory is read before the call that consumes it, and written after the call that produces
  its contents.
\<close>

section \<open>File descriptors\<close>

text \<open>The descriptor and the file, or \<open>None\<close> for -1.\<close>

definition argfd :: "nat \<Rightarrow> ('z kst_scheme, (nat \<times> nat) option) op" where
  "argfd n =
     bnd (argint n) (\<lambda>r.
     case r of
       None \<Rightarrow> ret None
     | Some fd \<Rightarrow>
         bnd curproc (\<lambda>me.
         bnd (gets (\<lambda>s. ofile (procs s me))) (\<lambda>fs.
         if sint fd < 0 \<or> sint fd \<ge> int NOFILE then ret None
         else case fs (unat fd) of
             None \<Rightarrow> ret None
           | Some f \<Rightarrow> ret (Some (unat fd, f)))))"

definition fdalloc :: "nat \<Rightarrow> ('z ptab_scheme, nat option) op" where
  "fdalloc f =
     bnd curproc (\<lambda>me.
     bnd (gets (\<lambda>s. scan (\<lambda>fd. ofile (procs s me) fd = None) NOFILE)) (\<lambda>found.
     case found of
       None \<Rightarrow> ret None
     | Some fd \<Rightarrow>
         sq (upd_proc me (\<lambda>q. q\<lparr>ofile := (ofile q)(fd := Some f)\<rparr>))
            (ret (Some fd))))"

definition clear_fd :: "nat \<Rightarrow> ('z ptab_scheme, unit) op" where
  "clear_fd fd = bnd curproc (\<lambda>me. upd_proc me (\<lambda>q. q\<lparr>ofile := (ofile q)(fd := None)\<rparr>))"

definition sys_dup :: "('z kst_scheme, int) op" where
  "sys_dup =
     need (argfd 0) (\<lambda>(_, f).
     need (fdalloc f) (\<lambda>fd.
     sq (filedup f)
        (ret (int fd))))"

definition sys_read :: "'z kst_scheme devsw \<Rightarrow> ('z kst_scheme, int) op" where
  "sys_read dv =
     need (argfd 0) (\<lambda>(_, f).
     need (argint 2) (\<lambda>n.
     need (argptr 1 (sint n)) (\<lambda>p.
     need (fileread dv f (sint n)) (\<lambda>bs.
     sq (uwrite p bs)
        (ret (int (length bs)))))))"

definition sys_write :: "'z kst_scheme devsw \<Rightarrow> ('z kst_scheme, int) op" where
  "sys_write dv =
     need (argfd 0) (\<lambda>(_, f).
     need (argint 2) (\<lambda>n.
     need (argptr 1 (sint n)) (\<lambda>p.
     bnd (uread (nat (sint n)) p) (\<lambda>bs.
     filewrite dv f bs (sint n)))))"

definition sys_isatty :: "('z kst_scheme, int) op" where
  "sys_isatty =
     trusting (argfd 0) (\<lambda>(_, f).
     bnd (gets (\<lambda>s. files s f)) (\<lambda>ff.
     if f_type ff = FD_INODE then
       (case f_ip ff of
          None \<Rightarrow> ret 0
        | Some ip \<Rightarrow> bnd (gets (\<lambda>s. i_type (inodes s ip))) (\<lambda>t. ret (if t = T_DEV then 1 else 0)))
     else ret 0))"

text \<open>
  \<^verbatim>\<open>sys_lseek\<close> fills the gap up to the new offset from one page of zeroes, but lets \<^verbatim>\<open>filewrite\<close> read
  \<^verbatim>\<open>zerosize\<close> bytes from it, past its end when there are more than 4096.
\<close>

function lseek_fill :: "'z kst_scheme devsw \<Rightarrow> nat \<Rightarrow> uint \<Rightarrow> int \<Rightarrow> ('z kst_scheme, unit) op" where
  "lseek_fill dv f zeroed zerosize =
     (if zerosize > 0 then
        sq (bnd (gets (\<lambda>s. map (\<lambda>k. mem s (zeroed + of_nat k)) [0..<nat zerosize])) (\<lambda>bs.
            filewrite dv f bs zerosize))
           (lseek_fill dv f zeroed (zerosize - 4096))
      else ret ())"
  by pat_completeness auto
termination by (relation "measure (\<lambda>(dv, f, z, n). nat n)") auto

definition sys_lseek :: "'z kst_scheme devsw \<Rightarrow> ('z kst_scheme, int) op" where
  "sys_lseek dv =
     trusting (argfd 0) (\<lambda>(_, f).
     trusting (argint 1) (\<lambda>offset.
     trusting (argint 2) (\<lambda>base.
     bnd (gets (\<lambda>s. files s f)) (\<lambda>ff.
     bnd (deref (f_ip ff)) (\<lambda>ip.
     bnd (gets (\<lambda>s. i_size (inodes s ip))) (\<lambda>sz.
     bnd (if base = 0 then ret offset
          else if base = 1 then ret (f_off ff + offset)
          else if base = 2 then ret (sz + offset)
          else undef ''lseek: newoff not initialised'') (\<lambda>newoff.
     if newoff < sz then ret (-1)
     else
       sq (whenM (newoff > sz)
            (bnd kalloc (\<lambda>zeroed.
             if zeroed = 0 then undef ''lseek: null page''
             else
               sq (update_mem (put_bytes zeroed (replicate 4096 0)))
              (sq (lseek_fill dv f zeroed (sint (newoff - sz)))
                  (kfree zeroed)))))
      (sq (upd_file f (\<lambda>x. x\<lparr>f_off := newoff\<rparr>))
          (ret 0)))))))))"

definition sys_close :: "('z kst_scheme, int) op" where
  "sys_close =
     need (argfd 0) (\<lambda>(fd, f).
     sq (clear_fd fd)
    (sq (fileclose f)
        (ret 0)))"

text \<open>The fields of \<^verbatim>\<open>struct stat\<close> are at the offsets 0, 4, 8, 12 and 16; its size is 20.\<close>

definition half_bytes :: "ushort \<Rightarrow> uchar list" where
  "half_bytes h = [ucast h, ucast (drop_bit 8 h)]"

definition put_stat :: "uint \<Rightarrow> stat \<Rightarrow> ('z ptab_scheme, unit) op" where
  "put_stat a st =
     sq (uwrite (a + 4) (bytes_of (st_dev st)))
    (sq (uwrite (a + 8) (bytes_of (st_ino st)))
    (sq (uwrite a (half_bytes (st_type st)))
    (sq (uwrite (a + 12) (half_bytes (st_nlink st)))
        (uwrite (a + 16) (bytes_of (st_size st))))))"

definition sys_fstat :: "('z kst_scheme, int) op" where
  "sys_fstat =
     need (argfd 0) (\<lambda>(_, f).
     need (argptr 1 20) (\<lambda>a.
     need (filestat f) (\<lambda>st.
     sq (put_stat a st)
        (ret 0))))"

section \<open>Names\<close>

definition link_bad :: "nat \<Rightarrow> ('z kst_scheme, int) op" where
  "link_bad ip =
     sq (ilock (Some ip))
    (sq (upd_inode ip (\<lambda>m. m\<lparr>i_nlink := i_nlink m - 1\<rparr>))
    (sq (iupdate ip)
    (sq (iunlockput ip)
    (sq commit_trans
        (ret (-1))))))"

definition sys_link :: "'z kst_scheme devsw \<Rightarrow> ('z kst_scheme, int) op" where
  "sys_link dv =
     need (argstr 0) (\<lambda>old.
     need (argstr 1) (\<lambda>new.
     need (namei dv old) (\<lambda>ip.
     sq begin_trans
    (sq (ilock (Some ip))
    (bnd (gets (\<lambda>s. i_type (inodes s ip))) (\<lambda>t.
     if t = T_DIR then
       sq (iunlockput ip) (sq commit_trans (ret (-1)))
     else
       sq (upd_inode ip (\<lambda>m. m\<lparr>i_nlink := i_nlink m + 1\<rparr>))
      (sq (iupdate ip)
      (sq (iunlock (Some ip))
      (bnd (nameiparent dv new) (\<lambda>r.
       case r of
         None \<Rightarrow> link_bad ip
       | Some (dp, name) \<Rightarrow>
           sq (ilock (Some dp))
          (bnd (gets (\<lambda>s. i_dev (inodes s dp) \<noteq> i_dev (inodes s ip))) (\<lambda>other.
           bnd (if other then ret (-1)
                else bnd (gets (\<lambda>s. i_inum (inodes s ip))) (\<lambda>inum. dirlink dv dp name inum)) (\<lambda>l.
           if l < 0 then sq (iunlockput dp) (link_bad ip)
           else
             sq (iunlockput dp)
            (sq (iput ip)
            (sq commit_trans
                (ret 0))))))))))))))))"

text \<open>The scan of \<^verbatim>\<open>isdirempty\<close> starts after the first two entries; there are at most \<open>2 ^ 28\<close> offsets.\<close>

fun isdirempty_loop :: "nat \<Rightarrow> 'z kst_scheme devsw \<Rightarrow> nat \<Rightarrow> uint \<Rightarrow> ('z kst_scheme, bool) op" where
  "isdirempty_loop 0 dv dp off = (\<lambda>s. Spin)"
| "isdirempty_loop (Suc fuel) dv dp off =
     bnd (gets (\<lambda>s. i_size (inodes s dp))) (\<lambda>sz.
     if off < sz then
       bnd (readi dv dp off 16) (\<lambda>r.
       case r of
         None \<Rightarrow> panic ''isdirempty: readi''
       | Some de \<Rightarrow>
           if length de \<noteq> 16 then panic ''isdirempty: readi''
           else if de_inum de \<noteq> 0 then ret False
           else isdirempty_loop fuel dv dp (off + 16))
     else ret True)"

definition isdirempty :: "'z kst_scheme devsw \<Rightarrow> nat \<Rightarrow> ('z kst_scheme, bool) op" where
  "isdirempty dv dp = isdirempty_loop (2 ^ 28 + 1) dv dp 32"

definition unlink_bad :: "nat \<Rightarrow> ('z kst_scheme, int) op" where
  "unlink_bad dp = sq (iunlockput dp) (sq commit_trans (ret (-1)))"

definition unlink_entry :: "'z kst_scheme devsw \<Rightarrow> nat \<Rightarrow> nat \<Rightarrow> uint \<Rightarrow> ('z kst_scheme, int) op" where
  "unlink_entry dv dp ip off =
     bnd (writei dv dp (replicate 16 0) off) (\<lambda>w.
     if w \<noteq> 16 then panic ''unlink: writei''
     else
       bnd (gets (\<lambda>s. i_type (inodes s ip))) (\<lambda>t.
       sq (whenM (t = T_DIR) (sq (upd_inode dp (\<lambda>m. m\<lparr>i_nlink := i_nlink m - 1\<rparr>)) (iupdate dp)))
      (sq (iunlockput dp)
      (sq (upd_inode ip (\<lambda>m. m\<lparr>i_nlink := i_nlink m - 1\<rparr>))
      (sq (iupdate ip)
      (sq (iunlockput ip)
      (sq commit_trans
          (ret 0))))))))"

definition sys_unlink :: "'z kst_scheme devsw \<Rightarrow> ('z kst_scheme, int) op" where
  "sys_unlink dv =
     need (argstr 0) (\<lambda>path.
     need (nameiparent dv path) (\<lambda>(dp, name).
     sq begin_trans
    (sq (ilock (Some dp))
    (if namecmp (cstr_of name) (cstr_of [46]) = 0 \<or> namecmp (cstr_of name) (cstr_of [46, 46]) = 0 then unlink_bad dp
     else
       bnd (dirlookup dv dp name) (\<lambda>r.
       case r of
         None \<Rightarrow> unlink_bad dp
       | Some (ip, off) \<Rightarrow>
           sq (ilock (Some ip))
          (bnd (gets (\<lambda>s. inodes s ip)) (\<lambda>m.
           if sint (i_nlink m) < 1 then panic ''unlink: nlink < 1''
           else
             bnd (if i_type m = T_DIR then isdirempty dv ip else ret True) (\<lambda>removable.
             if \<not> removable then sq (iunlockput ip) (unlink_bad dp)
             else unlink_entry dv dp ip off))))))))"

text \<open>\<^verbatim>\<open>create\<close> returns the inode locked.\<close>

definition create :: "'z kst_scheme devsw \<Rightarrow> uchar list \<Rightarrow> ushort \<Rightarrow> ushort \<Rightarrow> ushort \<Rightarrow> ('z kst_scheme, nat option) op" where
  "create dv path type major minor =
     bnd (nameiparent dv path) (\<lambda>r.
     case r of
       None \<Rightarrow> ret None
     | Some (dp, name) \<Rightarrow>
         sq (ilock (Some dp))
        (bnd (dirlookup dv dp name) (\<lambda>found.
         case found of
           Some (ip, _) \<Rightarrow>
             sq (iunlockput dp)
            (sq (ilock (Some ip))
            (bnd (gets (\<lambda>s. i_type (inodes s ip))) (\<lambda>t.
             if type = T_FILE \<and> t = T_FILE then ret (Some ip)
             else sq (iunlockput ip) (ret None))))
         | None \<Rightarrow>
             bnd (gets (\<lambda>s. i_dev (inodes s dp))) (\<lambda>dev.
             bnd (ialloc dev type) (\<lambda>ip.
             sq (ilock (Some ip))
            (sq (upd_inode ip (\<lambda>m. m\<lparr>i_major := major\<rparr>))
            (sq (upd_inode ip (\<lambda>m. m\<lparr>i_minor := minor\<rparr>))
            (sq (upd_inode ip (\<lambda>m. m\<lparr>i_nlink := 1\<rparr>))
            (sq (iupdate ip)
            (sq (whenM (type = T_DIR)
                   (sq (upd_inode dp (\<lambda>m. m\<lparr>i_nlink := i_nlink m + 1\<rparr>))
                   (sq (iupdate dp)
                   (bnd (bnd (gets (\<lambda>s. i_inum (inodes s ip))) (\<lambda>n. dirlink dv ip [46] n)) (\<lambda>l.
                    if l < 0 then panic ''create dots''
                    else
                      bnd (bnd (gets (\<lambda>s. i_inum (inodes s dp))) (\<lambda>n. dirlink dv ip [46, 46] n)) (\<lambda>l2.
                      whenM (l2 < 0) (panic ''create dots'')))))))
            (bnd (bnd (gets (\<lambda>s. i_inum (inodes s ip))) (\<lambda>n. dirlink dv dp name n)) (\<lambda>l.
             if l < 0 then panic ''create: dirlink''
             else
               sq (iunlockput dp)
                  (ret (Some ip))))))))))))))"

section \<open>Opening files\<close>

definition open_fd :: "uint \<Rightarrow> nat \<Rightarrow> ('z kst_scheme, int) op" where
  "open_fd omode ip =
     bnd filealloc (\<lambda>r.
     case r of
       None \<Rightarrow> sq (iunlockput ip) (ret (-1))
     | Some f \<Rightarrow>
         bnd (fdalloc f) (\<lambda>d.
         case d of
           None \<Rightarrow> sq (fileclose f) (sq (iunlockput ip) (ret (-1)))
         | Some fd \<Rightarrow>
             sq (iunlock (Some ip))
            (sq (upd_file f (\<lambda>x. x\<lparr>f_type := FD_INODE, f_ip := Some ip, f_off := 0,
                   f_readable := (omode AND 1 = 0), f_writable := (omode AND 1 \<noteq> 0 \<or> omode AND 2 \<noteq> 0)\<rparr>))
                (ret (int fd)))))"

definition sys_open :: "'z kst_scheme devsw \<Rightarrow> ('z kst_scheme, int) op" where
  "sys_open dv =
     need (argstr 0) (\<lambda>path.
     need (argint 1) (\<lambda>omode.
     if omode AND 0x200 \<noteq> 0 then
       sq begin_trans
      (bnd (create dv path T_FILE 0 0) (\<lambda>r.
       sq commit_trans
      (case r of
         None \<Rightarrow> ret (-1)
       | Some ip \<Rightarrow> open_fd omode ip)))
     else
       need (namei dv path) (\<lambda>ip.
       sq (ilock (Some ip))
      (bnd (gets (\<lambda>s. i_type (inodes s ip))) (\<lambda>t.
       if t = T_DIR \<and> omode \<noteq> 0 then sq (iunlockput ip) (ret (-1))
       else open_fd omode ip)))))"

definition trans_end :: "nat option \<Rightarrow> ('z kst_scheme, int) op" where
  "trans_end r =
     (case r of
        None \<Rightarrow> sq commit_trans (ret (-1))
      | Some ip \<Rightarrow> sq (iunlockput ip) (sq commit_trans (ret 0)))"

definition sys_mkdir :: "'z kst_scheme devsw \<Rightarrow> ('z kst_scheme, int) op" where
  "sys_mkdir dv =
     sq begin_trans
    (bnd (argstr 0) (\<lambda>p.
     bnd (case p of None \<Rightarrow> ret None | Some path \<Rightarrow> create dv path T_DIR 0 0) trans_end))"

definition sys_mknod :: "'z kst_scheme devsw \<Rightarrow> ('z kst_scheme, int) op" where
  "sys_mknod dv =
     sq begin_trans
    (bnd (argstr 0) (\<lambda>p.
     bnd (case p of
            None \<Rightarrow> ret None
          | Some path \<Rightarrow>
              bnd (argint 1) (\<lambda>r1.
              case r1 of
                None \<Rightarrow> ret None
              | Some major \<Rightarrow>
                  bnd (argint 2) (\<lambda>r2.
                  case r2 of
                    None \<Rightarrow> ret None
                  | Some minor \<Rightarrow> create dv path T_DEV (ucast major) (ucast minor)))) trans_end))"

definition sys_chdir :: "'z kst_scheme devsw \<Rightarrow> ('z kst_scheme, int) op" where
  "sys_chdir dv =
     need (argstr 0) (\<lambda>path.
     need (namei dv path) (\<lambda>ip.
     sq (ilock (Some ip))
    (bnd (gets (\<lambda>s. i_type (inodes s ip))) (\<lambda>t.
     if t \<noteq> T_DIR then sq (iunlockput ip) (ret (-1))
     else
       sq (iunlock (Some ip))
      (bnd curproc (\<lambda>me.
       sq (bnd (gets (\<lambda>s. cwd (procs s me))) (\<lambda>c. bnd (deref c) iput))
      (sq (upd_proc me (\<lambda>q. q\<lparr>cwd := Some ip\<rparr>))
          (ret 0))))))))"

text \<open>The loop of \<^verbatim>\<open>sys_exec\<close> collects fewer than \<^verbatim>\<open>MAXARG\<close> arguments.\<close>

primrec exec_args :: "nat \<Rightarrow> uint \<Rightarrow> ('z ptab_scheme, uchar list list option) op" where
  "exec_args 0 uargv = ret None"
| "exec_args (Suc k) uargv =
     bnd (fetchint uargv) (\<lambda>r.
     case r of
       None \<Rightarrow> ret None
     | Some uarg \<Rightarrow>
         if uarg = 0 then ret (Some [])
         else
           bnd (fetchstr uarg) (\<lambda>a.
           case a of
             None \<Rightarrow> ret None
           | Some arg \<Rightarrow> bnd (exec_args k (uargv + 4)) (\<lambda>rest. ret (map_option (\<lambda>as. arg # as) rest))))"

definition sys_exec :: "'z kst_scheme devsw \<Rightarrow> ('z kst_scheme, int) op" where
  "sys_exec dv =
     need (argstr 0) (\<lambda>path.
     need (argint 1) (\<lambda>uargv.
     need (exec_args MAXARG uargv) (\<lambda>argv.
     exec dv path argv)))"

definition sys_pipe :: "('z kst_scheme, int) op" where
  "sys_pipe =
     need (argptr 0 8) (\<lambda>fd.
     need pipealloc (\<lambda>(rf, wf).
     bnd (fdalloc rf) (\<lambda>r0.
     case r0 of
       None \<Rightarrow> sq (fileclose rf) (sq (fileclose wf) (ret (-1)))
     | Some fd0 \<Rightarrow>
         bnd (fdalloc wf) (\<lambda>r1.
         case r1 of
           None \<Rightarrow> sq (clear_fd fd0) (sq (fileclose rf) (sq (fileclose wf) (ret (-1))))
         | Some fd1 \<Rightarrow>
             sq (uwrite fd (bytes_of (of_nat fd0)))
            (sq (uwrite (fd + 4) (bytes_of (of_nat fd1)))
                (ret 0))))))"

end
