(* ===== verification/Trap.thy ===== *)
theory Trap
  imports Sysfile
begin

text \<open>
  Entry into the kernel: the dispatch of system calls (\<^verbatim>\<open>src/syscall.c\<close>), traps and interrupts
  (\<^verbatim>\<open>src/trap.c\<close>) and the start of the kernel (\<^verbatim>\<open>src/main.c\<close>).

  The number of the CPU and the fault address (\<^verbatim>\<open>cr2\<close>) are arguments.  The disk is the memory disk, whose
  interrupt handler does nothing.
\<close>

section \<open>System calls\<close>

definition syscalls :: "('z kst_scheme, int) op option list" where
  "syscalls =
     [None, Some sys_fork, Some sys_exit, Some sys_wait, Some sys_pipe, Some (sys_read devsw), Some sys_kill,
      Some (sys_exec devsw), Some sys_fstat, Some (sys_chdir devsw), Some sys_dup, Some sys_getpid, Some sys_sbrk,
      Some sys_sleep, Some sys_uptime, Some (sys_open devsw), Some (sys_write devsw), Some (sys_mknod devsw),
      Some (sys_unlink devsw), Some (sys_link devsw), Some (sys_mkdir devsw), Some sys_close, Some (sys_lseek devsw),
      Some sys_isatty, Some sys_procstat, Some sys_set_priority, Some sys_semget, Some sys_semfree, Some sys_semdown,
      Some sys_semup, Some sys_shm_create, Some sys_shm_close, Some sys_shm_get]"

definition set_eax :: "uint \<Rightarrow> ('z procst_scheme, unit) op" where
  "set_eax v =
     bnd curproc (\<lambda>me.
     bnd (gets (\<lambda>s. tf (procs s me))) (\<lambda>t.
     store (t + tf_eax) v))"

definition unknown_call :: "int \<Rightarrow> ('z kst_scheme, unit) op" where
  "unknown_call num =
     bnd curproc (\<lambda>me.
     bnd (gets (\<lambda>s. procs s me)) (\<lambda>q.
     sq (cprintf (''%d %s: unknown sys call %d'' @ [CHR 0x0A])
           [Num (of_int (pid q)), Str (Some (name_bytes (pname q))), Num (of_int num)])
        (set_eax (- 1))))"

definition syscall :: "('z kst_scheme, unit) op" where
  "syscall =
     bnd curproc (\<lambda>me.
     bnd (gets (\<lambda>s. tf (procs s me))) (\<lambda>t.
     bnd (load (t + tf_eax)) (\<lambda>eax.
     let num = sint eax in
     if num > 0 \<and> num < int (length (syscalls :: ('z kst_scheme, int) op option list)) then
       (case syscalls ! nat num of
          Some f \<Rightarrow> bnd f (\<lambda>r. set_eax (of_int r))
        | None \<Rightarrow> unknown_call num)
     else unknown_call num)))"

section \<open>Traps\<close>

definition tvinit :: "('z kst_scheme, unit) op" where
  "tvinit = modify (\<lambda>s. s\<lparr>cpust := (cpust s)\<lparr>lks := (lks (cpust s))(TicksLock := initlock)\<rparr>\<rparr>)"

definition exit_if_killed :: "('z kst_scheme, unit) op" where
  "exit_if_killed =
     bnd curproc (\<lambda>me.
     bnd (gets (\<lambda>s. killed (procs s me))) (\<lambda>kl.
     whenM kl exit))"

definition trap_syscall :: "uint \<Rightarrow> ('z kst_scheme, unit) op" where
  "trap_syscall t =
     sq exit_if_killed
    (sq (bnd curproc (\<lambda>me. upd_proc me (\<lambda>q. q\<lparr>tf := t\<rparr>)))
    (sq syscall
        exit_if_killed))"

definition trap_timer :: "uint \<Rightarrow> ('z kst_scheme, unit) op" where
  "trap_timer cpu =
     whenM (cpu = 0)
       (sq (acquire TicksLock)
       (sq (modify (\<lambda>s. s\<lparr>ticks := ticks s + 1\<rparr>))
       (sq (wakeup ChanTicks)
           (release TicksLock))))"

definition trap_default :: "uint \<Rightarrow> uint \<Rightarrow> uint \<Rightarrow> ('z kst_scheme, unit) op" where
  "trap_default cpu cr2 t =
     bnd (gets (\<lambda>s. (cur s, ld16 (mem s) (t + tf_cs), ld32 (mem s) (t + tf_trapno), ld32 (mem s) (t + tf_err), ld32 (mem s) (t + tf_eip))))
    (\<lambda>(c, cs, trapno, err, eip).
     case c of
       Some me \<Rightarrow>
         if cs AND 3 = 0 then
           sq (cprintf (''unexpected trap %d from cpu %d eip %x (cr2=0x%x)'' @ [CHR 0x0A]) [Num trapno, Num cpu, Num eip, Num cr2])
              (panic ''trap'')
         else
           bnd (gets (\<lambda>s. procs s me)) (\<lambda>q.
           sq (cprintf (''pid %d %s: trap %d err %d on cpu %d eip 0x%x addr 0x%x--kill proc'' @ [CHR 0x0A])
                 [Num (of_int (pid q)), Str (Some (name_bytes (pname q))), Num trapno, Num err, Num cpu, Num eip, Num cr2])
              (upd_proc me (\<lambda>q. q\<lparr>killed := True\<rparr>)))
     | None \<Rightarrow>
         sq (cprintf (''unexpected trap %d from cpu %d eip %x (cr2=0x%x)'' @ [CHR 0x0A]) [Num trapno, Num cpu, Num eip, Num cr2])
            (panic ''trap''))"

definition trap_spurious :: "uint \<Rightarrow> uint \<Rightarrow> ('z kst_scheme, unit) op" where
  "trap_spurious cpu t =
     bnd (gets (\<lambda>s. (ld16 (mem s) (t + tf_cs), ld32 (mem s) (t + tf_eip)))) (\<lambda>(cs, eip).
     cprintf (''cpu%d: spurious interrupt at %x:%x'' @ [CHR 0x0A]) [Num cpu, Num (ucast cs), Num eip])"

text \<open>A process killed while in user space exits; in the kernel it keeps running until it returns.\<close>

definition exit_if_user :: "uint \<Rightarrow> ('z kst_scheme, unit) op" where
  "exit_if_user t =
     bnd (gets cur) (\<lambda>c.
     case c of
       None \<Rightarrow> ret ()
     | Some me \<Rightarrow>
         bnd (gets (\<lambda>s. killed (procs s me) \<and> ld16 (mem s) (t + tf_cs) AND 3 = 3)) (\<lambda>k.
         whenM k exit))"

text \<open>The quantum: on the sixth tick since it was scheduled a running process yields.\<close>

definition trap_quantum :: "uint \<Rightarrow> ('z kst_scheme, unit) op" where
  "trap_quantum trapno =
     bnd (gets cur) (\<lambda>c.
     case c of
       None \<Rightarrow> ret ()
     | Some me \<Rightarrow>
         bnd (gets (\<lambda>s. pstate (procs s me))) (\<lambda>st.
         whenM (st = RUNNING \<and> trapno = 32)
           (sq (upd_proc me (\<lambda>q. q\<lparr>ticksProc := ticksProc q + 1\<rparr>))
           (bnd (gets (\<lambda>s. ticksProc (procs s me))) (\<lambda>n.
            whenM (n = QUANTUM) yield)))))"

definition trap :: "uint \<Rightarrow> uint \<Rightarrow> uint \<Rightarrow> ('z kst_scheme, unit) op" where
  "trap cpu cr2 t =
     bnd (load (t + tf_trapno)) (\<lambda>trapno.
     if trapno = 64 then trap_syscall t
     else
       sq (if trapno = 32 then trap_timer cpu
           else if trapno = 46 then ret ()
           else if trapno = 47 then ret ()
           else if trapno = 33 then kbdintr
           else if trapno = 36 then uartintr
           else if trapno = 39 \<or> trapno = 63 then trap_spurious cpu t
           else trap_default cpu cr2 t)
      (sq (exit_if_user t)
      (sq (trap_quantum trapno)
          (exit_if_user t))))"

text \<open>After \<^verbatim>\<open>yield\<close> returns, the end of \<^verbatim>\<open>trap\<close> runs.\<close>

definition trap_resume :: "bool \<Rightarrow> uint \<Rightarrow> ('z kst_scheme, unit) op" where
  "trap_resume ie t = sq (yield_resume ie) (exit_if_user t)"

section \<open>Starting the kernel\<close>

text \<open>
  \<^verbatim>\<open>main\<close> on the boot processor.  The arguments are the linker symbols for the file system image and the first program, and whether a serial port answers.  Setting up the segments and the interrupt controllers, and starting
  other processors, change nothing of this state.
\<close>

definition mpmain :: "uint \<Rightarrow> ('z kst_scheme, nat option) op" where
  "mpmain cpu = sq (cprintf (''cpu%d: starting'' @ [CHR 0x0A]) [Num cpu]) scheduler"

definition main :: "(uint \<Rightarrow> block) \<Rightarrow> uint \<Rightarrow> uint \<Rightarrow> uint \<Rightarrow> bool \<Rightarrow> ('z kst_scheme, nat option) op" where
  "main img imgsize initcode initsize serial =
     sq (bnd (gets kend) (\<lambda>e. kinit1 e (p2v 0x400000)))
    (sq kvmalloc
    (sq (cprintf ([CHR 0x0A] @ ''cpu%d: starting xv6'' @ [CHR 0x0A, CHR 0x0A]) [Num 0])
    (sq consoleinit
    (sq (uartinit serial)
    (sq pinit
    (sq tvinit
    (sq binit
    (sq fileinit
    (sq iinit
    (sq (memide_init img imgsize)
    (sq (kinit2 (p2v 0x400000) (p2v PHYSTOP))
    (sq (userinit devsw initcode initsize)
        (mpmain 0)))))))))))))"

end
