(* ===== verification/Ide.thy ===== *)
theory Ide
  imports Bio
begin

text \<open>
  The interrupt-driven disk driver (\<^verbatim>\<open>src/ide.c\<close>), the other implementation of \<^verbatim>\<open>iderw\<close>: requests wait in a
  queue linked through \<^verbatim>\<open>qnext\<close>, the disk works on the first one, and its interrupt completes it.

  Of the controller the model has the command it was given last: the drive, the sector and whether it is a
  write.  A write command is followed by the 512 bytes, which go to the sector; the bytes that \<^verbatim>\<open>insl\<close> reads after a
  read command are those of the sector.  Whether the status register shows an error is an argument of
  \<open>ideintr\<close>.
\<close>

section \<open>State\<close>

record idest = bcst +
  idequeue :: "nat option"
  havedisk1 :: bool
  ide_cmd :: "(uint \<times> uint \<times> bool) option"
  drives :: "uint \<Rightarrow> uint \<Rightarrow> block"

section \<open>Operations\<close>

definition ideinit :: "bool \<Rightarrow> ('z idest_scheme, unit) op" where
  "ideinit present =
     sq (modify (\<lambda>s. s\<lparr>cpust := (cpust s)\<lparr>lks := (lks (cpust s))(IdeLock := initlock)\<rparr>\<rparr>))
        (whenM present (modify (\<lambda>s. s\<lparr>havedisk1 := True\<rparr>)))"

text \<open>The drive is one bit of the device number, and the sector number has 28 bits.\<close>

definition idestart :: "nat option \<Rightarrow> ('z idest_scheme, unit) op" where
  "idestart p =
     (case p of
        None \<Rightarrow> panic ''idestart''
      | Some b \<Rightarrow>
          bnd (gets (\<lambda>s. bufs s b)) (\<lambda>m.
          let drive = b_dev m AND 1; sector = b_sector m AND 0x0fffffff in
          if b_dirty m then
            modify (\<lambda>s. s\<lparr>ide_cmd := Some (drive, sector, True),
              drives := (drives s)(drive := (drives s drive)(sector := b_data m))\<rparr>)
          else modify (\<lambda>s. s\<lparr>ide_cmd := Some (drive, sector, False)\<rparr>)))"

definition ide_insl :: "nat \<Rightarrow> ('z idest_scheme, unit) op" where
  "ide_insl b =
     bnd (gets (\<lambda>s. (ide_cmd s, drives s))) (\<lambda>(c, ds).
     case c of
       None \<Rightarrow> undef ''insl: no command''
     | Some (drive, sector, _) \<Rightarrow> upd_buf b (\<lambda>m. m\<lparr>b_data := ds drive sector\<rparr>))"

definition ideintr :: "bool \<Rightarrow> ('z idest_scheme, unit) op" where
  "ideintr ok =
     sq (acquire IdeLock)
    (bnd (gets idequeue) (\<lambda>q.
     case q of
       None \<Rightarrow> release IdeLock
     | Some b \<Rightarrow>
         sq (modify (\<lambda>s. s\<lparr>idequeue := b_qnext (bufs s b)\<rparr>))
        (bnd (gets (\<lambda>s. b_dirty (bufs s b))) (\<lambda>d.
         sq (whenM (\<not> d \<and> ok) (ide_insl b))
        (sq (upd_buf b (\<lambda>m. m\<lparr>b_valid := True\<rparr>))
        (sq (upd_buf b (\<lambda>m. m\<lparr>b_dirty := False\<rparr>))
        (sq (wakeup (ChanBuf b))
        (bnd (gets idequeue) (\<lambda>q'.
         sq (whenM (q' \<noteq> None) (idestart q'))
            (release IdeLock))))))))))"

text \<open>
  Appending to the queue: the last buffer of the walk from the head along \<^verbatim>\<open>qnext\<close>.  There are \<open>NBUF\<close> buffers,
  so a walk of more steps runs in a circle.
\<close>

fun queue_end :: "nat \<Rightarrow> (nat \<Rightarrow> nat option) \<Rightarrow> nat \<Rightarrow> nat option" where
  "queue_end 0 nxt b = None"
| "queue_end (Suc n) nxt b = (case nxt b of None \<Rightarrow> Some b | Some b' \<Rightarrow> queue_end n nxt b')"

definition ide_append :: "nat \<Rightarrow> ('z idest_scheme, unit) op" where
  "ide_append b =
     bnd (gets (\<lambda>s. (idequeue s, bufs s))) (\<lambda>(q, bs).
     case q of
       None \<Rightarrow> modify (\<lambda>s. s\<lparr>idequeue := Some b\<rparr>)
     | Some h \<Rightarrow>
         (case queue_end NBUF (\<lambda>i. b_qnext (bs i)) h of
            None \<Rightarrow> (\<lambda>s. Spin)
          | Some l \<Rightarrow> upd_buf l (\<lambda>m. m\<lparr>b_qnext := Some b\<rparr>)))"

definition ide_wait :: "nat \<Rightarrow> ('z idest_scheme, unit) op" where
  "ide_wait b =
     bnd (gets (\<lambda>s. b_valid (bufs s b) \<and> \<not> b_dirty (bufs s b))) (\<lambda>complete.
     if complete then release IdeLock
     else sleep (ChanBuf b) IdeLock)"

definition ide_rw :: "nat \<Rightarrow> ('z idest_scheme, unit) op" where
  "ide_rw b =
     bnd (gets (\<lambda>s. bufs s b)) (\<lambda>m.
     bnd (gets havedisk1) (\<lambda>have1.
     if \<not> b_busy m then panic ''iderw: buf not busy''
     else if b_valid m \<and> \<not> b_dirty m then panic ''iderw: nothing to do''
     else if b_dev m \<noteq> 0 \<and> \<not> have1 then panic ''iderw: ide disk 1 not present''
     else
       sq (acquire IdeLock)
      (sq (upd_buf b (\<lambda>m. m\<lparr>b_qnext := None\<rparr>))
      (sq (ide_append b)
      (bnd (gets idequeue) (\<lambda>q.
       sq (whenM (q = Some b) (idestart (Some b)))
          (ide_wait b)))))))"

definition ide_rw_resume :: "bool \<Rightarrow> nat \<Rightarrow> ('z idest_scheme, unit) op" where
  "ide_rw_resume ie b = sq (sleep_resume ie IdeLock) (ide_wait b)"

end
