(* ===== verification/Bcache.thy ===== *)
theory Bcache
  imports Bio Blocking
begin

text \<open>
  Correctness of the buffer cache: the list of buffers stays a doubly linked ring, no sector has two buffers,
  a buffer that nobody holds and that is not dirty agrees with the disk, and so \<^verbatim>\<open>bread\<close>, \<^verbatim>\<open>bwrite\<close> and \<^verbatim>\<open>brelse\<close>
  implement a store of blocks.  The contract is the locale \<open>block_cache\<close>; what its clients do with several
  blocks is proved inside it.
\<close>

section \<open>Doubly linked lists\<close>

fun linked :: "(nat \<Rightarrow> nat) \<Rightarrow> (nat \<Rightarrow> nat) \<Rightarrow> nat list \<Rightarrow> bool" where
  "linked nxt prv (a # b # l) \<longleftrightarrow> nxt a = b \<and> prv b = a \<and> linked nxt prv (b # l)"
| "linked nxt prv l \<longleftrightarrow> True"

lemma linked_append: "linked nxt prv (l @ a # r) \<longleftrightarrow> linked nxt prv (l @ [a]) \<and> linked nxt prv (a # r)"
proof (induction l)
  case (Cons x l)
  then show ?case by (cases l) auto
qed simp

lemma linked_cong:
  assumes "\<And>x. x \<in> set (butlast l) \<Longrightarrow> nxt x = nxt' x" and "\<And>x. x \<in> set (tl l) \<Longrightarrow> prv x = prv' x"
  shows "linked nxt prv l = linked nxt' prv' l"
  using assms
proof (induction nxt prv l rule: linked.induct)
  case (1 nxt prv a b l)
  have "linked nxt prv (b # l) = linked nxt' prv' (b # l)"
    using 1 by (cases l) auto
  then show ?case using 1(2) [of a] 1(3) [of b] by auto
qed simp_all

lemma linked_rev: "linked prv nxt (rev l) = linked nxt prv l"
proof (induction l rule: induct_list012)
  case (3 x y zs)
  then show ?case using linked_append [of prv nxt "rev zs" y "[x]"] by auto
qed simp_all

text \<open>Taking a cell out, and putting one in after the first.\<close>

lemma linked_unlink:
  assumes "linked nxt prv (l @ b # r)" and "l \<noteq> []" and "r \<noteq> []"
    and "last l \<notin> set (butlast l) \<union> set (butlast r)" and "hd r \<notin> set (tl r) \<union> set (tl l)"
  shows "linked (nxt(last l := hd r)) (prv(hd r := last l)) (l @ r)"
proof -
  obtain l' a where l: "l = l' @ [a]" using assms(2) by (metis append_butlast_last_id)
  obtain c r' where r: "r = c # r'" using assms(3) by (cases r) auto
  have "linked nxt prv (l' @ [a])" "linked nxt prv (c # r')"
    using assms(1) linked_append [of nxt prv l' a "b # r"] linked_append [of nxt prv "[a, b]" c r'] by (simp_all add: l r)
  moreover have "linked (nxt(a := c)) (prv(c := a)) (l' @ [a]) = linked nxt prv (l' @ [a])"
    using assms(4,5) by (intro linked_cong) (auto simp: l r)
  moreover have "linked (nxt(a := c)) (prv(c := a)) (c # r') = linked nxt prv (c # r')"
    using assms(4,5) by (intro linked_cong) (auto simp: l r)
  ultimately show ?thesis
    using linked_append [of "nxt(a := c)" "prv(c := a)" l' a "c # r'"] by (simp add: l r)
qed

lemma linked_push:
  assumes "linked nxt prv (h # r)" and "r \<noteq> []" and "h \<notin> set (butlast r)" and "hd r \<notin> set (tl r)" and "b \<notin> set (h # r)"
  shows "linked (nxt(b := hd r, h := b)) (prv(b := h, hd r := b)) (h # b # r)"
proof -
  obtain c r' where r: "r = c # r'" using assms(2) by (cases r) auto
  have "linked (nxt(b := c, h := b)) (prv(b := h, c := b)) (c # r') = linked nxt prv (c # r')"
    using assms(3,4,5) by (intro linked_cong) (auto simp: r dest: in_set_butlastD split: if_splits)
  then show ?thesis using assms(1,5) by (auto simp: r)
qed

lemma bwalk_linked:
  assumes "linked nxt prv (a # xs @ [NBUF])" and "NBUF \<notin> set xs" and "length xs < n"
  shows "bwalk n nxt P (nxt a) = Some (find P xs)"
  using assms
proof (induction xs arbitrary: a n)
  case Nil
  then obtain n' where "n = Suc n'" by (cases n) auto
  with Nil show ?case by simp
next
  case (Cons x xs)
  then obtain n' where n: "n = Suc n'" by (cases n) auto
  show ?case using Cons.IH [of x n'] Cons.prems by (auto simp: n)
qed

section \<open>The invariant\<close>

definition lru :: "nat list \<Rightarrow> (nat \<Rightarrow> buf) \<Rightarrow> bool" where
  "lru xs bs \<longleftrightarrow> linked (\<lambda>b. b_next (bs b)) (\<lambda>b. b_prev (bs b)) (NBUF # xs @ [NBUF]) \<and> distinct xs \<and> set xs = {0..<NBUF}"

lemma lru_walk:
  assumes "lru xs bs"
  shows "bwalk (NBUF + 1) (\<lambda>b. b_next (bs b)) P (b_next (bs NBUF)) = Some (find P xs)"
    and "bwalk (NBUF + 1) (\<lambda>b. b_prev (bs b)) P (b_prev (bs NBUF)) = Some (find P (rev xs))"
proof -
  have len: "length xs = NBUF" using assms distinct_card [of xs] by (simp add: lru_def)
  have l: "linked (\<lambda>b. b_next (bs b)) (\<lambda>b. b_prev (bs b)) (NBUF # xs @ [NBUF])" and n: "NBUF \<notin> set xs"
    using assms by (simp_all add: lru_def)
  show "bwalk (NBUF + 1) (\<lambda>b. b_next (bs b)) P (b_next (bs NBUF)) = Some (find P xs)"
    using bwalk_linked [OF l n] len by simp
  have "linked (\<lambda>b. b_prev (bs b)) (\<lambda>b. b_next (bs b)) (NBUF # rev xs @ [NBUF])"
    using l linked_rev [of "\<lambda>b. b_prev (bs b)" "\<lambda>b. b_next (bs b)" "NBUF # xs @ [NBUF]"] by simp
  from bwalk_linked [OF this] show "bwalk (NBUF + 1) (\<lambda>b. b_prev (bs b)) P (b_prev (bs NBUF)) = Some (find P (rev xs))"
    using n len by simp
qed

lemma lru_cong:
  assumes "\<And>b. b_next (bs' b) = b_next (bs b)" "\<And>b. b_prev (bs' b) = b_prev (bs b)"
  shows "lru xs bs' = lru xs bs"
  by (simp add: lru_def assms)

text \<open>A buffer without its links.\<close>

definition payload :: "buf \<Rightarrow> buf" where
  "payload m = m\<lparr>b_prev := 0, b_next := 0\<rparr>"

lemma payload_eqD:
  assumes "payload m = payload m'"
  shows "b_busy m = b_busy m'" "b_valid m = b_valid m'" "b_dirty m = b_dirty m'" "b_dev m = b_dev m'"
    "b_sector m = b_sector m'" "b_data m = b_data m'"
  using assms by (cases m; cases m'; simp add: payload_def)+

text \<open>
  A buffer holds a block of the disk, or nothing yet.  Only the block that somebody holds, or that waits to be
  written, may differ from the disk.
\<close>

definition buf_ok :: "(uint \<Rightarrow> block) \<Rightarrow> uint \<Rightarrow> buf \<Rightarrow> bool" where
  "buf_ok d sz m \<longleftrightarrow>
     (if b_valid m then b_dev m = 1 \<and> b_sector m < sz \<and> (\<not> b_busy m \<and> \<not> b_dirty m \<longrightarrow> b_data m = d (b_sector m))
      else \<not> b_busy m \<and> \<not> b_dirty m \<and> b_dev m = -1)"

definition bc_inv :: "'z bcst_scheme \<Rightarrow> bool" where
  "bc_inv s \<longleftrightarrow>
     (\<exists>xs. lru xs (bufs s)) \<and> (\<forall>b < NBUF. buf_ok (disk s) (disksize s) (bufs s b)) \<and>
     (\<forall>a < NBUF. \<forall>b < NBUF. b_valid (bufs s a) \<longrightarrow> b_valid (bufs s b) \<longrightarrow> b_sector (bufs s a) = b_sector (bufs s b) \<longrightarrow> a = b)"

lemma bc_inv_ok: "bc_inv s \<Longrightarrow> b < NBUF \<Longrightarrow> buf_ok (disk s) (disksize s) (bufs s b)"
  unfolding bc_inv_def by blast

lemma bc_inv_uniq:
  "bc_inv s \<Longrightarrow> a < NBUF \<Longrightarrow> b < NBUF \<Longrightarrow> b_valid (bufs s a) \<Longrightarrow> b_valid (bufs s b) \<Longrightarrow>
     b_sector (bufs s a) = b_sector (bufs s b) \<Longrightarrow> a = b"
  unfolding bc_inv_def by blast

text \<open>The buffer of a sector, and the contents of the store as its users see them.\<close>

definition cached :: "uint \<Rightarrow> 'z bcst_scheme \<Rightarrow> nat option" where
  "cached sec s = scan (\<lambda>b. b_valid (bufs s b) \<and> b_sector (bufs s b) = sec) NBUF"

definition view :: "'z bcst_scheme \<Rightarrow> uint \<Rightarrow> block" where
  "view s sec = (case cached sec s of None \<Rightarrow> disk s sec | Some b \<Rightarrow> b_data (bufs s b))"

lemma cached_Some:
  assumes "bc_inv s"
  shows "cached sec s = Some b \<longleftrightarrow> b < NBUF \<and> b_valid (bufs s b) \<and> b_sector (bufs s b) = sec"
proof
  assume "cached sec s = Some b"
  then show "b < NBUF \<and> b_valid (bufs s b) \<and> b_sector (bufs s b) = sec"
    unfolding cached_def by (auto dest: scan_SomeD)
next
  assume b: "b < NBUF \<and> b_valid (bufs s b) \<and> b_sector (bufs s b) = sec"
  then obtain b' where b': "cached sec s = Some b'"
    unfolding cached_def by (cases "scan (\<lambda>b. b_valid (bufs s b) \<and> b_sector (bufs s b) = sec) NBUF") (auto simp: scan_None_iff)
  then have "b' < NBUF" "b_valid (bufs s b')" "b_sector (bufs s b') = sec" unfolding cached_def by (auto dest: scan_SomeD)
  with b b' bc_inv_uniq [OF assms, of b b'] show "cached sec s = Some b" by simp
qed

lemma cached_None:
  "cached sec s = None \<longleftrightarrow> (\<forall>b < NBUF. \<not> (b_valid (bufs s b) \<and> b_sector (bufs s b) = sec))"
  by (simp add: cached_def scan_None_iff)

lemma view_eq:
  assumes "bc_inv s"
  shows "b < NBUF \<Longrightarrow> b_valid (bufs s b) \<Longrightarrow> b_sector (bufs s b) = sec \<Longrightarrow> view s sec = b_data (bufs s b)"
    and "(\<And>b. b < NBUF \<Longrightarrow> \<not> (b_valid (bufs s b) \<and> b_sector (bufs s b) = sec)) \<Longrightarrow> view s sec = disk s sec"
proof -
  show "view s sec = b_data (bufs s b)" if "b < NBUF" "b_valid (bufs s b)" "b_sector (bufs s b) = sec"
    using cached_Some [OF assms, of sec b] that by (simp add: view_def)
  show "view s sec = disk s sec" if "\<And>b. b < NBUF \<Longrightarrow> \<not> (b_valid (bufs s b) \<and> b_sector (bufs s b) = sec)"
    using cached_None [of sec s] that by (simp add: view_def)
qed

text \<open>The sectors held and the buffer each is held in; the sectors that wait to be written.\<close>

definition held :: "'z bcst_scheme \<Rightarrow> nat \<Rightarrow> uint option" where
  "held s b = (if b < NBUF \<and> b_busy (bufs s b) then Some (b_sector (bufs s b)) else None)"

definition dirty :: "'z bcst_scheme \<Rightarrow> uint set" where
  "dirty s = {b_sector (bufs s b) | b. b < NBUF \<and> b_dirty (bufs s b)}"

definition pinned :: "'z bcst_scheme \<Rightarrow> nat set" where
  "pinned s = {b. b < NBUF \<and> (b_busy (bufs s b) \<or> b_dirty (bufs s b))}"

section \<open>Getting a buffer\<close>

lemma find_mem:
  "find P xs = Some x \<Longrightarrow> x \<in> set xs \<and> P x"
  by (induction xs) (auto split: if_splits)

lemma find_none: "find P xs = None \<longleftrightarrow> (\<forall>x \<in> set xs. \<not> P x)"
  by (induction xs) auto

text \<open>The state after a buffer was changed.\<close>

definition with_buf :: "nat \<Rightarrow> buf \<Rightarrow> 'z bcst_scheme \<Rightarrow> 'z bcst_scheme" where
  "with_buf b m s = s\<lparr>bufs := (bufs s)(b := m)\<rparr>"

lemma with_buf_sel [simp]:
  "bufs (with_buf b m s) = (bufs s)(b := m)" "disk (with_buf b m s) = disk s" "disksize (with_buf b m s) = disksize s"
  "disk_writes (with_buf b m s) = disk_writes s" "cpust (with_buf b m s) = cpust s" "procs (with_buf b m s) = procs s"
  "cur (with_buf b m s) = cur s" "mlf (with_buf b m s) = mlf s" "with_buf b m' (with_buf b m s) = with_buf b m' s"
  "with_buf b (bufs s b) s = s"
  by (simp_all add: with_buf_def)

lemma with_buf_cpust: "with_buf b m (s\<lparr>cpust := k\<rparr>) = (with_buf b m s)\<lparr>cpust := k\<rparr>"
  by (simp add: with_buf_def)

lemma upd_buf_run [op_simps]: "upd_buf b f s = Ret () (with_buf b (f (bufs s b)) s)"
  by (simp add: upd_buf_def modify_apply with_buf_def)

lemma sq_upd_buf: "sq (upd_buf b f) k s = k (with_buf b (f (bufs s b)) s)"
  by (simp add: upd_buf_run sq_Ret)

lemmas buf_ops = bnd_gets sq_modify sq_upd_buf basic_ops upd_buf_run

text \<open>\<^verbatim>\<open>bget\<close> on a cached sector that nobody holds, and on one that is not cached.\<close>

lemma bget_hit:
  assumes i: "bc_inv s" and c: "caller BcacheLock p s" and b: "b < NBUF" "b_valid (bufs s b)" "b_sector (bufs s b) = sec"
    and n: "\<not> b_busy (bufs s b)"
  shows "bget 1 sec s = Ret b (with_buf b ((bufs s b)\<lparr>b_busy := True\<rparr>) s\<lparr>cpust := settled (cpust s)\<rparr>)"
proof -
  obtain xs where xs: "lru xs (bufs s)" using i by (auto simp: bc_inv_def)
  let ?P = "\<lambda>b. b_dev (bufs s b) = 1 \<and> b_sector (bufs s b) = sec"
  have "?P b" using bc_inv_ok [OF i b(1)] b by (simp add: buf_ok_def)
  have un: "x = b" if "x < NBUF" "?P x" for x
    using bc_inv_ok [OF i that(1)] that b bc_inv_uniq [OF i that(1) b(1)] by (auto simp: buf_ok_def split: if_splits)
  have "find ?P xs = Some b"
  proof (cases "find ?P xs")
    case None
    then show ?thesis using \<open>?P b\<close> b(1) xs by (auto simp: find_none lru_def)
  next
    case (Some x)
    then show ?thesis using find_mem [OF Some] un [of x] xs by (auto simp: lru_def)
  qed
  then show ?thesis
    using lru_walk(1) [OF xs, of ?P] n callerD [OF c]
    by (simp add: bget_def bget_loop_def caller_acquire [OF c] buf_ops release_acq with_buf_cpust)
qed

lemma bget_miss:
  assumes i: "bc_inv s" and c: "caller BcacheLock p s"
    and m: "\<And>b. b < NBUF \<Longrightarrow> \<not> (b_valid (bufs s b) \<and> b_sector (bufs s b) = sec)" and f: "pinned s \<noteq> {0..<NBUF}"
  shows "\<exists>b < NBUF. \<not> b_busy (bufs s b) \<and> \<not> b_dirty (bufs s b) \<and>
    bget 1 sec s = Ret b (with_buf b ((bufs s b)\<lparr>b_dev := 1, b_sector := sec, b_busy := True, b_valid := False, b_dirty := False\<rparr>) s
      \<lparr>cpust := settled (cpust s)\<rparr>)"
proof -
  obtain xs where xs: "lru xs (bufs s)" using i by (auto simp: bc_inv_def)
  let ?P = "\<lambda>b. b_dev (bufs s b) = 1 \<and> b_sector (bufs s b) = sec"
  let ?Q = "\<lambda>b. \<not> b_busy (bufs s b) \<and> \<not> b_dirty (bufs s b)"
  have "\<not> ?P x" if "x < NBUF" for x
    using bc_inv_ok [OF i that] m [OF that] by (auto simp: buf_ok_def split: if_splits)
  then have fP: "find ?P xs = None" using xs by (auto simp: find_none lru_def)
  have "\<exists>y < NBUF. ?Q y"
  proof (rule ccontr)
    assume "\<not> (\<exists>y < NBUF. ?Q y)"
    then have "pinned s = {0..<NBUF}" by (auto simp: pinned_def)
    with f show False ..
  qed
  then obtain b where fQ: "find ?Q (rev xs) = Some b"
    using xs by (cases "find ?Q (rev xs)") (auto simp: find_none lru_def)
  have b: "b < NBUF" "?Q b" using find_mem [OF fQ] xs by (auto simp: lru_def)
  have "bget 1 sec s = Ret b (with_buf b ((bufs s b)\<lparr>b_dev := 1, b_sector := sec, b_busy := True, b_valid := False, b_dirty := False\<rparr>) s
      \<lparr>cpust := settled (cpust s)\<rparr>)"
    using lru_walk(1) [OF xs, of ?P] lru_walk(2) [OF xs, of ?Q] fP fQ callerD [OF c]
    by (simp add: bget_def bget_loop_def caller_acquire [OF c] buf_ops release_acq with_buf_cpust)
  with b show ?thesis by blast
qed

text \<open>The disk operations on a buffer that is held.\<close>

lemma iderw_read:
  assumes "b_busy (bufs s b)" "\<not> b_valid (bufs s b)" "\<not> b_dirty (bufs s b)" "b_dev (bufs s b) = 1"
    and "b_sector (bufs s b) < disksize s"
  shows "iderw b s = Ret () (with_buf b ((bufs s b)\<lparr>b_data := disk s (b_sector (bufs s b)), b_valid := True\<rparr>) s)"
  using assms(1-4) assms(5) [folded linorder_not_le] by (simp add: iderw_def buf_ops)

lemma iderw_write:
  assumes "b_busy (bufs s b)" "b_dirty (bufs s b)" "b_dev (bufs s b) = 1" and "b_sector (bufs s b) < disksize s"
  shows "iderw b s = Ret () (with_buf b ((bufs s b)\<lparr>b_dirty := False, b_valid := True\<rparr>) s
    \<lparr>disk := (disk s)(b_sector (bufs s b) := b_data (bufs s b)),
      disk_writes := disk_writes s @ [(b_sector (bufs s b), b_data (bufs s b))]\<rparr>)"
  using assms(1-3) assms(4) [folded linorder_not_le] by (simp add: iderw_def buf_ops) (simp add: with_buf_def)

text \<open>\<^verbatim>\<open>bread\<close>: the buffer keeps its contents, or is filled from the disk.\<close>

definition bread_hit :: "uint \<Rightarrow> nat \<Rightarrow> 'z bcst_scheme \<Rightarrow> buf \<Rightarrow> bool" where
  "bread_hit sec b s m \<longleftrightarrow> b_valid (bufs s b) \<and> b_sector (bufs s b) = sec \<and> m = (bufs s b)\<lparr>b_busy := True\<rparr>"

definition bread_fill :: "uint \<Rightarrow> nat \<Rightarrow> 'z bcst_scheme \<Rightarrow> buf \<Rightarrow> bool" where
  "bread_fill sec b s m \<longleftrightarrow> \<not> b_dirty (bufs s b) \<and> cached sec s = None \<and>
     m = (bufs s b)\<lparr>b_busy := True, b_valid := True, b_dirty := False, b_dev := 1, b_sector := sec, b_data := disk s sec\<rparr>"

lemma bread_exec:
  assumes i: "bc_inv s" and c: "caller BcacheLock p s" and sz: "sec < disksize s"
    and n: "\<And>b. b < NBUF \<Longrightarrow> b_valid (bufs s b) \<Longrightarrow> b_sector (bufs s b) = sec \<Longrightarrow> \<not> b_busy (bufs s b)"
    and f: "cached sec s \<noteq> None \<or> pinned s \<noteq> {0..<NBUF}"
  shows "\<exists>b m. b < NBUF \<and> \<not> b_busy (bufs s b) \<and> (bread_hit sec b s m \<or> bread_fill sec b s m) \<and>
    bread 1 sec s = Ret b (with_buf b m s\<lparr>cpust := settled (cpust s)\<rparr>)"
proof (cases "cached sec s")
  case (Some b)
  then have b: "b < NBUF" "b_valid (bufs s b)" "b_sector (bufs s b) = sec" using cached_Some [OF i] by simp_all
  have "bread 1 sec s = Ret b (with_buf b ((bufs s b)\<lparr>b_busy := True\<rparr>) s\<lparr>cpust := settled (cpust s)\<rparr>)"
    using bget_hit [OF i c b n [OF b]] b(2) by (simp add: bread_def buf_ops)
  then show ?thesis using b n [OF b] unfolding bread_hit_def by blast
next
  case None
  then have m: "\<not> (b_valid (bufs s b) \<and> b_sector (bufs s b) = sec)" if "b < NBUF" for b
    using that by (simp add: cached_None)
  have "pinned s \<noteq> {0..<NBUF}" using f None by simp
  from bget_miss [OF i c m this] obtain b where b: "b < NBUF" "\<not> b_busy (bufs s b)" "\<not> b_dirty (bufs s b)"
    and g: "bget 1 sec s = Ret b (with_buf b ((bufs s b)\<lparr>b_dev := 1, b_sector := sec, b_busy := True, b_valid := False, b_dirty := False\<rparr>) s
      \<lparr>cpust := settled (cpust s)\<rparr>)" by blast
  define m0 where "m0 = (bufs s b)\<lparr>b_dev := 1, b_sector := sec, b_busy := True, b_valid := False, b_dirty := False\<rparr>"
  define m' where "m' = (bufs s b)\<lparr>b_busy := True, b_valid := True, b_dirty := False, b_dev := 1, b_sector := sec, b_data := disk s sec\<rparr>"
  have "bread 1 sec s = Ret b (with_buf b m' s\<lparr>cpust := settled (cpust s)\<rparr>)"
  proof -
    let ?s1 = "with_buf b m0 s\<lparr>cpust := settled (cpust s)\<rparr>"
    have "iderw b ?s1 = Ret () (with_buf b (m0\<lparr>b_data := disk s sec, b_valid := True\<rparr>) ?s1)"
      using iderw_read [of ?s1 b] sz by (simp add: m0_def)
    then have "bread 1 sec s = Ret b (with_buf b (m0\<lparr>b_data := disk s sec, b_valid := True\<rparr>) ?s1)"
      using g by (simp add: bread_def buf_ops m0_def)
    moreover have "m0\<lparr>b_data := disk s sec, b_valid := True\<rparr> = m'" by (simp add: m'_def m0_def)
    ultimately show ?thesis by (simp add: with_buf_cpust)
  qed
  moreover have "bread_fill sec b s m'" using b None by (simp add: bread_fill_def m'_def)
  ultimately show ?thesis using b by blast
qed

text \<open>Changing one buffer and keeping its links.\<close>

lemma bc_inv_with_buf:
  assumes i: "bc_inv s" and b: "b < NBUF" and l: "b_next m = b_next (bufs s b)" "b_prev m = b_prev (bufs s b)"
    and o: "buf_ok (disk s) (disksize s) m"
    and u: "\<And>a. a < NBUF \<Longrightarrow> a \<noteq> b \<Longrightarrow> b_valid m \<Longrightarrow> b_valid (bufs s a) \<Longrightarrow> b_sector (bufs s a) \<noteq> b_sector m"
  shows "bc_inv (with_buf b m s)"
proof -
  obtain xs where "lru xs (bufs s)" using i by (auto simp: bc_inv_def)
  then have "lru xs ((bufs s)(b := m))" using l by (subst lru_cong [of _ "bufs s"]) auto
  then have "\<exists>xs. lru xs (bufs (with_buf b m s))" by auto
  moreover have "buf_ok (disk s) (disksize s) (((bufs s)(b := m)) a)" if "a < NBUF" for a
    using bc_inv_ok [OF i that] o by simp
  moreover have "x = y" if "x < NBUF" "y < NBUF" "b_valid (((bufs s)(b := m)) x)" "b_valid (((bufs s)(b := m)) y)"
    "b_sector (((bufs s)(b := m)) x) = b_sector (((bufs s)(b := m)) y)" for x y
    using that u [of x] u [of y] bc_inv_uniq [OF i that(1,2)] by (auto split: if_splits)
  ultimately show ?thesis unfolding bc_inv_def by simp
qed

lemma bc_inv_cpust [simp]: "bc_inv (s\<lparr>cpust := k\<rparr>) = bc_inv s"
  by (simp add: bc_inv_def)

lemma view_cpust [simp]:
  "view (s\<lparr>cpust := k\<rparr>) = view s" "held (s\<lparr>cpust := k\<rparr>) = held s" "dirty (s\<lparr>cpust := k\<rparr>) = dirty s"
  "pinned (s\<lparr>cpust := k\<rparr>) = pinned s" "cached sec (s\<lparr>cpust := k\<rparr>) = cached sec s"
proof -
  show c: "cached sec (s\<lparr>cpust := k\<rparr>) = cached sec s" for sec by (simp add: cached_def)
  show "view (s\<lparr>cpust := k\<rparr>) = view s" by (rule ext) (simp add: view_def c split: option.split)
qed (simp_all add: held_def dirty_def pinned_def fun_eq_iff)

text \<open>Views after a change of one buffer.\<close>

lemma view_with_buf:
  assumes "bc_inv s" and "bc_inv (with_buf b m s)" and b: "b < NBUF" and "b_valid m"
    and e: "b_valid (bufs s b) \<Longrightarrow> b_sector (bufs s b) \<noteq> b_sector m \<Longrightarrow> b_data (bufs s b) = disk s (b_sector (bufs s b))"
  shows "view (with_buf b m s) = (view s)(b_sector m := b_data m)"
proof
  fix sec
  let ?s = "with_buf b m s"
  show "view ?s sec = ((view s)(b_sector m := b_data m)) sec"
  proof (cases "sec = b_sector m")
    case True
    then show ?thesis using view_eq(1) [OF assms(2) b, of sec] assms(4) by simp
  next
    case False
    show ?thesis
    proof (cases "cached sec ?s")
      case None
      then have n: "\<not> (b_valid (bufs s a) \<and> b_sector (bufs s a) = sec)" if "a < NBUF" "a \<noteq> b" for a
        using that by (auto simp: cached_None split: if_splits)
      have "view s sec = disk s sec"
      proof (cases "b_valid (bufs s b) \<and> b_sector (bufs s b) = sec")
        case True
        then show ?thesis using view_eq(1) [OF assms(1) b, of sec] e False by simp
      next
        case nb: False
        then show ?thesis using n by (intro view_eq(2) [OF assms(1)]) metis
      qed
      then show ?thesis using None False by (simp add: view_def)
    next
      case (Some a)
      then have a: "a < NBUF" "a \<noteq> b" "b_valid (bufs s a)" "b_sector (bufs s a) = sec"
        using cached_Some [OF assms(2), of sec a] False by (auto split: if_splits)
      then show ?thesis using Some False view_eq(1) [OF assms(1) a(1,3,4)] by (simp add: view_def)
    qed
  qed
qed

section \<open>The operations as operations on a store of blocks\<close>

definition bok :: "nat \<Rightarrow> 'z bcst_scheme \<Rightarrow> bool" where
  "bok p s \<longleftrightarrow> bc_inv s \<and> caller BcacheLock p s"

text \<open>What no operation of the cache changes.\<close>

definition bframe :: "'z bcst_scheme \<Rightarrow> 'z bcst_scheme \<Rightarrow> bool" where
  "bframe s s' \<longleftrightarrow> bcst.more s' = bcst.more s \<and> disksize s' = disksize s \<and> mem s' = mem s \<and> cur s' = cur s \<and>
     settled (cpust s') = settled (cpust s) \<and> (\<forall>q. still (procs s' q) = still (procs s q))"

lemma bframe_trans: "bframe s t \<Longrightarrow> bframe t u \<Longrightarrow> bframe s u"
  by (simp add: bframe_def)

definition free_bufs :: "'z bcst_scheme \<Rightarrow> nat" where
  "free_bufs s = NBUF - card (pinned s)"

lemma finite_pinned [simp]: "finite (pinned s)"
  by (rule finite_subset [of _ "{0..<NBUF}"]) (auto simp: pinned_def)

lemma card_pinned: "card (pinned s) \<le> NBUF"
proof -
  have "card (pinned s) \<le> card {0..<NBUF}" by (rule card_mono) (auto simp: pinned_def)
  then show ?thesis by simp
qed

lemma held_Some:
  assumes "bc_inv s" and "held s b = Some sec"
  shows "b < NBUF" "b_busy (bufs s b)" "b_valid (bufs s b)" "b_sector (bufs s b) = sec" "b_dev (bufs s b) = 1"
    "sec < disksize s" "b_data (bufs s b) = view s sec"
proof -
  show b: "b < NBUF" "b_busy (bufs s b)" "b_sector (bufs s b) = sec"
    using assms(2) by (auto simp: held_def split: if_splits)
  show v: "b_valid (bufs s b)" "b_dev (bufs s b) = 1" "sec < disksize s"
    using bc_inv_ok [OF assms(1) b(1)] b by (auto simp: buf_ok_def split: if_splits)
  show "b_data (bufs s b) = view s sec" using view_eq(1) [OF assms(1) b(1) v(1) b(3)] by simp
qed

lemma dirty_iff:
  assumes "bc_inv s" and "b < NBUF" and "b_valid (bufs s b)"
  shows "b_sector (bufs s b) \<in> dirty s \<longleftrightarrow> b_dirty (bufs s b)"
proof
  assume "b_sector (bufs s b) \<in> dirty s"
  then obtain a where a: "a < NBUF" "b_dirty (bufs s a)" "b_sector (bufs s b) = b_sector (bufs s a)"
    by (auto simp: dirty_def)
  then have "b_valid (bufs s a)" using bc_inv_ok [OF assms(1) a(1)] by (auto simp: buf_ok_def split: if_splits)
  with a assms bc_inv_uniq [OF assms(1) a(1) assms(2)] show "b_dirty (bufs s b)" by simp
qed (use assms(2) in \<open>auto simp: dirty_def\<close>)

lemma caller_same:
  "caller lk p s \<Longrightarrow> procs s' = procs s \<Longrightarrow> mlf s' = mlf s \<Longrightarrow> cur s' = cur s \<Longrightarrow>
     cpust s' = cpust s \<or> cpust s' = settled (cpust s) \<Longrightarrow> caller lk p s'"
  using sched_ok_cong [of s' s] by (auto simp: caller_def on_cpu_def can_lock_def)

text \<open>A change of the buffer \<open>b\<close> that keeps its links.\<close>

lemma dirty_with_buf:
  assumes "bc_inv s" and "bc_inv (with_buf b m s)" and "b < NBUF" and "b_valid m"
    and "b_valid (bufs s b) \<Longrightarrow> b_dirty (bufs s b) \<Longrightarrow> b_sector m = b_sector (bufs s b)"
  shows "dirty (with_buf b m s) = (if b_dirty m then insert (b_sector m) (dirty s) else dirty s - {b_sector m})"
proof -
  let ?s = "with_buf b m s"
  have d: "b_sector m \<in> dirty ?s \<longleftrightarrow> b_dirty m" using dirty_iff [OF assms(2,3)] assms(4) by simp
  have e: "x \<in> dirty ?s \<longleftrightarrow> x \<in> dirty s" if "x \<noteq> b_sector m" for x
  proof
    assume "x \<in> dirty ?s"
    then show "x \<in> dirty s" using that by (auto simp: dirty_def split: if_splits)
  next
    assume "x \<in> dirty s"
    then obtain a where a: "a < NBUF" "b_dirty (bufs s a)" "x = b_sector (bufs s a)" by (auto simp: dirty_def)
    then have "b_valid (bufs s a)" using bc_inv_ok [OF assms(1) a(1)] by (auto simp: buf_ok_def split: if_splits)
    then have "a \<noteq> b" using a that assms(5) by auto
    then show "x \<in> dirty ?s" using a unfolding dirty_def by (intro CollectI exI [of _ a]) simp
  qed
  show ?thesis
  proof (rule set_eqI)
    fix x show "x \<in> dirty ?s \<longleftrightarrow> x \<in> (if b_dirty m then insert (b_sector m) (dirty s) else dirty s - {b_sector m})"
      using d e [of x] by (cases "x = b_sector m") auto
  qed
qed

lemma held_with_buf:
  "b < NBUF \<Longrightarrow> held (with_buf b m s) = (held s)(b := (if b_busy m then Some (b_sector m) else None))"
  by (auto simp: held_def fun_eq_iff)

lemma pinned_with_buf:
  "b < NBUF \<Longrightarrow> pinned (with_buf b m s) = (if b_busy m \<or> b_dirty m then insert b (pinned s) else pinned s - {b})"
  by (auto simp: pinned_def split: if_splits)

lemma bread_buf:
  assumes i: "bc_inv s" and b: "b < NBUF" and m: "bread_hit sec b s m \<or> bread_fill sec b s m"
  shows "b_valid m \<and> b_sector m = sec \<and> b_busy m \<and> b_dev m = 1 \<and> b_next m = b_next (bufs s b) \<and>
    b_prev m = b_prev (bufs s b) \<and> b_data m = view s sec \<and> (b_dirty m \<longleftrightarrow> sec \<in> dirty s) \<and>
    b_dirty m = b_dirty (bufs s b) \<and> (\<forall>a < NBUF. b_valid (bufs s a) \<longrightarrow> b_sector (bufs s a) = sec \<longrightarrow> a = b)"
  using m
proof
  assume h: "bread_hit sec b s m"
  then have v: "b_valid (bufs s b)" "b_sector (bufs s b) = sec" and e: "m = (bufs s b)\<lparr>b_busy := True\<rparr>"
    by (simp_all add: bread_hit_def)
  have "b_dev (bufs s b) = 1" using bc_inv_ok [OF i b] v by (simp add: buf_ok_def)
  moreover have "a = b" if "a < NBUF" "b_valid (bufs s a)" "b_sector (bufs s a) = sec" for a
    using bc_inv_uniq [OF i that(1) b that(2) v(1)] that v by simp
  ultimately show ?thesis using v view_eq(1) [OF i b v] dirty_iff [OF i b v(1)] by (simp add: e)
next
  assume h: "bread_fill sec b s m"
  then have n: "\<not> (b_valid (bufs s a) \<and> b_sector (bufs s a) = sec)" if "a < NBUF" for a
    using that by (simp add: bread_fill_def cached_None)
  have "sec \<notin> dirty s"
  proof
    assume "sec \<in> dirty s"
    then obtain a where a: "a < NBUF" "b_dirty (bufs s a)" "sec = b_sector (bufs s a)" by (auto simp: dirty_def)
    then have "b_valid (bufs s a)" using bc_inv_ok [OF i a(1)] by (auto simp: buf_ok_def split: if_splits)
    with n a show False by blast
  qed
  moreover have "view s sec = disk s sec" using n by (rule view_eq(2) [OF i])
  ultimately show ?thesis using h n by (auto simp: bread_fill_def)
qed

lemma bread_law:
  fixes s :: "'z bcst_scheme"
  assumes o: "bok p s" and sz: "sec < disksize s" and h: "sec \<notin> ran (held s)" and r: "sec \<in> dirty s \<or> 0 < free_bufs s"
  shows "runs (bread 1 sec) s (\<lambda>b s'. bok p s' \<and> bframe s s' \<and> held s b = None \<and> held s' = (held s)(b := Some sec) \<and>
    view s' = view s \<and> dirty s' = dirty s \<and> disk s' = disk s \<and> disk_writes s' = disk_writes s \<and>
    free_bufs s' = (if sec \<in> dirty s then free_bufs s else free_bufs s - 1))"
proof -
  have i: "bc_inv s" and c: "caller BcacheLock p s" using o by (simp_all add: bok_def)
  have n: "\<not> b_busy (bufs s b)" if "b < NBUF" "b_valid (bufs s b)" "b_sector (bufs s b) = sec" for b
  proof
    assume "b_busy (bufs s b)"
    then have "held s b = Some sec" using that by (simp add: held_def)
    then show False using h by (auto simp: ran_def)
  qed
  have "cached sec s \<noteq> None \<or> pinned s \<noteq> {0..<NBUF}"
  proof (cases "sec \<in> dirty s")
    case True
    then obtain a where a: "a < NBUF" "b_dirty (bufs s a)" "b_sector (bufs s a) = sec" by (auto simp: dirty_def)
    then have "b_valid (bufs s a)" using bc_inv_ok [OF i a(1)] by (auto simp: buf_ok_def split: if_splits)
    then show ?thesis using a by (auto simp: cached_None)
  next
    case False
    then show ?thesis using r by (auto simp: free_bufs_def)
  qed
  from bread_exec [OF i c sz n this] obtain b m where b: "b < NBUF" "\<not> b_busy (bufs s b)"
    and m: "bread_hit sec b s m \<or> bread_fill sec b s m"
    and e: "bread 1 sec s = Ret b (with_buf b m s\<lparr>cpust := settled (cpust s)\<rparr>)" by blast
  note f = bread_buf [OF i b(1) m]
  have clean: "b_data (bufs s b) = disk s (b_sector (bufs s b))" if "b_valid (bufs s b)" "b_sector (bufs s b) \<noteq> sec"
    using bc_inv_ok [OF i b(1)] b that m by (auto simp: buf_ok_def bread_hit_def bread_fill_def)
  have i': "bc_inv (with_buf b m s)"
    using f sz by (intro bc_inv_with_buf [OF i b(1)]) (auto simp: buf_ok_def)
  have "view (with_buf b m s) = view s"
    using view_with_buf [OF i i' b(1)] f clean by (simp add: fun_upd_idem)
  moreover have "dirty (with_buf b m s) = dirty s"
  proof -
    have "b_sector m = b_sector (bufs s b)" if "b_dirty (bufs s b)"
      using m that by (auto simp: bread_hit_def bread_fill_def)
    from dirty_with_buf [OF i i' b(1) _ this] show ?thesis using f by (cases "sec \<in> dirty s") (simp_all add: insert_absorb)
  qed
  moreover have "held s b = None" "held (with_buf b m s) = (held s)(b := Some sec)"
    using held_with_buf [OF b(1), of m s] f b(2) by (simp_all add: held_def)
  moreover have "free_bufs (with_buf b m s) = (if sec \<in> dirty s then free_bufs s else free_bufs s - 1)"
  proof -
    have "pinned (with_buf b m s) = insert b (pinned s)" using pinned_with_buf [OF b(1), of m s] f by simp
    moreover have "b \<in> pinned s \<longleftrightarrow> sec \<in> dirty s" using f b unfolding pinned_def by blast
    ultimately show ?thesis by (simp add: free_bufs_def card_insert_if insert_absorb)
  qed
  moreover have "caller BcacheLock p (with_buf b m s\<lparr>cpust := settled (cpust s)\<rparr>)"
    by (rule caller_same [OF c]) simp_all
  moreover have "bframe s (with_buf b m s\<lparr>cpust := settled (cpust s)\<rparr>)"
    by (simp add: bframe_def with_buf_def)
  ultimately show ?thesis
    using i' by (simp add: runs_def e bok_def free_bufs_def)
qed

text \<open>Changing the data of a buffer that is held.\<close>

definition set_data :: "nat \<Rightarrow> (block \<Rightarrow> block) \<Rightarrow> ('z bcst_scheme, unit) op" where
  "set_data b f = upd_buf b (\<lambda>m. m\<lparr>b_data := f (b_data m)\<rparr>)"

lemma held_update:
  assumes o: "bok p s" and h: "held s b = Some sec"
    and m: "b_valid m" "b_sector m = sec" "b_busy m" "b_dev m = 1" "b_next m = b_next (bufs s b)" "b_prev m = b_prev (bufs s b)"
  shows "bok p (with_buf b m s)" "held (with_buf b m s) = held s" "view (with_buf b m s) = (view s)(sec := b_data m)"
    "free_bufs (with_buf b m s) = free_bufs s"
    "dirty (with_buf b m s) = (if b_dirty m then insert sec (dirty s) else dirty s - {sec})"
proof -
  have i: "bc_inv s" and c: "caller BcacheLock p s" using o by (simp_all add: bok_def)
  note hs = held_Some [OF i h]
  have u: "b_sector (bufs s a) \<noteq> sec" if "a < NBUF" "a \<noteq> b" "b_valid (bufs s a)" for a
    using bc_inv_uniq [OF i that(1) hs(1) that(3) hs(3)] that(2) hs(4) by auto
  have i': "bc_inv (with_buf b m s)"
    using m hs u by (intro bc_inv_with_buf [OF i hs(1)]) (auto simp: buf_ok_def)
  show "bok p (with_buf b m s)"
    using i' caller_same [OF c, of "with_buf b m s"] by (simp add: bok_def)
  show "held (with_buf b m s) = held s" using held_with_buf [OF hs(1), of m s] m h by (simp add: fun_upd_idem)
  show "view (with_buf b m s) = (view s)(sec := b_data m)"
    using view_with_buf [OF i i' hs(1) m(1)] m(2) hs(4) by simp
  have "pinned (with_buf b m s) = pinned s"
    using pinned_with_buf [OF hs(1), of m s] m(3) hs(1,2) by (simp add: pinned_def insert_absorb)
  then show "free_bufs (with_buf b m s) = free_bufs s" by (simp add: free_bufs_def)
  show "dirty (with_buf b m s) = (if b_dirty m then insert sec (dirty s) else dirty s - {sec})"
    using dirty_with_buf [OF i i' hs(1) m(1)] m(2) hs(4) by simp
qed

lemma set_data_law:
  fixes s :: "'z bcst_scheme"
  assumes o: "bok p s" and h: "held s b = Some sec"
  shows "runs (set_data b f) s (\<lambda>_ s'. bok p s' \<and> bframe s s' \<and> held s' = held s \<and>
    view s' = (view s)(sec := f (view s sec)) \<and> dirty s' = dirty s \<and> disk s' = disk s \<and> disk_writes s' = disk_writes s \<and>
    free_bufs s' = free_bufs s)"
proof -
  have i: "bc_inv s" using o by (simp add: bok_def)
  note hs = held_Some [OF i h]
  let ?m = "(bufs s b)\<lparr>b_data := f (b_data (bufs s b))\<rparr>"
  have "sec \<in> dirty s \<longleftrightarrow> b_dirty (bufs s b)" using dirty_iff [OF i hs(1,3)] hs(4) by simp
  moreover note held_update [OF o h, of ?m]
  ultimately show ?thesis
    using hs by (auto simp: set_data_def runs_def upd_buf_run bframe_def with_buf_def insert_absorb)
qed

lemma bwrite_law:
  fixes s :: "'z bcst_scheme"
  assumes o: "bok p s" and h: "held s b = Some sec"
  shows "runs (bwrite b) s (\<lambda>_ s'. bok p s' \<and> bframe s s' \<and> held s' = held s \<and> view s' = view s \<and>
    dirty s' = dirty s - {sec} \<and> disk s' = (disk s)(sec := view s sec) \<and>
    disk_writes s' = disk_writes s @ [(sec, view s sec)] \<and> free_bufs s' = free_bufs s)"
proof -
  have i: "bc_inv s" and c: "caller BcacheLock p s" using o by (simp_all add: bok_def)
  note hs = held_Some [OF i h]
  define m where "m = (bufs s b)\<lparr>b_dirty := False, b_valid := True\<rparr>"
  define t where "t = with_buf b m s\<lparr>disk := (disk s)(sec := view s sec), disk_writes := disk_writes s @ [(sec, view s sec)]\<rparr>"
  note u = held_update [OF o h, of m]
  have e: "bwrite b s = Ret () t"
    using hs iderw_write [of "with_buf b ((bufs s b)\<lparr>b_dirty := True\<rparr>) s" b]
    by (simp add: bwrite_def buf_ops m_def t_def)
  have i1: "bc_inv (with_buf b m s)" using u(1) hs by (simp add: m_def bok_def)
  have ok: "buf_ok (disk t) (disksize t) (bufs t a)" if a: "a < NBUF" for a
  proof (cases "a = b")
    case True
    then show ?thesis using hs by (simp add: t_def m_def buf_ok_def)
  next
    case False
    then have "b_valid (bufs s a) \<Longrightarrow> b_sector (bufs s a) \<noteq> sec"
      using bc_inv_uniq [OF i a hs(1) _ hs(3)] hs(4) by auto
    then show ?thesis using False bc_inv_ok [OF i a] by (auto simp: t_def buf_ok_def)
  qed
  have i': "bc_inv t"
    using i1 ok unfolding bc_inv_def by (simp add: t_def)
  have v: "view t = view s"
  proof
    fix x show "view t x = view s x"
    proof (cases "cached x t")
      case None
      then have "x \<noteq> sec" "cached x s = None"
        using hs(1,3,4) by (auto simp: cached_None t_def m_def split: if_splits)
      then show ?thesis using None by (simp add: view_def t_def)
    next
      case (Some a)
      then have a: "a < NBUF" "b_valid (bufs t a)" "b_sector (bufs t a) = x" using cached_Some [OF i'] by simp_all
      then have "b_valid (bufs s a)" "b_sector (bufs s a) = x" "b_data (bufs t a) = b_data (bufs s a)"
        using hs by (auto simp: t_def m_def split: if_splits)
      then show ?thesis using view_eq(1) [OF i a(1), of x] Some by (simp add: view_def)
    qed
  qed
  have "caller BcacheLock p t" by (rule caller_same [OF c]) (simp_all add: t_def)
  moreover have "held t = held s" "dirty t = dirty s - {sec}" "free_bufs t = free_bufs s"
    using u hs by (simp_all add: t_def m_def held_def dirty_def free_bufs_def pinned_def fun_eq_iff)
  moreover have "bframe s t" by (simp add: bframe_def t_def with_buf_def)
  ultimately show ?thesis using i' v by (simp add: runs_def e bok_def) (simp add: t_def)
qed

text \<open>\<^verbatim>\<open>brelse\<close> moves the buffer to the front of the list.\<close>

definition set_prev :: "nat \<Rightarrow> nat \<Rightarrow> (nat \<Rightarrow> buf) \<Rightarrow> nat \<Rightarrow> buf" where
  "set_prev x v bs = bs(x := (bs x)\<lparr>b_prev := v\<rparr>)"

definition set_next :: "nat \<Rightarrow> nat \<Rightarrow> (nat \<Rightarrow> buf) \<Rightarrow> nat \<Rightarrow> buf" where
  "set_next x v bs = bs(x := (bs x)\<lparr>b_next := v\<rparr>)"

definition unbusy :: "nat \<Rightarrow> (nat \<Rightarrow> buf) \<Rightarrow> nat \<Rightarrow> buf" where
  "unbusy x bs = bs(x := (bs x)\<lparr>b_busy := False\<rparr>)"

lemma set_links [simp]:
  "b_prev (set_prev x v bs c) = (if c = x then v else b_prev (bs c))" "b_next (set_prev x v bs c) = b_next (bs c)"
  "b_next (set_next x v bs c) = (if c = x then v else b_next (bs c))" "b_prev (set_next x v bs c) = b_prev (bs c)"
  "b_next (unbusy x bs c) = b_next (bs c)" "b_prev (unbusy x bs c) = b_prev (bs c)"
  "payload (set_prev x v bs c) = payload (bs c)" "payload (set_next x v bs c) = payload (bs c)"
  "payload (unbusy x bs c) = (if c = x then (payload (bs c))\<lparr>b_busy := False\<rparr> else payload (bs c))"
  by (simp_all add: set_prev_def set_next_def unbusy_def payload_def)

definition relse :: "nat \<Rightarrow> (nat \<Rightarrow> buf) \<Rightarrow> nat \<Rightarrow> buf" where
  "relse b bs =
     (let bs1 = set_prev (b_next (bs b)) (b_prev (bs b)) bs;
          bs2 = set_next (b_prev (bs1 b)) (b_next (bs1 b)) bs1;
          bs3 = set_next b (b_next (bs2 NBUF)) bs2;
          bs4 = set_prev b NBUF bs3;
          bs5 = set_prev (b_next (bs4 NBUF)) b bs4;
          bs6 = set_next NBUF b bs5
      in unbusy b bs6)"

lemma relse_payload: "payload (relse b bs c) = (if c = b then (payload (bs c))\<lparr>b_busy := False\<rparr> else payload (bs c))"
  unfolding relse_def Let_def by (simp only: set_links)

lemma relse_links:
  assumes "b \<noteq> NBUF" and "b_next (bs b) \<noteq> b" and "b_prev (bs b) \<noteq> b"
  defines "n \<equiv> b_next (bs b)" and "q \<equiv> b_prev (bs b)"
  defines "f \<equiv> ((\<lambda>c. b_next (bs c))(q := n)) NBUF"
  shows "(\<lambda>c. b_next (relse b bs c)) = (\<lambda>c. b_next (bs c))(q := n, b := f, NBUF := b)"
    and "(\<lambda>c. b_prev (relse b bs c)) = (\<lambda>c. b_prev (bs c))(n := q, b := NBUF, f := b)"
proof -
  define bs1 where "bs1 = set_prev n q bs"
  define bs2 where "bs2 = set_next q n bs1"
  define bs3 where "bs3 = set_next b f bs2"
  define bs4 where "bs4 = set_prev b NBUF bs3"
  define bs5 where "bs5 = set_prev f b bs4"
  have 1: "b_prev (bs1 b) = q" "b_next (bs1 b) = n" using assms(2) by (simp_all add: bs1_def n_def q_def)
  have 2: "b_next (bs2 NBUF) = f" by (simp add: bs2_def bs1_def f_def n_def q_def)
  have 3: "b_next (bs4 NBUF) = f" using 2 assms(1) by (simp add: bs4_def bs3_def)
  have e: "relse b bs = unbusy b (set_next NBUF b bs5)"
    unfolding relse_def Let_def n_def [symmetric] q_def [symmetric] bs1_def [symmetric] 1 bs2_def [symmetric] 2
      bs3_def [symmetric] bs4_def [symmetric] 3 bs5_def [symmetric] ..
  show "(\<lambda>c. b_next (relse b bs c)) = (\<lambda>c. b_next (bs c))(q := n, b := f, NBUF := b)"
    by (simp add: e bs5_def bs4_def bs3_def bs2_def bs1_def fun_eq_iff)
  show "(\<lambda>c. b_prev (relse b bs c)) = (\<lambda>c. b_prev (bs c))(n := q, b := NBUF, f := b)"
    by (simp add: e bs5_def bs4_def bs3_def bs2_def bs1_def fun_eq_iff)
qed

lemma lru_relse:
  assumes l: "lru xs bs" and b: "b < NBUF"
  shows "\<exists>ys. lru ys (relse b bs)"
proof -
  have "b \<in> set xs" using l b by (simp add: lru_def)
  then obtain ys zs where xs: "xs = ys @ b # zs" by (auto simp: in_set_conv_decomp)
  let ?n = "\<lambda>c. b_next (bs c)" and ?p = "\<lambda>c. b_prev (bs c)"
  let ?l = "NBUF # ys" and ?r = "zs @ [NBUF]"
  have d: "distinct (ys @ b # zs)" "NBUF \<notin> set (ys @ b # zs)" and s: "set (ys @ b # zs) = {0..<NBUF}"
    using l by (auto simp: lru_def xs)
  have lk: "linked ?n ?p (?l @ b # ?r)" using l by (simp add: lru_def xs)
  have q: "b_prev (bs b) = last ?l"
  proof (cases ys rule: rev_cases)
    case Nil
    then show ?thesis using lk by simp
  next
    case (snoc ys' y)
    then show ?thesis using lk linked_append [of ?n ?p "NBUF # ys'" y "b # ?r"] by simp
  qed
  have "linked ?n ?p (b # ?r)" using lk linked_append [of ?n ?p ?l b ?r] by simp
  then have n: "b_next (bs b) = hd ?r" by (cases zs) auto
  have nb: "last ?l \<noteq> b" "hd ?r \<noteq> b" "b \<noteq> NBUF"
  proof -
    show "b \<noteq> NBUF" using d by auto
    then show "last ?l \<noteq> b" using d by (cases ys rule: rev_cases) auto
    show "hd ?r \<noteq> b" using d \<open>b \<noteq> NBUF\<close> by (cases zs) auto
  qed
  have un: "linked (?n(last ?l := hd ?r)) (?p(hd ?r := last ?l)) (?l @ ?r)"
  proof (rule linked_unlink [OF lk])
    show "last ?l \<notin> set (butlast ?l) \<union> set (butlast ?r)"
    proof (cases ys rule: rev_cases)
      case Nil
      then show ?thesis using d by auto
    next
      case (snoc ys' y)
      then show ?thesis using d by (auto simp: butlast_append)
    qed
    show "hd ?r \<notin> set (tl ?r) \<union> set (tl ?l)"
      using d by (cases zs) auto
  qed simp_all
  let ?n1 = "?n(last ?l := hd ?r)" and ?p1 = "?p(hd ?r := last ?l)"
  have f: "?n1 NBUF = hd (ys @ ?r)"
    using un by (cases ys; cases zs) simp_all
  have "linked (?n1(b := hd (ys @ ?r), NBUF := b)) (?p1(b := NBUF, hd (ys @ ?r) := b)) (NBUF # b # ys @ ?r)"
  proof (rule linked_push)
    show "linked ?n1 ?p1 (NBUF # ys @ ?r)" using un by simp
    show "NBUF \<notin> set (butlast (ys @ ?r))" using d by (simp add: butlast_append)
    show "hd (ys @ ?r) \<notin> set (tl (ys @ ?r))" using d by (cases ys; cases zs) auto
    show "b \<notin> set (NBUF # ys @ ?r)" using d nb by auto
  qed simp
  then have "linked (\<lambda>c. b_next (relse b bs c)) (\<lambda>c. b_prev (relse b bs c)) (NBUF # (b # ys @ zs) @ [NBUF])"
    using relse_links [of b bs] nb f unfolding q n by simp
  then show ?thesis
    using d s by (intro exI [of _ "b # ys @ zs"]) (auto simp: lru_def)
qed

lemma payload_views:
  assumes "\<And>c. payload (bufs t c) = payload (bufs s c)" and "disk t = disk s"
  shows "view t = view s" "dirty t = dirty s" "held t = held s" "pinned t = pinned s"
proof -
  note e = payload_eqD [OF assms(1)]
  have c: "cached sec t = cached sec s" for sec by (simp add: cached_def e)
  show "view t = view s" by (rule ext) (simp add: view_def c e assms(2) split: option.split)
  show "dirty t = dirty s" by (simp add: dirty_def e)
  show "held t = held s" by (rule ext) (simp add: held_def e)
  show "pinned t = pinned s" by (simp add: pinned_def e)
qed

lemma bc_inv_payload:
  assumes "bc_inv s" and "\<And>c. payload (bufs t c) = payload (bufs s c)" and "disk t = disk s" "disksize t = disksize s"
    and "lru xs (bufs t)"
  shows "bc_inv t"
proof -
  note e = payload_eqD [OF assms(2)]
  show ?thesis using assms(1,5) unfolding bc_inv_def buf_ok_def by (auto simp: e assms(3,4))
qed

lemma sq_links:
  "sq (upd_buf x (\<lambda>m. m\<lparr>b_prev := v\<rparr>)) k s = k (s\<lparr>bufs := set_prev x v (bufs s)\<rparr>)"
  "sq (upd_buf x (\<lambda>m. m\<lparr>b_next := v\<rparr>)) k s = k (s\<lparr>bufs := set_next x v (bufs s)\<rparr>)"
  "sq (upd_buf x (\<lambda>m. m\<lparr>b_busy := False\<rparr>)) k s = k (s\<lparr>bufs := unbusy x (bufs s)\<rparr>)"
  by (simp_all add: sq_upd_buf with_buf_def set_prev_def set_next_def unbusy_def)

lemma sq_bnd_gets: "sq (bnd (gets f) m) k s = sq (m (f s)) k s"
  by (simp add: sq_def bnd_def gets_def)

lemma brelse_exec:
  assumes "b_busy (bufs s b)" and "caller BcacheLock p s"
  shows "brelse b s = sq (wakeup (ChanBuf b)) (release BcacheLock)
    (s\<lparr>cpust := acq BcacheLock (cpust s), bufs := relse b (bufs s)\<rparr>)"
  using assms(1)
  by (simp add: brelse_def bnd_gets sq_Ret caller_acquire [OF assms(2)] sq_bnd_gets sq_links relse_def Let_def
      del: set_links)

lemma brelse_law:
  fixes s :: "'z bcst_scheme"
  assumes o: "bok p s" and h: "held s b = Some sec" and w: "sec \<in> dirty s \<or> view s sec = disk s sec"
  shows "runs (brelse b) s (\<lambda>_ s'. bok p s' \<and> bframe s s' \<and> held s' = (held s)(b := None) \<and> view s' = view s \<and>
    dirty s' = dirty s \<and> disk s' = disk s \<and> disk_writes s' = disk_writes s \<and>
    free_bufs s' = (if sec \<in> dirty s then free_bufs s else Suc (free_bufs s)))"
proof -
  have i: "bc_inv s" and c: "caller BcacheLock p s" using o by (simp_all add: bok_def)
  note hs = held_Some [OF i h]
  let ?m = "(bufs s b)\<lparr>b_busy := False\<rparr>"
  define t where "t = s\<lparr>cpust := acq BcacheLock (cpust s), bufs := relse b (bufs s)\<rparr>"
  have d: "sec \<in> dirty s \<longleftrightarrow> b_dirty (bufs s b)" using dirty_iff [OF i hs(1,3)] hs(4) by simp
  have u: "b_sector (bufs s a) \<noteq> sec" if "a < NBUF" "a \<noteq> b" "b_valid (bufs s a)" for a
    using bc_inv_uniq [OF i that(1) hs(1) that(3) hs(3)] that(2) hs(4) by auto
  have i1: "bc_inv (with_buf b ?m s)"
    using hs u d w by (intro bc_inv_with_buf [OF i hs(1)]) (auto simp: buf_ok_def)
  have pl: "payload (bufs t a) = payload (bufs (with_buf b ?m s) a)" for a
  proof -
    have "payload ((bufs s b)\<lparr>b_busy := False\<rparr>) = (payload (bufs s b))\<lparr>b_busy := False\<rparr>" by (simp add: payload_def)
    then show ?thesis by (simp add: t_def relse_payload)
  qed
  obtain xs where "lru xs (bufs s)" using i by (auto simp: bc_inv_def)
  then obtain ys where ys: "lru ys (bufs t)" using lru_relse [OF _ hs(1)] by (auto simp: t_def)
  have it: "bc_inv t" by (rule bc_inv_payload [OF i1 pl _ _ ys]) (simp_all add: t_def)
  have dk: "disk t = disk (with_buf b ?m s)" by (simp add: t_def)
  note pv = payload_views [OF pl dk]
  have "view t = view s"
    using pv(1) view_with_buf [OF i i1 hs(1)] hs by (simp add: fun_upd_idem)
  moreover have "dirty t = dirty s"
    using pv(2) dirty_with_buf [OF i i1 hs(1)] hs d by (simp add: insert_absorb)
  moreover have "held t = (held s)(b := None)" using pv(3) held_with_buf [OF hs(1), of ?m s] by simp
  moreover have "free_bufs t = (if sec \<in> dirty s then free_bufs s else Suc (free_bufs s))"
  proof -
    have "b \<in> pinned s" using hs by (simp add: pinned_def)
    moreover have "card (pinned s) \<le> NBUF" by (rule card_pinned)
    moreover have "0 < card (pinned s)" using \<open>b \<in> pinned s\<close> by (auto simp: card_gt_0_iff)
    ultimately show ?thesis
      using pv(4) pinned_with_buf [OF hs(1), of ?m s] d
      by (auto simp: free_bufs_def insert_absorb card_Diff_singleton)
  qed
  moreover have "runs (sq (wakeup (ChanBuf b)) (release BcacheLock)) t
      (\<lambda>_ s'. woke (ChanBuf b) (t\<lparr>cpust := settled (cpust s)\<rparr>) s')"
    using callerD [OF c] sched_ok_cong [of t s] by (intro wakeup_release) (simp_all add: t_def)
  moreover have "bok p s' \<and> bframe s s' \<and> held s' = held t \<and> view s' = view t \<and> dirty s' = dirty t \<and> disk s' = disk s \<and>
      disk_writes s' = disk_writes s \<and> free_bufs s' = free_bufs t"
    if W: "woke (ChanBuf b) (t\<lparr>cpust := settled (cpust s)\<rparr>) s'" for s'
  proof -
    obtain pr ml where e: "s' = t\<lparr>cpust := settled (cpust s)\<rparr>\<lparr>procs := pr, mlf := ml\<rparr>" using W by (auto simp: woke_def)
    have same: "bufs s' = bufs t" "disk s' = disk t" "disksize s' = disksize t" "disk_writes s' = disk_writes t"
      by (simp_all add: e)
    have "bc_inv s'" using it unfolding bc_inv_def same .
    moreover have "caller BcacheLock p s'"
      using W callerD [OF c] by (auto simp: caller_def on_cpu_def can_lock_def woke_def woken_def t_def)
    moreover have "still (procs s' q) = still (procs s q)" for q using W by (simp add: woke_def t_def)
    moreover have "bcst.more s' = bcst.more s" "disksize s' = disksize s" "mem s' = mem s" "cur s' = cur s"
      "settled (cpust s') = settled (cpust s)" "disk t = disk s" "disk_writes t = disk_writes s"
      by (simp_all add: e t_def)
    moreover have "held s' = held t" "view s' = view t" "dirty s' = dirty t" "pinned s' = pinned t"
      by (rule payload_views; simp add: same)+
    ultimately show ?thesis by (simp add: bok_def bframe_def free_bufs_def same)
  qed
  ultimately show ?thesis
    unfolding runs_iff brelse_exec [OF hs(2) c] t_def [symmetric] by auto
qed

section \<open>The contract\<close>

text \<open>
  A store of blocks behind a cache.  \<open>rd\<close> hands out a buffer that then holds the block, \<open>put\<close> changes what is in it, \<open>wr\<close> sends it to the
  disk, \<open>rel\<close> gives it back.  \<open>view\<close> is what the users of the store see, \<open>dsk\<close> what is on the disk, \<open>writes\<close> the order in which it got
  there; a block may stay different from the disk only while it is held or dirty.
\<close>

locale block_cache =
  fixes ok :: "'s \<Rightarrow> bool" and frame :: "'s \<Rightarrow> 's \<Rightarrow> bool" and hold :: "'s \<Rightarrow> nat \<Rightarrow> uint option"
    and vw :: "'s \<Rightarrow> uint \<Rightarrow> block" and dirt :: "'s \<Rightarrow> uint set" and spare :: "'s \<Rightarrow> nat"
    and dsk :: "'s \<Rightarrow> uint \<Rightarrow> block" and writes :: "'s \<Rightarrow> (uint \<times> block) list" and nsec :: "'s \<Rightarrow> uint"
    and data :: "'s \<Rightarrow> nat \<Rightarrow> block"
    and rd :: "uint \<Rightarrow> ('s, nat) op" and put :: "nat \<Rightarrow> (block \<Rightarrow> block) \<Rightarrow> ('s, unit) op"
    and wr :: "nat \<Rightarrow> ('s, unit) op" and rel :: "nat \<Rightarrow> ('s, unit) op"
  assumes frame_trans: "frame s t \<Longrightarrow> frame t u \<Longrightarrow> frame s u"
    and frame_nsec: "frame s t \<Longrightarrow> nsec t = nsec s"
    and data: "ok s \<Longrightarrow> hold s b = Some sec \<Longrightarrow> data s b = vw s sec"
    and rd: "ok s \<Longrightarrow> sec < nsec s \<Longrightarrow> sec \<notin> ran (hold s) \<Longrightarrow> sec \<in> dirt s \<or> 0 < spare s \<Longrightarrow>
      runs (rd sec) s (\<lambda>b t. ok t \<and> frame s t \<and> hold s b = None \<and> hold t = (hold s)(b := Some sec) \<and> vw t = vw s \<and>
        dirt t = dirt s \<and> dsk t = dsk s \<and> writes t = writes s \<and> spare t = (if sec \<in> dirt s then spare s else spare s - 1))"
    and put: "ok s \<Longrightarrow> hold s b = Some sec \<Longrightarrow>
      runs (put b f) s (\<lambda>_ t. ok t \<and> frame s t \<and> hold t = hold s \<and> vw t = (vw s)(sec := f (vw s sec)) \<and>
        dirt t = dirt s \<and> dsk t = dsk s \<and> writes t = writes s \<and> spare t = spare s)"
    and wr: "ok s \<Longrightarrow> hold s b = Some sec \<Longrightarrow>
      runs (wr b) s (\<lambda>_ t. ok t \<and> frame s t \<and> hold t = hold s \<and> vw t = vw s \<and> dirt t = dirt s - {sec} \<and>
        dsk t = (dsk s)(sec := vw s sec) \<and> writes t = writes s @ [(sec, vw s sec)] \<and> spare t = spare s)"
    and rel: "ok s \<Longrightarrow> hold s b = Some sec \<Longrightarrow> sec \<in> dirt s \<or> vw s sec = dsk s sec \<Longrightarrow>
      runs (rel b) s (\<lambda>_ t. ok t \<and> frame s t \<and> hold t = (hold s)(b := None) \<and> vw t = vw s \<and> dirt t = dirt s \<and>
        dsk t = dsk s \<and> writes t = writes s \<and> spare t = (if sec \<in> dirt s then spare s else Suc (spare s)))"
begin

text \<open>Looking at a block.\<close>

lemma look_block:
  assumes "ok s" "sec < nsec s" "sec \<notin> ran (hold s)" "0 < spare s" "sec \<notin> dirt s" "vw s sec = dsk s sec"
  shows "runs (bnd (rd sec) (\<lambda>b. bnd (gets (\<lambda>s. g (data s b))) (\<lambda>x. sq (rel b) (ret x)))) s (\<lambda>r t. r = g (vw s sec) \<and>
    ok t \<and> frame s t \<and> hold t = hold s \<and> vw t = vw s \<and> dirt t = dirt s \<and> dsk t = dsk s \<and> writes t = writes s \<and> spare t = spare s)"
  unfolding runs_bnd
proof (rule runs_conseq [OF rd [OF assms(1-3)]])
  show "sec \<in> dirt s \<or> 0 < spare s" using assms(4) by simp
  fix b t assume t: "ok t \<and> frame s t \<and> hold s b = None \<and> hold t = (hold s)(b := Some sec) \<and> vw t = vw s \<and>
    dirt t = dirt s \<and> dsk t = dsk s \<and> writes t = writes s \<and> spare t = (if sec \<in> dirt s then spare s else spare s - 1)"
  then have h: "hold t b = Some sec" by simp
  show "runs (gets (\<lambda>s. g (data s b))) t (\<lambda>x s'. runs (sq (rel b) (ret x)) s' (\<lambda>r t. r = g (vw s sec) \<and> ok t \<and> frame s t \<and> hold t = hold s \<and>
      vw t = vw s \<and> dirt t = dirt s \<and> dsk t = dsk s \<and> writes t = writes s \<and> spare t = spare s))"
    unfolding runs_gets runs_sq runs_ret
  proof (rule runs_conseq [OF rel [OF _ h]])
    show "ok t" "sec \<in> dirt t \<or> vw t sec = dsk t sec" using t assms(6) by simp_all
    have d: "data t b = vw s sec" using data [of t b sec] t h by simp
    fix u assume u: "ok u \<and> frame t u \<and> hold u = (hold t)(b := None) \<and> vw u = vw t \<and> dirt u = dirt t \<and>
        dsk u = dsk t \<and> writes u = writes t \<and> spare u = (if sec \<in> dirt t then spare t else Suc (spare t))"
    have "frame s u" using t u frame_trans by blast
    then show "g (data t b) = g (vw s sec) \<and> ok u \<and> frame s u \<and> hold u = hold s \<and>
      vw u = vw s \<and> dirt u = dirt s \<and> dsk u = dsk s \<and> writes u = writes s \<and> spare u = spare s"
      using t u assms(4,5) d by (simp add: fun_upd_idem)
  qed
qed

text \<open>Replacing the contents of a block, through to the disk.\<close>

lemma update_block:
  assumes "ok s" "sec < nsec s" "sec \<notin> ran (hold s)" "sec \<in> dirt s \<or> 0 < spare s"
  shows "runs (bnd (rd sec) (\<lambda>b. sq (put b f) (sq (wr b) (rel b)))) s (\<lambda>_ t. ok t \<and> frame s t \<and> hold t = hold s \<and>
    vw t = (vw s)(sec := f (vw s sec)) \<and> dirt t = dirt s - {sec} \<and> dsk t = (dsk s)(sec := f (vw s sec)) \<and>
    writes t = writes s @ [(sec, f (vw s sec))] \<and> spare t = (if sec \<in> dirt s then Suc (spare s) else spare s))"
  unfolding runs_bnd
proof (rule runs_conseq [OF rd [OF assms]], elim conjE)
  fix b t assume t: "ok t" "frame s t" "hold s b = None" "hold t = (hold s)(b := Some sec)" "vw t = vw s"
    "dirt t = dirt s" "dsk t = dsk s" "writes t = writes s" "spare t = (if sec \<in> dirt s then spare s else spare s - 1)"
  have h: "hold t b = Some sec" using t by simp
  show "runs (sq (put b f) (sq (wr b) (rel b))) t (\<lambda>_ t. ok t \<and> frame s t \<and> hold t = hold s \<and>
    vw t = (vw s)(sec := f (vw s sec)) \<and> dirt t = dirt s - {sec} \<and> dsk t = (dsk s)(sec := f (vw s sec)) \<and>
    writes t = writes s @ [(sec, f (vw s sec))] \<and> spare t = (if sec \<in> dirt s then Suc (spare s) else spare s))"
    unfolding runs_sq
  proof (rule runs_conseq [OF put [OF t(1) h]], elim conjE)
    fix u assume u: "ok u" "frame t u" "hold u = hold t" "vw u = (vw t)(sec := f (vw t sec))" "dirt u = dirt t"
      "dsk u = dsk t" "writes u = writes t" "spare u = spare t"
    have h2: "hold u b = Some sec" using u h by simp
    show "runs (wr b) u (\<lambda>_ w. runs (rel b) w (\<lambda>_ t. ok t \<and> frame s t \<and> hold t = hold s \<and>
      vw t = (vw s)(sec := f (vw s sec)) \<and> dirt t = dirt s - {sec} \<and> dsk t = (dsk s)(sec := f (vw s sec)) \<and>
      writes t = writes s @ [(sec, f (vw s sec))] \<and> spare t = (if sec \<in> dirt s then Suc (spare s) else spare s)))"
    proof (rule runs_conseq [OF wr [OF u(1) h2]], elim conjE)
      fix w assume w: "ok w" "frame u w" "hold w = hold u" "vw w = vw u" "dirt w = dirt u - {sec}"
        "dsk w = (dsk u)(sec := vw u sec)" "writes w = writes u @ [(sec, vw u sec)]" "spare w = spare u"
      have h3: "hold w b = Some sec" and c: "vw w sec = dsk w sec" using w h2 by simp_all
      have fr: "frame s w" using t(2) u(2) w(2) frame_trans by blast
      show "runs (rel b) w (\<lambda>_ t. ok t \<and> frame s t \<and> hold t = hold s \<and>
        vw t = (vw s)(sec := f (vw s sec)) \<and> dirt t = dirt s - {sec} \<and> dsk t = (dsk s)(sec := f (vw s sec)) \<and>
        writes t = writes s @ [(sec, f (vw s sec))] \<and> spare t = (if sec \<in> dirt s then Suc (spare s) else spare s))"
      proof (rule runs_conseq [OF rel [OF w(1) h3]])
        show "sec \<in> dirt w \<or> vw w sec = dsk w sec" using c ..
        fix z assume z: "ok z \<and> frame w z \<and> hold z = (hold w)(b := None) \<and> vw z = vw w \<and> dirt z = dirt w \<and>
          dsk z = dsk w \<and> writes z = writes w \<and> spare z = (if sec \<in> dirt w then spare w else Suc (spare w))"
        have "frame s z" using fr z frame_trans by blast
        moreover have "spare z = (if sec \<in> dirt s then Suc (spare s) else spare s)"
          using z w(5,8) u(8) t(9) assms(4) by (cases "sec \<in> dirt s") simp_all
        ultimately show "ok z \<and> frame s z \<and> hold z = hold s \<and>
          vw z = (vw s)(sec := f (vw s sec)) \<and> dirt z = dirt s - {sec} \<and> dsk z = (dsk s)(sec := f (vw s sec)) \<and>
          writes z = writes s @ [(sec, f (vw s sec))] \<and> spare z = (if sec \<in> dirt s then Suc (spare s) else spare s)"
          using z w(3-7) u(3-7) t(3-8) by (simp add: fun_upd_idem)
      qed
    qed
  qed
qed

text \<open>Copying one block over another, through to the disk.\<close>

lemma copy_block:
  assumes "ok s" "a < nsec s" "c < nsec s" "a \<noteq> c" "a \<notin> ran (hold s)" "c \<notin> ran (hold s)" "a \<notin> dirt s" "vw s a = dsk s a"
    "0 < spare s" "c \<in> dirt s \<or> 1 < spare s"
  shows "runs (bnd (rd a) (\<lambda>l. bnd (rd c) (\<lambda>d. sq (bnd (gets (\<lambda>s. data s l)) (\<lambda>x. put d (\<lambda>_. x)))
      (sq (wr d) (sq (rel l) (rel d)))))) s (\<lambda>_ t. ok t \<and> frame s t \<and> hold t = hold s \<and> vw t = (vw s)(c := vw s a) \<and>
    dirt t = dirt s - {c} \<and> dsk t = (dsk s)(c := vw s a) \<and> writes t = writes s @ [(c, vw s a)] \<and>
    spare t = (if c \<in> dirt s then Suc (spare s) else spare s))"
proof -
  obtain l s1 where 1: "rd a s = Ret l s1" "ok s1" "frame s s1" "hold s l = None" "hold s1 = (hold s)(l := Some a)" "vw s1 = vw s"
      "dirt s1 = dirt s" "dsk s1 = dsk s" "writes s1 = writes s" "spare s1 = spare s - 1"
    using rd [OF assms(1,2,5)] assms(7,9) unfolding runs_iff by auto
  have "c \<notin> ran (hold s1)" using assms(4,6) 1(4,5) by (auto simp: ran_def split: if_splits)
  then obtain d s2 where 2: "rd c s1 = Ret d s2" "ok s2" "frame s1 s2" "hold s1 d = None" "hold s2 = (hold s1)(d := Some c)"
      "vw s2 = vw s" "dirt s2 = dirt s" "dsk s2 = dsk s" "writes s2 = writes s" "spare s2 = (if c \<in> dirt s then spare s1 else spare s1 - 1)"
    using rd [OF 1(2), of c] assms(3,10) frame_nsec [OF 1(3)] 1(6-10) unfolding runs_iff by auto
  have dl: "d \<noteq> l" using 1(5) 2(4) by auto
  have h2: "hold s2 d = Some c" "hold s2 l = Some a" using 2(5) 1(5) dl by simp_all
  have da: "data s2 l = vw s a" using data [OF 2(2) h2(2)] 2(6) by simp
  obtain s3 where 3: "put d (\<lambda>_. vw s a) s2 = Ret () s3" "ok s3" "frame s2 s3" "hold s3 = hold s2"
      "vw s3 = (vw s)(c := vw s a)" "dirt s3 = dirt s" "dsk s3 = dsk s" "writes s3 = writes s" "spare s3 = spare s2"
    using put [OF 2(2) h2(1), of "\<lambda>_. vw s a"] 2(6-10) unfolding runs_iff by auto
  have h3: "hold s3 d = Some c" using 3(4) h2 by simp
  obtain s4 where 4: "wr d s3 = Ret () s4" "ok s4" "frame s3 s4" "hold s4 = hold s2" "vw s4 = (vw s)(c := vw s a)"
      "dirt s4 = dirt s - {c}" "dsk s4 = (dsk s)(c := vw s a)" "writes s4 = writes s @ [(c, vw s a)]" "spare s4 = spare s2"
    using wr [OF 3(2) h3] 3(4-9) unfolding runs_iff by auto
  have h4: "hold s4 l = Some a" "hold s4 d = Some c" using 4(4) h2 by simp_all
  have ca: "a \<in> dirt s4 \<or> vw s4 a = dsk s4 a" using 4(5,7) assms(4,8) by simp
  obtain s5 where 5: "rel l s4 = Ret () s5" "ok s5" "frame s4 s5" "hold s5 = (hold s4)(l := None)" "vw s5 = vw s4"
      "dirt s5 = dirt s4" "dsk s5 = dsk s4" "writes s5 = writes s4" "spare s5 = Suc (spare s2)"
    using rel [OF 4(2) h4(1) ca] 4(6,9) assms(7) unfolding runs_iff by auto
  have h5: "hold s5 d = Some c" using 5(4) h4 dl by simp
  have cc: "c \<in> dirt s5 \<or> vw s5 c = dsk s5 c" using 5(5,7) 4(5,7) by simp
  obtain s6 where 6: "rel d s5 = Ret () s6" "ok s6" "frame s5 s6" "hold s6 = (hold s5)(d := None)" "vw s6 = vw s5"
      "dirt s6 = dirt s5" "dsk s6 = dsk s5" "writes s6 = writes s5" "spare s6 = Suc (spare s5)"
    using rel [OF 5(2) h5 cc] 5(6) 4(6) unfolding runs_iff by auto
  have "frame s s6"
    using frame_trans [OF 1(3) frame_trans [OF 2(3) frame_trans [OF 3(3) frame_trans [OF 4(3) frame_trans [OF 5(3) 6(3)]]]]] .
  moreover have "hold s6 = hold s"
    using 6(4) 5(4) 4(4) 2(4,5) 1(4,5) dl by (auto simp: fun_eq_iff)
  moreover have "spare s6 = (if c \<in> dirt s then Suc (spare s) else spare s)" using 6(9) 5(9) 2(10) 1(10) assms(9,10) by auto
  ultimately show ?thesis
    using 1(1) 2(1) 3(1) 4(1,5-8) 5(1,5-8) 6(1,2,5-8)
    by (simp add: runs_def bnd_Ret sq_Ret bnd_gets da)
qed

text \<open>Saving a block that is held to another place on the disk.\<close>

lemma save_block:
  assumes "ok s" "hold s b = Some sec" "c < nsec s" "c \<notin> ran (hold s)" "c \<notin> dirt s" "0 < spare s"
  shows "runs (bnd (rd c) (\<lambda>l. sq (bnd (gets (\<lambda>s. data s b)) (\<lambda>x. put l (\<lambda>_. x))) (sq (wr l) (rel l)))) s
    (\<lambda>_ t. ok t \<and> frame s t \<and> hold t = hold s \<and> vw t = (vw s)(c := vw s sec) \<and> dirt t = dirt s \<and>
      dsk t = (dsk s)(c := vw s sec) \<and> writes t = writes s @ [(c, vw s sec)] \<and> spare t = spare s)"
proof -
  obtain l s1 where 1: "rd c s = Ret l s1" "ok s1" "frame s s1" "hold s l = None" "hold s1 = (hold s)(l := Some c)" "vw s1 = vw s"
      "dirt s1 = dirt s" "dsk s1 = dsk s" "writes s1 = writes s" "spare s1 = spare s - 1"
    using rd [OF assms(1,3,4)] assms(5,6) unfolding runs_iff by auto
  have "hold s1 b = Some sec" using 1(4,5) assms(2) by auto
  then have da: "data s1 b = vw s sec" using data [OF 1(2)] 1(6) by simp
  have h1: "hold s1 l = Some c" using 1(5) by simp
  obtain s2 where 2: "put l (\<lambda>_. vw s sec) s1 = Ret () s2" "ok s2" "frame s1 s2" "hold s2 = hold s1"
      "vw s2 = (vw s)(c := vw s sec)" "dirt s2 = dirt s" "dsk s2 = dsk s" "writes s2 = writes s" "spare s2 = spare s - 1"
    using put [OF 1(2) h1, of "\<lambda>_. vw s sec"] 1(6-10) unfolding runs_iff by auto
  have h2: "hold s2 l = Some c" using 2(4) h1 by simp
  obtain s3 where 3: "wr l s2 = Ret () s3" "ok s3" "frame s2 s3" "hold s3 = hold s1" "vw s3 = (vw s)(c := vw s sec)"
      "dirt s3 = dirt s" "dsk s3 = (dsk s)(c := vw s sec)" "writes s3 = writes s @ [(c, vw s sec)]" "spare s3 = spare s - 1"
    using wr [OF 2(2) h2] 2(4-9) assms(5) unfolding runs_iff by auto
  have h3: "hold s3 l = Some c" "c \<in> dirt s3 \<or> vw s3 c = dsk s3 c" using 3(4,5,7) h1 by simp_all
  obtain s4 where 4: "rel l s3 = Ret () s4" "ok s4" "frame s3 s4" "hold s4 = (hold s3)(l := None)" "vw s4 = vw s3"
      "dirt s4 = dirt s3" "dsk s4 = dsk s3" "writes s4 = writes s3" "spare s4 = Suc (spare s - 1)"
    using rel [OF 3(2) h3] 3(6,9) assms(5) unfolding runs_iff by auto
  have "frame s s4" using frame_trans [OF 1(3) frame_trans [OF 2(3) frame_trans [OF 3(3) 4(3)]]] .
  moreover have "hold s4 = hold s" using 4(4) 3(4) 1(4,5) by (auto simp: fun_eq_iff)
  ultimately show ?thesis
    using 1(1) 2(1) 3(1,5-8) 4(1,2,5-9) assms(6)
    by (simp add: runs_def bnd_Ret sq_Ret bnd_gets da)
qed

end

interpretation cache: block_cache "bok p" bframe held view dirty free_bufs disk disk_writes disksize
  "\<lambda>s b. b_data (bufs s b)" "bread 1" set_data bwrite brelse for p
proof (unfold_locales, goal_cases)
  case (1 s t u) then show ?case by (rule bframe_trans)
next
  case (2 s t) then show ?case by (simp add: bframe_def)
next
  case (3 s b sec) then show ?case using held_Some(7) [of s b sec] by (simp add: bok_def)
next
  case (4 s sec) then show ?case by (rule bread_law)
next
  case (5 s b sec f) then show ?case by (rule set_data_law)
next
  case (6 s b sec) then show ?case by (rule bwrite_law)
next
  case (7 s b sec) then show ?case by (rule brelse_law)
qed

section \<open>The other outcomes of bread\<close>

lemma bread_waits:
  fixes s :: "'z bcst_scheme"
  assumes o: "bok p s" and h: "held s b = Some sec"
  shows "sleeps (bread 1 sec) s (\<lambda>ch s'. ch = ChanBuf b \<and>
    asleep (ChanBuf b) p (cpust s) (s\<lparr>cpust := acq BcacheLock (cpust s)\<rparr>) s')"
proof -
  have i: "bc_inv s" and c: "caller BcacheLock p s" using o by (simp_all add: bok_def)
  note hs = held_Some [OF i h] and k = callerD [OF c]
  obtain xs where xs: "lru xs (bufs s)" using i by (auto simp: bc_inv_def)
  let ?P = "\<lambda>b. b_dev (bufs s b) = 1 \<and> b_sector (bufs s b) = sec"
  have un: "x = b" if "x < NBUF" "?P x" for x
    using bc_inv_ok [OF i that(1)] that hs bc_inv_uniq [OF i that(1) hs(1)] by (auto simp: buf_ok_def split: if_splits)
  have "find ?P xs = Some b"
  proof (cases "find ?P xs")
    case None
    then show ?thesis using hs xs by (auto simp: find_none lru_def)
  next
    case (Some x)
    then show ?thesis using find_mem [OF Some] un [of x] xs by (auto simp: lru_def)
  qed
  let ?s = "s\<lparr>cpust := acq BcacheLock (cpust s)\<rparr>"
  have "bget 1 sec s = sq (sleep (ChanBuf b) BcacheLock) (ret b) ?s"
    using lru_walk(1) [OF xs, of ?P] \<open>find ?P xs = Some b\<close> hs(2)
    by (simp add: bget_def bget_loop_def caller_acquire [OF c] buf_ops)
  moreover have "sleeps (sleep (ChanBuf b) BcacheLock) ?s (\<lambda>ch s'. ch = ChanBuf b \<and> asleep (ChanBuf b) p (cpust s) ?s s')"
    using k by (intro sleep_held) simp_all
  ultimately show ?thesis by (auto simp: sleeps_iff bread_def sq_Sleep bnd_Sleep)
qed

lemma bread_exhausted:
  assumes o: "bok p s" and n: "cached sec s = None" and f: "free_bufs s = 0"
  shows "bread 1 sec s = Panic ''bget: no buffers''"
proof -
  have i: "bc_inv s" and c: "caller BcacheLock p s" using o by (simp_all add: bok_def)
  obtain xs where xs: "lru xs (bufs s)" using i by (auto simp: bc_inv_def)
  let ?P = "\<lambda>b. b_dev (bufs s b) = 1 \<and> b_sector (bufs s b) = sec"
  let ?Q = "\<lambda>b. \<not> b_busy (bufs s b) \<and> \<not> b_dirty (bufs s b)"
  have "\<not> ?P x" if "x < NBUF" for x
    using bc_inv_ok [OF i that] n that by (auto simp: buf_ok_def cached_None split: if_splits)
  then have fP: "find ?P xs = None" using xs by (auto simp: find_none lru_def)
  have "card (pinned s) = card {0..<NBUF}" using f card_pinned [of s] by (simp add: free_bufs_def)
  moreover have "pinned s \<subseteq> {0..<NBUF}" by (auto simp: pinned_def)
  ultimately have pin: "pinned s = {0..<NBUF}" by (intro card_subset_eq) (simp_all only: finite_atLeastLessThan)
  have "b_busy (bufs s x) \<or> b_dirty (bufs s x)" if "x < NBUF" for x
  proof -
    have "x \<in> pinned s" unfolding pin using that by simp
    then show ?thesis by (simp add: pinned_def)
  qed
  then have fQ: "find ?Q (rev xs) = None" using xs by (auto simp: find_none lru_def)
  show ?thesis
    using lru_walk(1) [OF xs, of ?P] lru_walk(2) [OF xs, of ?Q] fP fQ callerD [OF c]
    by (simp add: bread_def bget_def bget_loop_def caller_acquire [OF c] buf_ops bnd_Panic panic_apply)
qed

section \<open>Initialisation\<close>

text \<open>After \<open>i\<close> rounds of the loop of \<^verbatim>\<open>binit\<close> the first \<open>i\<close> buffers are in the list.\<close>

definition binit_inv :: "(uint \<Rightarrow> block) \<Rightarrow> nat \<Rightarrow> 'z bcst_scheme \<Rightarrow> bool" where
  "binit_inv d i s \<longleftrightarrow> disk s = d \<and>
    (\<forall>b. b < NBUF \<longrightarrow> \<not> b_busy (bufs s b) \<and> \<not> b_valid (bufs s b) \<and> \<not> b_dirty (bufs s b)) \<and>
    (\<forall>b. b < i \<longrightarrow> b_dev (bufs s b) = -1) \<and>
    linked (\<lambda>b. b_next (bufs s b)) (\<lambda>b. b_prev (bufs s b)) (NBUF # rev [0..<i] @ [NBUF])"

definition binit_step :: "nat \<Rightarrow> ('z bcst_scheme, unit) op" where
  "binit_step b =
     bnd (gets (\<lambda>s. b_next (bufs s NBUF))) (\<lambda>f.
     sq (upd_buf b (\<lambda>m. m\<lparr>b_next := f\<rparr>))
    (sq (upd_buf b (\<lambda>m. m\<lparr>b_prev := NBUF\<rparr>))
    (sq (upd_buf b (\<lambda>m. m\<lparr>b_dev := -1\<rparr>))
    (sq (upd_buf f (\<lambda>m. m\<lparr>b_prev := b\<rparr>))
        (upd_buf NBUF (\<lambda>h. h\<lparr>b_next := b\<rparr>))))))"

definition set_dev :: "nat \<Rightarrow> (nat \<Rightarrow> buf) \<Rightarrow> nat \<Rightarrow> buf" where
  "set_dev x bs = bs(x := (bs x)\<lparr>b_dev := -1\<rparr>)"

lemma set_dev_sel:
  "b_next (set_dev x bs c) = b_next (bs c)" "b_prev (set_dev x bs c) = b_prev (bs c)"
  "payload (set_dev x bs c) = (if c = x then (payload (bs c))\<lparr>b_dev := -1\<rparr> else payload (bs c))"
  by (simp_all add: set_dev_def payload_def)

lemma payload_sel:
  "b_busy (payload m) = b_busy m" "b_valid (payload m) = b_valid m" "b_dirty (payload m) = b_dirty m" "b_dev (payload m) = b_dev m"
  by (simp_all add: payload_def)

lemma binit_step_run:
  assumes i: "i < NBUF" and I: "binit_inv d i t"
  shows "runs (binit_step i) t (\<lambda>_ s'. binit_inv d (Suc i) s')"
proof -
  let ?n = "\<lambda>b. b_next (bufs t b)" and ?p = "\<lambda>b. b_prev (bufs t b)"
  define f where "f = b_next (bufs t NBUF)"
  define t' where "t' = t\<lparr>bufs := set_next NBUF i (set_prev f i (set_dev i (set_prev i NBUF (set_next i f (bufs t)))))\<rparr>"
  have e: "binit_step i t = Ret () t'"
    by (simp add: binit_step_def bnd_gets sq_upd_buf upd_buf_run with_buf_def t'_def f_def set_next_def set_prev_def set_dev_def)
  have lk: "linked ?n ?p (NBUF # rev [0..<i] @ [NBUF])" using I unfolding binit_inv_def by blast
  have f: "f = hd (rev [0..<i] @ [NBUF])" using lk by (cases i) (simp_all add: f_def)
  have "linked (?n(i := f, NBUF := i)) (?p(i := NBUF, f := i)) (NBUF # i # rev [0..<i] @ [NBUF])"
    unfolding f
  proof (rule linked_push [OF lk])
    show "NBUF \<notin> set (butlast (rev [0..<i] @ [NBUF]))" using i by (simp add: butlast_append)
    show "hd (rev [0..<i] @ [NBUF]) \<notin> set (tl (rev [0..<i] @ [NBUF]))" using i by (cases i) auto
    show "i \<notin> set (NBUF # rev [0..<i] @ [NBUF])" using i by simp
  qed simp
  moreover have "(\<lambda>b. b_next (bufs t' b)) = ?n(i := f, NBUF := i)" "(\<lambda>b. b_prev (bufs t' b)) = ?p(i := NBUF, f := i)"
    by (simp_all add: t'_def set_dev_sel fun_eq_iff)
  ultimately have "linked (\<lambda>b. b_next (bufs t' b)) (\<lambda>b. b_prev (bufs t' b)) (NBUF # rev [0..<Suc i] @ [NBUF])" by simp
  moreover have pl: "payload (bufs t' b) = (if b = i then (payload (bufs t b))\<lparr>b_dev := -1\<rparr> else payload (bufs t b))" for b
    by (simp add: t'_def set_dev_sel)
  have "b_busy (bufs t' b) = b_busy (bufs t b)" "b_valid (bufs t' b) = b_valid (bufs t b)"
    "b_dirty (bufs t' b) = b_dirty (bufs t b)" "b_dev (bufs t' b) = (if b = i then -1 else b_dev (bufs t b))" for b
    using arg_cong [OF pl [of b], of b_busy] arg_cong [OF pl [of b], of b_valid] arg_cong [OF pl [of b], of b_dirty]
      arg_cong [OF pl [of b], of b_dev] by (simp_all add: payload_sel split: if_splits)
  moreover have "disk t' = disk t" by (simp add: t'_def)
  ultimately have "binit_inv d (Suc i) t'" using I unfolding binit_inv_def by (simp add: less_Suc_eq)
  then show ?thesis by (simp add: runs_def e)
qed

lemma binit_run:
  fixes s :: "'z bcst_scheme"
  assumes z: "\<And>b. b < NBUF \<Longrightarrow> \<not> b_busy (bufs s b) \<and> \<not> b_valid (bufs s b) \<and> \<not> b_dirty (bufs s b)"
  shows "runs binit s (\<lambda>_ s'. bc_inv s' \<and> disk s' = disk s \<and> (\<forall>b < NBUF. \<not> b_valid (bufs s' b)))"
proof -
  let ?k = "(cpust s)\<lparr>lks := (lks (cpust s))(BcacheLock := initlock)\<rparr>"
  let ?s0 = "s\<lparr>cpust := ?k, bufs := set_next NBUF NBUF (set_prev NBUF NBUF (bufs s))\<rparr>"
  have e: "binit s = foreach [0..<NBUF] binit_step ?s0"
    unfolding binit_def binit_step_def [abs_def]
    by (simp add: sq_modify sq_upd_buf with_buf_def set_next_def set_prev_def del: upt_rec_numeral)
  have "binit_inv (disk s) 0 ?s0" using z by (simp add: binit_inv_def set_next_def set_prev_def)
  from runs_for [where I = "binit_inv (disk s)", OF this binit_step_run]
  have r: "runs binit s (\<lambda>_ s'. binit_inv (disk s) NBUF s')" unfolding runs_def e by (simp del: upt_rec_numeral)
  show ?thesis
  proof (rule runs_conseq [OF r])
    fix s' :: "'z bcst_scheme" assume I: "binit_inv (disk s) NBUF s'"
    then have "lru (rev [0..<NBUF]) (bufs s')" by (simp add: binit_inv_def lru_def del: upt_rec_numeral)
    moreover have "buf_ok (disk s') (disksize s') (bufs s' b)" "\<not> b_valid (bufs s' b)" if "b < NBUF" for b
      using I that unfolding binit_inv_def buf_ok_def by simp_all
    moreover have "disk s' = disk s" using I unfolding binit_inv_def by blast
    ultimately show "bc_inv s' \<and> disk s' = disk s \<and> (\<forall>b < NBUF. \<not> b_valid (bufs s' b))" unfolding bc_inv_def by blast
  qed
qed

lemma unpinned_free:
  assumes "b < NBUF" and "\<not> b_busy (bufs s b)" and "\<not> b_dirty (bufs s b)"
  shows "0 < free_bufs s"
proof -
  have "pinned s \<subseteq> {0..<NBUF} - {b}" using assms by (auto simp: pinned_def)
  then have "card (pinned s) \<le> card ({0..<NBUF} - {b})" by (intro card_mono) (simp_all only: finite_Diff finite_atLeastLessThan)
  moreover have "card ({0..<NBUF} - {b}) = NBUF - 1" using assms(1) by (subst card_Diff_singleton) simp_all
  ultimately show ?thesis by (simp add: free_bufs_def)
qed

section \<open>Properties\<close>

text \<open>
  (C26) \<^verbatim>\<open>bread\<close> on a consistent cache, for every sector of the disk: if the block is held it waits for that buffer; if the
  block is not cached and every buffer is held or dirty it panics; otherwise it returns a buffer, held by the caller alone, with the
  current contents of the block, whether they are in the cache or on the disk, and the cache stays consistent.
\<close>

theorem bread_correct:
  fixes s :: "'z bcst_scheme"
  assumes o: "bok p s" and sz: "sec < disksize s"
  shows "(\<forall>b. held s b = Some sec \<longrightarrow> sleeps (bread 1 sec) s (\<lambda>ch s'. ch = ChanBuf b \<and> bufs s' = bufs s)) \<and>
    (cached sec s = None \<and> free_bufs s = 0 \<longrightarrow> bread 1 sec s = Panic ''bget: no buffers'') \<and>
    (sec \<notin> ran (held s) \<and> (cached sec s \<noteq> None \<or> 0 < free_bufs s) \<longrightarrow>
      runs (bread 1 sec) s (\<lambda>b s'. bok p s' \<and> held s b = None \<and> held s' = (held s)(b := Some sec) \<and>
        b_data (bufs s' b) = view s sec \<and> view s' = view s \<and> disk s' = disk s))"
proof (intro conjI allI impI)
  fix b assume "held s b = Some sec"
  from bread_waits [OF o this] show "sleeps (bread 1 sec) s (\<lambda>ch s'. ch = ChanBuf b \<and> bufs s' = bufs s)"
    by (auto simp: sleeps_iff asleep_def)
next
  assume "cached sec s = None \<and> free_bufs s = 0"
  then show "bread 1 sec s = Panic ''bget: no buffers''" using bread_exhausted [OF o] by blast
next
  assume a: "sec \<notin> ran (held s) \<and> (cached sec s \<noteq> None \<or> 0 < free_bufs s)"
  have i: "bc_inv s" using o by (simp add: bok_def)
  have "sec \<in> dirty s \<or> 0 < free_bufs s"
  proof (cases "cached sec s")
    case None
    then show ?thesis using a by simp
  next
    case (Some b)
    then have b: "b < NBUF" "b_valid (bufs s b)" "b_sector (bufs s b) = sec" using cached_Some [OF i] by simp_all
    moreover have "held s b \<noteq> Some sec" using a by (auto simp: ran_def)
    then have "\<not> b_busy (bufs s b)" using b by (auto simp: held_def)
    ultimately show ?thesis using unpinned_free [of b s] dirty_iff [OF i b(1,2)] by auto
  qed
  from bread_law [OF o sz conjunct1 [OF a] this]
  show "runs (bread 1 sec) s (\<lambda>b s'. bok p s' \<and> held s b = None \<and> held s' = (held s)(b := Some sec) \<and>
        b_data (bufs s' b) = view s sec \<and> view s' = view s \<and> disk s' = disk s)"
  proof (rule runs_conseq, elim conjE)
    fix b and s' :: "'z bcst_scheme"
    assume s': "bok p s'" "held s b = None" "held s' = (held s)(b := Some sec)" "view s' = view s" "disk s' = disk s"
    then have "b_data (bufs s' b) = view s' sec" using held_Some(7) [of s' b sec] by (simp add: bok_def)
    then show "bok p s' \<and> held s b = None \<and> held s' = (held s)(b := Some sec) \<and>
        b_data (bufs s' b) = view s sec \<and> view s' = view s \<and> disk s' = disk s" using s' by simp
  qed
qed

text \<open>
  (C27) Blocks are what was last written to them: reading a block, changing it, writing it with \<^verbatim>\<open>bwrite\<close> and releasing it,
  and then reading any block, gives the new contents for the same sector and the old ones for every other sector; on the disk
  exactly that sector has changed.
\<close>

theorem bcache_roundtrip:
  fixes s :: "'z bcst_scheme"
  assumes o: "bok p s" and sz: "sec < disksize s" "sec' < disksize s" and h: "ran (held s) = {}" and f: "0 < free_bufs s"
  shows "runs (sq (bnd (bread 1 sec) (\<lambda>b. sq (set_data b g) (sq (bwrite b) (brelse b)))) (bread 1 sec')) s (\<lambda>b s'.
    b_data (bufs s' b) = (if sec' = sec then g (view s sec) else view s sec') \<and> disk s' = (disk s)(sec := g (view s sec)))"
  unfolding runs_sq
proof (rule runs_conseq [OF cache.update_block [OF o sz(1)]], goal_cases)
  case 1 then show ?case using h by simp
next
  case 2 then show ?case using f by simp
next
  case (3 u t)
  then have t: "bok p t" "sec' < disksize t" "sec' \<notin> ran (held t)" "sec' \<in> dirty t \<or> 0 < free_bufs t"
    using h f sz(2) by (auto simp: bframe_def)
  show ?case
  proof (rule runs_conseq [OF bread_law [OF t]], elim conjE)
    fix b and s' :: "'z bcst_scheme"
    assume s': "bok p s'" "held s' = (held t)(b := Some sec')" "view s' = view t" "disk s' = disk t"
    have "b_data (bufs s' b) = view s' sec'" using held_Some(7) [of s' b sec'] s'(1,2) by (simp add: bok_def)
    then show "b_data (bufs s' b) = (if sec' = sec then g (view s sec) else view s sec') \<and> disk s' = (disk s)(sec := g (view s sec))"
      using 3 s' by simp
  qed
qed

text \<open>
  \<^verbatim>\<open>binit\<close> on zeroed buffers makes a consistent cache in which no block is held or dirty, so every block is the one on
  the disk.
\<close>

theorem binit_correct:
  fixes s :: "'z bcst_scheme"
  assumes "\<forall>b < NBUF. \<not> b_busy (bufs s b) \<and> \<not> b_valid (bufs s b) \<and> \<not> b_dirty (bufs s b)"
  shows "runs binit s (\<lambda>_ s'. bc_inv s' \<and> view s' = disk s \<and> disk s' = disk s)"
proof -
  have "runs binit s (\<lambda>_ s'. bc_inv s' \<and> disk s' = disk s \<and> (\<forall>b < NBUF. \<not> b_valid (bufs s' b)))"
    using binit_run assms by blast
  then show ?thesis
    by (rule runs_conseq) (auto simp: view_def cached_None fun_eq_iff split: option.splits dest: cached_Some [THEN iffD1])
qed

section \<open>A concrete cache\<close>

lemma sample_bc_sel [simp]:
  "bufs (sample_bc m) = sample_bufs" "disk (sample_bc m) = (\<lambda>_ _. 0)" "disksize (sample_bc m) = 1024"
  "disk_writes (sample_bc m) = []"
  by (simp_all add: sample_bc_def sample_table_def)

lemma sample_lru: "lru [9, 8, 7, 6, 5, 4, 3, 2, 1, 0] sample_bufs"
proof -
  have "set [9, 8, 7, 6, 5, 4, 3, 2, 1, 0] = {0..<NBUF}"
    unfolding set_eq_iff by (simp add: atLeast0LessThan) (intro allI; presburger)
  then show ?thesis by (simp add: lru_def sample_bufs_def)
qed

lemma sample_bok: "bok 0 (sample_bc m)" "held (sample_bc m) = Map.empty" "free_bufs (sample_bc m) = 10" "dirty (sample_bc m) = {}"
proof -
  have "bc_inv (sample_bc m)"
    unfolding bc_inv_def using sample_lru by (auto simp: buf_ok_def sample_bufs_def)
  then show "bok 0 (sample_bc m)" by (simp add: bok_def sample_bc_def sample_caller)
  show "held (sample_bc m) = Map.empty" by (rule ext) (simp add: held_def sample_bufs_def)
  have "pinned (sample_bc m) = {}" by (simp add: pinned_def sample_bufs_def)
  then show "free_bufs (sample_bc m) = 10" by (simp add: free_bufs_def)
  show "dirty (sample_bc m) = {}" by (simp add: dirty_def sample_bufs_def)
qed

lemma sample_view: "view (sample_bc m) = (\<lambda>_ _. 0)"
proof
  fix sec
  have "cached sec (sample_bc m) = None" by (simp add: cached_None sample_bufs_def)
  then show "view (sample_bc m) sec = (\<lambda>_. 0)" by (simp add: view_def)
qed

theorem bread_correct_witness:
  "runs (bread 1 5) (sample_bc ()) (\<lambda>b s'. bok 0 s' \<and> b_data (bufs s' b) 3 = 0 \<and> held s' b = Some 5)"
proof -
  have "runs (bread 1 5) (sample_bc ()) (\<lambda>b s'. bok 0 s' \<and> held (sample_bc ()) b = None \<and> held s' = (held (sample_bc ()))(b := Some 5) \<and>
        b_data (bufs s' b) = view (sample_bc ()) 5 \<and> view s' = view (sample_bc ()) \<and> disk s' = disk (sample_bc ()))"
    using bread_correct [OF sample_bok(1), of 5 "()"] by (simp add: sample_bok)
  then show ?thesis by (rule runs_conseq) (simp add: sample_view)
qed

theorem bcache_roundtrip_witness:
  "runs (sq (bnd (bread 1 5) (\<lambda>b. sq (set_data b (\<lambda>_ _. 7)) (sq (bwrite b) (brelse b)))) (bread 1 5)) (sample_bc ())
     (\<lambda>b s'. b_data (bufs s' b) 0 = 7 \<and> disk s' 5 0 = 7 \<and> disk s' 6 0 = 0)"
  by (rule runs_conseq [OF bcache_roundtrip [OF sample_bok(1)]]) (simp_all add: sample_bok)

theorem binit_correct_witness:
  "runs binit (sample_bc ()) (\<lambda>_ s'. bc_inv s' \<and> view s' 5 3 = 0)"
  by (rule runs_conseq [OF binit_correct]) (simp_all add: sample_bufs_def)

end
