(* ===== verification/Recovery.thy ===== *)
theory Recovery
  imports Log Bcache
begin

text \<open>
  Crash safety of the write-ahead log of \<^verbatim>\<open>src/log.c\<close>.

  What a disk means is a function of the disk alone: \<open>logical d\<close> is the home blocks with the blocks of the log over them, when the
  header on the disk says that the log is committed.  \<^verbatim>\<open>initlog\<close> makes the home blocks what the disk means, and every write it does on the
  way keeps the meaning, so it may be interrupted at any point and started again.  \<^verbatim>\<open>commit_trans\<close> writes the header and then does the same
  writes; the meaning changes with the first of its writes, and with no other.
\<close>

section \<open>The log on the disk\<close>

type_synonym blocks = "uint \<Rightarrow> block"

text \<open>Where the super block puts the log.\<close>

definition dstart :: "blocks \<Rightarrow> uint" where
  "dstart d = sb_size (superblock_of (d 1)) - sb_nlog (superblock_of (d 1))"

definition dsize :: "blocks \<Rightarrow> int" where
  "dsize d = sint (sb_nlog (superblock_of (d 1)))"

text \<open>The number of blocks a transaction may log, by the two tests of \<^verbatim>\<open>log_write\<close>.\<close>

definition dcap :: "blocks \<Rightarrow> nat" where
  "dcap d = nat (min LOGSIZE (dsize d - 1))"

definition dblock :: "blocks \<Rightarrow> nat \<Rightarrow> uint" where
  "dblock d i = dstart d + of_nat i + 1"

definition in_log :: "blocks \<Rightarrow> uint \<Rightarrow> bool" where
  "in_log d x \<longleftrightarrow> dstart d \<le> x \<and> unat x \<le> unat (dstart d) + dcap d"

text \<open>What the header block says.\<close>

definition dn :: "blocks \<Rightarrow> nat" where
  "dn d = nat (sint (ld32 (d (dstart d)) 0))"

definition dsec :: "blocks \<Rightarrow> nat \<Rightarrow> uint" where
  "dsec d i = ld32 (d (dstart d)) (lh_off i)"

definition logical :: "blocks \<Rightarrow> blocks" where
  "logical d x = (case scan (\<lambda>i. dsec d i = x) (dn d) of None \<Rightarrow> d x | Some i \<Rightarrow> d (dblock d i))"

text \<open>The home of a block: a sector of the disk that is neither the super block nor in the log.\<close>

definition home :: "uint \<Rightarrow> blocks \<Rightarrow> uint \<Rightarrow> bool" where
  "home N d x \<longleftrightarrow> x < N \<and> x \<noteq> 1 \<and> \<not> in_log d x"

definition disk_wf :: "uint \<Rightarrow> blocks \<Rightarrow> bool" where
  "disk_wf N d \<longleftrightarrow> 1 < N \<and> \<not> in_log d 1 \<and> unat (dstart d) + dcap d < unat N \<and> dn d \<le> dcap d \<and>
     (\<forall>i < dn d. home N d (dsec d i)) \<and> inj_on (dsec d) {..<dn d}"

definition replay :: "(uint \<times> block) list \<Rightarrow> blocks \<Rightarrow> blocks" where
  "replay ws d = fold (\<lambda>(x, v) d. d(x := v)) ws d"

lemma replay_simps [simp]:
  "replay [] d = d" "replay ((x, v) # ws) d = replay ws (d(x := v))" "replay (ws @ ws') d = replay ws' (replay ws d)"
  by (simp_all add: replay_def)

lemma replay_other: "x \<notin> fst ` set ws \<Longrightarrow> replay ws d x = d x"
  by (induction ws arbitrary: d) auto

lemma replay_map:
  assumes "inj_on f {..<n}" and "i < n"
  shows "replay (map (\<lambda>i. (f i, v i)) [0..<n]) d (f i) = v i"
  using assms
proof (induction n)
  case (Suc n)
  then have "inj_on f {..<n}" by (auto simp: inj_on_def)
  moreover have "f i \<noteq> f n" if "i < n" using Suc.prems that by (auto simp: inj_on_def)
  ultimately show ?case using Suc by (cases "i = n") auto
qed simp

lemma lh_off_ge: "4 \<le> lh_off i" "i < j \<Longrightarrow> lh_off i + 4 \<le> lh_off j"
  by (simp_all add: lh_off_def)

section \<open>The header block\<close>

definition put_sectors :: "nat \<Rightarrow> (nat \<Rightarrow> uint) \<Rightarrow> block \<Rightarrow> block" where
  "put_sectors n S d = fold (\<lambda>i d. st32 d (lh_off i) (S i)) [0..<n] d"

definition header :: "nat \<Rightarrow> (nat \<Rightarrow> uint) \<Rightarrow> block \<Rightarrow> block" where
  "header n S d = put_sectors n S (st32 d 0 (of_nat n))"

lemma put_sectors_0: "ld32 (put_sectors n S d) 0 = ld32 d 0"
  by (induction n) (simp_all add: put_sectors_def ld32_st32_nat(2) lh_off_ge(1))

lemma put_sectors_at: "i < n \<Longrightarrow> ld32 (put_sectors n S d) (lh_off i) = S i"
proof (induction n)
  case (Suc n)
  show ?case
  proof (cases "i = n")
    case False
    with Suc.prems have "i < n" by simp
    then show ?thesis using Suc.IH lh_off_ge(2) [of i n] by (simp add: put_sectors_def ld32_st32_nat(2))
  qed (simp add: put_sectors_def ld32_st32_nat(1))
qed simp

lemma header_read:
  "ld32 (header n S d) 0 = of_nat n" "i < n \<Longrightarrow> ld32 (header n S d) (lh_off i) = S i" "header 0 S d = st32 d 0 0"
  unfolding header_def put_sectors_0 by (simp_all add: put_sectors_at ld32_st32_nat) (simp add: put_sectors_def)

section \<open>What the disk means\<close>

lemma dblock_unat:
  assumes "disk_wf N d" and "i < dcap d"
  shows "unat (dblock d i) = unat (dstart d) + i + 1"
proof -
  have b: "unat (dstart d) + i + 1 < 2 ^ 32"
    using assms unsigned_less [of N, where 'a = nat] by (simp add: disk_wf_def)
  have "unat (of_nat i + 1 :: uint) = i + 1" using b by (simp add: unat_word_ariths unat_of_nat)
  then have "unat (dstart d + (of_nat i + 1)) = unat (dstart d) + (i + 1)"
    using b by (simp add: unat_word_ariths)
  then show ?thesis by (simp add: dblock_def add.assoc)
qed

lemma dblock_in:
  assumes "disk_wf N d" and "i < dcap d"
  shows "in_log d (dblock d i)" "dblock d i < N" "dblock d i \<noteq> dstart d"
  using dblock_unat [OF assms] assms by (auto simp: in_log_def disk_wf_def word_le_nat_alt word_less_nat_alt)

lemma dstart_in: "disk_wf N d \<Longrightarrow> in_log d (dstart d)" "disk_wf N d \<Longrightarrow> dstart d < N" "disk_wf N d \<Longrightarrow> dstart d \<noteq> 1"
  by (auto simp: in_log_def disk_wf_def word_less_nat_alt)

lemma logical_at:
  assumes "disk_wf N d" and "i < dn d"
  shows "logical d (dsec d i) = d (dblock d i)"
proof -
  have "scan (\<lambda>j. dsec d j = dsec d i) (dn d) = Some i"
    using assms by (auto simp: scan_Some_iff disk_wf_def inj_on_def)
  then show ?thesis by (simp add: logical_def)
qed

lemma logical_other: "x \<notin> dsec d ` {..<dn d} \<Longrightarrow> logical d x = d x"
  by (auto simp: logical_def dest: scan_SomeD split: option.split)

section \<open>Recovery, as writes\<close>

definition installs :: "blocks \<Rightarrow> nat \<Rightarrow> (uint \<times> block) list" where
  "installs d k = map (\<lambda>i. (dsec d i, d (dblock d i))) [0..<k]"

definition recovery_writes :: "blocks \<Rightarrow> (uint \<times> block) list" where
  "recovery_writes d = installs d (dn d) @ [(dstart d, st32 (d (dstart d)) 0 0)]"

lemma same_layout:
  assumes "d' 1 = d 1"
  shows "dstart d' = dstart d" "dsize d' = dsize d" "dcap d' = dcap d" "dblock d' = dblock d" "in_log d' = in_log d" "home N d' = home N d"
proof -
  show 1: "dstart d' = dstart d" "dsize d' = dsize d" using assms by (simp_all add: dstart_def dsize_def)
  then show 2: "dcap d' = dcap d" "dblock d' = dblock d" by (simp_all add: dcap_def dblock_def fun_eq_iff)
  show 3: "in_log d' = in_log d" using 1 2 by (simp add: in_log_def fun_eq_iff)
  show "home N d' = home N d" using 3 by (simp add: home_def fun_eq_iff)
qed

lemma same_head:
  assumes "d' 1 = d 1" and "d' (dstart d) = d (dstart d)"
  shows "dn d' = dn d" "dsec d' = dsec d" "disk_wf N d' = disk_wf N d"
proof -
  note l = same_layout [where d' = d' and d = d, OF assms(1)]
  show 1: "dn d' = dn d" using assms l by (simp add: dn_def)
  show 2: "dsec d' = dsec d" using assms l by (intro ext) (simp add: dsec_def)
  show "disk_wf N d' = disk_wf N d" using 1 2 l by (simp add: disk_wf_def)
qed

lemma installs_other:
  assumes "disk_wf N d" and "k \<le> dn d" and "\<not> home N d x"
  shows "replay (installs d k) d x = d x"
  using assms by (intro replay_other) (auto simp: installs_def disk_wf_def)

lemma installs_wf:
  assumes "disk_wf N d" and "k \<le> dn d"
  defines "d' \<equiv> replay (installs d k) d"
  shows "disk_wf N d'" "d' 1 = d 1" "d' (dstart d) = d (dstart d)" "logical d' = logical d"
proof -
  have o: "d' x = d x" if "\<not> home N d x" for x using installs_other [OF assms(1,2) that] by (simp add: d'_def)
  show 1: "d' 1 = d 1" and 2: "d' (dstart d) = d (dstart d)" using o dstart_in(1) [OF assms(1)] by (simp_all add: home_def)
  note l = same_layout [where d' = d' and d = d, OF 1] same_head [where d' = d' and d = d, OF 1 2]
  show w: "disk_wf N d'" using l assms(1) by simp
  show "logical d' = logical d"
  proof
    fix x
    show "logical d' x = logical d x"
    proof (cases "x \<in> dsec d ` {..<dn d}")
      case True
      then obtain i where i: "i < dn d" "x = dsec d i" by blast
      have "i < dcap d" using i assms(1) by (simp add: disk_wf_def)
      then have "\<not> home N d (dblock d i)" using dblock_in(1) [OF assms(1)] by (simp add: home_def)
      then show ?thesis using logical_at [OF assms(1) i(1)] logical_at [OF w, of i] l i o by simp
    next
      case False
      then have "x \<notin> fst ` set (installs d k)" using assms(2) by (auto simp: installs_def)
      then show ?thesis using False l by (simp add: logical_other d'_def replay_other)
    qed
  qed
qed

lemma installs_all:
  assumes "disk_wf N d"
  shows "replay (installs d (dn d)) d = logical d"
proof
  fix x
  show "replay (installs d (dn d)) d x = logical d x"
  proof (cases "x \<in> dsec d ` {..<dn d}")
    case True
    then obtain i where "i < dn d" "x = dsec d i" by blast
    then show ?thesis using assms logical_at [OF assms] replay_map [of "dsec d" "dn d" i]
      by (simp add: installs_def disk_wf_def)
  next
    case False
    then show ?thesis by (subst replay_other) (auto simp: installs_def logical_other)
  qed
qed

lemma cleared:
  assumes "disk_wf N d"
  defines "d' \<equiv> (logical d)(dstart d := st32 (d (dstart d)) 0 0)"
  shows "disk_wf N d'" "d' 1 = d 1" "dn d' = 0" "\<not> in_log d x \<Longrightarrow> d' x = logical d x"
proof -
  have e: "logical d = replay (installs d (dn d)) d" using installs_all [OF assms(1)] by simp
  note i = installs_wf [OF assms(1) le_refl, folded e]
  show 1: "d' 1 = d 1" using dstart_in(3) [OF assms(1)] i(2) by (simp add: d'_def)
  note l = same_layout [where d' = d' and d = d, OF 1]
  show 2: "dn d' = 0" using l by (simp add: dn_def) (simp add: d'_def ld32_st32_nat)
  show "disk_wf N d'" using 2 l assms(1) by (simp add: disk_wf_def)
  show "d' x = logical d x" if "\<not> in_log d x" using that dstart_in(1) [OF assms(1)] by (auto simp: d'_def)
qed

lemma recovery_writes_all:
  "disk_wf N d \<Longrightarrow> replay (recovery_writes d) d = (logical d)(dstart d := st32 (d (dstart d)) 0 0)"
  by (simp add: recovery_writes_def installs_all)

lemma recovery_prefix:
  fixes k :: nat
  assumes "disk_wf N d"
  defines "d' \<equiv> replay (take k (recovery_writes d)) d"
  shows "disk_wf N d'" "d' 1 = d 1" "\<not> in_log d x \<Longrightarrow> logical d' x = logical d x"
proof -
  consider "k \<le> dn d" "d' = replay (installs d k) d" | "d' = (logical d)(dstart d := st32 (d (dstart d)) 0 0)"
  proof (cases "k \<le> dn d")
    case True
    then have "take k (recovery_writes d) = installs d k"
      by (simp add: recovery_writes_def installs_def take_map)
    then show ?thesis using that True by (simp add: d'_def)
  next
    case False
    then have "take k (recovery_writes d) = recovery_writes d" by (simp add: recovery_writes_def installs_def)
    then show ?thesis using that(2) recovery_writes_all [OF assms(1)] by (simp add: d'_def)
  qed
  then have "disk_wf N d' \<and> d' 1 = d 1 \<and> (\<not> in_log d x \<longrightarrow> logical d' x = logical d x)"
  proof cases
    case 1
    then show ?thesis using installs_wf [OF assms(1)] by simp
  next
    case 2
    note c = cleared [OF assms(1), folded 2]
    have "logical d' = d'" using c(3) by (auto simp: logical_other)
    then show ?thesis using c by auto
  qed
  then show "disk_wf N d'" "d' 1 = d 1" "\<not> in_log d x \<Longrightarrow> logical d' x = logical d x" by blast+
qed

section \<open>The operations of the log\<close>

lemma bframe_log:
  assumes "bframe s (t :: 'z logst_scheme)"
  shows "log_start t = log_start s" "log_size t = log_size s" "log_busy t = log_busy s" "log_dev t = log_dev s" "lh_n t = lh_n s"
    "lh_sector t = lh_sector s" "disksize t = disksize s"
  using assms by (cases s; cases t; simp add: bframe_def)+

lemma bframe_caller:
  assumes "bframe s t" and "bok p t" and "caller lk p s"
  shows "caller lk p t"
proof -
  have "settled (cpust t) = settled (cpust s)" using assms(1) by (simp add: bframe_def)
  then have "lock_free lk (cpust t) = lock_free lk (cpust s)" by (metis lock_free_settled)
  then show ?thesis using assms(2,3) by (auto simp: bok_def caller_def can_lock_def)
qed



lemma view_clean:
  assumes "bok p s" and "x \<notin> ran (held s)" and "x \<notin> dirty s"
  shows "view s x = disk s x"
proof (cases "cached x s")
  case (Some b)
  have i: "bc_inv s" using assms(1) by (simp add: bok_def)
  from Some have b: "b < NBUF" "b_valid (bufs s b)" "b_sector (bufs s b) = x" using cached_Some [OF i] by simp_all
  moreover have "\<not> b_busy (bufs s b)"
  proof
    assume "b_busy (bufs s b)"
    then have "held s b = Some x" using b by (simp add: held_def)
    then show False using assms(2) by (auto simp: ran_def)
  qed
  moreover have "\<not> b_dirty (bufs s b)" using dirty_iff [OF i b(1,2)] b(3) assms(3) by simp
  ultimately have "b_data (bufs s b) = disk s x" using bc_inv_ok [OF i b(1)] by (simp add: buf_ok_def)
  then show ?thesis using Some by (simp add: view_def)
qed (simp add: view_def)

lemma put_sectors_run:
  fixes s :: "'z logst_scheme"
  shows "foreach xs (\<lambda>i. bnd (gets (\<lambda>s. lh_sector s i)) (\<lambda>sec. upd_buf b (\<lambda>m. m\<lparr>b_data := st32 (b_data m) (lh_off i) sec\<rparr>))) s =
    Ret () (with_buf b ((bufs s b)\<lparr>b_data := fold (\<lambda>i d. st32 d (lh_off i) (lh_sector s i)) xs (b_data (bufs s b))\<rparr>) s)"
proof (induction xs arbitrary: s)
  case Nil
  have "(bufs s b)\<lparr>b_data := b_data (bufs s b)\<rparr> = bufs s b" by simp
  then show ?case by (simp add: op_simps)
next
  case (Cons i xs)
  have "lh_sector (with_buf b m s) = lh_sector s" for m by (simp add: with_buf_def)
  then show ?case unfolding foreach.simps sq_bnd_gets sq_upd_buf Cons.IH by simp
qed

lemma bnd_same: "(\<And>a t. m s = Ret a t \<Longrightarrow> k a t = k' a t) \<Longrightarrow> bnd m k s = bnd m k' s"
  by (cases "m s") (simp_all add: bnd_def)

lemma write_head_alt:
  fixes s :: "'z logst_scheme"
  assumes "log_dev s = 1" and "0 \<le> lh_n s"
    and "\<And>b t. bread 1 (log_start s) s = Ret b t \<Longrightarrow> bframe s t"
  shows "write_head s = bnd (bread 1 (log_start s)) (\<lambda>b. sq (set_data b (header (nat (lh_n s)) (lh_sector s))) (sq (bwrite b) (brelse b))) s"
proof -
  have of: "of_int (lh_n s) = (of_nat (nat (lh_n s)) :: uint)" using assms(2) by (metis of_int_of_nat_eq int_nat_eq)
  have "sq (bnd (gets lh_n) (\<lambda>n. upd_buf b (\<lambda>m. m\<lparr>b_data := st32 (b_data m) 0 (of_int n)\<rparr>)))
    (sq (bnd (gets (\<lambda>s. nat (lh_n s))) (\<lambda>n. foreach [0..<n] (\<lambda>i.
           bnd (gets (\<lambda>s. lh_sector s i)) (\<lambda>sec.
           upd_buf b (\<lambda>m. m\<lparr>b_data := st32 (b_data m) (lh_off i) sec\<rparr>)))))
    (sq (bwrite b) (brelse b))) t = sq (set_data b (header (nat (lh_n s)) (lh_sector s))) (sq (bwrite b) (brelse b)) t"
    if "bread 1 (log_start s) s = Ret b t" for b t
  proof -
    note f = bframe_log [OF assms(3) [OF that]]
    have w: "lh_n (with_buf b m t) = lh_n s" "lh_sector (with_buf b m t) = lh_sector s" for m
      using f by (simp_all add: with_buf_def)
    show ?thesis
      unfolding sq_bnd_gets sq_upd_buf sq_Ret [OF put_sectors_run] set_data_def by (simp add: w f header_def put_sectors_def of)
  qed
  then show ?thesis unfolding write_head_def bnd_gets assms(1) prod.case by (rule bnd_same)
qed

lemma write_head_run:
  fixes s :: "'z logst_scheme"
  assumes "bok p s" and "log_dev s = 1" and "0 \<le> lh_n s" and "log_start s < disksize s" and "log_start s \<notin> ran (held s)" and "0 < free_bufs s"
    and "log_start s \<notin> dirty s"
  defines "h \<equiv> header (nat (lh_n s)) (lh_sector s) (view s (log_start s))"
  shows "runs write_head s (\<lambda>_ t. bok p t \<and> bframe s t \<and> held t = held s \<and> view t = (view s)(log_start s := h) \<and> dirty t = dirty s \<and>
    disk t = (disk s)(log_start s := h) \<and> disk_writes t = disk_writes s @ [(log_start s, h)] \<and> free_bufs t = free_bufs s)"
proof -
  have d: "log_start s \<in> dirty s \<or> 0 < free_bufs s" using assms(6) by simp
  have f: "bframe s t" if "bread 1 (log_start s) s = Ret b t" for b t
    using bread_law [OF assms(1,4,5) d] that by (simp add: runs_def)
  have "write_head s = bnd (bread 1 (log_start s))
      (\<lambda>b. sq (set_data b (header (nat (lh_n s)) (lh_sector s))) (sq (bwrite b) (brelse b))) s" by (rule write_head_alt [OF assms(2,3) f])
  moreover note cache.update_block [OF assms(1,4,5) d, of "header (nat (lh_n s)) (lh_sector s)"]
  ultimately have "runs write_head s (\<lambda>_ t. bok p t \<and> bframe s t \<and> held t = held s \<and> view t = (view s)(log_start s := h) \<and>
    dirty t = dirty s - {log_start s} \<and> disk t = (disk s)(log_start s := h) \<and> disk_writes t = disk_writes s @ [(log_start s, h)] \<and>
    free_bufs t = (if log_start s \<in> dirty s then Suc (free_bufs s) else free_bufs s))" unfolding runs_def h_def by simp
  then show ?thesis by (rule runs_conseq) (use assms(7) in simp)
qed

lemma install_step_run:
  fixes s :: "'z logst_scheme" and i :: nat
  defines "a \<equiv> log_start s + of_nat i + 1" and "c \<equiv> lh_sector s i"
  assumes "bok p s" "a < disksize s" "c < disksize s" "a \<noteq> c" "a \<notin> ran (held s)" "c \<notin> ran (held s)" "a \<notin> dirty s"
    "0 < free_bufs s" "c \<in> dirty s \<or> 1 < free_bufs s" "log_dev s = 1"
  shows "runs (install_step i) s (\<lambda>_ t. bok p t \<and> bframe s t \<and> held t = held s \<and> view t = (view s)(c := disk s a) \<and>
    dirty t = dirty s - {c} \<and> disk t = (disk s)(c := disk s a) \<and> disk_writes t = disk_writes s @ [(c, disk s a)] \<and>
    free_bufs t = (if c \<in> dirty s then Suc (free_bufs s) else free_bufs s))"
proof -
  have v: "view s a = disk s a" using view_clean assms(3,7,9) .
  have f: "bframe s t" if "bread 1 a s = Ret b t" for b t
    using bread_law [OF assms(3,4,7)] assms(10) that by (simp add: runs_def)
  have "install_step i s = bnd (bread 1 a) (\<lambda>l. bnd (bread 1 c) (\<lambda>d. sq (bnd (gets (\<lambda>s. b_data (bufs s l))) (\<lambda>x. set_data d (\<lambda>_. x)))
      (sq (bwrite d) (sq (brelse l) (brelse d))))) s"
    unfolding install_step_def bnd_gets assms(12) prod.case a_def [symmetric]
  proof (rule bnd_same, goal_cases)
    case (1 b t)
    note l = bframe_log [OF f [OF 1]]
    show ?case unfolding bnd_gets l assms(12) prod.case c_def set_data_def ..
  qed
  moreover note cache.copy_block [OF assms(3-9) v assms(10,11)]
  ultimately show ?thesis unfolding runs_def v by simp
qed

lemma install_run:
  fixes s :: "'z logst_scheme"
  defines "n \<equiv> nat (lh_n s)" and "S \<equiv> lh_sector s" and "L \<equiv> \<lambda>i. log_start s + of_nat i + 1"
  defines "W \<equiv> \<lambda>k. map (\<lambda>i. (S i, disk s (L i))) [0..<k]"
  assumes "bok p s" "log_dev s = 1" "held s = Map.empty" "0 < free_bufs s" "inj_on S {..<n}"
    and L: "\<And>i. i < n \<Longrightarrow> L i < disksize s \<and> L i \<notin> dirty s" and S: "\<And>i. i < n \<Longrightarrow> S i < disksize s \<and> (S i \<in> dirty s \<or> 1 < free_bufs s)"
    and LS: "\<And>i j. i < n \<Longrightarrow> j < n \<Longrightarrow> L i \<noteq> S j"
  shows "runs install_trans s (\<lambda>_ t. bok p t \<and> bframe s t \<and> held t = Map.empty \<and> view t = replay (W n) (view s) \<and>
    disk t = replay (W n) (disk s) \<and> dirty t = dirty s - S ` {..<n} \<and> disk_writes t = disk_writes s @ W n \<and> free_bufs s \<le> free_bufs t)"
  unfolding install_trans_def runs_bnd runs_gets n_def [symmetric]
proof (rule runs_for [where I = "\<lambda>k t. bok p t \<and> bframe s t \<and> held t = Map.empty \<and> view t = replay (W k) (view s) \<and>
    disk t = replay (W k) (disk s) \<and> dirty t = dirty s - S ` {..<k} \<and> disk_writes t = disk_writes s @ W k \<and> free_bufs s \<le> free_bufs t"])
  show "bok p s \<and> bframe s s \<and> held s = Map.empty \<and> view s = replay (W 0) (view s) \<and>
    disk s = replay (W 0) (disk s) \<and> dirty s = dirty s - S ` {..<0} \<and> disk_writes s = disk_writes s @ W 0 \<and> free_bufs s \<le> free_bufs s"
    using assms(5,7) by (simp add: W_def bframe_def)
next
  fix k and t :: "'z logst_scheme"
  assume k: "k < n" and I: "bok p t \<and> bframe s t \<and> held t = Map.empty \<and> view t = replay (W k) (view s) \<and>
    disk t = replay (W k) (disk s) \<and> dirty t = dirty s - S ` {..<k} \<and> disk_writes t = disk_writes s @ W k \<and> free_bufs s \<le> free_bufs t"
  then have t: "bok p t" "bframe s t" "held t = Map.empty" "view t = replay (W k) (view s)" "disk t = replay (W k) (disk s)"
    "dirty t = dirty s - S ` {..<k}" "disk_writes t = disk_writes s @ W k" "free_bufs s \<le> free_bufs t" by simp_all
  note l = bframe_log [OF t(2)]
  have e: "log_start t + of_nat k + 1 = L k" "lh_sector t k = S k" using l by (simp_all add: L_def S_def)
  have "S k \<notin> S ` {..<k}" using inj_onD [OF assms(9), of k] k by fastforce
  then have d: "S k \<in> dirty t \<or> 1 < free_bufs t" using S [OF k] t(6,8) by auto
  have "\<forall>j<k. L k \<noteq> S j" using LS k by simp
  then have "L k \<notin> fst ` set (W k)" by (auto simp: W_def)
  then have dk: "disk t (L k) = disk s (L k)" using t(5) by (simp add: replay_other)
  have w: "replay (W (Suc k)) f = (replay (W k) f)(S k := disk s (L k))" for f by (simp add: W_def)
  have dd: "dirty s - S ` {..<Suc k} = dirty t - {S k}" using t(6) by (auto simp: lessThan_Suc)
  show "runs (install_step k) t (\<lambda>_ t. bok p t \<and> bframe s t \<and> held t = Map.empty \<and> view t = replay (W (Suc k)) (view s) \<and>
    disk t = replay (W (Suc k)) (disk s) \<and> dirty t = dirty s - S ` {..<Suc k} \<and> disk_writes t = disk_writes s @ W (Suc k) \<and> free_bufs s \<le> free_bufs t)"
  proof (rule runs_conseq [OF install_step_run [OF t(1), of k, unfolded e]], goal_cases)
    case (10 a u)
    then have "bframe s u" using t(2) bframe_trans by blast
    then show ?case using 10 t(3-5,7,8) dk by (simp add: w dd) (simp add: W_def)
  qed (use L [OF k] S [OF k] LS [OF k k] t(3,6,8) d l assms(6,8) in auto)
qed

lemma cache_cong:
  assumes "bufs t = bufs s" "disk t = disk s" "disksize t = disksize s" "cpust t = cpust s" "procs t = procs s" "mlf t = mlf s" "cur t = cur s"
  shows "bok p t = bok p s" "held t = held s" "view t = view s" "dirty t = dirty s" "free_bufs t = free_bufs s" "caller lk p t = caller lk p s"
proof -
  show c: "caller lk p t = caller lk p s" for lk using assms sched_ok_cong [of t s] by (simp add: caller_def on_cpu_def)
  show "bok p t = bok p s" using assms c [of BcacheLock] by (simp add: bok_def bc_inv_def)
  show "held t = held s" "dirty t = dirty s" "free_bufs t = free_bufs s" using assms by (simp_all add: held_def fun_eq_iff dirty_def free_bufs_def pinned_def)
  show "view t = view s" by (intro ext) (simp only: view_def cached_def assms)
qed

lemma log_vars [simp]:
  fixes s :: "'z logst_scheme"
  shows "bok p (s\<lparr>lh_n := n\<rparr>) = bok p s" "held (s\<lparr>lh_n := n\<rparr>) = held s" "view (s\<lparr>lh_n := n\<rparr>) = view s" "dirty (s\<lparr>lh_n := n\<rparr>) = dirty s"
      "free_bufs (s\<lparr>lh_n := n\<rparr>) = free_bufs s" "caller lk p (s\<lparr>lh_n := n\<rparr>) = caller lk p s"
    "bok p (s\<lparr>lh_sector := f\<rparr>) = bok p s" "held (s\<lparr>lh_sector := f\<rparr>) = held s" "view (s\<lparr>lh_sector := f\<rparr>) = view s" "dirty (s\<lparr>lh_sector := f\<rparr>) = dirty s"
      "free_bufs (s\<lparr>lh_sector := f\<rparr>) = free_bufs s" "caller lk p (s\<lparr>lh_sector := f\<rparr>) = caller lk p s"
    "bok p (s\<lparr>log_start := x\<rparr>) = bok p s" "held (s\<lparr>log_start := x\<rparr>) = held s" "view (s\<lparr>log_start := x\<rparr>) = view s" "dirty (s\<lparr>log_start := x\<rparr>) = dirty s"
      "free_bufs (s\<lparr>log_start := x\<rparr>) = free_bufs s" "caller lk p (s\<lparr>log_start := x\<rparr>) = caller lk p s"
    "bok p (s\<lparr>log_size := n\<rparr>) = bok p s" "held (s\<lparr>log_size := n\<rparr>) = held s" "view (s\<lparr>log_size := n\<rparr>) = view s" "dirty (s\<lparr>log_size := n\<rparr>) = dirty s"
      "free_bufs (s\<lparr>log_size := n\<rparr>) = free_bufs s" "caller lk p (s\<lparr>log_size := n\<rparr>) = caller lk p s"
    "bok p (s\<lparr>log_dev := x\<rparr>) = bok p s" "held (s\<lparr>log_dev := x\<rparr>) = held s" "view (s\<lparr>log_dev := x\<rparr>) = view s" "dirty (s\<lparr>log_dev := x\<rparr>) = dirty s"
      "free_bufs (s\<lparr>log_dev := x\<rparr>) = free_bufs s" "caller lk p (s\<lparr>log_dev := x\<rparr>) = caller lk p s"
    "bok p (s\<lparr>log_busy := b\<rparr>) = bok p s" "held (s\<lparr>log_busy := b\<rparr>) = held s" "view (s\<lparr>log_busy := b\<rparr>) = view s" "dirty (s\<lparr>log_busy := b\<rparr>) = dirty s"
      "free_bufs (s\<lparr>log_busy := b\<rparr>) = free_bufs s" "caller lk p (s\<lparr>log_busy := b\<rparr>) = caller lk p s"
  by (rule cache_cong; simp)+

lemma read_sectors_run:
  fixes s :: "'z logst_scheme"
  shows "foreach xs (\<lambda>i. modify (\<lambda>s. s\<lparr>lh_sector := (lh_sector s)(i := ld32 (b_data (bufs s b)) (lh_off i))\<rparr>)) s =
    Ret () (s\<lparr>lh_sector := (\<lambda>i. if i \<in> set xs then ld32 (b_data (bufs s b)) (lh_off i) else lh_sector s i)\<rparr>)"
proof (induction xs arbitrary: s)
  case (Cons i xs)
  define s1 where "s1 = s\<lparr>lh_sector := (lh_sector s)(i := ld32 (b_data (bufs s b)) (lh_off i))\<rparr>"
  have 1: "bufs s1 = bufs s" "lh_sector s1 = (lh_sector s)(i := ld32 (b_data (bufs s b)) (lh_off i))" "s1\<lparr>lh_sector := g\<rparr> = s\<lparr>lh_sector := g\<rparr>" for g
    by (simp_all add: s1_def)
  have "(\<lambda>j. if j \<in> set xs then ld32 (b_data (bufs s b)) (lh_off j) else ((lh_sector s)(i := ld32 (b_data (bufs s b)) (lh_off i))) j) =
    (\<lambda>j. if j \<in> set (i # xs) then ld32 (b_data (bufs s b)) (lh_off j) else lh_sector s j)" by auto
  then show ?case unfolding foreach.simps sq_modify s1_def [symmetric] Cons.IH 1 by simp
qed (simp add: op_simps)

lemma free_all:
  assumes "bok p s" and "held s = Map.empty" and "dirty s = {}"
  shows "free_bufs s = NBUF"
proof -
  have "held s b \<noteq> None" if "b < NBUF" "b_busy (bufs s b)" for b using that by (simp add: held_def)
  moreover have "b_sector (bufs s b) \<in> dirty s" if "b < NBUF" "b_dirty (bufs s b)" for b using that by (auto simp: dirty_def)
  ultimately have "pinned s = {}" using assms by (auto simp: pinned_def)
  then show ?thesis by (simp add: free_bufs_def)
qed

text \<open>\<open>log_same\<close>: the log is where it was and in the same use, and what is not the log's or the cache's is unchanged.\<close>

definition log_same :: "'z logst_scheme \<Rightarrow> 'z logst_scheme \<Rightarrow> bool" where
  "log_same s t \<longleftrightarrow> log_start t = log_start s \<and> log_size t = log_size s \<and> log_busy t = log_busy s \<and> log_dev t = log_dev s \<and>
     disksize t = disksize s \<and> mem t = mem s \<and> cur t = cur s \<and> logst.more t = logst.more s"

lemma log_same_trans: "log_same s t \<Longrightarrow> log_same t u \<Longrightarrow> log_same s u"
  by (simp add: log_same_def)

lemma bframe_same: "bframe s t \<Longrightarrow> log_same s t"
  using bframe_log [of s t] by (cases s; cases t; simp add: log_same_def bframe_def)

lemma read_head_run:
  fixes s :: "'z logst_scheme"
  assumes o: "bok p s" and "log_dev s = 1" and "log_start s < disksize s" and h: "held s = Map.empty" and "0 < free_bufs s" and c: "log_start s \<notin> dirty s"
  defines "hb \<equiv> disk s (log_start s)"
  assumes n: "sint (ld32 hb 0) \<le> 10"
  shows "runs read_head s (\<lambda>_ t. bok p t \<and> log_same s t \<and> held t = Map.empty \<and> view t = view s \<and> dirty t = dirty s \<and> disk t = disk s \<and>
    disk_writes t = disk_writes s \<and> free_bufs t = free_bufs s \<and> lh_n t = sint (ld32 hb 0) \<and>
    (\<forall>i < nat (sint (ld32 hb 0)). lh_sector t i = ld32 hb (lh_off i)))"
proof -
  have hn: "log_start s \<notin> ran (held s)" using h by simp
  have v: "view s (log_start s) = hb" using view_clean [OF o hn c] by (simp add: hb_def)
  obtain b s1 where 1: "bread 1 (log_start s) s = Ret b s1" "bok p s1" "bframe s s1" "held s1 = (held s)(b := Some (log_start s))"
      "view s1 = view s" "dirty s1 = dirty s" "disk s1 = disk s" "disk_writes s1 = disk_writes s" "free_bufs s1 = free_bufs s - 1"
    using bread_law [OF o assms(3) hn] assms(5) c unfolding runs_iff by auto
  have b: "held s1 b = Some (log_start s)" using 1(4) by simp
  have d: "b_data (bufs s1 b) = hb" using cache.data [OF 1(2) b] 1(5) v by simp
  define n where "n = sint (ld32 hb 0)"
  define s2 where "s2 = s1\<lparr>lh_n := n\<rparr>\<lparr>lh_sector := (\<lambda>i. if i \<in> set [0..<nat n] then ld32 hb (lh_off i) else lh_sector s1 i)\<rparr>"
  have 2: "bok p s2" "held s2 = held s1" "view s2 = view s" "dirty s2 = dirty s" "disk s2 = disk s" "disk_writes s2 = disk_writes s"
      "free_bufs s2 = free_bufs s - 1" "lh_n s2 = n" "i < nat n \<Longrightarrow> lh_sector s2 i = ld32 hb (lh_off i)" for i
    using 1 by (simp_all add: s2_def)
  have b2: "held s2 b = Some (log_start s)" "log_start s \<in> dirty s2 \<or> view s2 (log_start s) = disk s2 (log_start s)"
    using b 2(2,3,5) v by (simp_all add: hb_def)
  obtain t where 3: "brelse b s2 = Ret () t" "bok p t" "bframe s2 t" "held t = (held s2)(b := None)" "view t = view s2" "dirty t = dirty s2"
      "disk t = disk s2" "disk_writes t = disk_writes s2" "free_bufs t = Suc (free_bufs s2)"
    using brelse_law [OF 2(1) b2] 2(4) c unfolding runs_iff by auto
  have "read_head s = Ret () t"
  proof -
    have "read_head s = sq (modify (\<lambda>s. s\<lparr>lh_n := sint (ld32 (b_data (bufs s b)) 0)\<rparr>)) (bnd (gets lh_n) (\<lambda>n.
       if n > LOGSIZE then undef ''read_head: sector out of bounds''
       else sq (foreach [0..<nat n] (\<lambda>i. modify (\<lambda>s. s\<lparr>lh_sector := (lh_sector s)(i := ld32 (b_data (bufs s b)) (lh_off i))\<rparr>))) (brelse b))) s1"
      unfolding read_head_def bnd_gets assms(2) prod.case bnd_Ret [where m = "bread 1 (log_start s)" and s = s and a = b and s' = s1, OF 1(1)] ..
    also have "\<dots> = sq (foreach [0..<nat n] (\<lambda>i. modify (\<lambda>s. s\<lparr>lh_sector := (lh_sector s)(i := ld32 (b_data (bufs s b)) (lh_off i))\<rparr>))) (brelse b)
       (s1\<lparr>lh_n := n\<rparr>)"
      using n by (simp add: sq_modify bnd_gets d n_def)
    also have "\<dots> = brelse b s2"
    proof -
      have "bufs (s1\<lparr>lh_n := n\<rparr>) = bufs s1" "lh_sector (s1\<lparr>lh_n := n\<rparr>) = lh_sector s1" by simp_all
      then show ?thesis unfolding sq_Ret [OF read_sectors_run] s2_def by (simp only: d)
    qed
    finally show ?thesis using 3(1) by simp
  qed
  moreover have "log_same s t" using bframe_same [OF 1(3)] bframe_same [OF 3(3)] by (simp add: log_same_def s2_def)
  moreover have "held t = Map.empty" using 3(4) 2(2) 1(4) h by (auto simp: fun_eq_iff)
  moreover have "lh_n t = n" "lh_sector t = lh_sector s2" using bframe_log [OF 3(3)] 2(8) by simp_all
  ultimately show ?thesis using 2 3 assms(5) by (simp add: runs_def n_def)
qed

section \<open>Recovery\<close>

lemma recover_run:
  fixes s :: "'z logst_scheme"
  assumes o: "bok p s" and h: "held s = Map.empty" and c: "dirty s = {}" and "log_dev s = 1" and st: "log_start s = dstart (disk s)"
    and wf: "disk_wf (disksize s) (disk s)"
  shows "runs recover_from_log s (\<lambda>_ t. bok p t \<and> log_same s t \<and> held t = Map.empty \<and> dirty t = {} \<and> lh_n t = 0 \<and>
    disk_writes t = disk_writes s @ recovery_writes (disk s) \<and> disk t = replay (recovery_writes (disk s)) (disk s))"
proof -
  define d where "d = disk s"
  note fr = free_all [OF o h c]
  have v: "view s = d" using view_clean [OF o] h c by (auto simp: d_def)
  have n: "nat (sint (ld32 (d (dstart d)) 0)) = dn d" "sint (ld32 (d (dstart d)) 0) \<le> 10" "dn d \<le> dcap d"
  proof -
    show *: "nat (sint (ld32 (d (dstart d)) 0)) = dn d" by (simp add: dn_def)
    show "dn d \<le> dcap d" using wf by (simp add: disk_wf_def d_def)
    then have "dn d \<le> 10" by (simp add: dcap_def)
    then show "sint (ld32 (d (dstart d)) 0) \<le> 10" unfolding * [symmetric] by linarith
  qed
  obtain s1 where 1: "read_head s = Ret () s1" "bok p s1" "log_same s s1" "held s1 = Map.empty" "view s1 = d" "dirty s1 = {}" "disk s1 = d"
      "disk_writes s1 = disk_writes s" "free_bufs s1 = 10" "nat (lh_n s1) = dn d" "\<forall>i < dn d. lh_sector s1 i = dsec d i"
    using read_head_run [OF o assms(4) _ h _ _] n fr c st v dstart_in(2) [OF wf] unfolding runs_iff by (auto simp: d_def dsec_def)
  have l: "log_start s1 = dstart d" "log_dev s1 = 1" "disksize s1 = disksize s" using 1(3) st assms(4) by (simp_all add: log_same_def d_def)
  have L: "log_start s1 + of_nat i + 1 = dblock d i" for i using l by (simp add: dblock_def)
  have W: "map (\<lambda>i. (lh_sector s1 i, d (dblock d i))) [0..<dn d] = installs d (dn d)" using 1(11) by (simp add: installs_def)
  note wfd = wf [folded d_def]
  have inj: "inj_on (lh_sector s1) {..<dn d}" using wfd 1(11) by (simp add: disk_wf_def inj_on_def)
  have dom: "dblock d i < disksize s" "dsec d i < disksize s" "dblock d i \<noteq> dsec d j" if "i < dn d" "j < dn d" for i j
    using that dblock_in [OF wfd, of i] wfd n(3) unfolding disk_wf_def home_def by auto
  obtain s2 where 2: "install_trans s1 = Ret () s2" "bok p s2" "bframe s1 s2" "held s2 = Map.empty" "view s2 = replay (installs d (dn d)) d"
      "disk s2 = replay (installs d (dn d)) d" "dirty s2 = {}" "disk_writes s2 = disk_writes s @ installs d (dn d)" "10 \<le> free_bufs s2"
    using install_run [OF 1(2) l(2) 1(4), unfolded 1(10) L 1(5-9) l(3) W] inj dom 1(11) unfolding runs_iff by auto
  define s3 where "s3 = s2\<lparr>lh_n := 0\<rparr>"
  note b2 = bframe_log [OF 2(3)]
  have 3: "bok p s3" "log_dev s3 = 1" "0 \<le> lh_n s3" "log_start s3 < disksize s3" "log_start s3 \<notin> ran (held s3)" "0 < free_bufs s3" "log_start s3 \<notin> dirty s3"
    using 2 b2 l dstart_in(2) [OF wfd] by (simp_all add: s3_def)
  have vs: "view s3 (dstart d) = d (dstart d)" "log_start s3 = dstart d" "nat (lh_n s3) = 0"
    using installs_wf(3) [OF wfd le_refl] 2(5) b2 l by (simp_all add: s3_def)
  obtain t where 4: "write_head s3 = Ret () t" "bok p t" "bframe s3 t" "held t = held s3" "dirty t = dirty s3"
      "disk t = (disk s3)(dstart d := st32 (d (dstart d)) 0 0)" "disk_writes t = disk_writes s3 @ [(dstart d, st32 (d (dstart d)) 0 0)]"
    using write_head_run [OF 3, unfolded vs header_read(3)] unfolding runs_iff by auto
  have "recover_from_log s = Ret () t"
    using 1(1) 2(1) 4(1) by (simp add: recover_from_log_def sq_Ret sq_modify s3_def)
  moreover have "log_same s t" using 1(3) bframe_same [OF 2(3)] bframe_same [OF 4(3)] by (simp add: log_same_def s3_def)
  moreover have "lh_n t = 0" using bframe_log [OF 4(3)] by (simp add: s3_def)
  ultimately show ?thesis using 4 2 by (simp add: runs_def s3_def recovery_writes_def d_def)
qed

text \<open>A cache just initialised: nothing is held and nothing is newer than the disk.\<close>

definition rebooted :: "nat \<Rightarrow> 'z logst_scheme \<Rightarrow> bool" where
  "rebooted p s \<longleftrightarrow> bok p s \<and> held s = Map.empty \<and> dirty s = {}"

lemma initlog_run:
  fixes s :: "'z logst_scheme"
  assumes r: "rebooted p s" and wf: "disk_wf (disksize s) (disk s)"
  shows "runs initlog s (\<lambda>_ t. rebooted p t \<and> disksize t = disksize s \<and> lh_n t = 0 \<and> log_dev t = 1 \<and> log_start t = dstart (disk t) \<and>
    log_size t = dsize (disk t) \<and>
    disk_writes t = disk_writes s @ recovery_writes (disk s) \<and> disk t = replay (recovery_writes (disk s)) (disk s))"
proof -
  define s0 where "s0 = s\<lparr>cpust := (cpust s)\<lparr>lks := (lks (cpust s))(LogLock := initlock)\<rparr>\<rparr>"
  have "caller BcacheLock p s0"
    using r by (simp add: rebooted_def bok_def s0_def caller_def on_cpu_def can_lock_def lock_free_def cli_wf_def)
  then have 0: "bok p s0" "held s0 = Map.empty" "dirty s0 = {}" "disk s0 = disk s" "disk_writes s0 = disk_writes s" "disksize s0 = disksize s"
    using r by (simp_all add: rebooted_def bok_def s0_def held_def dirty_def fun_eq_iff)
  have fr: "free_bufs s0 = 10" using free_all [OF 0(1-3)] .
  have v: "view s0 1 = disk s 1" using view_clean [OF 0(1), of 1] 0 by simp
  have "1 < disksize s0" using wf 0 by (simp add: disk_wf_def)
  from cache.look_block [OF 0(1) this _ _ _, of superblock_of, folded readsb_def]
  obtain s1 where 1: "readsb 1 s0 = Ret (superblock_of (disk s 1)) s1" "bok p s1" "bframe s0 s1" "held s1 = Map.empty" "dirty s1 = {}"
      "disk s1 = disk s" "disk_writes s1 = disk_writes s"
    using 0 fr v unfolding runs_iff by auto
  define s2 where "s2 = s1\<lparr>log_start := dstart (disk s)\<rparr>\<lparr>log_size := dsize (disk s)\<rparr>\<lparr>log_dev := 1\<rparr>"
  have z: "disksize s1 = disksize s" using bframe_log(7) [OF 1(3)] 0(6) by simp
  have 2: "bok p s2" "held s2 = Map.empty" "dirty s2 = {}" "log_dev s2 = 1" "log_start s2 = dstart (disk s2)" "disk_wf (disksize s2) (disk s2)"
    using 1 z wf by (simp_all add: s2_def)
  have e: "initlog s = recover_from_log s2"
    using 1(1) by (simp add: initlog_def sq_modify s0_def [symmetric] bnd_Ret s2_def dstart_def dsize_def)
  have "runs recover_from_log s2 (\<lambda>_ t. rebooted p t \<and> disksize t = disksize s \<and> lh_n t = 0 \<and> log_dev t = 1 \<and> log_start t = dstart (disk t) \<and>
    log_size t = dsize (disk t) \<and>
    disk_writes t = disk_writes s @ recovery_writes (disk s) \<and> disk t = replay (recovery_writes (disk s)) (disk s))"
  proof (rule runs_conseq [OF recover_run [OF 2]], elim conjE)
    fix t assume t: "bok p t" "log_same s2 t" "held t = Map.empty" "dirty t = {}" "lh_n t = 0" "disk_writes t = disk_writes s2 @ recovery_writes (disk s2)"
      "disk t = replay (recovery_writes (disk s2)) (disk s2)"
    have "disk t 1 = disk s 1" using recovery_prefix(2) [OF wf, of "length (recovery_writes (disk s))"] t(7) 1(6) by (simp add: s2_def)
    then have "dstart (disk t) = dstart (disk s)" "dsize (disk t) = dsize (disk s)" by (simp_all add: dstart_def dsize_def)
    then show "rebooted p t \<and> disksize t = disksize s \<and> lh_n t = 0 \<and> log_dev t = 1 \<and> log_start t = dstart (disk t) \<and> log_size t = dsize (disk t) \<and>
      disk_writes t = disk_writes s @ recovery_writes (disk s) \<and> disk t = replay (recovery_writes (disk s)) (disk s)"
      using t 1 z by (simp add: rebooted_def log_same_def s2_def)
  qed
  then show ?thesis unfolding runs_def e .
qed

section \<open>Transactions\<close>

text \<open>
  The state of a transaction: the header on the disk says that there is nothing to recover, the sectors logged so far are distinct homes, they
  are the dirty blocks, and the log has the contents the cache shows, except for the blocks in \<open>M\<close>, which their holders have changed since
  they logged them.
\<close>

definition trans_inv :: "nat \<Rightarrow> uint set \<Rightarrow> 'z logst_scheme \<Rightarrow> bool" where
  "trans_inv p M s \<longleftrightarrow>
     bok p s \<and> log_dev s = 1 \<and> log_start s = dstart (disk s) \<and> log_size s = dsize (disk s) \<and>
     disk_wf (disksize s) (disk s) \<and> dn (disk s) = 0 \<and> 0 \<le> lh_n s \<and> nat (lh_n s) \<le> dcap (disk s) \<and>
     (\<forall>i < nat (lh_n s). home (disksize s) (disk s) (lh_sector s i)) \<and> inj_on (lh_sector s) {..<nat (lh_n s)} \<and>
     dirty s = lh_sector s ` {..<nat (lh_n s)} \<and>
     (\<forall>i < nat (lh_n s). lh_sector s i \<notin> M \<longrightarrow> view s (lh_sector s i) = disk s (dblock (disk s) i)) \<and>
     (\<forall>x \<in> ran (held s). \<not> in_log (disk s) x)"

lemma trans_invD:
  assumes "trans_inv p M s"
  shows "bok p s" "log_dev s = 1" "log_start s = dstart (disk s)" "log_size s = dsize (disk s)" "disk_wf (disksize s) (disk s)"
    "dn (disk s) = 0" "0 \<le> lh_n s" "nat (lh_n s) \<le> dcap (disk s)" "inj_on (lh_sector s) {..<nat (lh_n s)}"
    "dirty s = lh_sector s ` {..<nat (lh_n s)}" "i < nat (lh_n s) \<Longrightarrow> home (disksize s) (disk s) (lh_sector s i)"
    "i < nat (lh_n s) \<Longrightarrow> lh_sector s i \<notin> M \<Longrightarrow> view s (lh_sector s i) = disk s (dblock (disk s) i)"
    "x \<in> ran (held s) \<Longrightarrow> \<not> in_log (disk s) x"
  using assms by (simp_all add: trans_inv_def)

text \<open>The header of the transaction commits it: it is the one write that changes what the disk means.\<close>

lemma commit_point:
  assumes t: "trans_inv p {} s" and h: "held s = Map.empty"
  defines "d \<equiv> (disk s)(dstart (disk s) := header (nat (lh_n s)) (lh_sector s) (disk s (dstart (disk s))))"
  shows "disk_wf (disksize s) d" "dn d = nat (lh_n s)" "i < nat (lh_n s) \<Longrightarrow> dsec d i = lh_sector s i" "d 1 = disk s 1"
    "\<not> in_log (disk s) x \<Longrightarrow> logical d x = view s x"
proof -
  note D = trans_invD [OF t]
  note wf = D(5)
  show 1: "d 1 = disk s 1" using dstart_in(3) [OF wf] by (simp add: d_def)
  note l = same_layout [where d' = d and d = "disk s", OF 1]
  have "nat (lh_n s) \<le> 10" using D(8) by (simp add: dcap_def)
  then have "sint (of_nat (nat (lh_n s)) :: uint) = int (nat (lh_n s))" by (simp add: sint_uint signed_take_bit_int_eq_self unsigned_of_nat take_bit_nat_eq_self)
  then show n: "dn d = nat (lh_n s)" using l by (simp add: dn_def) (simp add: d_def header_read)
  show S: "dsec d i = lh_sector s i" if "i < nat (lh_n s)" for i using l that by (simp add: dsec_def) (simp add: d_def header_read)
  have "inj_on (dsec d) {..<dn d}" using D(9) n S by (simp add: inj_on_def)
  then show w: "disk_wf (disksize s) d" using wf l n S D(8,11) by (simp add: disk_wf_def)
  show "logical d x = view s x" if x: "\<not> in_log (disk s) x"
  proof (cases "x \<in> dirty s")
    case True
    then obtain i where i: "i < nat (lh_n s)" "x = lh_sector s i" using D(10) by auto
    have "dblock (disk s) i \<noteq> dstart (disk s)" using dblock_in(3) [OF wf, of i] D(8) i by simp
    then show ?thesis using logical_at [OF w, of i] i n S D(12) l by (simp add: d_def)
  next
    case False
    then have "x \<notin> dsec d ` {..<dn d}" using D(10) n S by auto
    moreover have "view s x = disk s x" using view_clean [OF D(1)] h False by simp
    ultimately show ?thesis using x dstart_in(1) [OF wf] by (auto simp: logical_other d_def)
  qed
qed

lemma end_trans_run:
  fixes u :: "'z logst_scheme"
  assumes o: "bok p u" and c: "caller LogLock p u"
  shows "runs (sq (acquire LogLock) (sq (modify (\<lambda>s. s\<lparr>log_busy := False\<rparr>)) (sq (wakeup ChanLog) (release LogLock)))) u (\<lambda>_ t.
    bok p t \<and> caller LogLock p t \<and> held t = held u \<and> view t = view u \<and> dirty t = dirty u \<and> disk t = disk u \<and> disk_writes t = disk_writes u \<and>
    log_same (u\<lparr>log_busy := False\<rparr>) t \<and> lh_n t = lh_n u \<and> lh_sector t = lh_sector u \<and>
    (\<forall>q < NPROC. \<not> woken ChanLog t q))"
proof -
  define v where "v = u\<lparr>cpust := acq LogLock (cpust u), log_busy := False\<rparr>"
  have e: "sq (acquire LogLock) (sq (modify (\<lambda>s. s\<lparr>log_busy := False\<rparr>)) (sq (wakeup ChanLog) (release LogLock))) u =
      sq (wakeup ChanLog) (release LogLock) v"
    by (simp add: sq_Ret caller_acquire [OF c] sq_modify v_def)
  have "runs (sq (wakeup ChanLog) (release LogLock)) v (\<lambda>_ t. woke ChanLog (v\<lparr>cpust := settled (cpust u)\<rparr>) t)"
    using callerD [OF c] sched_ok_cong [of v u] by (intro wakeup_release) (simp_all add: v_def)
  then show ?thesis unfolding runs_def e [symmetric]
  proof (rule runs_conseq [unfolded runs_def])
    fix t assume W: "woke ChanLog (v\<lparr>cpust := settled (cpust u)\<rparr>) t"
    obtain pr ml where t: "t = v\<lparr>cpust := settled (cpust u)\<rparr>\<lparr>procs := pr, mlf := ml\<rparr>" using W by (auto simp: woke_def)
    have same: "bufs t = bufs u" "disk t = disk u" "disksize t = disksize u" by (simp_all add: t v_def)
    have cc: "caller lk p t" if "caller lk p u" for lk
      using W callerD [OF that] by (auto simp: caller_def on_cpu_def can_lock_def woke_def woken_def v_def)
    have "bc_inv t" using o unfolding bok_def bc_inv_def same by blast
    moreover have "held t = held u" "view t = view u" "dirty t = dirty u" by (rule payload_views; simp add: same)+
    moreover have "\<not> woken ChanLog t q" if "q < NPROC" for q
    proof -
      have "still (procs t q) = still (procs u q)" using W by (simp add: woke_def v_def)
      then show ?thesis using W that stillD(1) [of "procs t q" "procs u q"] by (auto simp: woke_def woken_def v_def split: if_splits)
    qed
    ultimately show "bok p t \<and> caller LogLock p t \<and> held t = held u \<and> view t = view u \<and> dirty t = dirty u \<and> disk t = disk u \<and>
      disk_writes t = disk_writes u \<and> log_same (u\<lparr>log_busy := False\<rparr>) t \<and> lh_n t = lh_n u \<and> lh_sector t = lh_sector u \<and>
      (\<forall>q < NPROC. \<not> woken ChanLog t q)"
      using cc c o by (simp add: bok_def log_same_def t v_def)
  qed
qed

definition commit_disk :: "'z logst_scheme \<Rightarrow> blocks" where
  "commit_disk s = (disk s)(dstart (disk s) := header (nat (lh_n s)) (lh_sector s) (disk s (dstart (disk s))))"

definition commit_writes :: "'z logst_scheme \<Rightarrow> (uint \<times> block) list" where
  "commit_writes s =
     (if 0 < lh_n s then (dstart (disk s), commit_disk s (dstart (disk s))) # recovery_writes (commit_disk s) else [])"

text \<open>The three steps under the test of \<^verbatim>\<open>commit_trans\<close>.\<close>

lemma commit_body_run:
  fixes s :: "'z logst_scheme"
  assumes t: "trans_inv p {} s" and h: "held s = Map.empty" and f: "0 < free_bufs s" and c: "caller LogLock p s" and n: "0 < lh_n s"
  shows "runs (sq write_head (sq install_trans (sq (modify (\<lambda>s. s\<lparr>lh_n := 0\<rparr>)) write_head))) s (\<lambda>_ t.
    bok p t \<and> log_same s t \<and> caller LogLock p t \<and> held t = Map.empty \<and> dirty t = {} \<and> lh_n t = 0 \<and>
    disk_writes t = disk_writes s @ commit_writes s \<and> disk t = replay (commit_writes s) (disk s))"
proof -
  note D = trans_invD [OF t]
  define d where "d = commit_disk s"
  note P = commit_point [OF t h, folded commit_disk_def, folded d_def]
  note l = same_layout [where d' = d and d = "disk s", OF P(4)]
  have hn: "log_start s \<notin> ran (held s)" "log_start s \<notin> dirty s" "log_start s < disksize s"
    using h D(3,5,10,11) dstart_in(1,2) [OF D(5)] by (auto simp: home_def)
  have v: "view s (log_start s) = disk s (log_start s)" by (rule view_clean [OF D(1) hn(1,2)])
  have dh: "header (nat (lh_n s)) (lh_sector s) (view s (log_start s)) = d (dstart d)" "(disk s)(log_start s := d (dstart d)) = d"
    using v D(3) l(1) by (simp_all add: d_def commit_disk_def)
  have ls: "log_start s = dstart d" using D(3) l by simp
  obtain s1 where 1: "write_head s = Ret () s1" "bok p s1" "bframe s s1" "held s1 = Map.empty" "view s1 = (view s)(dstart d := d (dstart d))"
      "dirty s1 = dirty s" "disk s1 = d" "disk_writes s1 = disk_writes s @ [(dstart d, d (dstart d))]" "free_bufs s1 = free_bufs s"
    using write_head_run [OF D(1,2,7) hn(3,1) f hn(2), unfolded dh] h ls unfolding runs_iff by auto
  note b1 = bframe_log [OF 1(3)]
  have n1: "nat (lh_n s1) = dn d" using b1 P(2) by simp
  have L: "log_start s1 + of_nat i + 1 = dblock d i" for i using b1 ls by (simp add: dblock_def)
  have S: "lh_sector s1 i = dsec d i" if "i < dn d" for i using b1 P(2,3) that by simp
  have W: "map (\<lambda>i. (lh_sector s1 i, d (dblock d i))) [0..<dn d] = installs d (dn d)" using S by (simp add: installs_def)
  have inj: "inj_on (lh_sector s1) {..<dn d}" using D(9) b1 P(2) by simp
  have dirt: "dirty s = lh_sector s1 ` {..<dn d}" using D(10) b1 P(2) by simp
  have dom: "dblock d i < disksize s" "dblock d i \<notin> dirty s" "lh_sector s1 i < disksize s" "dblock d i \<noteq> lh_sector s1 j"
    if "i < dn d" "j < dn d" for i j
  proof -
    have "i < dcap d" using that P(1) by (simp add: disk_wf_def)
    note B = dblock_in [OF P(1) this]
    have hom: "home (disksize s) d (lh_sector s1 k)" if "k < dn d" for k using P(1) that S by (simp add: disk_wf_def)
    show "dblock d i < disksize s" using B by simp
    show "lh_sector s1 i < disksize s" using hom that by (simp add: home_def)
    show "dblock d i \<noteq> lh_sector s1 j" using hom that B by (auto simp: home_def)
    show "dblock d i \<notin> dirty s" using hom B by (auto simp: dirt home_def)
  qed
  obtain s2 where 2: "install_trans s1 = Ret () s2" "bok p s2" "bframe s1 s2" "held s2 = Map.empty" "view s2 = replay (installs d (dn d)) (view s1)"
      "disk s2 = replay (installs d (dn d)) d" "dirty s2 = {}" "disk_writes s2 = disk_writes s1 @ installs d (dn d)" "0 < free_bufs s2"
    using install_run [OF 1(2) _ 1(4), unfolded n1 L 1(6,7,9) b1(7) W] inj dom f dirt b1(4) D(2) unfolding runs_iff by auto
  define s3 where "s3 = s2\<lparr>lh_n := 0\<rparr>"
  note b2 = bframe_log [OF 2(3)]
  have 3: "bok p s3" "log_dev s3 = 1" "0 \<le> lh_n s3" "log_start s3 < disksize s3" "log_start s3 \<notin> ran (held s3)" "0 < free_bufs s3" "log_start s3 \<notin> dirty s3"
    using 2 b2 b1 hn(3) D(2) by (simp_all add: s3_def)
  have "dstart d \<notin> fst ` set (installs d (dn d))" using P(1) dstart_in(1) [OF P(1)] by (auto simp: installs_def disk_wf_def home_def)
  then have vs: "view s3 (dstart d) = d (dstart d)" "log_start s3 = dstart d" "nat (lh_n s3) = 0"
    using 2(5) 1(5) b2 b1 ls by (simp_all add: s3_def replay_other)
  obtain t where 4: "write_head s3 = Ret () t" "bok p t" "bframe s3 t" "held t = held s3" "dirty t = dirty s3"
      "disk t = (disk s3)(dstart d := st32 (d (dstart d)) 0 0)" "disk_writes t = disk_writes s3 @ [(dstart d, st32 (d (dstart d)) 0 0)]"
    using write_head_run [OF 3, unfolded vs header_read(3)] unfolding runs_iff by auto
  have "sq write_head (sq install_trans (sq (modify (\<lambda>s. s\<lparr>lh_n := 0\<rparr>)) write_head)) s = Ret () t"
    using 1(1) 2(1) 4(1) by (simp add: sq_Ret sq_modify s3_def)
  moreover have "log_same s t" using bframe_same [OF 1(3)] bframe_same [OF 2(3)] bframe_same [OF 4(3)] by (simp add: log_same_def s3_def)
  moreover have "caller LogLock p t"
    using bframe_caller [OF 4(3,2)] bframe_caller [OF 2(3,2) bframe_caller [OF 1(3,2) c]] by (simp add: s3_def)
  moreover have "lh_n t = 0" using bframe_log [OF 4(3)] by (simp add: s3_def)
  moreover have "commit_writes s = (dstart d, d (dstart d)) # recovery_writes d" "(disk s)(dstart d := d (dstart d)) = d"
    using n dh(2) ls l(1) by (simp_all add: commit_writes_def d_def)
  ultimately show ?thesis using 4 2 1 by (simp add: runs_def s3_def recovery_writes_def)
qed

lemma commit_run:
  fixes s :: "'z logst_scheme"
  assumes t: "trans_inv p {} s" and h: "held s = Map.empty" and f: "0 < free_bufs s" and c: "caller LogLock p s"
  shows "runs commit_trans s (\<lambda>_ t. bok p t \<and> log_same (s\<lparr>log_busy := False\<rparr>) t \<and> caller LogLock p t \<and> held t = Map.empty \<and> dirty t = {} \<and> lh_n t = 0 \<and>
    disk_writes t = disk_writes s @ commit_writes s \<and> disk t = replay (commit_writes s) (disk s) \<and> (\<forall>q < NPROC. \<not> woken ChanLog t q))"
proof -
  note D = trans_invD [OF t]
  have "runs (bnd (gets lh_n) (\<lambda>n. whenM (n > 0) (sq write_head (sq install_trans (sq (modify (\<lambda>s. s\<lparr>lh_n := 0\<rparr>)) write_head))))) s (\<lambda>_ t.
    bok p t \<and> log_same s t \<and> caller LogLock p t \<and> held t = Map.empty \<and> dirty t = {} \<and> lh_n t = 0 \<and>
    disk_writes t = disk_writes s @ commit_writes s \<and> disk t = replay (commit_writes s) (disk s))"
  proof (cases "0 < lh_n s")
    case True
    then show ?thesis using commit_body_run [OF t h f c] by (simp add: runs_simps)
  next
    case False
    then have "lh_n s = 0" using D(7) by simp
    then show ?thesis using D c h by (simp add: runs_simps log_same_def commit_writes_def)
  qed
  then show ?thesis unfolding commit_trans_def runs_sq [of "bnd (gets lh_n) _"]
  proof (rule runs_conseq, elim conjE)
    fix u assume u: "bok p u" "log_same s u" "caller LogLock p u" "held u = Map.empty" "dirty u = {}" "lh_n u = 0"
      "disk_writes u = disk_writes s @ commit_writes s" "disk u = replay (commit_writes s) (disk s)"
    show "runs (sq (acquire LogLock) (sq (modify (\<lambda>s. s\<lparr>log_busy := False\<rparr>)) (sq (wakeup ChanLog) (release LogLock)))) u (\<lambda>_ t.
      bok p t \<and> log_same (s\<lparr>log_busy := False\<rparr>) t \<and> caller LogLock p t \<and> held t = Map.empty \<and> dirty t = {} \<and> lh_n t = 0 \<and>
      disk_writes t = disk_writes s @ commit_writes s \<and> disk t = replay (commit_writes s) (disk s) \<and> (\<forall>q < NPROC. \<not> woken ChanLog t q))"
      by (rule runs_conseq [OF end_trans_run [OF u(1,3)]]) (use u in \<open>simp add: log_same_def\<close>)
  qed
qed

section \<open>Logging a block\<close>

lemma mark_dirty_law:
  fixes s :: "'z bcst_scheme"
  assumes o: "bok p s" and h: "held s b = Some sec"
  shows "runs (upd_buf b (\<lambda>m. m\<lparr>b_dirty := True\<rparr>)) s (\<lambda>_ t. bok p t \<and> bframe s t \<and> held t = held s \<and> view t = view s \<and>
    dirty t = insert sec (dirty s) \<and> disk t = disk s \<and> disk_writes t = disk_writes s \<and> free_bufs t = free_bufs s)"
proof -
  have i: "bc_inv s" using o by (simp add: bok_def)
  note hs = held_Some [OF i h]
  let ?m = "(bufs s b)\<lparr>b_dirty := True\<rparr>"
  have m: "b_valid ?m" "b_sector ?m = sec" "b_busy ?m" "b_dev ?m = 1" "b_next ?m = b_next (bufs s b)" "b_prev ?m = b_prev (bufs s b)"
    using hs by simp_all
  have "(view s)(sec := b_data ?m) = view s" using hs(7) by (simp add: fun_upd_idem)
  moreover have "bframe s (with_buf b ?m s)" by (simp add: bframe_def with_buf_def)
  ultimately show ?thesis using held_update [OF o h m] by (simp add: runs_def upd_buf_run)
qed

lemma log_index_cases:
  assumes "inj_on (lh_sector s) {..<nat (lh_n s)}"
  obtains "log_index x s = nat (lh_n s)" "x \<notin> lh_sector s ` {..<nat (lh_n s)}"
  | "log_index x s < nat (lh_n s)" "lh_sector s (log_index x s) = x"
proof (cases "scan (\<lambda>i. lh_sector s i = x) (nat (lh_n s))")
  case None
  then have "log_index x s = nat (lh_n s)" by (simp add: log_index_def)
  moreover have "x \<notin> lh_sector s ` {..<nat (lh_n s)}" using None by (auto simp: scan_def find_none)
  ultimately show ?thesis by (rule that(1))
next
  case (Some i)
  then have "log_index x s = i" by (simp add: log_index_def)
  moreover have "i < nat (lh_n s)" "lh_sector s i = x" using Some by (simp_all add: scan_Some_iff)
  ultimately show ?thesis by (intro that(2)) simp_all
qed

lemma log_index_le: "log_index x s \<le> nat (lh_n s)"
  by (auto simp: log_index_def scan_Some_iff split: option.split)

lemma dblock_inj:
  assumes "disk_wf N d" and "i < dcap d" and "j < dcap d" and "dblock d i = dblock d j"
  shows "i = j"
proof -
  have "unat (dstart d) + i + 1 = unat (dstart d) + j + 1"
    using dblock_unat [OF assms(1,2)] dblock_unat [OF assms(1,3)] unfolding assms(4) by (rule trans [OF sym])
  then show ?thesis by simp
qed

lemma log_write_core:
  fixes s :: "'z logst_scheme"
  assumes D: "bok p s" "log_start s = dstart (disk s)" "log_size s = dsize (disk s)" "disk_wf (disksize s) (disk s)"
    and "log_busy s" and h: "held s b = Some x" and f: "0 < free_bufs s" and n: "nat (lh_n s) < dcap (disk s)"
    and cd: "dblock (disk s) (log_index x s) \<notin> dirty s" and ch: "dblock (disk s) (log_index x s) \<notin> ran (held s)"
  defines "i \<equiv> log_index x s"
  shows "runs (log_write b) s (\<lambda>_ t. bok p t \<and> log_same s t \<and> held t = held s \<and> view t = (view s)(dblock (disk s) i := view s x) \<and>
    dirty t = insert x (dirty s) \<and> disk t = (disk s)(dblock (disk s) i := view s x) \<and>
    disk_writes t = disk_writes s @ [(dblock (disk s) i, view s x)] \<and> free_bufs t = free_bufs s \<and>
    lh_sector t = (lh_sector s)(i := x) \<and> lh_n t = (if int i = lh_n s then lh_n s + 1 else lh_n s) \<and>
    (caller LogLock p s \<longrightarrow> caller LogLock p t))"
proof -
  note hs = held_Some [OF _ h]
  have bc: "bc_inv s" using D(1) by (simp add: bok_def)
  have il: "i < dcap (disk s)" using log_index_le [of x s] n by (simp add: i_def)
  define c where "c = dblock (disk s) i"
  note C = dblock_in [OF D(4) il, folded c_def]
  note cd = cd [folded i_def, folded c_def] and ch = ch [folded i_def, folded c_def]
  define s0 where "s0 = s\<lparr>lh_sector := (lh_sector s)(i := x)\<rparr>"
  have z: "bok p s0" "held s0 b = Some x" "c < disksize s0" "c \<notin> ran (held s0)" "c \<notin> dirty s0" "0 < free_bufs s0"
    using D(1) h C(2) cd ch f by (simp_all add: s0_def)
  have g: "\<not> (lh_n s \<ge> LOGSIZE \<or> lh_n s \<ge> log_size s - 1)" using n D(3) by (auto simp: dcap_def)
  have b: "b_sector (bufs s b) = x" "b_dev (bufs s0 b) = 1" "log_start s0 + of_nat i + 1 = c"
    using hs(4,5) [OF bc] D(2) by (simp_all add: s0_def c_def dblock_def)
  let ?K = "sq (bnd (gets lh_n) (\<lambda>n. whenM (int i = n) (modify (\<lambda>s. s\<lparr>lh_n := lh_n s + 1\<rparr>)))) (upd_buf b (\<lambda>m. m\<lparr>b_dirty := True\<rparr>))"
  have e: "log_write b s = bnd (bread 1 c) (\<lambda>lbuf. sq (bnd (gets (\<lambda>s. b_data (bufs s b))) (\<lambda>d. set_data lbuf (\<lambda>_. d)))
      (sq (bwrite lbuf) (sq (brelse lbuf) ?K))) s0"
    using g assms(5)
    by (simp add: log_write_def bnd_gets b(1) sq_modify s0_def [symmetric] i_def [symmetric] b(2,3) set_data_def)
  have "runs (bnd (bread 1 c) (\<lambda>l. sq (bnd (gets (\<lambda>s. b_data (bufs s b))) (\<lambda>d. set_data l (\<lambda>_. d))) (sq (bwrite l) (brelse l)))) s0
      (\<lambda>_ t. runs ?K t (\<lambda>_ t. bok p t \<and> log_same s t \<and> held t = held s \<and> view t = (view s)(c := view s x) \<and> dirty t = insert x (dirty s) \<and>
        disk t = (disk s)(c := view s x) \<and> disk_writes t = disk_writes s @ [(c, view s x)] \<and> free_bufs t = free_bufs s \<and>
        lh_sector t = (lh_sector s)(i := x) \<and> lh_n t = (if int i = lh_n s then lh_n s + 1 else lh_n s) \<and> (caller LogLock p s \<longrightarrow> caller LogLock p t)))"
  proof (rule runs_conseq [OF cache.save_block [OF z]], elim conjE)
    fix t :: "'z logst_scheme"
    assume t: "bok p t" "bframe s0 t" "held t = held s0" "view t = (view s0)(c := view s0 x)" "dirty t = dirty s0"
      "disk t = (disk s0)(c := view s0 x)" "disk_writes t = disk_writes s0 @ [(c, view s0 x)]" "free_bufs t = free_bufs s0"
    note l = bframe_log [OF t(2)]
    define u where "u = (if int i = lh_n t then t\<lparr>lh_n := lh_n t + 1\<rparr> else t)"
    have eK: "?K t = upd_buf b (\<lambda>m. m\<lparr>b_dirty := True\<rparr>) u"
      by (simp add: u_def sq_bnd_gets whenM_def sq_modify sq_Ret basic_ops)
    have u: "bok p u" "held u b = Some x" "held u = held s" "view u = view t" "dirty u = dirty s" "disk u = disk t" "disk_writes u = disk_writes t"
      "free_bufs u = free_bufs s" "log_same s u" "lh_sector u = (lh_sector s)(i := x)" "lh_n u = (if int i = lh_n s then lh_n s + 1 else lh_n s)"
      using t l h bframe_same [OF t(2)] by (auto simp: u_def s0_def log_same_def)
    have cu: "caller LogLock p u" if "caller LogLock p s" using bframe_caller [OF t(2,1)] that by (auto simp: u_def s0_def)
    show "runs ?K t (\<lambda>_ t. bok p t \<and> log_same s t \<and> held t = held s \<and> view t = (view s)(c := view s x) \<and> dirty t = insert x (dirty s) \<and>
        disk t = (disk s)(c := view s x) \<and> disk_writes t = disk_writes s @ [(c, view s x)] \<and> free_bufs t = free_bufs s \<and>
        lh_sector t = (lh_sector s)(i := x) \<and> lh_n t = (if int i = lh_n s then lh_n s + 1 else lh_n s) \<and>
    (caller LogLock p s \<longrightarrow> caller LogLock p t))"
    proof -
      obtain w where w: "upd_buf b (\<lambda>m. m\<lparr>b_dirty := True\<rparr>) u = Ret () w" "bok p w" "bframe u w" "held w = held u" "view w = view u"
          "dirty w = insert x (dirty u)" "disk w = disk u" "disk_writes w = disk_writes u" "free_bufs w = free_bufs u"
        using mark_dirty_law [OF u(1,2)] unfolding runs_iff by auto
      note lw = bframe_log [OF w(3)]
      show ?thesis
        using w u t(4,6,7) lw cu bframe_caller [OF w(3,2)] log_same_trans [OF u(9) bframe_same [OF w(3)]] unfolding runs_def eK w(1) by (simp add: s0_def)
    qed
  qed
  then have "runs (log_write b) s (\<lambda>_ t. bok p t \<and> log_same s t \<and> held t = held s \<and> view t = (view s)(c := view s x) \<and> dirty t = insert x (dirty s) \<and>
        disk t = (disk s)(c := view s x) \<and> disk_writes t = disk_writes s @ [(c, view s x)] \<and> free_bufs t = free_bufs s \<and>
        lh_sector t = (lh_sector s)(i := x) \<and> lh_n t = (if int i = lh_n s then lh_n s + 1 else lh_n s) \<and>
    (caller LogLock p s \<longrightarrow> caller LogLock p t))"
    unfolding runs_def [of "log_write b"] e unfolding runs_def [symmetric] runs_bnd runs_sq .
  then show ?thesis by (simp add: c_def)
qed

lemma log_write_run:
  fixes s :: "'z logst_scheme"
  assumes T: "trans_inv p M s" and "log_busy s" and h: "held s b = Some x" and f: "0 < free_bufs s" and n: "nat (lh_n s) < dcap (disk s)"
  defines "i \<equiv> log_index x s"
  shows "runs (log_write b) s (\<lambda>_ t. bok p t \<and> log_same s t \<and> held t = held s \<and> view t = (view s)(dblock (disk s) i := view s x) \<and>
    dirty t = insert x (dirty s) \<and> disk t = (disk s)(dblock (disk s) i := view s x) \<and>
    disk_writes t = disk_writes s @ [(dblock (disk s) i, view s x)] \<and> free_bufs t = free_bufs s \<and>
    lh_sector t = (lh_sector s)(i := x) \<and> lh_n t = (if int i = lh_n s then lh_n s + 1 else lh_n s) \<and>
    (caller LogLock p s \<longrightarrow> caller LogLock p t))"
proof -
  note D = trans_invD [OF T]
  have "i < dcap (disk s)" using log_index_le [of x s] n by (simp add: i_def)
  then have c: "in_log (disk s) (dblock (disk s) i)" by (rule dblock_in(1) [OF D(5)])
  have "dblock (disk s) i \<notin> dirty s" using D(10,11) c by (auto simp: home_def)
  moreover have "dblock (disk s) i \<notin> ran (held s)" using D(13) c by blast
  ultimately show ?thesis unfolding i_def by (rule log_write_core [OF D(1,3,4,5) assms(2) h f n])
qed

lemma log_write_inv:
  fixes s t :: "'z logst_scheme"
  assumes T: "trans_inv p M s" and h: "held s b = Some x" and hx: "home (disksize s) (disk s) x" and n: "nat (lh_n s) < dcap (disk s)"
  defines "i \<equiv> log_index x s" and "c \<equiv> dblock (disk s) (log_index x s)"
  assumes t: "bok p t" "log_same s t" "held t = held s" "view t = (view s)(c := view s x)" "dirty t = insert x (dirty s)"
    "disk t = (disk s)(c := view s x)" "lh_sector t = (lh_sector s)(i := x)" "lh_n t = (if int i = lh_n s then lh_n s + 1 else lh_n s)"
  shows "trans_inv p (M - {x}) t"
proof -
  note D = trans_invD [OF T]
  define k where "k = nat (lh_n s)"
  have il: "i < dcap (disk s)" using log_index_le [of x s] n by (simp add: i_def)
  note C = dblock_in [OF D(5) il]
  have c1: "c \<noteq> 1" using C(1) D(5) by (auto simp: disk_wf_def c_def i_def)
  have c2: "c \<noteq> dstart (disk s)" using C(3) by (simp add: c_def i_def)
  have e: "disk t 1 = disk s 1" "disk t (dstart (disk s)) = disk s (dstart (disk s))" using t(6) c1 c2 by simp_all
  note l = same_layout [where d' = "disk t" and d = "disk s", OF e(1)] same_head [where d' = "disk t" and d = "disk s", OF e]
  define S where "S = (lh_sector s)(i := x)"
  have cs: "nat (lh_n t) \<le> dcap (disk s) \<and> inj_on S {..<nat (lh_n t)} \<and> insert x (dirty s) = S ` {..<nat (lh_n t)} \<and> 0 \<le> lh_n t \<and>
     (\<forall>j < nat (lh_n t). j \<noteq> i \<longrightarrow> j < nat (lh_n s) \<and> lh_sector s j \<noteq> x)"
    using D(9)
  proof (cases rule: log_index_cases [where x = x])
    case 1
    then have i: "i = k" "x \<notin> dirty s" using D(10) by (simp_all add: i_def k_def)
    then have m: "nat (lh_n t) = Suc k" "0 \<le> lh_n t" using t(8) D(7) by (simp_all add: k_def)
    have Sk: "S k = x" "S j = lh_sector s j" if "j < k" for j using that i by (simp_all add: S_def)
    have "S ` {..<k} = dirty s" using Sk D(10) by (auto simp: k_def)
    moreover have "inj_on S {..<k}" using D(9) Sk by (simp add: inj_on_def k_def)
    ultimately show ?thesis using m i n by (auto simp: lessThan_Suc S_def k_def D(10))
  next
    case 2
    then have i: "i < k" "S = lh_sector s" by (auto simp: S_def i_def k_def)
    then have m: "lh_n t = lh_n s" using t(8) D(7) by (auto simp: k_def)
    have "x = lh_sector s i" using 2 by (simp add: i_def)
    then have "x \<in> dirty s" "\<forall>j<k. j \<noteq> i \<longrightarrow> lh_sector s j \<noteq> x" using D(9,10) i(1) by (auto simp: k_def inj_on_def)
    then show ?thesis using m i D(7-10) by (auto simp: k_def insert_absorb)
  qed
  have hom: "home (disksize s) (disk s) (S j)" if "j < nat (lh_n t)" for j
    using that cs D(11) [of j] hx by (cases "j = i") (simp_all add: S_def)
  have "view t (S j) = disk t (dblock (disk s) j)" if j: "j < nat (lh_n t)" "S j \<notin> M - {x}" for j
  proof -
    have "S j \<noteq> c" using hom [OF j(1)] C(1) by (auto simp: home_def c_def i_def)
    then have v: "view t (S j) = view s (S j)" using t(4) by simp
    show ?thesis
    proof (cases "j = i")
      case True
      then show ?thesis using v t(6) by (simp add: S_def c_def i_def)
    next
      case False
      then have "j < nat (lh_n s)" "lh_sector s j \<noteq> x" "S j = lh_sector s j" using cs j by (simp_all add: S_def)
      moreover have "dblock (disk s) j \<noteq> c"
        using dblock_inj [OF D(5) _ il, of j] False cs j(1) by (auto simp: c_def i_def)
      ultimately show ?thesis using v t(6) j(2) D(12) [of j] by simp
    qed
  qed
  then show ?thesis
    using t(1-3,5,7) D(2-6,13) cs hom l unfolding trans_inv_def log_same_def S_def [symmetric] by simp
qed

lemma trans_inv_frame:
  fixes s t :: "'z logst_scheme"
  assumes T: "trans_inv p M s" and t: "bok p t" "bframe s t" "dirty t = dirty s" "disk t = disk s"
    and v: "\<And>x. x \<notin> M' \<Longrightarrow> view t x = view s x" and M: "M \<subseteq> M'" and h: "\<And>x. x \<in> ran (held t) \<Longrightarrow> \<not> in_log (disk s) x"
  shows "trans_inv p M' t"
proof -
  note l = bframe_log [OF t(2)]
  have "view t (lh_sector s i) = disk s (dblock (disk s) i)" if "i < nat (lh_n s)" "lh_sector s i \<notin> M'" for i
    using trans_invD(12) [OF T that(1)] that(2) M v by auto
  then show ?thesis using T t l h by (simp add: trans_inv_def)
qed

text \<open>A logged update of a block, as the operations of the file system do it.\<close>

lemma logged_update_run:
  fixes s :: "'z logst_scheme"
  assumes T: "trans_inv p {} s" and "log_busy s" and h: "held s = Map.empty" and hx: "home (disksize s) (disk s) x" and f: "1 < free_bufs s"
    and n: "nat (lh_n s) < dcap (disk s)"
  shows "runs (bnd (bread 1 x) (\<lambda>b. sq (set_data b g) (sq (log_write b) (brelse b)))) s (\<lambda>_ t. trans_inv p {} t \<and> log_same s t \<and> held t = Map.empty \<and>
    x \<in> dirty t \<and> lh_n t \<le> lh_n s + 1 \<and> free_bufs s \<le> Suc (free_bufs t) \<and>
    (caller LogLock p s \<longrightarrow> caller LogLock p t) \<and>
    (\<exists>i v. i < dcap (disk s) \<and> disk_writes t = disk_writes s @ [(dblock (disk s) i, v)] \<and> disk t = (disk s)(dblock (disk s) i := v)) \<and>
    (\<forall>y. \<not> in_log (disk s) y \<longrightarrow> disk t y = disk s y \<and> view t y = (if y = x then g (view s x) else view s y)))"
proof -
  note D = trans_invD [OF T]
  have x: "x < disksize s" "x \<notin> ran (held s)" "\<not> in_log (disk s) x" using hx h by (simp_all add: home_def)
  obtain b s1 where 1: "bread 1 x s = Ret b s1" "bok p s1" "bframe s s1" "held s1 = (held s)(b := Some x)" "view s1 = view s" "dirty s1 = dirty s"
      "disk s1 = disk s" "free_bufs s1 = (if x \<in> dirty s then free_bufs s else free_bufs s - 1)" "disk_writes s1 = disk_writes s"
    using bread_law [OF D(1) x(1,2)] f unfolding runs_iff by auto
  have T1: "trans_inv p {} s1" by (rule trans_inv_frame [OF T 1(2,3,6,7)]) (use 1(4,5) h x(3) in \<open>auto split: if_splits\<close>)
  have h1: "held s1 b = Some x" using 1(4) by simp
  obtain s2 where 2: "set_data b g s1 = Ret () s2" "bok p s2" "bframe s1 s2" "held s2 = held s1" "view s2 = (view s)(x := g (view s x))"
      "dirty s2 = dirty s1" "disk s2 = disk s1" "free_bufs s2 = free_bufs s1" "disk_writes s2 = disk_writes s1"
    using set_data_law [OF 1(2) h1, of g] 1(5) unfolding runs_iff by auto
  have T2: "trans_inv p {x} s2"
    by (rule trans_inv_frame [OF T1 2(2,3,6,7)]) (use 2(4,5) 1 h x(3) in \<open>auto split: if_splits\<close>)
  note l1 = bframe_log [OF 1(3)] and l2 = bframe_log [OF 2(3)]
  have e2: "disk s2 = disk s" "disksize s2 = disksize s" "log_busy s2" "0 < free_bufs s2" "nat (lh_n s2) < dcap (disk s2)" "held s2 b = Some x"
    using 1 2 l1 l2 assms(2) f n h1 by auto
  have hx2: "home (disksize s2) (disk s2) x" using hx e2 by simp
  define c where "c = dblock (disk s2) (log_index x s2)"
  obtain s3 where 3: "log_write b s2 = Ret () s3" "bok p s3" "log_same s2 s3" "held s3 = held s2" "view s3 = (view s2)(c := view s2 x)"
      "dirty s3 = insert x (dirty s2)" "disk s3 = (disk s2)(c := view s2 x)" "free_bufs s3 = free_bufs s2"
      "lh_sector s3 = (lh_sector s2)(log_index x s2 := x)" "lh_n s3 = (if int (log_index x s2) = lh_n s2 then lh_n s2 + 1 else lh_n s2)"
      "caller LogLock p s2 \<longrightarrow> caller LogLock p s3" "disk_writes s3 = disk_writes s2 @ [(c, view s2 x)]"
    using log_write_run [OF T2 e2(3,6,4,5)] unfolding runs_iff c_def by auto
  have T3: "trans_inv p {} s3"
    using log_write_inv [OF T2 e2(6) hx2 e2(5) 3(2,3,4) 3(5) [unfolded c_def] 3(6) 3(7) [unfolded c_def] 3(9,10)] by simp
  have c: "in_log (disk s) c" using dblock_in(1) [OF trans_invD(5) [OF T2]] log_index_le [of x s2] e2(1,5) by (simp add: c_def)
  have h3: "held s3 b = Some x" "x \<in> dirty s3 \<or> view s3 x = disk s3 x" using 3 e2(6) by simp_all
  obtain t where 4: "brelse b s3 = Ret () t" "bok p t" "bframe s3 t" "held t = (held s3)(b := None)" "view t = view s3" "dirty t = dirty s3"
      "disk t = disk s3" "free_bufs t = free_bufs s3" "disk_writes t = disk_writes s3"
    using brelse_law [OF 3(2) h3] 3(6) unfolding runs_iff by auto
  have h4: "held t = Map.empty" using 4(4) 3(4) 2(4) 1(4) h by (auto simp: fun_eq_iff)
  have "trans_inv p {} t" by (rule trans_inv_frame [OF T3 4(2,3,6,7)]) (use 4(5) h4 in simp_all)
  moreover have "caller LogLock p s \<longrightarrow> caller LogLock p t"
    using bframe_caller [OF 1(3,2)] bframe_caller [OF 2(3,2)] 3(11) bframe_caller [OF 4(3,2)] by blast
  moreover have "log_same s t"
    using bframe_same [OF 1(3)] bframe_same [OF 2(3)] 3(3) bframe_same [OF 4(3)] by (simp add: log_same_def)
  moreover have "lh_n t \<le> lh_n s + 1" using bframe_log(5) [OF 4(3)] 3(10) l1 l2 by simp
  moreover have "disk t y = disk s y" "view t y = (if y = x then g (view s x) else view s y)" if "\<not> in_log (disk s) y" for y
    using that c 4(5,7) 3(5,7) 2(5,7) 1(7) by auto
  moreover have "bnd (bread 1 x) (\<lambda>b. sq (set_data b g) (sq (log_write b) (brelse b))) s = Ret () t"
    using 1(1) 2(1) 3(1) 4(1) by (simp add: bnd_Ret sq_Ret)
  moreover have "free_bufs s \<le> Suc (free_bufs t)" "x \<in> dirty t" using 4(6,8) 3(6,8) 2(8) 1(8) by auto
  moreover have "\<exists>i v. i < dcap (disk s) \<and> disk_writes t = disk_writes s @ [(dblock (disk s) i, v)] \<and> disk t = (disk s)(dblock (disk s) i := v)"
    by (rule exI [of _ "log_index x s2"], rule exI [of _ "view s2 x"])
      (use e2(1,5) log_index_le [of x s2] 1(7,9) 2(7,9) 3(7,12) 4(7,9) in \<open>simp add: c_def\<close>)
  ultimately show ?thesis using h4 by (simp add: runs_def)
qed

section \<open>Crashes\<close>

text \<open>
  A boot that crashes: \<^verbatim>\<open>initlog\<close> runs on a disk and only its first writes reach the disk.  Nothing else of the state survives.
\<close>

inductive crash :: "uint \<Rightarrow> blocks \<Rightarrow> blocks \<Rightarrow> bool" for N where
  crash: "rebooted p s \<Longrightarrow> disksize s = N \<Longrightarrow> initlog (s :: logst) = Ret () t \<Longrightarrow> disk_writes t = disk_writes s @ W \<Longrightarrow>
    crash N (disk s) (replay (take k W) (disk s))"

lemma crash_keeps:
  assumes "crash N d d'" and "disk_wf N d"
  shows "disk_wf N d' \<and> d' 1 = d 1 \<and> (\<forall>x. \<not> in_log d x \<longrightarrow> logical d' x = logical d x)"
  using assms
proof cases
  case (crash p s t W k)
  then have "W = recovery_writes d" using initlog_run [of p s] assms(2) by (simp add: runs_def)
  then show ?thesis using recovery_prefix [OF assms(2), where k = k] crash by simp
qed

lemma crashes_keep:
  assumes "rtranclp (crash N) d d'" and "disk_wf N d"
  shows "disk_wf N d' \<and> d' 1 = d 1 \<and> (\<forall>x. \<not> in_log d x \<longrightarrow> logical d' x = logical d x)"
  using assms(1)
proof induction
  case base
  then show ?case using assms(2) by simp
next
  case (step y z)
  then have y: "disk_wf N y" "y 1 = d 1" "\<forall>x. \<not> in_log d x \<longrightarrow> logical y x = logical d x" by simp_all
  then show ?case using crash_keeps [OF step(2) y(1)] same_layout(5) [where d' = y and d = d, OF y(2)] by simp
qed

lemma commit_prefix:
  fixes s :: "'z logst_scheme" and k :: nat
  assumes t: "trans_inv p {} s" and h: "held s = Map.empty"
  defines "d \<equiv> replay (take k (commit_writes s)) (disk s)"
  shows "disk_wf (disksize s) d" "d 1 = disk s 1" "\<not> in_log (disk s) x \<Longrightarrow> logical d x = (if k = 0 then disk s x else view s x)"
proof -
  note D = trans_invD [OF t]
  have l0: "logical (disk s) x = disk s x" using D(6) by (simp add: logical_other)
  have v0: "view s x = disk s x" if "lh_n s \<le> 0" using view_clean [OF D(1)] that h D(10) by simp
  have "disk_wf (disksize s) d \<and> d 1 = disk s 1 \<and> (\<not> in_log (disk s) x \<longrightarrow> logical d x = (if k = 0 then disk s x else view s x))"
  proof (cases "0 < lh_n s \<and> k \<noteq> 0")
    case True
    then obtain j where k: "k = Suc j" by (auto simp: gr0_conv_Suc)
    note P = commit_point [OF t h, folded commit_disk_def]
    have "(disk s)(dstart (disk s) := commit_disk s (dstart (disk s))) = commit_disk s" by (simp add: commit_disk_def)
    then have d: "d = replay (take j (recovery_writes (commit_disk s))) (commit_disk s)" using True k by (simp add: d_def commit_writes_def)
    note R = recovery_prefix [OF P(1), where k = j, folded d]
    have "in_log (commit_disk s) = in_log (disk s)" by (rule same_layout(5) [where d' = "commit_disk s" and d = "disk s", OF P(4)])
    then show ?thesis using R P(4,5) k by simp
  next
    case False
    then have "d = disk s" by (auto simp: d_def commit_writes_def)
    then show ?thesis using False D(5) l0 v0 by auto
  qed
  then show "disk_wf (disksize s) d" "d 1 = disk s 1" "\<not> in_log (disk s) x \<Longrightarrow> logical d x = (if k = 0 then disk s x else view s x)" by blast+
qed

text \<open>However often recovery is interrupted, when it completes the disk has what it meant at the first crash.\<close>

lemma crashes_recover:
  fixes r :: "'y logst_scheme"
  assumes "disk_wf N d" and "rtranclp (crash N) d (disk r)" and "rebooted q r" and "disksize r = N"
  shows "runs initlog r (\<lambda>_ r'. \<forall>x. \<not> in_log d x \<longrightarrow> disk r' x = logical d x)"
proof -
  note C = crashes_keep [OF assms(2,1)]
  have "disk r 1 = d 1" using C by simp
  note l = same_layout(5) [where d' = "disk r" and d = d, OF this]
  have wf: "disk_wf (disksize r) (disk r)" using C assms(4) by simp
  show ?thesis
  proof (rule runs_conseq [OF initlog_run [OF assms(3) wf]], elim conjE)
    fix r' :: "'y logst_scheme" assume "disk r' = replay (recovery_writes (disk r)) (disk r)"
    then show "\<forall>x. \<not> in_log d x \<longrightarrow> disk r' x = logical d x"
      using cleared(4) [OF wf] C l by (simp add: recovery_writes_all [OF wf])
  qed
qed

lemma crash_safe:
  fixes s s' :: "'z logst_scheme" and r :: "'y logst_scheme"
  assumes "trans_inv p {} s" and "held s = Map.empty" and "0 < free_bufs s" and "caller LogLock p s"
    and "commit_trans s = Ret () s'" and "disk_writes s' = disk_writes s @ W"
    and "rtranclp (crash (disksize s)) (replay (take k W) (disk s)) (disk r)" and "rebooted q r" and "disksize r = disksize s"
  shows "runs initlog r (\<lambda>_ r'. \<forall>x. \<not> in_log (disk s) x \<longrightarrow> disk r' x = (if k = 0 then disk s x else view s x))"
proof -
  have W: "W = commit_writes s" using commit_run [OF assms(1-4)] assms(5,6) by (simp add: runs_def)
  note P = commit_prefix [OF assms(1,2), where k = k, folded W]
  note l = same_layout(5) [where d' = "replay (take k W) (disk s)" and d = "disk s", OF P(2)]
  show ?thesis by (rule runs_conseq [OF crashes_recover [OF P(1) assms(7-9)]]) (use P(3) l in simp)
qed

text \<open>While a transaction only logs, its writes go to the slots of the log, of which the header on the disk knows nothing.\<close>

lemma slot_writes:
  assumes "disk_wf N d" and "dn d = 0" and "fst ` set U \<subseteq> dblock d ` {..<dcap d}"
  shows "disk_wf N (replay U d)" "in_log (replay U d) = in_log d" "\<not> in_log d x \<Longrightarrow> logical (replay U d) x = d x"
proof -
  have o: "replay U d y = d y" if "y \<notin> dblock d ` {..<dcap d}" for y using assms(3) that by (intro replay_other) blast
  have n: "y \<notin> dblock d ` {..<dcap d}" if "\<not> in_log d y" for y using dblock_in(1) [OF assms(1)] that by auto
  have 1: "replay U d 1 = d 1" using o [OF n] assms(1) by (simp add: disk_wf_def)
  have h: "replay U d (dstart d) = d (dstart d)" using dblock_in(3) [OF assms(1)] by (intro o) force
  note e = same_head [where d' = "replay U d" and d = d, OF 1 h]
  show "disk_wf N (replay U d)" using e(3) assms(1) by simp
  show "in_log (replay U d) = in_log d" by (rule same_layout(5) [where d' = "replay U d" and d = d, OF 1])
  show "logical (replay U d) x = d x" if "\<not> in_log d x"
    using o [OF n [OF that]] e(1) assms(2) by (simp add: logical_other)
qed

section \<open>Properties\<close>

text \<open>
  (C1) Transactions are atomic.  If the machine stops during \<^verbatim>\<open>commit_trans\<close>, with only the first \<open>k\<close> of its writes on the disk, and then
  stops again any number of times while the log is being recovered, the first \<^verbatim>\<open>initlog\<close> that completes leaves every block outside the log either
  as it was on the disk before the commit, if no write of the commit was done, or as the transaction left it in the cache.
\<close>

theorem crash_atomicity:
  fixes s s' :: "'z logst_scheme" and r :: "'y logst_scheme"
  assumes "trans_inv p {} s" and "held s = Map.empty" and "0 < free_bufs s" and "caller LogLock p s"
    and "commit_trans s = Ret () s'" and "disk_writes s' = disk_writes s @ W"
    and "rtranclp (crash (disksize s)) (replay (take k W) (disk s)) (disk r)" and "rebooted q r" and "disksize r = disksize s"
  shows "runs initlog r (\<lambda>_ r'. \<forall>x. \<not> in_log (disk s) x \<longrightarrow> disk r' x = (if k = 0 then disk s x else view s x))"
  using crash_safe [OF assms] .

text \<open>
  \<^verbatim>\<open>commit_trans\<close> returns with every block outside the log on the disk as the cache shows it, no block pinned, the log empty in
  memory and on the disk, and nobody left sleeping for the log.
\<close>

theorem commit_correct:
  fixes s :: "'z logst_scheme"
  assumes "trans_inv p {} s" and "held s = Map.empty" and "0 < free_bufs s" and "caller LogLock p s"
  shows "runs commit_trans s (\<lambda>_ t. trans_inv p {} t \<and> lh_n t = 0 \<and> dirty t = {} \<and> \<not> log_busy t \<and>
    (\<forall>x. \<not> in_log (disk s) x \<longrightarrow> disk t x = view s x \<and> view t x = view s x) \<and>
    (\<forall>q < NPROC. \<not> (pstate (procs t q) = SLEEPING \<and> pchan (procs t q) = ChanLog)))"
proof (rule runs_conseq [OF commit_run [OF assms]], elim conjE)
  fix t assume t: "bok p t" "log_same (s\<lparr>log_busy := False\<rparr>) t" "held t = Map.empty" "dirty t = {}" "lh_n t = 0"
    "disk t = replay (commit_writes s) (disk s)" "\<forall>q < NPROC. \<not> woken ChanLog t q"
  note D = trans_invD [OF assms(1)]
  note P = commit_prefix [OF assms(1,2), where k = "Suc (length (commit_writes s))", simplified, folded t(6)]
  have v: "view t = disk t" using view_clean [OF t(1)] t(3,4) by auto
  have n: "dn (disk t) = 0"
  proof (cases "0 < lh_n s")
    case True
    note Q = commit_point [OF assms(1,2), folded commit_disk_def]
    have "(disk s)(dstart (disk s) := commit_disk s (dstart (disk s))) = commit_disk s" by (simp add: commit_disk_def)
    then have "disk t = replay (recovery_writes (commit_disk s)) (commit_disk s)" using True t(6) by (simp add: commit_writes_def)
    then show ?thesis using cleared(3) [OF Q(1)] by (simp add: recovery_writes_all [OF Q(1)])
  next
    case False
    then show ?thesis using t(6) D(6) by (simp add: commit_writes_def)
  qed
  have "logical (disk t) x = disk t x" for x using n by (simp add: logical_other)
  moreover have "trans_inv p {} t"
    using t n P(1) D(2-4) same_layout(1,2) [where d' = "disk t" and d = "disk s", OF P(2)] by (simp add: trans_inv_def log_same_def)
  ultimately show "trans_inv p {} t \<and> lh_n t = 0 \<and> dirty t = {} \<and> \<not> log_busy t \<and>
    (\<forall>x. \<not> in_log (disk s) x \<longrightarrow> disk t x = view s x \<and> view t x = view s x) \<and>
    (\<forall>q < NPROC. \<not> (pstate (procs t q) = SLEEPING \<and> pchan (procs t q) = ChanLog))"
    using P(3) v t by (simp add: log_same_def woken_def)
qed

text \<open>
  (C2) \<^verbatim>\<open>log_write\<close> in a transaction panics when the log is full or no transaction is open.  Otherwise it copies the block the caller holds to its
  place in the log, a second write of the same block to the same place, and keeps the block in the cache: the transaction stays consistent,
  the logged block is up to date, and outside the log neither the disk nor what the cache shows changes.
\<close>

theorem log_write_correct:
  fixes s :: "'z logst_scheme"
  assumes T: "trans_inv p M s" and h: "held s b = Some x" and hx: "home (disksize s) (disk s) x" and f: "0 < free_bufs s"
  shows "if nat (lh_n s) = dcap (disk s) then log_write b s = Panic ''too big a transaction''
    else if \<not> log_busy s then log_write b s = Panic ''write outside of trans''
    else runs (log_write b) s (\<lambda>_ t. trans_inv p (M - {x}) t \<and> held t = held s \<and> dirty t = insert x (dirty s) \<and>
      lh_n t = (if x \<in> dirty s then lh_n s else lh_n s + 1) \<and> disk t (dblock (disk s) (log_index x s)) = view s x \<and>
      (\<forall>y. \<not> in_log (disk s) y \<longrightarrow> disk t y = disk s y \<and> view t y = view s y))"
proof -
  note D = trans_invD [OF T]
  consider (full) "nat (lh_n s) = dcap (disk s)" | (closed) "nat (lh_n s) < dcap (disk s)" "\<not> log_busy s"
    | (opened) "nat (lh_n s) < dcap (disk s)" "log_busy s" using D(8) by linarith
  then show ?thesis
  proof cases
    case full
    then have "lh_n s \<ge> LOGSIZE \<or> lh_n s \<ge> log_size s - 1" using D(4,7) by (auto simp: dcap_def)
    then show ?thesis using full by (simp add: log_write_def bnd_gets op_simps)
  next
    case closed
    then have "\<not> (lh_n s \<ge> LOGSIZE \<or> lh_n s \<ge> log_size s - 1)" using D(4) by (auto simp: dcap_def)
    then show ?thesis using closed by (simp add: log_write_def bnd_gets op_simps)
  next
    case opened
    have c: "in_log (disk s) (dblock (disk s) (log_index x s))"
      using dblock_in(1) [OF D(5)] log_index_le [of x s] opened by simp
    have i: "int (log_index x s) = lh_n s \<longleftrightarrow> x \<notin> dirty s"
    proof (rule log_index_cases [OF D(9), of x])
      assume "log_index x s = nat (lh_n s)" "x \<notin> lh_sector s ` {..<nat (lh_n s)}"
      then show ?thesis using D(7,10) by simp
    next
      assume a: "log_index x s < nat (lh_n s)" "lh_sector s (log_index x s) = x"
      then have "x \<in> lh_sector s ` {..<nat (lh_n s)}" by (metis image_eqI lessThan_iff)
      then show ?thesis using a(1) D(7,10) by auto
    qed
    have "runs (log_write b) s (\<lambda>_ t. trans_inv p (M - {x}) t \<and> held t = held s \<and> dirty t = insert x (dirty s) \<and>
      lh_n t = (if x \<in> dirty s then lh_n s else lh_n s + 1) \<and> disk t (dblock (disk s) (log_index x s)) = view s x \<and>
      (\<forall>y. \<not> in_log (disk s) y \<longrightarrow> disk t y = disk s y \<and> view t y = view s y))"
    proof (rule runs_conseq [OF log_write_run [OF T opened(2) h f opened(1)]], elim conjE)
      fix t assume t: "bok p t" "log_same s t" "held t = held s" "view t = (view s)(dblock (disk s) (log_index x s) := view s x)"
        "dirty t = insert x (dirty s)" "disk t = (disk s)(dblock (disk s) (log_index x s) := view s x)"
        "lh_sector t = (lh_sector s)(log_index x s := x)" "lh_n t = (if int (log_index x s) = lh_n s then lh_n s + 1 else lh_n s)"
      show "trans_inv p (M - {x}) t \<and> held t = held s \<and> dirty t = insert x (dirty s) \<and>
        lh_n t = (if x \<in> dirty s then lh_n s else lh_n s + 1) \<and> disk t (dblock (disk s) (log_index x s)) = view s x \<and>
        (\<forall>y. \<not> in_log (disk s) y \<longrightarrow> disk t y = disk s y \<and> view t y = view s y)"
        using log_write_inv [OF T h hx opened(1) t] t c i by auto
    qed
    then show ?thesis using opened by simp
  qed
qed

text \<open>
  (C3) \<^verbatim>\<open>initlog\<close> on a freshly initialised cache finds the log where the super block says, gives every block outside the log its committed
  contents, and leaves an empty log ready for the first transaction.
\<close>

theorem initlog_correct:
  fixes s :: "'z logst_scheme"
  assumes "rebooted p s" and "disk_wf (disksize s) (disk s)"
  shows "runs initlog s (\<lambda>_ t. trans_inv p {} t \<and> lh_n t = 0 \<and> (\<forall>x. \<not> in_log (disk s) x \<longrightarrow> view t x = logical (disk s) x \<and> disk t x = logical (disk s) x))"
proof (rule runs_conseq [OF initlog_run [OF assms]], elim conjE)
  fix t assume t: "rebooted p t" "disksize t = disksize s" "lh_n t = 0" "log_dev t = 1" "log_start t = dstart (disk t)" "log_size t = dsize (disk t)"
    "disk t = replay (recovery_writes (disk s)) (disk s)"
  note c = cleared [OF assms(2), folded recovery_writes_all [OF assms(2)], folded t(7)]
  have v: "view t = disk t" using view_clean [of p t] t(1) by (auto simp: rebooted_def)
  show "trans_inv p {} t \<and> lh_n t = 0 \<and> (\<forall>x. \<not> in_log (disk s) x \<longrightarrow> view t x = logical (disk s) x \<and> disk t x = logical (disk s) x)"
    using t c v by (simp add: trans_inv_def rebooted_def)
qed

section \<open>A concrete disk\<close>

text \<open>A disk of 1024 empty blocks, the last ten of them the log, and the state in which the kernel finds it.\<close>

definition sample_disk :: blocks where
  "sample_disk = (\<lambda>_ _. 0)(1 := st32 (st32 (\<lambda>_. 0) 0 1024) 12 10)"

definition sample_boot :: "blocks \<Rightarrow> bool \<Rightarrow> 'z \<Rightarrow> 'z logst_scheme" where
  "sample_boot d busy m = (sample_log m)\<lparr>disk := d\<rparr>\<lparr>log_busy := busy\<rparr>"

lemma sample_boot_sel [simp]:
  "disk (sample_boot d b m) = d" "disksize (sample_boot d b m) = 1024" "log_busy (sample_boot d b m) = b" "log_start (sample_boot d b m) = 1014"
  "log_size (sample_boot d b m) = 10" "log_dev (sample_boot d b m) = 1" "lh_n (sample_boot d b m) = 0"
  by (simp_all add: sample_boot_def sample_log_def sample_bc_def sample_table_def)

lemma sample_rebooted: "rebooted 0 (sample_boot d b m)" "caller LogLock 0 (sample_boot d b m)"
proof -
  have s: "bufs (sample_boot d b m) = sample_bufs" "procs (sample_boot d b m) = procs (sample_log m)" "mlf (sample_boot d b m) = mlf (sample_log m)"
    "cur (sample_boot d b m) = cur (sample_log m)" "cpust (sample_boot d b m) = cpust (sample_log m)"
    by (simp_all add: sample_boot_def sample_log_def)
  have c: "caller lk 0 (sample_boot d b m)" if "lk \<noteq> PtableLock" for lk
    by (rule caller_same [of lk 0 "sample_log m"]) (use that s in \<open>simp_all add: sample_log_def sample_bc_def sample_caller\<close>)
  then show "caller LogLock 0 (sample_boot d b m)" by simp
  have "bc_inv (sample_boot d b m)" unfolding bc_inv_def s using sample_lru by (auto simp: buf_ok_def sample_bufs_def)
  then show "rebooted 0 (sample_boot d b m)"
    using c by (simp add: rebooted_def bok_def held_def dirty_def s fun_eq_iff) (simp add: sample_bufs_def)
qed

lemma sample_layout: "dstart sample_disk = 1014" "dsize sample_disk = 10" "dcap sample_disk = 9" "dn sample_disk = 0"
proof -
  show 1: "dstart sample_disk = 1014" "dsize sample_disk = 10"
    by (simp_all add: dstart_def dsize_def sample_disk_def superblock_of_def ld32_st32_nat)
  show "dcap sample_disk = 9" by (simp add: dcap_def 1)
  show "dn sample_disk = 0" by (simp add: dn_def 1) (simp add: sample_disk_def ld32_def)
qed

lemma sample_in_log: "in_log sample_disk x \<longleftrightarrow> 1014 \<le> x \<and> x \<le> 1023"
  by (simp add: in_log_def sample_layout word_le_nat_alt)

lemma sample_super: "\<not> in_log sample_disk 1"
  by (simp add: sample_in_log word_le_nat_alt)

lemma sample_wf: "disk_wf 1024 sample_disk" "home 1024 sample_disk 5"
  by (simp_all add: disk_wf_def home_def sample_super sample_layout) (simp_all add: sample_in_log)

lemma sample_trans_any:
  assumes "disk_wf 1024 d" and "dstart d = 1014" and "dsize d = 10" and "dn d = 0"
  shows "trans_inv 0 {} (sample_boot d True m)"
  using sample_rebooted(1) [of d True m] assms by (simp add: trans_inv_def rebooted_def)

lemmas sample_trans = sample_trans_any [OF sample_wf(1) sample_layout(1,2,4)]

lemma sample_held: "held (sample_boot d b m) = Map.empty" "free_bufs (sample_boot d b m) = 10" "view (sample_boot d b m) = d"
proof -
  note r = sample_rebooted(1) [of d b m, unfolded rebooted_def]
  show "held (sample_boot d b m) = Map.empty" using r by simp
  show "free_bufs (sample_boot d b m) = 10" using free_all [of 0 "sample_boot d b m"] r by simp
  show "view (sample_boot d b m) = d" using view_clean [of 0 "sample_boot d b m"] r by auto
qed

text \<open>A transaction that has filled the block 5 with sevens.\<close>

lemma sample_update:
  obtains s :: logst where "trans_inv 0 {} s" "held s = Map.empty" "0 < free_bufs s" "caller LogLock 0 s" "disksize s = 1024" "\<not> in_log (disk s) 5"
    "disk s 5 = (\<lambda>_. 0)" "view s 5 = (\<lambda>_. 7)"
proof -
  let ?s = "sample_boot sample_disk True ()"
  have "runs (bnd (bread 1 5) (\<lambda>b. sq (set_data b (\<lambda>_ _. 7)) (sq (log_write b) (brelse b)))) ?s (\<lambda>_ t. trans_inv 0 {} t \<and> log_same ?s t \<and>
    held t = Map.empty \<and> 5 \<in> dirty t \<and> lh_n t \<le> lh_n ?s + 1 \<and> free_bufs ?s \<le> Suc (free_bufs t) \<and>
    (caller LogLock 0 ?s \<longrightarrow> caller LogLock 0 t) \<and>
    (\<forall>y. \<not> in_log (disk ?s) y \<longrightarrow> disk t y = disk ?s y \<and> view t y = (if y = 5 then (\<lambda>_. 7) else view ?s y)))"
    by (rule runs_conseq [OF logged_update_run [OF sample_trans, where x = 5 and g = "\<lambda>_ _. 7"]])
      (simp_all add: sample_wf sample_held sample_layout)
  then obtain t where t: "trans_inv 0 {} t" "log_same ?s t" "held t = Map.empty" "9 \<le> free_bufs t" "caller LogLock 0 t"
      "\<And>y. \<not> in_log sample_disk y \<Longrightarrow> disk t y = sample_disk y \<and> view t y = (if y = 5 then (\<lambda>_. 7) else sample_disk y)"
    unfolding runs_iff using sample_rebooted(2) [of sample_disk True "()"] by (auto simp: sample_held)
  have "disk t 1 = sample_disk 1" using t(6) [OF sample_super] by simp
  then have "in_log (disk t) = in_log sample_disk" by (rule same_layout(5))
  then show thesis
    using t t(6) [of 5] by (intro that [of t]) (simp_all add: log_same_def sample_in_log, simp_all add: sample_disk_def)
qed

theorem crash_atomicity_witness:
  "\<exists>(s :: logst) s' W. commit_trans s = Ret () s' \<and> disk_writes s' = disk_writes s @ W \<and> disk s 5 0 = 0 \<and>
     runs initlog (sample_boot (replay (take 2 W) (disk s)) False ()) (\<lambda>_ r'. disk r' 5 0 = 7) \<and>
     runs initlog (sample_boot (replay (take 0 W) (disk s)) False ()) (\<lambda>_ r'. disk r' 5 0 = 0)"
proof -
  obtain s :: logst where s: "trans_inv 0 {} s" "held s = Map.empty" "0 < free_bufs s" "caller LogLock 0 s" "disksize s = 1024"
      "\<not> in_log (disk s) 5" "disk s 5 = (\<lambda>_. 0)" "view s 5 = (\<lambda>_. 7)" by (rule sample_update)
  obtain s' where s': "commit_trans s = Ret () s'" "disk_writes s' = disk_writes s @ commit_writes s"
    using commit_run [OF s(1-4)] unfolding runs_iff by auto
  have "runs initlog (sample_boot (replay (take k (commit_writes s)) (disk s)) False ())
      (\<lambda>_ r'. \<forall>x. \<not> in_log (disk s) x \<longrightarrow> disk r' x = (if k = 0 then disk s x else view s x))" for k
    by (rule crash_atomicity [OF s(1-4) s', where q = 0]) (simp_all add: sample_rebooted s(5))
  then have "runs initlog (sample_boot (replay (take k (commit_writes s)) (disk s)) False ()) (\<lambda>_ r'. disk r' 5 0 = (if k = 0 then 0 else 7))" for k
    by (rule runs_conseq) (use s(6-8) in simp)
  from this [of 2] this [of 0] show ?thesis using s' s(7) by (intro exI [of _ s] exI [of _ s'] exI [of _ "commit_writes s"]) simp
qed

theorem commit_correct_witness:
  "\<exists>s :: logst. disk s 5 0 = 0 \<and> runs commit_trans s (\<lambda>_ t. disk t 5 0 = 7 \<and> lh_n t = 0)"
proof -
  obtain s :: logst where s: "trans_inv 0 {} s" "held s = Map.empty" "0 < free_bufs s" "caller LogLock 0 s" "disksize s = 1024"
      "\<not> in_log (disk s) 5" "disk s 5 = (\<lambda>_. 0)" "view s 5 = (\<lambda>_. 7)" by (rule sample_update)
  have "runs commit_trans s (\<lambda>_ t. disk t 5 0 = 7 \<and> lh_n t = 0)"
    by (rule runs_conseq [OF commit_correct [OF s(1-4)]]) (use s(6,8) in auto)
  then show ?thesis using s(7) by (intro exI [of _ s]) simp
qed

theorem log_write_correct_witness:
  "\<exists>(s :: logst) b. lh_n s = 0 \<and> runs (log_write b) s (\<lambda>_ t. lh_n t = 1 \<and> dirty t = {5})"
proof -
  let ?s = "sample_boot sample_disk True ()"
  have "dirty ?s = {}" "bok 0 ?s" using sample_rebooted(1) [of sample_disk True "()"] by (simp_all add: rebooted_def)
  then obtain b s where s: "bread 1 5 ?s = Ret b s" "bok 0 s" "bframe ?s s" "held s = Map.empty(b := Some 5)" "view s = view ?s" "dirty s = {}"
      "disk s = sample_disk" "free_bufs s = 9"
    using bread_law [of 0 ?s 5] unfolding runs_iff by (auto simp: sample_held)
  note l = bframe_log [OF s(3)]
  have T: "trans_inv 0 {} s"
    by (rule trans_inv_frame [OF sample_trans s(2,3)]) (use s \<open>dirty ?s = {}\<close> in \<open>auto simp: sample_in_log split: if_splits\<close>)
  have p: "held s b = Some 5" "home (disksize s) (disk s) 5" "0 < free_bufs s" using s l sample_wf(2) by simp_all
  have "runs (log_write b) s (\<lambda>_ t. lh_n t = 1 \<and> dirty t = {5})"
    using log_write_correct [OF T p] l s(6,7) by (simp add: sample_layout) (erule runs_conseq, simp)
  then show ?thesis using l(5) by (intro exI [of _ s] exI [of _ b]) simp
qed

theorem initlog_correct_witness:
  "runs initlog (sample_boot sample_disk False ()) (\<lambda>_ t. lh_n t = 0 \<and> disk t 5 0 = 0)"
proof -
  let ?s = "sample_boot sample_disk False ()"
  have "logical sample_disk 5 0 = 0" by (simp add: logical_other sample_layout) (simp add: sample_disk_def)
  moreover have "disk_wf (disksize ?s) (disk ?s)" using sample_wf(1) by simp
  ultimately show ?thesis by (intro runs_conseq [OF initlog_correct [OF sample_rebooted(1)]]) (auto simp: sample_in_log)
qed

end
