(* ===== verification/Files.thy ===== *)
theory Files
  imports Fs Recovery
begin

text \<open>
  The contents of files: the block allocator and the transfer loops of \<^verbatim>\<open>src/fs.c\<close> over the log and the buffer cache.
\<close>

section \<open>Reading blocks\<close>

text \<open>\<open>rok p s\<close>: the process \<open>p\<close> runs, holds no buffer, and the cache can take another block.\<close>

definition rok :: "nat \<Rightarrow> 'z logst_scheme \<Rightarrow> bool" where
  "rok p s \<longleftrightarrow> bok p s \<and> held s = Map.empty \<and> 0 < free_bufs s"

text \<open>\<open>unmoved s t\<close>: blocks were read, nothing else.\<close>

definition unmoved :: "'z logst_scheme \<Rightarrow> 'z logst_scheme \<Rightarrow> bool" where
  "unmoved s t \<longleftrightarrow> bframe s t \<and> view t = view s \<and> dirty t = dirty s \<and> disk t = disk s \<and> disk_writes t = disk_writes s \<and>
     free_bufs t = free_bufs s"

lemma unmoved_refl: "unmoved s s"
  by (simp add: unmoved_def bframe_def)

lemma unmoved_trans: "unmoved s t \<Longrightarrow> unmoved t u \<Longrightarrow> unmoved s u"
  using bframe_trans [of s t u] by (simp add: unmoved_def)

lemma unmoved_log: "unmoved s t \<Longrightarrow> log_same s t \<and> lh_n t = lh_n s \<and> lh_sector t = lh_sector s"
  using bframe_same [of s t] bframe_log [of s t] by (simp add: unmoved_def)

lemma log_same_inodes: "log_same s t \<Longrightarrow> inodes t = inodes s"
  by (cases s; cases t; simp add: log_same_def)

lemma unmoved_inodes: "unmoved s t \<Longrightarrow> inodes t = inodes s"
  using unmoved_log log_same_inodes by blast

definition look :: "uint \<Rightarrow> ('z logst_scheme, block) op" where
  "look sec = bnd (bread 1 sec) (\<lambda>b. bnd (gets (\<lambda>s. b_data (bufs s b))) (\<lambda>d. sq (brelse b) (ret d)))"

lemma look_run:
  fixes s :: "'z logst_scheme"
  assumes r: "rok p s" and sec: "sec < disksize s"
  shows "runs (look sec) s (\<lambda>d t. d = view s sec \<and> rok p t \<and> unmoved s t)"
proof -
  have o: "bok p s" "sec \<notin> ran (held s)" and f: "0 < free_bufs s" and h: "held s = Map.empty" using r by (simp_all add: rok_def)
  have c: "sec \<in> dirty s \<or> view s sec = disk s sec" using view_clean [OF o] by blast
  obtain b u where 1: "bread 1 sec s = Ret b u" "bok p u" "bframe s u" "held u = (held s)(b := Some sec)" "view u = view s" "dirty u = dirty s"
      "disk u = disk s" "disk_writes u = disk_writes s" "free_bufs u = (if sec \<in> dirty s then free_bufs s else free_bufs s - 1)"
    using bread_law [OF o(1) sec o(2)] f unfolding runs_iff by auto
  have b: "held u b = Some sec" "sec \<in> dirty u \<or> view u sec = disk u sec" using 1 c by simp_all
  have d: "b_data (bufs u b) = view s sec" using cache.data [OF 1(2) b(1)] 1(5) by simp
  obtain t where 2: "brelse b u = Ret () t" "bok p t" "bframe u t" "held t = (held u)(b := None)" "view t = view u" "dirty t = dirty u"
      "disk t = disk u" "disk_writes t = disk_writes u" "free_bufs t = (if sec \<in> dirty u then free_bufs u else Suc (free_bufs u))"
    using brelse_law [OF 1(2) b] unfolding runs_iff by auto
  have "look sec s = Ret (view s sec) t" using 1(1) 2(1) d by (simp add: look_def bnd_Ret bnd_gets sq_Ret op_simps)
  moreover have "held t = Map.empty" using 2(4) 1(4) h by (auto simp: fun_eq_iff)
  ultimately show ?thesis
    using 1 2 f bframe_trans [OF 1(3) 2(3)] by (auto simp: runs_def rok_def unmoved_def)
qed

text \<open>What a buffer says is what the cache shows of its block.\<close>

lemma bread_value:
  fixes s :: "'z logst_scheme"
  assumes "rok p s" and "sec < disksize s"
  shows "bnd (bread 1 sec) (\<lambda>b. bnd (gets (\<lambda>s. g (b_data (bufs s b)))) (\<lambda>v. k v b)) s = bnd (bread 1 sec) (k (g (view s sec))) s"
proof (rule bnd_same)
  fix b u assume e: "bread 1 sec s = Ret b u"
  have o: "bok p s" "sec \<notin> ran (held s)" "sec \<in> dirty s \<or> 0 < free_bufs s" using assms(1) by (simp_all add: rok_def)
  have "bok p u" "held u b = Some sec" "view u = view s" using bread_law [OF o(1) assms(2) o(2,3)] e by (auto simp: runs_def)
  then have "b_data (bufs u b) = view s sec" using cache.data [of p u b sec] by simp
  then show "bnd (gets (\<lambda>s. g (b_data (bufs s b)))) (\<lambda>v. k v b) u = k (g (view s sec)) b u" by (simp add: bnd_gets)
qed

lemma look_then:
  fixes s :: "'z logst_scheme"
  shows "bnd (bread 1 sec) (\<lambda>b. bnd (gets (\<lambda>s. g (b_data (bufs s b)))) (\<lambda>v. sq (brelse b) (k v))) s = bnd (look sec) (\<lambda>d. k (g d)) s"
proof -
  have "bnd (gets (\<lambda>s. g (b_data (bufs s b)))) (\<lambda>v. sq (brelse b) (k v)) t =
      bnd (bnd (gets (\<lambda>s. b_data (bufs s b))) (\<lambda>d. sq (brelse b) (ret d))) (\<lambda>d. k (g d)) t" for b t
    by (cases "brelse b t") (simp_all add: bnd_gets sq_def bnd_def gets_def ret_def)
  then show ?thesis unfolding look_def by (cases "bread 1 sec s") (simp_all add: bnd_def)
qed

section \<open>Updating blocks in a transaction\<close>

text \<open>
  \<open>tx p s\<close>: the process \<open>p\<close> has a transaction open and holds no buffer.  The log must leave a buffer of the cache to its own
  blocks, which is what the bound is for: with more than nine blocks logged every buffer can be dirty.
\<close>

definition tx :: "nat \<Rightarrow> 'z logst_scheme \<Rightarrow> bool" where
  "tx p s \<longleftrightarrow> trans_inv p {} s \<and> log_busy s \<and> held s = Map.empty \<and> dcap (disk s) < NBUF \<and> caller LogLock p s"

definition room :: "'z logst_scheme \<Rightarrow> nat" where
  "room s = dcap (disk s) - nat (lh_n s)"

definition hm :: "'z logst_scheme \<Rightarrow> uint \<Rightarrow> bool" where
  "hm s x \<longleftrightarrow> home (disksize s) (disk s) x"

text \<open>The blocks outside the log, as the users of the cache see them.\<close>

definition hv :: "'z logst_scheme \<Rightarrow> uint \<Rightarrow> block" where
  "hv s x = (if x < disksize s \<and> \<not> in_log (disk s) x then view s x else (\<lambda>_. 0))"

definition tsame :: "'z logst_scheme \<Rightarrow> 'z logst_scheme \<Rightarrow> bool" where
  "tsame s t \<longleftrightarrow> log_same s t \<and> disk t 1 = disk s 1"

lemma tsame_trans: "tsame s t \<Longrightarrow> tsame t u \<Longrightarrow> tsame s u"
  using log_same_trans by (auto simp: tsame_def)

lemma tsame_hm: "tsame s t \<Longrightarrow> hm t = hm s"
  using same_layout(6) [where d' = "disk t" and d = "disk s"] by (auto simp: tsame_def hm_def log_same_def fun_eq_iff)

lemma tsame_inodes: "tsame s t \<Longrightarrow> inodes t = inodes s"
  using log_same_inodes by (auto simp: tsame_def)

lemma hm_view: "hm s x \<Longrightarrow> hv s x = view s x" "hm s x \<Longrightarrow> x < disksize s"
  by (simp_all add: hm_def hv_def home_def)

lemma super_view: "trans_inv p M s \<Longrightarrow> hv s 1 = view s 1" "trans_inv p M s \<Longrightarrow> 1 < disksize s"
  by (auto simp: trans_inv_def disk_wf_def hv_def)

text \<open>With nothing held, the buffers in use are the dirty ones.\<close>

lemma free_dirty:
  assumes o: "bok p s" and h: "held s = Map.empty"
  shows "free_bufs s = NBUF - card (dirty s)"
proof -
  have i: "bc_inv s" using o by (simp add: bok_def)
  have "held s b \<noteq> None" if "b < NBUF" "b_busy (bufs s b)" for b using that by (simp add: held_def)
  then have p: "pinned s = {b. b < NBUF \<and> b_dirty (bufs s b)}" using h by (auto simp: pinned_def)
  have "inj_on (\<lambda>b. b_sector (bufs s b)) (pinned s)"
  proof (rule inj_onI)
    fix a b assume a: "a \<in> pinned s" "b \<in> pinned s" "b_sector (bufs s a) = b_sector (bufs s b)"
    then have n: "a < NBUF" "b < NBUF" "b_dirty (bufs s a)" "b_dirty (bufs s b)" by (simp_all add: p)
    then have ab: "a < NBUF" "b < NBUF" "b_valid (bufs s a)" "b_valid (bufs s b)"
      using bc_inv_ok [OF i n(1)] bc_inv_ok [OF i n(2)] by (simp_all add: buf_ok_def split: if_splits)
    show "a = b" using bc_inv_uniq [OF i ab] a(3) by simp
  qed
  then have "card ((\<lambda>b. b_sector (bufs s b)) ` pinned s) = card (pinned s)" by (rule card_image)
  moreover have "(\<lambda>b. b_sector (bufs s b)) ` pinned s = dirty s" by (auto simp: p dirty_def)
  ultimately show ?thesis by (simp add: free_bufs_def)
qed

lemma tx_free:
  assumes "tx p s"
  shows "free_bufs s = NBUF - nat (lh_n s)" "room s < free_bufs s" "rok p s"
proof -
  have T: "trans_inv p {} s" and h: "held s = Map.empty" and c: "dcap (disk s) < NBUF" using assms by (simp_all add: tx_def)
  note D = trans_invD [OF T]
  have "card (dirty s) = nat (lh_n s)" using D(9,10) by (simp add: card_image)
  then show f: "free_bufs s = NBUF - nat (lh_n s)" using free_dirty [OF D(1) h] by simp
  then show "room s < free_bufs s" "rok p s" using c D(1,8) h by (simp_all add: room_def rok_def)
qed

lemma tx_unmoved:
  assumes "tx p s" and "rok p t" and "unmoved s t"
  shows "tx p t" "tsame s t" "hv t = hv s" "room t = room s"
proof -
  have u: "bframe s t" "view t = view s" "dirty t = dirty s" "disk t = disk s" using assms(3) by (simp_all add: unmoved_def)
  have r: "bok p t" "held t = Map.empty" using assms(2) by (simp_all add: rok_def)
  note l = bframe_log [OF u(1)]
  have "trans_inv p {} t" by (rule trans_inv_frame [where M = "{}", OF _ r(1) u(1,3,4)]) (use assms(1) u r in \<open>simp_all add: tx_def\<close>)
  then show "tx p t" using assms(1) r u l bframe_caller [OF u(1) r(1)] by (simp add: tx_def)
  show "tsame s t" using bframe_same [OF u(1)] u by (simp add: tsame_def)
  show "hv t = hv s" by (intro ext) (simp add: hv_def u l)
  show "room t = room s" using u l by (simp add: room_def)
qed

definition upd :: "uint \<Rightarrow> (block \<Rightarrow> block) \<Rightarrow> ('z logst_scheme, unit) op" where
  "upd x g = bnd (bread 1 x) (\<lambda>b. sq (set_data b g) (sq (log_write b) (brelse b)))"

lemma upd_law:
  fixes s :: "'z logst_scheme"
  assumes t: "tx p s" and x: "hm s x" and r: "0 < room s"
  shows "runs (upd x g) s (\<lambda>_ t. tx p t \<and> tsame s t \<and> hv t = (hv s)(x := g (hv s x)) \<and> room s \<le> Suc (room t))"
proof -
  have T: "trans_inv p {} s" "log_busy s" "held s = Map.empty" using t by (simp_all add: tx_def)
  note D = trans_invD [OF T(1)]
  have n: "nat (lh_n s) < dcap (disk s)" "1 < free_bufs s" using r tx_free(2) [OF t] by (simp_all add: room_def)
  have hx: "home (disksize s) (disk s) x" using x by (simp add: hm_def)
  have e: "view s x = hv s x" using hm_view(1) [OF x] by simp
  show ?thesis unfolding upd_def
  proof (rule runs_conseq [OF logged_update_run [OF T hx n(2,1), where g = g]], elim conjE)
    fix u assume u: "trans_inv p {} u" "log_same s u" "held u = Map.empty" "lh_n u \<le> lh_n s + 1" "caller LogLock p s \<longrightarrow> caller LogLock p u"
      "\<forall>y. \<not> in_log (disk s) y \<longrightarrow> disk u y = disk s y \<and> view u y = (if y = x then g (view s x) else view s y)"
    have one: "disk u 1 = disk s 1" using u(6) D(5) by (simp add: disk_wf_def)
    note l = same_layout [where d' = "disk u" and d = "disk s", OF one]
    have "hv u y = ((hv s)(x := g (hv s x))) y" for y
      using u(2,6) hx l(5) e by (auto simp: hv_def log_same_def home_def)
    then show "tx p u \<and> tsame s u \<and> hv u = (hv s)(x := g (hv s x)) \<and> room s \<le> Suc (room u)"
      using u t one l by (auto simp: tx_def tsame_def room_def log_same_def fun_eq_iff)
  qed
qed

lemma look_law:
  fixes s :: "'z logst_scheme"
  assumes "tx p s" and "hm s x \<or> x = 1"
  shows "runs (look x) s (\<lambda>d t. d = hv s x \<and> tx p t \<and> tsame s t \<and> hv t = hv s \<and> room t = room s)"
proof -
  have T: "trans_inv p {} s" using assms(1) by (simp add: tx_def)
  have x: "x < disksize s" "hv s x = view s x" using assms(2) hm_view [of s x] super_view [OF T] by auto
  show ?thesis
    by (rule runs_conseq [OF look_run [OF tx_free(3) [OF assms(1)] x(1)]]) (use tx_unmoved [OF assms(1)] x in auto)
qed

section \<open>The contract of a transaction\<close>

text \<open>
  What the file system relies on: inside a transaction a block can be looked at and updated, every block keeps its last update, and as
  many updates as there is room for succeed.
\<close>

locale transaction =
  fixes ok :: "'s \<Rightarrow> bool" and same :: "'s \<Rightarrow> 's \<Rightarrow> bool" and block :: "'s \<Rightarrow> uint \<Rightarrow> bool" and vw :: "'s \<Rightarrow> uint \<Rightarrow> block"
    and spare :: "'s \<Rightarrow> nat" and get :: "uint \<Rightarrow> ('s, block) op" and update :: "uint \<Rightarrow> (block \<Rightarrow> block) \<Rightarrow> ('s, unit) op"
  assumes same_trans: "same s t \<Longrightarrow> same t u \<Longrightarrow> same s u" and same_refl: "same s s"
    and same_block: "same s t \<Longrightarrow> block t = block s"
    and get: "ok s \<Longrightarrow> block s x \<Longrightarrow> runs (get x) s (\<lambda>d t. d = vw s x \<and> ok t \<and> same s t \<and> vw t = vw s \<and> spare t = spare s)"
    and update: "ok s \<Longrightarrow> block s x \<Longrightarrow> 0 < spare s \<Longrightarrow>
      runs (update x g) s (\<lambda>_ t. ok t \<and> same s t \<and> vw t = (vw s)(x := g (vw s x)) \<and> spare s \<le> Suc (spare t))"
begin

text \<open>A batch of updates.\<close>

lemma update_all:
  assumes "ok s" and "\<forall>(x, g) \<in> set us. block s x" and "length us \<le> spare s"
  shows "runs (foreach us (\<lambda>(x, g). update x g)) s (\<lambda>_ t. ok t \<and> same s t \<and> vw t = fold (\<lambda>(x, g) v. v(x := g (v x))) us (vw s) \<and>
    spare s \<le> length us + spare t)"
  using assms
proof (induction us arbitrary: s)
  case Nil
  then show ?case by (simp add: runs_simps same_refl)
next
  case (Cons u us)
  obtain x g where u: "u = (x, g)" by fastforce
  have p: "block s x" "0 < spare s" using Cons.prems u by auto
  obtain t where t: "update x g s = Ret () t" "ok t" "same s t" "vw t = (vw s)(x := g (vw s x))" "spare s \<le> Suc (spare t)"
    using update [OF Cons.prems(1) p, of g] by (auto simp: runs_iff)
  have "\<forall>(x, g) \<in> set us. block t x" "length us \<le> spare t" using Cons.prems same_block [OF t(3)] t(5) by auto
  from Cons.IH [OF t(2) this]
  have "runs (foreach us (\<lambda>(x, g). update x g)) t (\<lambda>_ w. ok w \<and> same s w \<and>
      vw w = fold (\<lambda>(x, g) v. v(x := g (v x))) us ((vw s)(x := g (vw s x))) \<and> spare s \<le> Suc (length us + spare w))"
  proof (rule runs_conseq, elim conjE, intro conjI)
    fix w assume w: "ok w" "same t w" "vw w = fold (\<lambda>(x, g) v. v(x := g (v x))) us (vw t)" "spare t \<le> length us + spare w"
    show "ok w" "same s w" "spare s \<le> Suc (length us + spare w)" using w t same_trans by simp_all
    show "vw w = fold (\<lambda>(x, g) v. v(x := g (v x))) us ((vw s)(x := g (vw s x)))" using w(3) unfolding t(4) .
  qed
  moreover have "foreach (u # us) (\<lambda>(x, g). update x g) s = foreach us (\<lambda>(x, g). update x g) t" using t(1) u by (simp add: sq_Ret)
  moreover have "fold (\<lambda>(x, g) v. v(x := g (v x))) (u # us) (vw s) = fold (\<lambda>(x, g) v. v(x := g (v x))) us ((vw s)(x := g (vw s x)))"
    by (simp only: u fold_Cons comp_apply prod.case)
  ultimately show ?case by (simp only: runs_def list.size add_Suc_right add_Suc plus_nat.add_0 add_0_right)
qed

text \<open>A block is what was last put there.\<close>

lemma update_get:
  assumes "ok s" and "block s x" and "block s y" and "0 < spare s"
  shows "runs (sq (update x g) (get y)) s (\<lambda>d t. d = (if y = x then g (vw s x) else vw s y) \<and> ok t \<and> same s t)"
  unfolding runs_sq
proof (rule runs_conseq [OF update [OF assms(1,2,4)]], elim conjE)
  fix t assume t: "ok t" "same s t" "vw t = (vw s)(x := g (vw s x))"
  have "block t y" using same_block [OF t(2)] assms(3) by simp
  then show "runs (get y) t (\<lambda>d t. d = (if y = x then g (vw s x) else vw s y) \<and> ok t \<and> same s t)"
    by (rule runs_conseq [OF get [OF t(1)]]) (use t same_trans in auto)
qed

end

interpretation txn: transaction "tx p" tsame hm hv room look upd for p
  by unfold_locales
    (erule (1) tsame_trans, simp add: tsame_def log_same_def, erule tsame_hm, rule look_law, assumption, simp, rule upd_law, assumption+)

section \<open>The block allocator\<close>

text \<open>A search through a list that stops at the first hit, where it does what \<open>A\<close> says.\<close>

lemma forsome_first:
  assumes "I s" and "\<And>i s. i \<in> set xs \<Longrightarrow> \<not> P i \<Longrightarrow> I s \<Longrightarrow> runs (body i) s (\<lambda>r t. r = None \<and> I t)"
    and "\<And>i s. i \<in> set xs \<Longrightarrow> P i \<Longrightarrow> I s \<Longrightarrow> body i s = sq (A i) (ret (Some (f i))) s"
  shows "case find P xs of None \<Rightarrow> runs (forsome xs body) s (\<lambda>r t. r = None \<and> I t)
    | Some i \<Rightarrow> \<exists>t. I t \<and> forsome xs body s = sq (A i) (ret (Some (f i))) t"
  using assms
proof (induction xs arbitrary: s)
  case Nil
  then show ?case by (simp add: runs_simps)
next
  case (Cons i xs)
  show ?case
  proof (cases "P i")
    case True
    then have "body i s = sq (A i) (ret (Some (f i))) s" using Cons.prems by simp
    moreover have "bnd (sq (A i) (ret (Some (f i)))) (\<lambda>r. case r of None \<Rightarrow> forsome xs body | Some a \<Rightarrow> ret (Some a)) s = sq (A i) (ret (Some (f i))) s"
      by (cases "A i s") (simp_all add: sq_def bnd_def ret_def)
    ultimately have "forsome (i # xs) body s = sq (A i) (ret (Some (f i))) s" by (simp add: bnd_def)
    then show ?thesis using True Cons.prems(1) by auto
  next
    case False
    then obtain t where t: "body i s = Ret None t" "I t" using Cons.prems(2) [of i s] Cons.prems(1) by (auto simp: runs_iff)
    then have "forsome (i # xs) body s = forsome xs body t" by (simp add: bnd_Ret)
    then show ?thesis using Cons.IH [OF t(2)] Cons.prems(2,3) False by (simp add: runs_def split: option.splits)
  qed
qed

text \<open>The super block, and whether the bitmap says that a block is in use.\<close>

definition super :: "'z logst_scheme \<Rightarrow> superblock" where
  "super s = superblock_of (hv s 1)"

definition bblock :: "'z logst_scheme \<Rightarrow> uint \<Rightarrow> uint" where
  "bblock s a = BBLOCK a (sb_ninodes (super s))"

definition used :: "'z logst_scheme \<Rightarrow> uint \<Rightarrow> bool" where
  "used s a \<longleftrightarrow> \<not> bit_free (hv s (bblock s a)) (unat a mod BPB)"

text \<open>
  The layout of a file system, as \<^verbatim>\<open>src/mkfs.c\<close> makes it: the bitmap has a block for every block of the file system, and these blocks are
  homes; the log is at the end; a block the bitmap calls free is not of the bitmap, and is a home or in the log.  The bits of the log are not
  excluded: \<^verbatim>\<open>mkfs\<close> leaves them 0.
\<close>

definition fs_wf :: "'z logst_scheme \<Rightarrow> bool" where
  "fs_wf s \<longleftrightarrow> unat (sb_size (super s)) + BPB \<le> 2 ^ 32 \<and> (\<forall>a < sb_size (super s). hm s (bblock s a)) \<and>
     (\<forall>a < sb_size (super s). dstart (disk s) \<le> a \<longrightarrow> in_log (disk s) a) \<and>
     (\<forall>a < sb_size (super s). \<not> used s a \<longrightarrow> (hm s a \<or> in_log (disk s) a) \<and> (\<forall>c < sb_size (super s). bblock s c \<noteq> a))"

lemma bmask_bit: "i < 8 \<Longrightarrow> bit (bmask bi) i \<longleftrightarrow> i = bi mod 8"
  by (auto simp: bmask_def bit_simps)

lemma bit_free_iff: "bit_free d bi \<longleftrightarrow> \<not> bit (d (bi div 8)) (bi mod 8)"
proof -
  have "d (bi div 8) AND bmask bi = 0 \<longleftrightarrow> \<not> bit (d (bi div 8)) (bi mod 8)"
  proof
    assume "d (bi div 8) AND bmask bi = 0"
    then have "\<not> bit (d (bi div 8) AND bmask bi) (bi mod 8)" by simp
    then show "\<not> bit (d (bi div 8)) (bi mod 8)" using bmask_bit [of "bi mod 8" bi] by (simp add: bit_simps)
  next
    assume a: "\<not> bit (d (bi div 8)) (bi mod 8)"
    show "d (bi div 8) AND bmask bi = 0"
      by (rule bit_word_eqI) (use a bmask_bit in \<open>auto simp: bit_simps\<close>)
  qed
  then show ?thesis by (simp add: bit_free_def)
qed

lemma div8_mod8: "(i div 8 = j div 8 \<and> i mod 8 = j mod 8) = (i = (j :: nat))"
  by (metis div_mult_mod_eq)

lemma mark_bit: "bit_free (d(bi div 8 := d (bi div 8) OR bmask bi)) bj \<longleftrightarrow> bj \<noteq> bi \<and> bit_free d bj"
  using bmask_bit [of "bj mod 8" bi] div8_mod8 [of bj bi] by (auto simp: bit_free_iff bit_simps)

lemma clear_bit: "bit_free (d(bi div 8 := d (bi div 8) AND NOT (bmask bi))) bj \<longleftrightarrow> bj = bi \<or> bit_free d bj"
  using bmask_bit [of "bj mod 8" bi] div8_mod8 [of bj bi] by (auto simp: bit_free_iff bit_simps)

lemma unat_small: "n < 2 ^ 32 \<Longrightarrow> unat (of_nat n :: uint) = n"
  by (simp add: unat_of_nat take_bit_nat_eq_self)

lemma bblock_mod:
  assumes "bi < BPB" and "k * BPB + bi < 2 ^ 32"
  shows "BBLOCK (of_nat (k * BPB + bi)) n = BBLOCK (of_nat (k * BPB)) n" "unat (of_nat (k * BPB + bi) :: uint) mod BPB = bi"
    "unat (of_nat (k * BPB + bi) :: uint) = k * BPB + bi"
proof -
  show u: "unat (of_nat (k * BPB + bi) :: uint) = k * BPB + bi" using assms(2) by (rule unat_small)
  have "unat (of_nat (k * BPB) :: uint) = k * BPB" by (rule unat_small) (use assms(2) in simp)
  then have "unat (of_nat (k * BPB + bi) div 4096 :: uint) = unat (of_nat (k * BPB) div 4096 :: uint)"
    using assms(1) unfolding unat_div u by (simp add: unat_div)
  then show "BBLOCK (of_nat (k * BPB + bi)) n = BBLOCK (of_nat (k * BPB)) n" unfolding BBLOCK_def by (metis word_unat_eq_iff)
  show "unat (of_nat (k * BPB + bi) :: uint) mod BPB = bi" using u assms(1) by simp
qed

lemma bnd_assoc: "bnd (bnd m f) g s = bnd m (\<lambda>a. bnd (f a) g) s"
  by (cases "m s") (simp_all add: bnd_def)

lemma sq_assoc: "sq (sq m k) l s = sq m (sq k l) s" "sq (bnd m f) l s = bnd m (\<lambda>a. sq (f a) l) s"
  by (cases "m s"; simp add: sq_def bnd_def)+

lemma bnd_sq_ret: "bnd (sq m (ret x)) f s = sq m (f x) s"
  by (cases "m s") (simp_all add: sq_def bnd_def ret_def)

lemma look_drop:
  fixes s :: "'z logst_scheme"
  shows "bnd (bread 1 sec) (\<lambda>b. sq (brelse b) k) s = sq (look sec) k s"
proof -
  have "sq (bnd (gets f) (\<lambda>d. sq (brelse b) (ret d))) k t = sq (brelse b) k t" for b t and f :: "'z logst_scheme \<Rightarrow> block"
    by (cases "brelse b t") (simp_all add: sq_def bnd_def gets_def ret_def)
  then show ?thesis unfolding look_def sq_assoc by (cases "bread 1 sec s") (simp_all add: bnd_def)
qed

lemma upd_then:
  fixes s :: "'z logst_scheme"
  shows "bnd (bread 1 x) (\<lambda>b. sq (set_data b g) (sq (log_write b) (sq (brelse b) k))) s = sq (upd x g) k s"
proof -
  have "sq (set_data b g) (sq (log_write b) (sq (brelse b) k)) t = sq (sq (set_data b g) (sq (log_write b) (brelse b))) k t" for b t
    by (cases "set_data b g t") (simp_all add: sq_def bnd_def split: outcome.split)
  then show ?thesis unfolding upd_def sq_assoc by (cases "bread 1 x s") (simp_all add: bnd_def)
qed

lemma readsb_look: "readsb 1 s = bnd (look 1) (\<lambda>d. ret (superblock_of d)) s"
  unfolding readsb_def by (rule look_then)

lemma readsb_run:
  fixes s :: "'z logst_scheme"
  assumes "tx p s"
  shows "runs (readsb 1) s (\<lambda>sb t. sb = super s \<and> tx p t \<and> tsame s t \<and> hv t = hv s \<and> room t = room s)"
proof -
  have "runs (bnd (look 1) (\<lambda>d. ret (superblock_of d))) s (\<lambda>sb t. sb = super s \<and> tx p t \<and> tsame s t \<and> hv t = hv s \<and> room t = room s)"
    unfolding runs_bnd by (rule runs_conseq [OF look_law [OF assms]]) (simp_all add: runs_simps super_def)
  then show ?thesis by (simp add: runs_def readsb_look)
qed

text \<open>Marking a block, and giving it back.\<close>

lemma bblock_inj:
  fixes a c :: uint
  assumes "BBLOCK a n = BBLOCK c n" and "unat a mod BPB = unat c mod BPB"
  shows "a = c"
proof -
  have "a div 4096 = c div 4096" using assms(1) by (simp add: BBLOCK_def)
  then have "unat (a div 4096) = unat (c div 4096)" by simp
  then have "unat a div 4096 = unat c div 4096" by (simp add: unat_div)
  then have "unat a = unat c" using assms(2) by (metis div_mult_mod_eq)
  then show ?thesis by (simp add: word_unat_eq_iff)
qed

lemma used_update:
  fixes s t :: "'z logst_scheme"
  assumes "hv t 1 = hv s 1" and "\<And>bj. bit_free (hv t (bblock s a)) bj \<longleftrightarrow> (if bj = unat a mod BPB then \<not> v else bit_free (hv s (bblock s a)) bj)"
    and "\<And>c. c < sb_size (super s) \<Longrightarrow> bblock s c \<noteq> bblock s a \<Longrightarrow> hv t (bblock s c) = hv s (bblock s c)" and "c < sb_size (super s)"
  shows "used t c \<longleftrightarrow> (if c = a then v else used s c)"
proof -
  have b: "bblock t c = bblock s c" using assms(1) by (simp add: bblock_def super_def)
  show ?thesis
  proof (cases "bblock s c = bblock s a")
    case True
    then have "unat c mod BPB = unat a mod BPB \<longleftrightarrow> c = a" using bblock_inj [of c _ a] by (auto simp: bblock_def)
    then show ?thesis using True assms(2) b by (auto simp: used_def)
  next
    case False
    then show ?thesis using assms(3) [OF assms(4) False] b by (auto simp: used_def)
  qed
qed

definition balloc_step :: "superblock \<Rightarrow> nat \<Rightarrow> ('z logst_scheme, uint option) op" where
  "balloc_step sb k =
     (let b = k * BPB in
       bnd (bread 1 (BBLOCK (of_nat b) (sb_ninodes sb))) (\<lambda>bp.
       bnd (gets (\<lambda>s. scan (\<lambda>bi. b + bi < unat (sb_size sb) \<and> bit_free (b_data (bufs s bp)) bi) BPB)) (\<lambda>found.
       case found of
         Some bi \<Rightarrow>
           sq (upd_buf bp (\<lambda>m. m\<lparr>b_data := (b_data m)(bi div 8 := b_data m (bi div 8) OR bmask bi)\<rparr>))
          (sq (log_write bp)
          (sq (brelse bp)
          (sq (bzero 1 (of_nat (b + bi)))
              (ret (Some (of_nat (b + bi)))))))
       | None \<Rightarrow> sq (brelse bp) (ret None))))"

text \<open>A block of the bitmap: it has no free block, or the first one it has is marked and zeroed.\<close>

definition allocated :: "nat \<Rightarrow> 'z logst_scheme \<Rightarrow> uint \<Rightarrow> 'z logst_scheme \<Rightarrow> bool" where
  "allocated p s a t \<longleftrightarrow> a < sb_size (super s) \<and> \<not> used s a \<and> tx p t \<and> tsame s t \<and> fs_wf t \<and> super t = super s \<and>
     (\<forall>c < sb_size (super s). used t c \<longleftrightarrow> c = a \<or> used s c) \<and> hv t a = (\<lambda>_. 0) \<and>
     (\<forall>y. y \<noteq> a \<and> y \<noteq> bblock s a \<longrightarrow> hv t y = hv s y) \<and> room s \<le> room t + 2"

lemma bzero_upd: "bzero 1 a = upd a (\<lambda>_ _. 0)"
  by (simp add: bzero_def upd_def set_data_def)

lemma bblock_block:
  assumes "fs_wf s" and "a < sb_size (super s)" and "k = unat a div BPB"
  shows "BBLOCK (of_nat (k * BPB)) (sb_ninodes (super s)) = bblock s a"
proof -
  have "unat a = k * BPB + unat a mod BPB" using assms(3) by simp
  moreover have "unat a < 2 ^ 32" using unsigned_less [of a, where 'a = nat] by simp
  ultimately have "BBLOCK (of_nat (k * BPB + unat a mod BPB)) (sb_ninodes (super s)) = BBLOCK (of_nat (k * BPB)) (sb_ninodes (super s))"
    by (intro bblock_mod(1)) simp_all
  moreover have "of_nat (k * BPB + unat a mod BPB) = a" unfolding \<open>unat a = k * BPB + unat a mod BPB\<close> [symmetric] by simp
  ultimately show ?thesis by (simp add: bblock_def)
qed

definition mark :: "uint \<Rightarrow> block \<Rightarrow> block" where
  "mark a d = (let bi = unat a mod BPB in d(bi div 8 := d (bi div 8) OR bmask bi))"

lemma allocate:
  fixes s u :: "'z logst_scheme"
  assumes w: "fs_wf s" and a: "a < sb_size (super s)" "\<not> used s a" "hm s a"
    and u: "tx p u" "tsame s u" "hv u = hv s" "room u = room s" and r: "2 \<le> room s"
  shows "runs (sq (upd (bblock s a) (mark a)) (sq (bzero 1 a) (ret a))) u (\<lambda>r t. r = a \<and> allocated p s a t)"
proof -
  have h: "hm u = hm s" by (rule tsame_hm [OF u(2)])
  have ha: "c < sb_size (super s) \<Longrightarrow> bblock s c \<noteq> a" for c using w a by (auto simp: fs_wf_def)
  have hb: "hm s (bblock s a)" using w a by (simp add: fs_wf_def)
  obtain v where v: "upd (bblock s a) (mark a) u = Ret () v" "tx p v" "tsame u v" "hv v = (hv s)(bblock s a := mark a (hv s (bblock s a)))"
      "room u \<le> Suc (room v)"
    using upd_law [OF u(1), of "bblock s a" "mark a"] h hb u(3,4) r unfolding runs_iff by auto
  have hv: "hm v = hm s" using tsame_hm [OF v(3)] h by simp
  obtain t where t: "bzero 1 a v = Ret () t" "tx p t" "tsame v t" "hv t = (hv v)(a := (\<lambda>_. 0))" "room v \<le> Suc (room t)"
    using upd_law [OF v(2), of a "\<lambda>_ _. 0"] hv a(3) u(4) v(5) r unfolding runs_iff bzero_upd by auto
  have ne: "a \<noteq> 1" "bblock s a \<noteq> 1" using a(3) hb by (auto simp: hm_def home_def)
  have one: "hv t 1 = hv s 1" using t(4) v(4) ne by simp
  have us: "used t c \<longleftrightarrow> (if c = a then True else used s c)" if "c < sb_size (super s)" for c
  proof (rule used_update [OF one _ _ that])
    show "bit_free (hv t (bblock s a)) bj \<longleftrightarrow> (if bj = unat a mod BPB then \<not> True else bit_free (hv s (bblock s a)) bj)" for bj
      using mark_bit [of "hv s (bblock s a)" "unat a mod BPB" bj] t(4) v(4) ha [OF a(1)] by (simp add: mark_def Let_def)
    show "hv t (bblock s c) = hv s (bblock s c)" if "c < sb_size (super s)" "bblock s c \<noteq> bblock s a" for c
      using t(4) v(4) that ha by simp
  qed
  have su: "super t = super s" by (simp only: super_def one)
  then have bt: "bblock t = bblock s" by (intro ext) (simp only: bblock_def)
  have sm: "tsame s t" using u(2) v(3) t(3) tsame_trans by blast
  then have l: "dstart (disk t) = dstart (disk s)" "in_log (disk t) = in_log (disk s)"
    using same_layout(1,5) [where d' = "disk t" and d = "disk s"] by (simp_all add: tsame_def)
  have "fs_wf t" using w us su bt l tsame_hm [OF sm] unfolding fs_wf_def by auto
  then have "allocated p s a t" using a t v u r us su sm ne by (auto simp: allocated_def)
  then show ?thesis using v(1) t(1) by (simp add: runs_def sq_Ret op_simps)
qed

text \<open>One block of the bitmap: without a free block it is only looked at; otherwise its first free block is taken.\<close>

lemma balloc_step_eq:
  fixes s u :: "'z logst_scheme"
  assumes w: "fs_wf s" and u: "tx p u" "tsame s u" "hv u = hv s" and k: "k * BPB < unat (sb_size (super s))"
  defines "x \<equiv> BBLOCK (of_nat (k * BPB)) (sb_ninodes (super s))"
  defines "F \<equiv> scan (\<lambda>bi. k * BPB + bi < unat (sb_size (super s)) \<and> bit_free (hv s x) bi) BPB"
  shows "hm s x" and "balloc_step (super s) k u = (case F of
       Some bi \<Rightarrow> sq (upd x (\<lambda>d. d(bi div 8 := d (bi div 8) OR bmask bi)))
         (sq (bzero 1 (of_nat (k * BPB + bi))) (ret (Some (of_nat (k * BPB + bi)))))
     | None \<Rightarrow> sq (look x) (ret None)) u"
proof -
  have lt: "unat (sb_size (super s)) < 2 ^ 32" using unsigned_less [of "sb_size (super s)", where 'a = nat] by simp
  have k0: "unat (of_nat (k * BPB) :: uint) = k * BPB" by (rule unat_small) (use k lt in simp)
  have "(of_nat (k * BPB) :: uint) < sb_size (super s)" using k k0 by (simp add: word_less_nat_alt del: of_nat_mult)
  moreover from bblock_block [OF w this] have "bblock s (of_nat (k * BPB)) = x" using k0 by (simp add: x_def del: of_nat_mult)
  ultimately show hx: "hm s x" using w by (auto simp: fs_wf_def)
  then have hu: "x < disksize u" "view u x = hv s x" using tsame_hm [OF u(2)] hm_view [of u x] u(3) by simp_all
  have e: "balloc_step (super s) k u = bnd (bread 1 x) (\<lambda>bp. case F of
         Some bi \<Rightarrow>
           sq (set_data bp (\<lambda>d. d(bi div 8 := d (bi div 8) OR bmask bi)))
          (sq (log_write bp)
          (sq (brelse bp)
          (sq (bzero 1 (of_nat (k * BPB + bi)))
              (ret (Some (of_nat (k * BPB + bi)))))))
       | None \<Rightarrow> sq (brelse bp) (ret None)) u"
    unfolding balloc_step_def Let_def x_def [symmetric] set_data_def F_def hu(2) [symmetric]
    by (rule bread_value [where g = "\<lambda>d. scan (\<lambda>bi. k * BPB + bi < unat (sb_size (super s)) \<and> bit_free d bi) BPB",
          OF tx_free(3) [OF u(1)] hu(1), THEN trans]) (rule refl)
  show "balloc_step (super s) k u = (case F of
       Some bi \<Rightarrow> sq (upd x (\<lambda>d. d(bi div 8 := d (bi div 8) OR bmask bi)))
         (sq (bzero 1 (of_nat (k * BPB + bi))) (ret (Some (of_nat (k * BPB + bi)))))
     | None \<Rightarrow> sq (look x) (ret None)) u"
    unfolding e by (cases F) (simp_all only: option.case look_drop upd_then)
qed

lemma balloc_step_none:
  fixes s u :: "'z logst_scheme"
  assumes w: "fs_wf s" and u: "tx p u" "tsame s u" "hv u = hv s" "room u = room s" and k: "k * BPB < unat (sb_size (super s))"
    and none: "\<not> (\<exists>a < sb_size (super s). unat a div BPB = k \<and> \<not> used s a)"
  shows "runs (balloc_step (super s) k) u (\<lambda>r t. r = None \<and> tx p t \<and> tsame s t \<and> hv t = hv s \<and> room t = room s)"
proof -
  let ?x = "BBLOCK (of_nat (k * BPB)) (sb_ninodes (super s))"
  note E = balloc_step_eq [OF w u(1-3) k]
  have lt: "unat (sb_size (super s)) < 2 ^ 32" using unsigned_less [of "sb_size (super s)", where 'a = nat] by simp
  have "\<not> (k * BPB + bi < unat (sb_size (super s)) \<and> bit_free (hv s ?x) bi)" if bi: "bi < BPB" for bi
  proof
    assume f: "k * BPB + bi < unat (sb_size (super s)) \<and> bit_free (hv s ?x) bi"
    define a :: uint where "a = of_nat (k * BPB + bi)"
    have un: "unat a = k * BPB + bi" "unat a mod BPB = bi" using bblock_mod(2,3) [of bi k] bi f lt by (simp_all add: a_def del: of_nat_add of_nat_mult)
    have a: "a < sb_size (super s)" "unat a div BPB = k" using un bi f by (simp_all add: word_less_nat_alt)
    then have "\<not> used s a" using f bblock_block [OF w a(1) a(2) [symmetric]] un(2) by (simp add: used_def)
    then show False using none a by blast
  qed
  then have F: "scan (\<lambda>bi. k * BPB + bi < unat (sb_size (super s)) \<and> bit_free (hv s ?x) bi) BPB = None" unfolding scan_None_iff by blast
  have "runs (sq (look ?x) (ret None)) u (\<lambda>r t. r = None \<and> tx p t \<and> tsame s t \<and> hv t = hv s \<and> room t = room s)"
    unfolding runs_sq runs_ret by (rule runs_conseq [OF look_law [OF u(1)]]) (use E(1) u tsame_hm [OF u(2)] tsame_trans in auto)
  then show ?thesis unfolding runs_def E(2) F option.case .
qed

lemma balloc_step_some:
  fixes s :: "'z logst_scheme"
  assumes w: "fs_wf s" and k: "\<exists>a < sb_size (super s). unat a div BPB = k \<and> \<not> used s a"
  shows "\<exists>a. a < sb_size (super s) \<and> unat a div BPB = k \<and> \<not> used s a \<and> (\<forall>c < sb_size (super s). unat c div BPB = k \<and> \<not> used s c \<longrightarrow> a \<le> c) \<and>
    (\<forall>u. tx p u \<and> tsame s u \<and> hv u = hv s \<longrightarrow>
      balloc_step (super s) k u = sq (sq (upd (bblock s a) (mark a)) (bzero 1 a)) (ret (Some a)) u)"
proof -
  let ?x = "BBLOCK (of_nat (k * BPB)) (sb_ninodes (super s))"
  let ?P = "\<lambda>bi. k * BPB + bi < unat (sb_size (super s)) \<and> bit_free (hv s ?x) bi"
  have lt: "unat (sb_size (super s)) < 2 ^ 32" using unsigned_less [of "sb_size (super s)", where 'a = nat] by simp
  have free: "?P (unat c mod BPB)" "k * BPB + unat c mod BPB = unat c" if c: "c < sb_size (super s)" "unat c div BPB = k" "\<not> used s c" for c
  proof -
    show e: "k * BPB + unat c mod BPB = unat c" using c(2) by (metis div_mult_mod_eq)
    show "?P (unat c mod BPB)" unfolding e using c bblock_block [OF w c(1) c(2) [symmetric]] by (simp add: used_def word_less_nat_alt)
  qed
  obtain c where c: "c < sb_size (super s)" "unat c div BPB = k" "\<not> used s c" using k by blast
  have kl: "k * BPB < unat (sb_size (super s))" using free(2) [OF c] c(1) by (simp add: word_less_nat_alt)
  have "unat c mod BPB < BPB" by simp
  then obtain bi where bi: "scan ?P BPB = Some bi" using free(1) [OF c] scan_None_iff [of ?P BPB] by blast
  then have "bi < BPB \<and> ?P bi \<and> (\<forall>j < bi. \<not> ?P j)" unfolding scan_Some_iff .
  then have b: "bi < BPB" "?P bi" "\<forall>j < bi. \<not> ?P j" by blast+
  define a :: uint where "a = of_nat (k * BPB + bi)"
  have un: "unat a = k * BPB + bi" "unat a mod BPB = bi" using bblock_mod(2,3) [of bi k] b lt by (simp_all add: a_def del: of_nat_add of_nat_mult)
  have a: "a < sb_size (super s)" "unat a div BPB = k" using un b by (simp_all add: word_less_nat_alt)
  have ba: "bblock s a = ?x" using bblock_block [OF w a(1) a(2) [symmetric]] by simp
  have f: "\<not> used s a" using b(2) un(2) by (simp add: used_def ba)
  have "a \<le> d" if d: "d < sb_size (super s)" "unat d div BPB = k" "\<not> used s d" for d
  proof -
    have "\<not> unat d mod BPB < bi" using free(1) [OF d] b(3) by blast
    then show ?thesis using free(2) [OF d] un(1) unfolding word_le_nat_alt by linarith
  qed
  moreover have "balloc_step (super s) k u = sq (sq (upd (bblock s a) (mark a)) (bzero 1 a)) (ret (Some a)) u"
    if u: "tx p u \<and> tsame s u \<and> hv u = hv s" for u
  proof -
    have m: "mark a = (\<lambda>d. d(bi div 8 := d (bi div 8) OR bmask bi))" by (simp add: fun_eq_iff mark_def un(2))
    show ?thesis using u balloc_step_eq(2) [OF w _ _ _ kl, of p u] unfolding bi option.case a_def [symmetric] sq_assoc ba m by simp
  qed
  ultimately show ?thesis using a f by blast
qed

text \<open>\<^verbatim>\<open>balloc\<close> goes for the first free block of all.\<close>

lemma balloc_first:
  fixes s :: "'z logst_scheme"
  assumes t: "tx p s" and w: "fs_wf s"
  shows "if \<exists>a < sb_size (super s). \<not> used s a
    then \<exists>a u. a < sb_size (super s) \<and> \<not> used s a \<and> (\<forall>c < sb_size (super s). \<not> used s c \<longrightarrow> a \<le> c) \<and> tx p u \<and> tsame s u \<and> hv u = hv s \<and>
      room u = room s \<and> balloc 1 s = sq (upd (bblock s a) (mark a)) (sq (bzero 1 a) (ret a)) u
    else balloc 1 s = Panic ''balloc: out of blocks''"
proof -
  define n where "n = (unat (sb_size (super s)) + BPB - 1) div BPB"
  define P where "P = (\<lambda>k. \<exists>a < sb_size (super s). unat a div BPB = k \<and> \<not> used s a)"
  define I where "I = (\<lambda>u. tx p u \<and> tsame s u \<and> hv u = hv s \<and> room u = room s)"
  obtain u where u: "readsb 1 s = Ret (super s) u" "I u" using readsb_run [OF t] by (auto simp: runs_iff I_def)
  have "\<exists>A. \<forall>k. P k \<longrightarrow> A k < sb_size (super s) \<and> unat (A k) div BPB = k \<and> \<not> used s (A k) \<and>
      (\<forall>c < sb_size (super s). unat c div BPB = k \<and> \<not> used s c \<longrightarrow> A k \<le> c) \<and>
      (\<forall>u. tx p u \<and> tsame s u \<and> hv u = hv s \<longrightarrow>
        balloc_step (super s) k u = sq (sq (upd (bblock s (A k)) (mark (A k))) (bzero 1 (A k))) (ret (Some (A k))) u)"
    using balloc_step_some [OF w, of _ p] unfolding P_def by (intro choice) blast
  then obtain A where A: "A k < sb_size (super s)" "unat (A k) div BPB = k" "\<not> used s (A k)"
      "c < sb_size (super s) \<Longrightarrow> unat c div BPB = k \<Longrightarrow> \<not> used s c \<Longrightarrow> A k \<le> c"
      "I u \<Longrightarrow> balloc_step (super s) k u = sq (sq (upd (bblock s (A k)) (mark (A k))) (bzero 1 (A k))) (ret (Some (A k))) u"
    if "P k" for k c u unfolding I_def by blast
  have kn: "k * BPB < unat (sb_size (super s)) \<longleftrightarrow> k \<in> set [0..<n]" for k by (auto simp: n_def)
  have R: "case find P [0..<n] of None \<Rightarrow> runs (forsome [0..<n] (balloc_step (super s))) u (\<lambda>r t. r = None \<and> I t)
    | Some k \<Rightarrow> \<exists>t. I t \<and> forsome [0..<n] (balloc_step (super s)) u = sq (sq (upd (bblock s (A k)) (mark (A k))) (bzero 1 (A k))) (ret (Some (A k))) t"
    by (rule forsome_first [where I = I and P = P and f = A and A = "\<lambda>k. sq (upd (bblock s (A k)) (mark (A k))) (bzero 1 (A k))", OF u(2)])
      (use balloc_step_none [OF w] kn A(5) in \<open>auto simp: I_def P_def\<close>)
  have e: "balloc 1 s = bnd (forsome [0..<n] (balloc_step (super s))) (\<lambda>r. case r of Some a \<Rightarrow> ret a | None \<Rightarrow> panic ''balloc: out of blocks'') u"
    unfolding balloc_def balloc_step_def [symmetric] by (simp add: bnd_Ret u(1) n_def)
  have all: "unat a div BPB \<in> set [0..<n] \<and> P (unat a div BPB)" if "a < sb_size (super s)" "\<not> used s a" for a
  proof -
    have "unat a div BPB * BPB < unat (sb_size (super s))" using that(1) unfolding word_less_nat_alt by (metis div_times_less_eq_dividend order.strict_trans1)
    then show ?thesis using that kn by (auto simp: P_def)
  qed
  show ?thesis
  proof (cases "find P [0..<n]")
    case None
    then have "\<not> (\<exists>a < sb_size (super s). \<not> used s a)" using all by (auto simp: find_None_iff)
    moreover have "balloc 1 s = Panic ''balloc: out of blocks''" using R unfolding e None option.case by (auto simp: runs_iff bnd_Ret op_simps)
    ultimately show ?thesis by argo
  next
    case (Some k)
    then have k: "P k" "\<And>j. j < k \<Longrightarrow> \<not> P j" by (auto simp: find_Some_iff)
    obtain v where v: "I v" "forsome [0..<n] (balloc_step (super s)) u = sq (sq (upd (bblock s (A k)) (mark (A k))) (bzero 1 (A k))) (ret (Some (A k))) v"
      using R unfolding Some option.case by blast
    let ?m = "sq (upd (bblock s (A k)) (mark (A k))) (bzero 1 (A k))"
    have "balloc 1 s = bnd (sq ?m (ret (Some (A k)))) (\<lambda>r. case r of Some a \<Rightarrow> ret a | None \<Rightarrow> panic ''balloc: out of blocks'') v"
      unfolding e by (simp only: bnd_def v(2))
    then have "balloc 1 s = sq (upd (bblock s (A k)) (mark (A k))) (sq (bzero 1 (A k)) (ret (A k))) v" by (simp add: bnd_sq_ret sq_assoc)
    moreover have "A k \<le> c" if c: "c < sb_size (super s)" "\<not> used s c" for c
    proof (cases "unat c div BPB = k")
      case True
      then show ?thesis using A(4) [OF k(1)] c by blast
    next
      case False
      then have "k < unat c div BPB" using all [OF c] k(2) [of "unat c div BPB"] by linarith
      then have "unat (A k) div BPB < unat c div BPB" using A(2) [OF k(1)] by simp
      then have "unat (A k) < unat c" using div_le_mono [of "unat c" "unat (A k)" BPB] by linarith
      then show ?thesis by (simp add: word_le_nat_alt)
    qed
    ultimately show ?thesis using A(1-3) [OF k(1)] v(1) unfolding I_def by (metis (no_types, lifting))
  qed
qed

text \<open>The header of the log can be logged like any other block: no slot is the header.\<close>

lemma upd_header:
  fixes s :: "'z logst_scheme"
  assumes t: "tx p s" and r: "0 < room s"
  shows "runs (upd (dstart (disk s)) g) s (\<lambda>_ t. True)"
proof -
  let ?x = "dstart (disk s)"
  have T: "trans_inv p {} s" "log_busy s" "held s = Map.empty" using t by (simp_all add: tx_def)
  note D = trans_invD [OF T(1)]
  have n: "nat (lh_n s) < dcap (disk s)" "1 < free_bufs s" using r tx_free(2) [OF t] by (simp_all add: room_def)
  have x: "?x < disksize s" "?x \<notin> ran (held s)" "?x \<notin> dirty s"
    using dstart_in [OF D(5)] T(3) D(10,11) by (auto simp: home_def)
  obtain b s1 where 1: "bread 1 ?x s = Ret b s1" "bok p s1" "bframe s s1" "held s1 = (held s)(b := Some ?x)" "dirty s1 = dirty s"
      "disk s1 = disk s" "free_bufs s1 = free_bufs s - 1"
    using bread_law [OF D(1) x(1,2)] x(3) n(2) unfolding runs_iff by auto
  have h1: "held s1 b = Some ?x" using 1(4) by simp
  obtain s2 where 2: "set_data b g s1 = Ret () s2" "bok p s2" "bframe s1 s2" "held s2 = held s1" "dirty s2 = dirty s1" "disk s2 = disk s1"
      "free_bufs s2 = free_bufs s1"
    using set_data_law [OF 1(2) h1, of g] unfolding runs_iff by auto
  note l = bframe_log [OF 1(3)] bframe_log [OF 2(3)]
  have i: "log_index ?x s2 < dcap (disk s)" using log_index_le [of ?x s2] l n(1) by simp
  have c: "dblock (disk s2) (log_index ?x s2) \<notin> dirty s2" "dblock (disk s2) (log_index ?x s2) \<notin> ran (held s2)"
    using dblock_in [OF D(5) i] D(10,11) 1(4-6) 2(4-6) T(3) by (auto simp: home_def split: if_splits)
  obtain s3 where 3: "log_write b s2 = Ret () s3" "bok p s3" "held s3 = held s2" "dirty s3 = insert ?x (dirty s2)"
    using log_write_core [OF 2(2) _ _ _ _ _ _ _ c, of b] D(3-5) T(2) 1 2 l n h1 unfolding runs_iff by auto
  obtain u where "brelse b s3 = Ret () u"
    using brelse_law [OF 3(2), of b ?x] 3(3,4) 2(4) h1 unfolding runs_iff by auto
  then show ?thesis using 1(1) 2(1) 3(1) by (simp add: upd_def runs_def bnd_Ret sq_Ret)
qed

lemma balloc_run:
  fixes s :: "'z logst_scheme"
  assumes t: "tx p s" and w: "fs_wf s" and r: "2 \<le> room s"
  shows "\<exists>a < sb_size (super s). \<not> used s a \<and> \<not> in_log (disk s) a \<Longrightarrow>
      runs (balloc 1) s (\<lambda>a t. allocated p s a t \<and> \<not> in_log (disk s) a \<and> (\<forall>c < sb_size (super s). \<not> used s c \<longrightarrow> a \<le> c))"
    and "\<forall>a < sb_size (super s). \<not> used s a \<longleftrightarrow> in_log (disk s) a \<Longrightarrow> dstart (disk s) < sb_size (super s) \<Longrightarrow>
      runs (balloc 1) s (\<lambda>a t. a = dstart (disk s))"
    and "\<forall>a < sb_size (super s). used s a \<Longrightarrow> balloc 1 s = Panic ''balloc: out of blocks''"
proof -
  note F = balloc_first [OF t w]
  {
    assume "\<exists>a < sb_size (super s). \<not> used s a \<and> \<not> in_log (disk s) a"
    then obtain c where c: "c < sb_size (super s)" "\<not> used s c" "\<not> in_log (disk s) c" by blast
    then have ex: "\<exists>a < sb_size (super s). \<not> used s a" by blast
    obtain a u where a: "a < sb_size (super s)" "\<not> used s a" "\<forall>c < sb_size (super s). \<not> used s c \<longrightarrow> a \<le> c" and u: "tx p u" "tsame s u" "hv u = hv s" "room u = room s"
        and e: "balloc 1 s = sq (upd (bblock s a) (mark a)) (sq (bzero 1 a) (ret a)) u"
      using F unfolding if_P [OF ex] by blast
    have "\<not> dstart (disk s) \<le> a" using w a(3) c unfolding fs_wf_def by (meson order_trans)
    then have il: "\<not> in_log (disk s) a" by (simp add: in_log_def)
    then have "hm s a" using w a(1,2) unfolding fs_wf_def by blast
    from allocate [OF w a(1,2) this u r]
    show "runs (balloc 1) s (\<lambda>a t. allocated p s a t \<and> \<not> in_log (disk s) a \<and> (\<forall>c < sb_size (super s). \<not> used s c \<longrightarrow> a \<le> c))"
      unfolding runs_def e by (auto split: outcome.splits simp: il a(3))
  next
    assume l: "\<forall>a < sb_size (super s). \<not> used s a \<longleftrightarrow> in_log (disk s) a" and d: "dstart (disk s) < sb_size (super s)"
    have T: "trans_inv p {} s" using t by (simp add: tx_def)
    have dl: "in_log (disk s) (dstart (disk s))" by (rule dstart_in(1) [OF trans_invD(5) [OF T]])
    then have ex: "\<exists>a < sb_size (super s). \<not> used s a" using l d by blast
    obtain a u where a: "a < sb_size (super s)" "\<not> used s a" "\<forall>c < sb_size (super s). \<not> used s c \<longrightarrow> a \<le> c" and u: "tx p u" "tsame s u" "hv u = hv s" "room u = room s"
        and e: "balloc 1 s = sq (upd (bblock s a) (mark a)) (sq (bzero 1 a) (ret a)) u"
      using F unfolding if_P [OF ex] by blast
    have "a \<le> dstart (disk s)" using a(3) l d dl by blast
    moreover have "dstart (disk s) \<le> a" using l a(1,2) by (simp add: in_log_def)
    ultimately have ad: "a = dstart (disk s)" by (rule order_antisym)
    have "hm u (bblock s a)" using w a(1) tsame_hm [OF u(2)] by (simp add: fs_wf_def)
    then obtain v where v: "upd (bblock s a) (mark a) u = Ret () v" "tx p v" "tsame u v" "room u \<le> Suc (room v)"
      using upd_law [OF u(1), of "bblock s a" "mark a"] u(4) r unfolding runs_iff by auto
    have "dstart (disk v) = a" using tsame_trans [OF u(2) v(3)] same_layout(1) [where d' = "disk v" and d = "disk s"] by (simp add: tsame_def ad)
    then obtain t where "bzero 1 a v = Ret () t" using upd_header [OF v(2), of "\<lambda>_ _. 0"] v(4) u(4) r unfolding bzero_upd runs_iff by auto
    then show "runs (balloc 1) s (\<lambda>a t. a = dstart (disk s))" using v(1) by (simp add: runs_def e sq_Ret op_simps ad)
  next
    assume "\<forall>a < sb_size (super s). used s a"
    then have "\<not> (\<exists>a < sb_size (super s). \<not> used s a)" by blast
    from F [unfolded if_not_P [OF this]] show "balloc 1 s = Panic ''balloc: out of blocks''" .
  }
qed

lemma bfree_run:
  fixes s :: "'z logst_scheme"
  assumes t: "tx p s" and w: "fs_wf s" and r: "1 \<le> room s" and b: "b < sb_size (super s)"
  shows "if used s b then runs (bfree 1 b) s (\<lambda>_ t. tx p t \<and> tsame s t \<and> super t = super s \<and>
      (\<forall>c < sb_size (super s). used t c \<longleftrightarrow> c \<noteq> b \<and> used s c) \<and> (\<forall>y. y \<noteq> bblock s b \<longrightarrow> hv t y = hv s y) \<and> room s \<le> Suc (room t))
    else bfree 1 b s = Panic ''freeing free block''"
proof -
  let ?bi = "unat b mod BPB"
  obtain u where u: "readsb 1 s = Ret (super s) u" "tx p u" "tsame s u" "hv u = hv s" "room u = room s"
    using readsb_run [OF t] by (auto simp: runs_iff)
  have hb: "hm s (bblock s b)" using w b by (simp add: fs_wf_def)
  then have hu: "hm u (bblock s b)" "bblock s b < disksize u" "view u (bblock s b) = hv s (bblock s b)"
    using tsame_hm [OF u(3)] hm_view [of u "bblock s b"] u(4) by simp_all
  have "bfree 1 b s = bnd (bread 1 (bblock s b)) (\<lambda>bp. bnd (gets (\<lambda>s. bit_free (b_data (bufs s bp)) ?bi)) (\<lambda>fr.
     if fr then panic ''freeing free block''
     else
       sq (upd_buf bp (\<lambda>m. m\<lparr>b_data := (b_data m)(?bi div 8 := b_data m (?bi div 8) AND NOT (bmask ?bi))\<rparr>))
      (sq (log_write bp) (brelse bp)))) u"
    by (simp add: bfree_def bnd_Ret u(1) bblock_def Let_def)
  also have "\<dots> = bnd (bread 1 (bblock s b)) (\<lambda>bp. if \<not> used s b then panic ''freeing free block''
     else sq (set_data bp (\<lambda>d. d(?bi div 8 := d (?bi div 8) AND NOT (bmask ?bi)))) (sq (log_write bp) (brelse bp))) u"
    unfolding used_def not_not set_data_def hu(3) [symmetric]
    by (rule bread_value [where g = "\<lambda>d. bit_free d ?bi", OF tx_free(3) [OF u(2)] hu(2), THEN trans]) (rule refl)
  finally have e: "bfree 1 b s = \<dots>" .
  show ?thesis
  proof (cases "used s b")
    case True
    let ?g = "\<lambda>d :: block. d(?bi div 8 := d (?bi div 8) AND NOT (bmask ?bi))"
    have e: "bfree 1 b s = upd (bblock s b) ?g u" unfolding e upd_def using True by simp
    obtain v where v: "upd (bblock s b) ?g u = Ret () v" "tx p v" "tsame u v" "hv v = (hv s)(bblock s b := ?g (hv s (bblock s b)))" "room u \<le> Suc (room v)"
      using upd_law [OF u(2) hu(1), of ?g] r u(4,5) unfolding runs_iff by auto
    have one: "hv v 1 = hv s 1" using v(4) hb by (auto simp: hm_def home_def)
    have us: "used v c \<longleftrightarrow> (if c = b then False else used s c)" if "c < sb_size (super s)" for c
    proof (rule used_update [OF one _ _ that])
      show "bit_free (hv v (bblock s b)) bj \<longleftrightarrow> (if bj = unat b mod BPB then \<not> False else bit_free (hv s (bblock s b)) bj)" for bj
        using clear_bit [of "hv s (bblock s b)" ?bi bj] v(4) by simp
    qed (use v(4) in simp)
    have "super v = super s" by (simp only: super_def one)
    moreover have "tsame s v" using u(3) v(3) tsame_trans by blast
    ultimately show ?thesis using True v u us by (auto simp: runs_def e)
  next
    case False
    have o: "bok p u" "bblock s b \<notin> ran (held u)" "bblock s b \<in> dirty u \<or> 0 < free_bufs u"
      using tx_free(3) [OF u(2)] by (simp_all add: rok_def)
    obtain bp v where "bread 1 (bblock s b) u = Ret bp v" using bread_law [OF o(1) hu(2) o(2,3)] by (auto simp: runs_iff)
    then show ?thesis using False by (simp add: e bnd_Ret op_simps)
  qed
qed

section \<open>Reading a file\<close>

text \<open>The block of a file with the number \<open>bn\<close>, and the byte at an offset, over the blocks \<open>v\<close>.\<close>

definition addr_of :: "(uint \<Rightarrow> block) \<Rightarrow> inode \<Rightarrow> nat \<Rightarrow> uint" where
  "addr_of v m bn = (if bn < NDIRECT then i_addrs m bn else ld32 (v (i_addrs m NDIRECT)) (4 * (bn - NDIRECT)))"

definition fbyte :: "(uint \<Rightarrow> block) \<Rightarrow> inode \<Rightarrow> nat \<Rightarrow> uchar" where
  "fbyte v m i = v (addr_of v m (i div BSIZE)) (i mod BSIZE)"

definition mapped :: "uint \<Rightarrow> (uint \<Rightarrow> block) \<Rightarrow> inode \<Rightarrow> nat \<Rightarrow> bool" where
  "mapped N v m bn \<longleftrightarrow> bn < MAXFILE \<and> addr_of v m bn \<noteq> 0 \<and> addr_of v m bn < N \<and>
     (NDIRECT \<le> bn \<longrightarrow> i_addrs m NDIRECT \<noteq> 0 \<and> i_addrs m NDIRECT < N)"

lemma bmap_run:
  fixes s :: "'z fsst_scheme"
  assumes r: "rok p s" and d: "i_dev (inodes s ip) = 1" and m: "mapped (disksize s) (view s) (inodes s ip) (unat bn)"
  shows "runs (bmap ip bn) s (\<lambda>a t. a = addr_of (view s) (inodes s ip) (unat bn) \<and> rok p t \<and> unmoved s t)"
proof (cases "unat bn < NDIRECT")
  case True
  then have "bmap ip bn s = Ret (addr_of (view s) (inodes s ip) (unat bn)) s"
    using m by (simp add: bmap_def addr_or_alloc_def mapped_def addr_of_def bnd_gets op_simps)
  then show ?thesis using r by (simp add: runs_def unmoved_refl)
next
  case False
  let ?m = "inodes s ip"
  let ?A = "addr_of (view s) ?m (unat bn)"
  have i: "i_addrs ?m NDIRECT \<noteq> 0" "i_addrs ?m NDIRECT < disksize s" "unat bn - NDIRECT < NINDIRECT" "?A \<noteq> 0"
    using m False by (auto simp: mapped_def)
  have A: "ld32 (view s (i_addrs ?m NDIRECT)) (4 * (unat bn - NDIRECT)) = ?A" using False by (simp add: addr_of_def)
  have "bmap ip bn s = bnd (bread 1 (i_addrs ?m NDIRECT)) (\<lambda>bp.
           bnd (gets (\<lambda>s. ld32 (b_data (bufs s bp)) (4 * (unat bn - NDIRECT)))) (\<lambda>addr.
           bnd (if addr = 0 then
                  bnd (balloc (i_dev ?m)) (\<lambda>a.
                  sq (upd_buf bp (\<lambda>m. m\<lparr>b_data := st32 (b_data m) (4 * (unat bn - NDIRECT)) a\<rparr>))
                 (sq (log_write bp)
                     (ret a)))
                else ret addr) (\<lambda>a.
           sq (brelse bp)
              (ret a)))) s"
    using False i(1,3) d by (simp add: bmap_def Let_def addr_or_alloc_def bnd_gets bnd_Ret op_simps)
  also have "\<dots> = bnd (bread 1 (i_addrs ?m NDIRECT)) (\<lambda>bp. bnd (ret ?A) (\<lambda>a. sq (brelse bp) (ret a))) s"
    by (rule bread_value [where g = "\<lambda>d. ld32 d (4 * (unat bn - NDIRECT))", OF r i(2), THEN trans]) (simp add: A i(4))
  also have "\<dots> = sq (look (i_addrs ?m NDIRECT)) (ret ?A) s"
    unfolding look_drop [symmetric] by (rule bnd_same) (simp add: bnd_def ret_def)
  finally have e: "bmap ip bn s = \<dots>" .
  show ?thesis unfolding runs_def e unfolding runs_def [symmetric] runs_sq runs_ret
    by (rule runs_conseq [OF look_run [OF r i(2)]]) simp
qed

lemma chunk_bounds: "0 < n \<Longrightarrow> 0 < chunk off n" "chunk off n \<le> n" "unat off mod BSIZE + chunk off n \<le> BSIZE"
  by (auto simp: chunk_def min_def)

text \<open>A round of the transfer stays within a block.\<close>

lemma chunk_block:
  assumes "j < chunk off n"
  shows "(unat off + j) div BSIZE = unat off div BSIZE" "(unat off + j) mod BSIZE = unat off mod BSIZE + j"
proof -
  have l: "unat off mod BSIZE + j < BSIZE" using assms chunk_bounds(3) [where n = n and off = off] by simp
  have e: "unat off + j = (unat off mod BSIZE + j) + BSIZE * (unat off div BSIZE)" by simp
  show "(unat off + j) div BSIZE = unat off div BSIZE" unfolding e using l by (subst div_mult_self2) simp_all
  show "(unat off + j) mod BSIZE = unat off mod BSIZE + j" unfolding e using l by (subst mod_mult_self2) simp
qed

lemma unat_plus_small:
  fixes off :: uint
  assumes "unat off + n < 2 ^ 32"
  shows "unat (off + of_nat n) = unat off + n"
  using assms by (simp add: unat_word_ariths unat_of_nat take_bit_nat_eq_self)

lemma readi_loop_run:
  fixes s :: "'z fsst_scheme"
  assumes "n < fuel" and "rok p s" and "i_dev (inodes s ip) = 1" and "unat off + n < 2 ^ 32"
    and "\<And>i. unat off \<le> i \<Longrightarrow> i < unat off + n \<Longrightarrow> mapped (disksize s) (view s) (inodes s ip) (i div BSIZE)"
  shows "runs (readi_loop fuel ip off n) s (\<lambda>bs t. bs = map (fbyte (view s) (inodes s ip)) [unat off..<unat off + n] \<and> rok p t \<and> unmoved s t)"
  using assms
proof (induction fuel arbitrary: s off n)
  case (Suc fuel)
  let ?m = "inodes s ip"
  show ?case
  proof (cases "n = 0")
    case True
    then show ?thesis using Suc.prems by (simp add: runs_simps unmoved_refl)
  next
    case False
    define c where "c = chunk off n"
    define o0 where "o0 = unat off mod BSIZE"
    have c: "0 < c" "c \<le> n" using False chunk_bounds [where n = n and off = off] by (simp_all add: c_def)
    have ub: "unat (off div 512) = unat off div BSIZE" by (simp add: unat_div)
    have mp: "mapped (disksize s) (view s) ?m (unat (off div 512))" using Suc.prems(5) [of "unat off"] False ub by simp
    define sec where "sec = addr_of (view s) ?m (unat off div BSIZE)"
    obtain t where t: "bmap ip (off div 512) s = Ret sec t" "rok p t" "unmoved s t"
      using bmap_run [OF Suc.prems(2,3) mp] ub by (auto simp: runs_iff sec_def)
    have fr: "inodes t = inodes s" "view t = view s" "disksize t = disksize s"
      using t(3) unmoved_inodes unmoved_log by (auto simp: unmoved_def log_same_def)
    have sn: "sec < disksize t" using mp ub fr(3) by (simp add: mapped_def sec_def)
    obtain u where u: "look sec t = Ret (view s sec) u" "rok p u" "unmoved t u" using look_run [OF t(2) sn] fr(2) by (auto simp: runs_iff)
    have su: "unmoved s u" using unmoved_trans [OF t(3) u(3)] .
    have fu: "inodes u = inodes s" "view u = view s" "disksize u = disksize s"
      using su unmoved_inodes unmoved_log by (auto simp: unmoved_def log_same_def)
    have off: "unat (off + of_nat c) = unat off + c" by (rule unat_plus_small) (use Suc.prems(4) c in simp)
    have "runs (readi_loop fuel ip (off + of_nat c) (n - c)) u (\<lambda>bs t. bs = map (fbyte (view u) (inodes u ip)) [unat (off + of_nat c)..<unat (off + of_nat c) + (n - c)] \<and>
        rok p t \<and> unmoved u t)"
      by (rule Suc.IH) (use Suc.prems c u(2) fu off in auto)
    then obtain w where w: "readi_loop fuel ip (off + of_nat c) (n - c) u = Ret (map (fbyte (view s) ?m) [unat off + c..<unat off + n]) w" "rok p w" "unmoved u w"
      using c fu off by (auto simp: runs_iff)
    have bs: "map (view s sec) [o0..<o0 + c] = map (fbyte (view s) ?m) [unat off..<unat off + c]"
    proof (rule nth_equalityI)
      fix j assume "j < length (map (view s sec) [o0..<o0 + c])"
      then have "j < c" by simp
      then show "map (view s sec) [o0..<o0 + c] ! j = map (fbyte (view s) ?m) [unat off..<unat off + c] ! j"
        using chunk_block [where j = j and n = n and off = off] by (simp add: fbyte_def sec_def c_def o0_def)
    qed simp
    have "readi_loop (Suc fuel) ip off n s = bnd (bread 1 sec) (\<lambda>bp. bnd (gets (\<lambda>s. map (b_data (bufs s bp)) [o0..<o0 + c])) (\<lambda>bs.
        sq (brelse bp) (bnd (readi_loop fuel ip (off + of_nat c) (n - c)) (\<lambda>rest. ret (bs @ rest))))) t"
      using False t(1) Suc.prems(3) fr(1) by (simp add: bnd_Ret bnd_gets Let_def c_def o0_def)
    also have "\<dots> = bnd (look sec) (\<lambda>d. bnd (readi_loop fuel ip (off + of_nat c) (n - c)) (\<lambda>rest. ret (map d [o0..<o0 + c] @ rest))) t"
      by (rule look_then)
    also have "\<dots> = Ret (map (fbyte (view s) ?m) [unat off..<unat off + c] @ map (fbyte (view s) ?m) [unat off + c..<unat off + n]) w"
      using u(1) w(1) by (simp add: bnd_Ret bs op_simps)
    also have "map (fbyte (view s) ?m) [unat off..<unat off + c] @ map (fbyte (view s) ?m) [unat off + c..<unat off + n] =
        map (fbyte (view s) ?m) [unat off..<unat off + n]"
      using c upt_add_eq_append [of "unat off" "unat off + c" "n - c"] by (simp flip: map_append)
    finally show ?thesis using w(2) unmoved_trans [OF su w(3)] by (simp add: runs_def)
  qed
qed simp

section \<open>Writing a file\<close>

text \<open>
  \<open>file_ok s m\<close>: the blocks of the file are homes, all different, and different from the block that holds their numbers.
\<close>

definition file_ok :: "'z logst_scheme \<Rightarrow> inode \<Rightarrow> bool" where
  "file_ok s m \<longleftrightarrow> i_dev m = 1 \<and> unat (i_size m) \<le> MAXFILE * BSIZE \<and>
     (\<forall>bn. bn * BSIZE < unat (i_size m) \<longrightarrow> hm s (addr_of (hv s) m bn) \<and> addr_of (hv s) m bn \<noteq> 0) \<and>
     inj_on (addr_of (hv s) m) {bn. bn * BSIZE < unat (i_size m)} \<and>
     (NDIRECT * BSIZE < unat (i_size m) \<longrightarrow> hm s (i_addrs m NDIRECT) \<and> i_addrs m NDIRECT \<noteq> 0 \<and>
       (\<forall>bn. bn * BSIZE < unat (i_size m) \<longrightarrow> addr_of (hv s) m bn \<noteq> i_addrs m NDIRECT))"

lemma file_ok_view:
  assumes "file_ok s m" and "bn * BSIZE < unat (i_size m)"
  shows "addr_of (view s) m bn = addr_of (hv s) m bn" "mapped (disksize s) (view s) m bn"
proof -
  have b: "NDIRECT \<le> bn \<Longrightarrow> NDIRECT * BSIZE < unat (i_size m)" "bn < MAXFILE" using assms by (auto simp: file_ok_def)
  then show e: "addr_of (view s) m bn = addr_of (hv s) m bn"
    using assms(1) hm_view(1) [of s "i_addrs m NDIRECT"] by (cases "bn < NDIRECT") (auto simp: addr_of_def file_ok_def)
  show "mapped (disksize s) (view s) m bn"
    using b assms hm_view(2) [of s] unfolding mapped_def e by (auto simp: file_ok_def)
qed

lemma fbyte_view: "file_ok s m \<Longrightarrow> i < unat (i_size m) \<Longrightarrow> fbyte (view s) m i = fbyte (hv s) m i"
  using file_ok_view(1) [of s m "i div BSIZE"] hm_view(1) [of s "addr_of (hv s) m (i div BSIZE)"]
  by (auto simp: fbyte_def file_ok_def div_times_less_eq_dividend [THEN le_less_trans])

text \<open>Changing a block of the file changes the bytes of that block, and moves no other.\<close>

lemma file_update:
  fixes s t :: "'z logst_scheme"
  assumes f: "file_ok s m" and t: "tsame s t" "hv t = (hv s)(addr_of (hv s) m b := d)" and b: "b * BSIZE < unat (i_size m)"
  shows "bn * BSIZE < unat (i_size m) \<Longrightarrow> addr_of (hv t) m bn = addr_of (hv s) m bn" "file_ok t m"
    "i < unat (i_size m) \<Longrightarrow> fbyte (hv t) m i = (if i div BSIZE = b then d (i mod BSIZE) else fbyte (hv s) m i)"
proof -
  have a: "addr_of (hv t) m bn = addr_of (hv s) m bn" if "bn * BSIZE < unat (i_size m)" for bn
  proof (cases "bn < NDIRECT")
    case False
    then have "NDIRECT * BSIZE < unat (i_size m)" using that by simp
    then have "addr_of (hv s) m b \<noteq> i_addrs m NDIRECT" using f b by (auto simp: file_ok_def)
    then show ?thesis using t(2) by (simp add: addr_of_def)
  qed (simp add: addr_of_def)
  then show "bn * BSIZE < unat (i_size m) \<Longrightarrow> addr_of (hv t) m bn = addr_of (hv s) m bn" .
  have "inj_on (addr_of (hv t) m) {bn. bn * BSIZE < unat (i_size m)} = inj_on (addr_of (hv s) m) {bn. bn * BSIZE < unat (i_size m)}"
    by (rule inj_on_cong) (simp add: a)
  then show "file_ok t m" using f a tsame_hm [OF t(1)] unfolding file_ok_def by auto
  assume i: "i < unat (i_size m)"
  then have ib: "i div BSIZE * BSIZE < unat (i_size m)" using div_times_less_eq_dividend [of i BSIZE] by linarith
  have "addr_of (hv s) m (i div BSIZE) = addr_of (hv s) m b \<longleftrightarrow> i div BSIZE = b"
    using f ib b unfolding file_ok_def inj_on_def by blast
  then show "fbyte (hv t) m i = (if i div BSIZE = b then d (i mod BSIZE) else fbyte (hv s) m i)"
    using t(2) a [OF ib] by (auto simp: fbyte_def)
qed

text \<open>The number of blocks a transfer touches.\<close>

definition nblocks :: "nat \<Rightarrow> nat \<Rightarrow> nat" where
  "nblocks off n = (if n = 0 then 0 else (off + n - 1) div BSIZE - off div BSIZE + 1)"

lemma nblocks_step:
  assumes "0 < n"
  shows "0 < nblocks (unat off) n" "Suc (nblocks (unat off + chunk off n) (n - chunk off n)) \<le> nblocks (unat off) n"
proof -
  show "0 < nblocks (unat off) n" using assms by (simp add: nblocks_def)
  show "Suc (nblocks (unat off + chunk off n) (n - chunk off n)) \<le> nblocks (unat off) n"
  proof (cases "chunk off n = n")
    case True
    then show ?thesis using assms by (simp add: nblocks_def)
  next
    case False
    then have c: "chunk off n = BSIZE - unat off mod BSIZE" "chunk off n < n" by (auto simp: chunk_def min_def)
    then have "unat off + chunk off n = BSIZE * (unat off div BSIZE + 1)"
      using mod_less_divisor [of BSIZE "unat off"] mult_div_mod_eq [of BSIZE "unat off"] unfolding c(1) distrib_left by linarith
    then have q: "(unat off + chunk off n) div BSIZE = unat off div BSIZE + 1" by simp
    moreover have "(unat off + chunk off n) div BSIZE \<le> (unat off + n - 1) div BSIZE" using c(2) by (intro div_le_mono) simp
    moreover have "unat off + chunk off n + (n - chunk off n) - 1 = unat off + n - 1" using c(2) by simp
    moreover have "n - chunk off n \<noteq> 0" "n \<noteq> 0" using c(2) by simp_all
    moreover have "Suc (y - x + 1) \<le> y - q + 1" if "x = q + 1" "x \<le> y" for x y q :: nat using that by simp
    ultimately show ?thesis unfolding nblocks_def by (simp only: if_False)
  qed
qed

lemma writei_loop_run:
  fixes s :: "'z fsst_scheme"
  assumes "length src < fuel" and "tx p s" and "inodes s ip = m" and "file_ok s m" and "unat off + length src \<le> unat (i_size m)"
    and "nblocks (unat off) (length src) \<le> room s"
  shows "runs (writei_loop fuel ip off src) s (\<lambda>r t. r = off + of_nat (length src) \<and> tx p t \<and> tsame s t \<and> file_ok t m \<and>
    (\<forall>i < unat (i_size m). fbyte (hv t) m i = (if unat off \<le> i \<and> i < unat off + length src then src ! (i - unat off) else fbyte (hv s) m i)) \<and>
    (\<forall>y. y \<notin> addr_of (hv s) m ` {bn. bn * BSIZE < unat (i_size m)} \<longrightarrow> hv t y = hv s y))"
  using assms
proof (induction fuel arbitrary: s off src)
  case (Suc fuel)
  show ?case
  proof (cases "src = []")
    case True
    then show ?thesis using Suc.prems txn.same_refl by (auto simp: runs_simps)
  next
    case False
    define c where "c = chunk off (length src)"
    define o0 where "o0 = unat off mod BSIZE"
    define b where "b = unat off div BSIZE"
    define sec where "sec = addr_of (hv s) m b"
    define g where "g = (\<lambda>(d :: block) i. if o0 \<le> i \<and> i < o0 + c then src ! (i - o0) else d i)"
    have len: "0 < length src" using False by simp
    have c: "0 < c" "c \<le> length src" using chunk_bounds [where n = "length src" and off = off] len by (simp_all add: c_def)
    have ob: "b * BSIZE < unat (i_size m)" using Suc.prems(5) len div_times_less_eq_dividend [of "unat off" BSIZE] unfolding b_def by linarith
    have ub: "unat (off div 512) = b" by (simp add: unat_div b_def)
    note fv = file_ok_view [OF Suc.prems(4) ob]
    note r = tx_free(3) [OF Suc.prems(2)]
    have dev: "i_dev m = 1" using Suc.prems(4) by (simp add: file_ok_def)
    have mp: "mapped (disksize s) (view s) (inodes s ip) (unat (off div 512))" using fv(2) ub Suc.prems(3) by simp
    obtain t where t: "bmap ip (off div 512) s = Ret sec t" "rok p t" "unmoved s t"
      using bmap_run [OF r _ mp] dev fv(1) ub Suc.prems(3) by (auto simp: runs_iff sec_def)
    note tu = tx_unmoved [OF Suc.prems(2) t(2,3)]
    have hs: "hm t sec" using Suc.prems(4) ob tsame_hm [OF tu(2)] by (simp add: file_ok_def sec_def)
    have "0 < room t" using tu(4) Suc.prems(6) nblocks_step(1) [OF len, of off] by simp
    then obtain u where u: "upd sec g t = Ret () u" "tx p u" "tsame t u" "hv u = (hv s)(sec := g (hv s sec))" "room s \<le> Suc (room u)"
      using upd_law [OF tu(1) hs, of g] tu(3,4) unfolding runs_iff by auto
    have su: "tsame s u" using tu(2) u(3) tsame_trans by blast
    have mu: "inodes u ip = m" using tsame_inodes [OF su] Suc.prems(3) by simp
    note fu = file_update [OF Suc.prems(4) su u(4) [unfolded sec_def] ob, folded sec_def]
    have lt: "unat off + c < 2 ^ 32" using Suc.prems(5) c unsigned_less [of "i_size m", where 'a = nat] by simp
    have off: "unat (off + of_nat c) = unat off + c" by (rule unat_plus_small [OF lt])
    have "runs (writei_loop fuel ip (off + of_nat c) (drop c src)) u (\<lambda>r t. r = off + of_nat c + of_nat (length (drop c src)) \<and> tx p t \<and> tsame u t \<and> file_ok t m \<and>
      (\<forall>i < unat (i_size m). fbyte (hv t) m i = (if unat (off + of_nat c) \<le> i \<and> i < unat (off + of_nat c) + length (drop c src)
          then drop c src ! (i - unat (off + of_nat c)) else fbyte (hv u) m i)) \<and>
      (\<forall>y. y \<notin> addr_of (hv u) m ` {bn. bn * BSIZE < unat (i_size m)} \<longrightarrow> hv t y = hv u y))"
      using Suc.prems(1,5,6) c u(2,5) mu fu(2) off nblocks_step(2) [OF len, of off, folded c_def] by (intro Suc.IH) simp_all
    then obtain w where w: "writei_loop fuel ip (off + of_nat c) (drop c src) u = Ret (off + of_nat (length src)) w" "tx p w" "tsame u w" "file_ok w m"
      "\<forall>i < unat (i_size m). fbyte (hv w) m i = (if unat off + c \<le> i \<and> i < unat off + length src then src ! (i - unat off) else fbyte (hv u) m i)"
      "\<forall>y. y \<notin> addr_of (hv u) m ` {bn. bn * BSIZE < unat (i_size m)} \<longrightarrow> hv w y = hv u y"
      using c off unfolding runs_iff by (auto simp: of_nat_diff)
    have im: "addr_of (hv u) m ` {bn. bn * BSIZE < unat (i_size m)} = addr_of (hv s) m ` {bn. bn * BSIZE < unat (i_size m)}"
      by (rule image_cong) (simp_all add: fu(1))
    have "sec \<in> addr_of (hv s) m ` {bn. bn * BSIZE < unat (i_size m)}" using ob by (simp add: sec_def)
    then have oth: "hv w y = hv s y" if "y \<notin> addr_of (hv s) m ` {bn. bn * BSIZE < unat (i_size m)}" for y
      using that w(6) im u(4) by auto
    have ub: "fbyte (hv u) m i = (if unat off \<le> i \<and> i < unat off + c then src ! (i - unat off) else fbyte (hv s) m i)"
      if i: "i < unat (i_size m)" for i
    proof (cases "i div BSIZE = b")
      case True
      have "i = b * BSIZE + i mod BSIZE" "unat off = b * BSIZE + o0" using div_mult_mod_eq [of i BSIZE] True by (simp_all add: b_def o0_def)
      then have "unat off \<le> i \<and> i < unat off + c \<longleftrightarrow> o0 \<le> i mod BSIZE \<and> i mod BSIZE < o0 + c" "i - unat off = i mod BSIZE - o0" by linarith+
      then show ?thesis using fu(3) [OF i] True by (simp add: g_def fbyte_def sec_def)
    next
      case False
      have "\<not> (unat off \<le> i \<and> i < unat off + c)"
      proof
        assume a: "unat off \<le> i \<and> i < unat off + c"
        then have "i - unat off < chunk off (length src)" unfolding c_def by linarith
        from chunk_block(1) [OF this] show False using a False by (simp add: b_def)
      qed
      then show ?thesis using fu(3) [OF i] False by auto
    qed
    have bt: "fbyte (hv w) m i = (if unat off \<le> i \<and> i < unat off + length src then src ! (i - unat off) else fbyte (hv s) m i)"
      if i: "i < unat (i_size m)" for i
      using w(5) i ub [OF i] c by auto
    have "writei_loop (Suc fuel) ip off src s = bnd (bread 1 sec) (\<lambda>bp. sq (set_data bp g) (sq (log_write bp) (sq (brelse bp)
        (writei_loop fuel ip (off + of_nat c) (drop c src))))) t"
      using False t(1) dev Suc.prems(3) tsame_inodes [OF tu(2)]
      unfolding set_data_def g_def c_def o0_def by (simp add: bnd_Ret bnd_gets Let_def)
    also have "\<dots> = sq (upd sec g) (writei_loop fuel ip (off + of_nat c) (drop c src)) t" by (rule upd_then)
    also have "\<dots> = Ret (off + of_nat (length src)) w" using u(1) w(1) by (simp add: sq_Ret)
    finally show ?thesis using w(2,4) tsame_trans [OF su w(3)] bt oth by (simp add: runs_def)
  qed
qed simp

lemma readi_run:
  fixes s :: "'z fsst_scheme"
  assumes "rok p s" and "inodes s ip = m" and "i_type m \<noteq> T_DEV" and "i_dev m = 1"
    and "\<forall>bn. bn * BSIZE < unat (i_size m) \<longrightarrow> mapped (disksize s) (view s) m bn"
  shows "runs (readi dv ip off n) s (\<lambda>r t. r = (if off > i_size m \<or> off + n < off then None
      else Some (map (fbyte (view s) m) [unat off..<min (unat off + unat n) (unat (i_size m))])) \<and> rok p t \<and> unmoved s t)"
proof (cases "off > i_size m \<or> off + n < off")
  case True
  then show ?thesis using assms by (auto simp: readi_def bnd_gets runs_simps unmoved_refl)
next
  case False
  define n' where "n' = (if off + n > i_size m then i_size m - off else n)"
  have sum: "unat (off + n) = unat off + unat n" using False unat_plus_simple [of off n] by (simp add: not_less)
  have le: "unat off \<le> unat (i_size m)" using False by (simp add: word_less_nat_alt)
  have n: "unat off + unat n' = min (unat off + unat n) (unat (i_size m))"
    using sum le False by (auto simp: n'_def word_less_nat_alt unat_sub word_le_nat_alt min_def)
  have lt: "unat off + unat n' < 2 ^ 32" using n unsigned_less [of "i_size m", where 'a = nat] by simp
  have "mapped (disksize s) (view s) (inodes s ip) (i div BSIZE)" if "unat off \<le> i" "i < unat off + unat n'" for i
    using that n assms(2,5) div_times_less_eq_dividend [of i BSIZE] by auto
  from readi_loop_run [OF lessI assms(1) _ lt this]
  obtain t where t: "readi_loop (Suc (unat n')) ip off (unat n') s = Ret (map (fbyte (view s) m) [unat off..<unat off + unat n']) t" "rok p t" "unmoved s t"
    using assms(2,4) by (auto simp: runs_iff)
  have "readi dv ip off n s = Ret (Some (map (fbyte (view s) m) [unat off..<unat off + unat n'])) t"
    using False assms(3) unfolding readi_def bnd_gets assms(2) Let_def unfolding n'_def [symmetric]
    by (simp add: bnd_Ret t(1) op_simps del: readi_loop.simps)
  then show ?thesis using t False n by (simp add: runs_def)
qed

lemma writei_run:
  fixes s :: "'z fsst_scheme"
  assumes "tx p s" and "inodes s ip = m" and "i_type m \<noteq> T_DEV" and "file_ok s m" and "unat off + length src \<le> unat (i_size m)"
    and "nblocks (unat off) (length src) \<le> room s"
  shows "runs (writei dv ip src off) s (\<lambda>r t. r = int (length src) \<and> tx p t \<and> file_ok t m \<and> inodes t = inodes s \<and>
    (\<forall>i < unat (i_size m). fbyte (hv t) m i = (if unat off \<le> i \<and> i < unat off + length src then src ! (i - unat off) else fbyte (hv s) m i)) \<and>
    (\<forall>y. y \<notin> addr_of (hv s) m ` {bn. bn * BSIZE < unat (i_size m)} \<longrightarrow> hv t y = hv s y))"
proof -
  have lt: "unat (i_size m) < 2 ^ 32" using unsigned_less [of "i_size m", where 'a = nat] by simp
  have sum: "unat (off + of_nat (length src)) = unat off + length src" by (rule unat_plus_small) (use assms(5) lt in simp)
  have g: "\<not> (off > i_size m \<or> off + of_nat (length src) < off)" "\<not> unat (off + of_nat (length src)) > MAXFILE * BSIZE"
    "\<not> off + of_nat (length src) > i_size m"
    using assms(4,5) sum by (auto simp: word_less_nat_alt file_ok_def)
  obtain t where t: "writei_loop (Suc (length src)) ip off src s = Ret (off + of_nat (length src)) t" "tx p t" "tsame s t" "file_ok t m"
      "\<forall>i < unat (i_size m). fbyte (hv t) m i = (if unat off \<le> i \<and> i < unat off + length src then src ! (i - unat off) else fbyte (hv s) m i)"
      "\<forall>y. y \<notin> addr_of (hv s) m ` {bn. bn * BSIZE < unat (i_size m)} \<longrightarrow> hv t y = hv s y"
    using writei_loop_run [OF lessI assms(1,2,4-6)] unfolding runs_iff by auto
  have i: "inodes t = inodes s" by (rule tsame_inodes [OF t(3)])
  have "writei dv ip src off s = sq (bnd (gets (\<lambda>s. i_size (inodes s ip))) (\<lambda>sz. whenM (of_nat (length src) > (0 :: uint) \<and> off + of_nat (length src) > sz)
      (sq (upd_inode ip (\<lambda>m. m\<lparr>i_size := off + of_nat (length src)\<rparr>)) (iupdate ip)))) (ret (int (length src))) t"
    using g assms(3) unfolding writei_def bnd_gets assms(2) Let_def by (simp add: bnd_Ret t(1) del: writei_loop.simps)
  also have "\<dots> = Ret (int (length src)) t"
    unfolding sq_bnd_gets i assms(2) using g(3) by (simp add: whenM_def sq_Ret op_simps)
  finally have "writei dv ip src off s = Ret (int (length src)) t" .
  then show ?thesis using t i by (simp add: runs_def)
qed

text \<open>The writes of a group of updates: they go to the slots of the log.\<close>

lemma updates_log:
  fixes s :: "'z logst_scheme"
  assumes "tx p s" and "\<forall>(x, g) \<in> set us. hm s x" and "length us \<le> room s"
  shows "runs (foreach us (\<lambda>(x, g). upd x g)) s (\<lambda>_ t. \<exists>U. disk_writes t = disk_writes s @ U \<and> disk t = replay U (disk s) \<and> length U = length us \<and>
    fst ` set U \<subseteq> dblock (disk s) ` {..<dcap (disk s)})"
  using assms
proof (induction us arbitrary: s)
  case (Cons a us)
  obtain y g where a: "a = (y, g)" by fastforce
  have p: "hm s y" "0 < room s" using Cons.prems a by auto
  have T: "trans_inv p {} s" "log_busy s" "held s = Map.empty" using Cons.prems(1) by (simp_all add: tx_def)
  have f: "1 < free_bufs s" "nat (lh_n s) < dcap (disk s)" using p(2) tx_free(2) [OF Cons.prems(1)] by (simp_all add: room_def)
  have hy: "home (disksize s) (disk s) y" using p(1) by (simp add: hm_def)
  obtain t i v where t: "upd y g s = Ret () t" "i < dcap (disk s)" "disk_writes t = disk_writes s @ [(dblock (disk s) i, v)]"
      "disk t = (disk s)(dblock (disk s) i := v)"
    using logged_update_run [OF T hy f, of g] by (auto simp: upd_def runs_iff)
  have w: "tx p t" "tsame s t" "room s \<le> Suc (room t)" using upd_law [OF Cons.prems(1) p, of g] t(1) by (simp_all add: runs_def)
  then have "disk t 1 = disk s 1" by (simp add: tsame_def)
  note l = same_layout(3,4) [where d' = "disk t" and d = "disk s", OF this]
  have "\<forall>(x, g) \<in> set us. hm t x" "length us \<le> room t" using Cons.prems(2,3) w(3) tsame_hm [OF w(2)] by auto
  from Cons.IH [OF w(1) this] obtain t' U where U: "foreach us (\<lambda>(x, g). upd x g) t = Ret () t'" "disk_writes t' = disk_writes t @ U" "disk t' = replay U (disk t)"
      "length U = length us" "fst ` set U \<subseteq> dblock (disk s) ` {..<dcap (disk s)}"
    unfolding l runs_iff by auto
  then show ?case using t(1,2) unfolding runs_def
    by (simp add: a sq_Ret) (intro exI [of _ "(dblock (disk s) i, v) # U"], simp add: t(3,4))
qed (simp add: runs_simps)

section \<open>Properties\<close>

text \<open>
  (C5) A group of updates in a transaction is atomic.  The machine stops after any number \<open>k\<close> of the sector writes the group makes, those of
  \<^verbatim>\<open>log_write\<close> (\<open>U\<close>) and those of the commit (\<open>W\<close>), and again any number of times during recovery: the first recovery that completes
  leaves on the disk no update of the group when no write of the commit was made, and all of them, in their order, when one was.
\<close>

theorem updates_atomic:
  fixes s s1 s2 :: "'z logst_scheme" and r :: "'y logst_scheme"
  assumes "tx p s" and "\<forall>(x, g) \<in> set us. hm s x" and "length us \<le> room s"
    and "foreach us (\<lambda>(x, g). upd x g) s = Ret () s1" and "disk_writes s1 = disk_writes s @ U"
    and "commit_trans s1 = Ret () s2" and "disk_writes s2 = disk_writes s1 @ W"
    and "rtranclp (crash (disksize s)) (replay (take k (U @ W)) (disk s)) (disk r)" and "rebooted q r" and "disksize r = disksize s"
  shows "runs initlog r (\<lambda>_ r'. \<forall>x. hm s x \<longrightarrow>
    disk r' x = (if k \<le> length U then disk s x else fold (\<lambda>(x, g) v. v(x := g (v x))) us (hv s) x))"
proof -
  have u: "tx p s1" "tsame s s1" "hv s1 = fold (\<lambda>(x, g) v. v(x := g (v x))) us (hv s)"
    using txn.update_all [OF assms(1-3)] assms(4) by (simp_all add: runs_def)
  have U: "disk s1 = replay U (disk s)" "fst ` set U \<subseteq> dblock (disk s) ` {..<dcap (disk s)}"
    using updates_log [OF assms(1-3)] assms(4,5) by (auto simp: runs_def)
  have D: "disk_wf (disksize s) (disk s)" "dn (disk s) = 0" using trans_invD(5,6) [of p "{}" s] assms(1) by (simp_all add: tx_def)
  have T: "trans_inv p {} s1" "held s1 = Map.empty" "0 < free_bufs s1" "caller LogLock p s1" using u(1) tx_free(2) [OF u(1)] by (simp_all add: tx_def)
  have z: "disksize s1 = disksize s" using u(2) by (simp add: tsame_def log_same_def)
  show ?thesis
  proof (cases "k \<le> length U")
    case True
    have "fst ` set (take k U) \<subseteq> dblock (disk s) ` {..<dcap (disk s)}" using U(2) set_take_subset [of k U] by blast
    note S = slot_writes [OF D this]
    have c: "rtranclp (crash (disksize s)) (replay (take k U) (disk s)) (disk r)" using assms(8) True by simp
    show ?thesis
      by (rule runs_conseq [OF crashes_recover [OF S(1) c assms(9,10)]]) (use S(2,3) True in \<open>auto simp: hm_def home_def\<close>)
  next
    case False
    have "rtranclp (crash (disksize s)) (replay (take (k - length U) W) (disk s1)) (disk r)" using assms(8) False U(1) by simp
    note C = crash_safe [OF T assms(6,7), unfolded z, OF this assms(9,10)]
    show ?thesis
    proof (rule runs_conseq [OF C], intro allI impI)
      fix r' :: "'y logst_scheme" and x
      assume r: "\<forall>x. \<not> in_log (disk s1) x \<longrightarrow> disk r' x = (if k - length U = 0 then disk s1 x else view s1 x)" and "hm s x"
      then have "hm s1 x" using tsame_hm [OF u(2)] by simp
      then have "\<not> in_log (disk s1) x" "view s1 x = hv s1 x" using hm_view(1) [of s1 x] by (simp_all add: hm_def home_def)
      then show "disk r' x = (if k \<le> length U then disk s x else fold (\<lambda>(x, g) v. v(x := g (v x))) us (hv s) x)" using r False u(3) by simp
    qed
  qed
qed

text \<open>
  (C6) The block allocator.  When a block outside the log is free, \<^verbatim>\<open>balloc\<close> returns the lowest free block, which is not in the log, marks it and
  no other, zeroes it and changes no other block.  When no block is free it panics.  The bitmap \<^verbatim>\<open>mkfs\<close> writes calls the blocks of the log free:
  when these are the only ones left, \<^verbatim>\<open>balloc\<close> does not panic but hands out the header of the log.  \<^verbatim>\<open>bfree\<close> clears the mark of a block
  and changes nothing else; it panics on a block that is free.
\<close>

theorem allocator_correct:
  fixes s :: "'z logst_scheme"
  assumes "tx p s" and "fs_wf s" and "2 \<le> room s"
  shows "((\<exists>a < sb_size (super s). \<not> used s a \<and> \<not> in_log (disk s) a) \<longrightarrow>
      runs (balloc 1) s (\<lambda>a t. a < sb_size (super s) \<and> \<not> used s a \<and> \<not> in_log (disk s) a \<and> (\<forall>c < sb_size (super s). \<not> used s c \<longrightarrow> a \<le> c) \<and>
        (\<forall>c < sb_size (super s). used t c \<longleftrightarrow> c = a \<or> used s c) \<and> hv t a = (\<lambda>_. 0) \<and> (\<forall>y. y \<noteq> a \<and> y \<noteq> bblock s a \<longrightarrow> hv t y = hv s y) \<and>
        tx p t \<and> tsame s t \<and> fs_wf t \<and> super t = super s \<and> room s \<le> room t + 2)) \<and>
    ((\<forall>a < sb_size (super s). used s a) \<longrightarrow> balloc 1 s = Panic ''balloc: out of blocks'') \<and>
    (dstart (disk s) < sb_size (super s) \<and> (\<forall>a < sb_size (super s). \<not> used s a \<longleftrightarrow> in_log (disk s) a) \<longrightarrow>
      runs (balloc 1) s (\<lambda>a t. a = dstart (disk s))) \<and>
    (\<forall>b < sb_size (super s). if used s b
      then runs (bfree 1 b) s (\<lambda>_ t. (\<forall>c < sb_size (super s). used t c \<longleftrightarrow> c \<noteq> b \<and> used s c) \<and> (\<forall>y. y \<noteq> bblock s b \<longrightarrow> hv t y = hv s y) \<and> tx p t)
      else bfree 1 b s = Panic ''freeing free block'')"
proof (intro conjI impI allI, goal_cases)
  case 1
  show ?case by (rule runs_conseq [OF balloc_run(1) [OF assms 1]]) (simp add: allocated_def)
next
  case 2
  then show ?case by (intro balloc_run(3) [OF assms]) blast
next
  case 3
  then show ?case by (intro balloc_run(2) [OF assms]) blast+
next
  case (4 b)
  then show ?case using bfree_run [OF assms(1,2) _ 4] assms(3) by (auto elim!: runs_conseq split: if_splits)
qed

text \<open>
  (C8) \<^verbatim>\<open>readi\<close> on a file, a directory or a link whose blocks exist: it returns exactly the bytes from the offset up to the end of the request or of the file,
  whichever comes first, through direct and indirect blocks, fails on an offset past the end or a range that wraps around, and changes no block.
\<close>

theorem readi_correct:
  fixes s :: "'z fsst_scheme"
  assumes "rok p s" and "inodes s ip = m" and "i_type m \<noteq> T_DEV" and "i_dev m = 1"
    and "\<forall>bn. bn * BSIZE < unat (i_size m) \<longrightarrow> mapped (disksize s) (view s) m bn"
  shows "runs (readi dv ip off n) s (\<lambda>r t. r = (if off > i_size m \<or> off + n < off then None
      else Some (map (fbyte (view s) m) [unat off..<min (unat off + unat n) (unat (i_size m))])) \<and> rok p t \<and> unmoved s t)"
  using readi_run [OF assms] .

text \<open>
  (C7) \<^verbatim>\<open>writei\<close> over existing bytes of a file, in a transaction with room for the blocks it touches: it returns the number of bytes,
  the file then has these bytes at the offset and its old bytes elsewhere, and no block outside the file changes.
\<close>

theorem writei_correct:
  fixes s :: "'z fsst_scheme"
  assumes "tx p s" and "inodes s ip = m" and "i_type m \<noteq> T_DEV" and "file_ok s m" and "unat off + length src \<le> unat (i_size m)"
    and "nblocks (unat off) (length src) \<le> room s"
  shows "runs (writei dv ip src off) s (\<lambda>r t. r = int (length src) \<and> tx p t \<and> file_ok t m \<and> inodes t = inodes s \<and>
    (\<forall>i < unat (i_size m). fbyte (hv t) m i = (if unat off \<le> i \<and> i < unat off + length src then src ! (i - unat off) else fbyte (hv s) m i)) \<and>
    (\<forall>y. y \<notin> addr_of (hv s) m ` {bn. bn * BSIZE < unat (i_size m)} \<longrightarrow> hv t y = hv s y))"
  using writei_run [OF assms] .

text \<open>What is written to a file at an offset is what is read from it there.\<close>

theorem writei_readi:
  fixes s :: "'z fsst_scheme"
  assumes "tx p s" and "inodes s ip = m" and "i_type m \<noteq> T_DEV" and "file_ok s m" and "unat off + length src \<le> unat (i_size m)"
    and "nblocks (unat off) (length src) \<le> room s"
  shows "runs (sq (writei dv ip src off) (readi dv ip off (of_nat (length src)))) s (\<lambda>r t. r = Some src)"
proof -
  obtain t where t: "writei dv ip src off s = Ret (int (length src)) t" "tx p t" "file_ok t m" "inodes t = inodes s"
      "\<forall>i < unat (i_size m). fbyte (hv t) m i = (if unat off \<le> i \<and> i < unat off + length src then src ! (i - unat off) else fbyte (hv s) m i)"
    using writei_run [OF assms, of dv] unfolding runs_iff by auto
  have lt: "unat (i_size m) < 2 ^ 32" using unsigned_less [of "i_size m", where 'a = nat] by simp
  have n: "unat (of_nat (length src) :: uint) = length src" by (rule unat_small) (use assms(5) lt in simp)
  have sum: "unat (off + of_nat (length src)) = unat off + length src" by (rule unat_plus_small) (use assms(5) lt in simp)
  have g: "\<not> (off > i_size m \<or> off + of_nat (length src) < off)" using assms(5) sum by (auto simp: word_less_nat_alt)
  have "runs (readi dv ip off (of_nat (length src))) t (\<lambda>r u. r = Some (map (fbyte (view t) m) [unat off..<unat off + length src]))"
    by (rule runs_conseq [OF readi_run [OF tx_free(3) [OF t(2)] _ assms(3)]])
      (use t(3,4) assms(2,5) file_ok_view(2) [OF t(3)] g n in \<open>auto simp: file_ok_def min_def\<close>)
  moreover have "map (fbyte (view t) m) [unat off..<unat off + length src] = src"
    by (rule nth_equalityI) (use t(5) assms(5) fbyte_view [OF t(3)] in auto)
  ultimately show ?thesis using t(1) by (simp add: runs_def sq_Ret)
qed

section \<open>A concrete file system\<close>

text \<open>The block 3 is the bitmap, in which the block 5 and those of the log are free; the inode has a thousand bytes in the blocks 20 and 21.\<close>

definition sample_fdisk :: blocks where
  "sample_fdisk = sample_disk(3 := (\<lambda>_. 255)(0 := 223, 126 := 63, 127 := 0))"

definition sample_inode :: inode where
  "sample_inode = \<lparr>i_dev = 1, i_inum = 2, i_ref = 1, i_busy = True, i_valid = True, i_type = 2, i_major = 0, i_minor = 0, i_nlink = 1,
     i_size = 1000, i_addrs = (\<lambda>i. if i = 0 then 20 else if i = 1 then 21 else 0)\<rparr>"

definition sample_files :: fsst where
  "sample_files = sample_boot sample_fdisk True \<lparr>inodes = (\<lambda>_. sample_inode)\<rparr>"

lemma sample_flayout: "disk_wf 1024 sample_fdisk" "dstart sample_fdisk = 1014" "dsize sample_fdisk = 10" "dcap sample_fdisk = 9" "dn sample_fdisk = 0"
  "in_log sample_fdisk = in_log sample_disk"
proof -
  have e: "sample_fdisk 1 = sample_disk 1" "sample_fdisk (dstart sample_disk) = sample_disk (dstart sample_disk)"
    by (simp_all add: sample_fdisk_def sample_layout)
  note l = same_layout [where d' = sample_fdisk and d = sample_disk, OF e(1)] same_head [where d' = sample_fdisk and d = sample_disk, OF e]
  show "disk_wf 1024 sample_fdisk" "dstart sample_fdisk = 1014" "dsize sample_fdisk = 10" "dcap sample_fdisk = 9" "dn sample_fdisk = 0"
    "in_log sample_fdisk = in_log sample_disk" using l sample_wf sample_layout by simp_all
qed

lemma sample_tx: "tx 0 (sample_boot sample_fdisk True m)" "room (sample_boot sample_fdisk True m) = 9"
  using sample_trans_any [OF sample_flayout(1-3,5), of m] sample_rebooted(2) [of sample_fdisk True m]
  by (simp_all add: tx_def room_def sample_held sample_flayout)

lemma sample_hm: "hm (sample_boot sample_fdisk True m) x \<longleftrightarrow> x < 1014 \<and> x \<noteq> 1"
  by (auto simp: hm_def home_def sample_flayout sample_in_log word_less_nat_alt word_le_nat_alt)

lemma sample_hv: "x < 1014 \<Longrightarrow> hv (sample_boot sample_fdisk True m) x = sample_fdisk x"
  by (auto simp: hv_def sample_held sample_flayout sample_in_log word_less_nat_alt word_le_nat_alt)

lemma sample_inodes: "inodes sample_files ip = sample_inode"
  by (simp add: sample_files_def sample_boot_def sample_log_def sample_bc_def sample_table_def)

lemma sample_file_ok: "file_ok sample_files sample_inode"
proof -
  have b: "bn = 0 \<or> bn = 1" if "bn * BSIZE < 1000" for bn :: nat using that by linarith
  have "{bn :: nat. bn * BSIZE < 1000} \<subseteq> {0, 1}" using b by auto
  moreover have "inj_on (addr_of (hv sample_files) sample_inode) {0, 1}" by (simp add: addr_of_def sample_inode_def)
  ultimately have "inj_on (addr_of (hv sample_files) sample_inode) {bn. bn * BSIZE < 1000}" by (rule inj_on_subset [rotated])
  moreover have "hm sample_files (addr_of (hv sample_files) sample_inode bn) \<and> addr_of (hv sample_files) sample_inode bn \<noteq> 0" if "bn * BSIZE < 1000" for bn
    using b [OF that] by (auto simp: sample_files_def sample_hm addr_of_def sample_inode_def)
  ultimately show ?thesis by (simp add: file_ok_def) (simp add: sample_inode_def)
qed

theorem updates_atomic_witness:
  "\<exists>(s1 :: logst) s2 U W. foreach [(20, \<lambda>_ _. 7), (21, \<lambda>_ _. 8)] (\<lambda>(x, g). upd x g) (sample_boot sample_fdisk True ()) = Ret () s1 \<and>
     disk_writes s1 = disk_writes (sample_boot sample_fdisk True ()) @ U \<and> commit_trans s1 = Ret () s2 \<and> disk_writes s2 = disk_writes s1 @ W \<and>
     runs initlog (sample_boot (replay (take (Suc (length U)) (U @ W)) sample_fdisk) False ()) (\<lambda>_ r'. disk r' 20 0 = 7 \<and> disk r' 21 0 = 8) \<and>
     runs initlog (sample_boot (replay (take 1 (U @ W)) sample_fdisk) False ()) (\<lambda>_ r'. disk r' 20 0 = 0 \<and> disk r' 21 0 = 0) \<and> length U = 2"
proof -
  let ?s = "sample_boot sample_fdisk True ()"
  let ?us = "[(20 :: uint, (\<lambda>_ _. 7) :: block \<Rightarrow> block), (21, \<lambda>_ _. 8)]"
  have p: "\<forall>(x, g) \<in> set ?us. hm ?s x" "length ?us \<le> room ?s" by (simp_all add: sample_hm sample_tx)
  obtain s1 where s1: "foreach ?us (\<lambda>(x, g). upd x g) ?s = Ret () s1" "tx 0 s1" "tsame ?s s1"
    using txn.update_all [OF sample_tx(1) p] unfolding runs_iff by auto
  obtain U where U: "disk_writes s1 = disk_writes ?s @ U" "length U = 2" using updates_log [OF sample_tx(1) p] s1(1) by (auto simp: runs_def)
  have T: "trans_inv 0 {} s1" "held s1 = Map.empty" "0 < free_bufs s1" "caller LogLock 0 s1" using s1(2) tx_free(2) [OF s1(2)] by (simp_all add: tx_def)
  obtain s2 where s2: "commit_trans s1 = Ret () s2" "disk_writes s2 = disk_writes s1 @ commit_writes s1"
    using commit_run [OF T] unfolding runs_iff by auto
  have z: "hm ?s 20" "hm ?s 21" "sample_fdisk 20 0 = 0" "sample_fdisk 21 0 = 0" by (simp_all add: sample_hm) (simp_all add: sample_fdisk_def sample_disk_def)
  have "runs initlog (sample_boot (replay (take k (U @ commit_writes s1)) sample_fdisk) False ())
      (\<lambda>_ r'. \<forall>x. hm ?s x \<longrightarrow> disk r' x = (if k \<le> length U then disk ?s x else fold (\<lambda>(x, g) v. v(x := g (v x))) ?us (hv ?s) x))" for k
    by (rule updates_atomic [OF sample_tx(1) p s1(1) U(1) s2, where q = 0]) (auto simp: sample_rebooted)
  then have r: "runs initlog (sample_boot (replay (take k (U @ commit_writes s1)) sample_fdisk) False ())
      (\<lambda>_ r'. disk r' 20 0 = (if k \<le> length U then 0 else 7) \<and> disk r' 21 0 = (if k \<le> length U then 0 else 8))" for k
    by (rule runs_conseq) (use z in auto)
  have "runs initlog (sample_boot (replay (take (Suc (length U)) (U @ commit_writes s1)) sample_fdisk) False ()) (\<lambda>_ r'. disk r' 20 0 = 7 \<and> disk r' 21 0 = 8)"
    by (rule runs_conseq [OF r]) simp
  moreover have "runs initlog (sample_boot (replay (take 1 (U @ commit_writes s1)) sample_fdisk) False ())
      (\<lambda>_ r'. disk r' 20 0 = 0 \<and> disk r' 21 0 = 0)"
    by (rule runs_conseq [OF r]) (simp add: U(2))
  ultimately show ?thesis using s1(1) U s2 by (intro exI [of _ s1] exI [of _ s2] exI [of _ U] exI [of _ "commit_writes s1"]) simp
qed

theorem writei_correct_witness:
  "runs (writei (\<lambda>_. (None, None)) 0 [7, 8, 9] 511) sample_files (\<lambda>r t. r = 3 \<and>
     fbyte (hv t) sample_inode 511 = 7 \<and> fbyte (hv t) sample_inode 513 = 9 \<and> fbyte (hv t) sample_inode 514 = 0)"
proof -
  have s: "tx 0 sample_files" "room sample_files = 9" by (simp_all add: sample_files_def sample_tx)
  have z: "fbyte (hv sample_files) sample_inode 514 = 0"
    by (simp add: fbyte_def addr_of_def sample_inode_def sample_files_def sample_hv) (simp add: sample_fdisk_def sample_disk_def)
  have p: "i_type sample_inode \<noteq> T_DEV" "unat (511 :: uint) + length [7 :: uchar, 8, 9] \<le> unat (i_size sample_inode)"
    "nblocks (unat (511 :: uint)) (length [7 :: uchar, 8, 9]) \<le> room sample_files" by (simp_all add: sample_inode_def nblocks_def s)
  show ?thesis
    by (rule runs_conseq [OF writei_correct [OF s(1) sample_inodes p(1) sample_file_ok p(2,3)]]) (use z in \<open>auto simp: sample_inode_def nth_Cons'\<close>)
qed

theorem writei_readi_witness:
  "runs (sq (writei (\<lambda>_. (None, None)) 0 [7, 8, 9] 511) (readi (\<lambda>_. (None, None)) 0 511 3)) sample_files (\<lambda>r t. r = Some [7, 8, 9])"
proof -
  have s: "tx 0 sample_files" "room sample_files = 9" by (simp_all add: sample_files_def sample_tx)
  have p: "i_type sample_inode \<noteq> T_DEV" "unat (511 :: uint) + length [7 :: uchar, 8, 9] \<le> unat (i_size sample_inode)"
    "nblocks (unat (511 :: uint)) (length [7 :: uchar, 8, 9]) \<le> room sample_files" by (simp_all add: sample_inode_def nblocks_def s)
  show ?thesis using writei_readi [OF s(1) sample_inodes p(1) sample_file_ok p(2,3)] by simp
qed

theorem readi_correct_witness:
  "runs (readi (\<lambda>_. (None, None)) 0 998 5) sample_files (\<lambda>r t. r = Some [0, 0]) \<and>
   runs (readi (\<lambda>_. (None, None)) 0 1001 5) sample_files (\<lambda>r t. r = None)"
proof -
  have r: "rok 0 sample_files" by (simp add: sample_files_def tx_free(3) [OF sample_tx(1)])
  have p: "i_type sample_inode \<noteq> T_DEV" "i_dev sample_inode = 1"
    "\<forall>bn. bn * BSIZE < unat (i_size sample_inode) \<longrightarrow> mapped (disksize sample_files) (view sample_files) sample_inode bn"
    using file_ok_view(2) [OF sample_file_ok] by (auto simp: sample_inode_def)
  note R = readi_correct [OF r sample_inodes p, of "\<lambda>_. (None, None)"]
  have z: "fbyte (view sample_files) sample_inode i = 0" if "i = 998 \<or> i = 999" for i
    using that by (auto simp: fbyte_def addr_of_def sample_inode_def sample_files_def sample_held sample_fdisk_def sample_disk_def)
  have l: "[998..<1000] = [998, 999 :: nat]" by (simp add: upt_rec)
  show ?thesis
    by (intro conjI; rule runs_conseq [OF R]) (use z in \<open>auto simp: sample_inode_def l\<close>)
qed

lemma sample_bits: "k < 8 \<Longrightarrow> bit (255 :: uchar) k \<and> (bit (223 :: uchar) k \<longleftrightarrow> k \<noteq> 5) \<and> (bit (63 :: uchar) k \<longleftrightarrow> k < 6)"
proof -
  assume "k < 8"
  then consider "k = 0" | "k = 1" | "k = 2" | "k = 3" | "k = 4" | "k = 5" | "k = 6" | "k = 7" by linarith
  then show ?thesis by cases (simp_all add: bit_numeral_rec)
qed

lemma sample_bitmap:
  assumes "n < 1024"
  shows "bit (((\<lambda>_. 255)(0 := 223 :: uchar, 126 := 63, 127 := 0)) (n div 8)) (n mod 8) \<longleftrightarrow> n \<noteq> 5 \<and> n < 1014"
proof -
  note b = sample_bits [of "n mod 8"]
  consider "n div 8 = 0" | "n div 8 = 126" | "n div 8 = 127" | "n div 8 \<noteq> 0" "n div 8 < 126" using assms by linarith
  then show ?thesis
  proof cases
    case 2
    then have "n mod 8 < 6 \<longleftrightarrow> n < 1014" "n \<noteq> 5" by presburger+
    then show ?thesis using b 2 by simp
  next
    case 3
    then have "\<not> n < 1014" by linarith
    then show ?thesis using 3 by simp
  next
    case 4
    then have "n < 1014" "n \<noteq> 5" by linarith+
    then show ?thesis using b 4 by simp
  next
    case 1
    then have "n mod 8 = n" "n < 8" by presburger+
    then show ?thesis using b 1 by simp
  qed
qed

lemma sample_alloc:
  defines "s \<equiv> sample_boot sample_fdisk True ()"
  shows "sb_size (super s) = 1024" "a < 1024 \<Longrightarrow> used s a \<longleftrightarrow> a \<noteq> 5 \<and> \<not> in_log sample_disk a" "fs_wf s"
proof -
  have su: "super s = \<lparr>sb_size = 1024, sb_nblocks = 0, sb_ninodes = 0, sb_nlog = 10\<rparr>"
  proof -
    have "hv s 1 = st32 (st32 (\<lambda>_. 0) 0 1024) 12 10"
      unfolding s_def by (subst sample_hv) (simp_all add: word_less_nat_alt sample_fdisk_def sample_disk_def)
    then show ?thesis by (simp add: super_def superblock_of_def ld32_st32_nat) (simp add: ld32_def)
  qed
  then show "sb_size (super s) = 1024" by simp
  have bb: "bblock s a = 3" if "a < 1024" for a
  proof -
    have "unat a < 1024" using that by (simp add: word_less_nat_alt)
    then have "unat (a div 4096) = 0" by (simp add: unat_div)
    then show ?thesis by (simp add: bblock_def su BBLOCK_def unat_eq_0)
  qed
  have il: "in_log sample_disk a \<longleftrightarrow> \<not> unat a < 1014" if "a < 1024" for a using that by (auto simp: sample_in_log word_less_nat_alt word_le_nat_alt)
  have us: "used s a \<longleftrightarrow> a \<noteq> 5 \<and> \<not> in_log sample_disk a" if a: "a < 1024" for a
  proof -
    have n: "unat a < 1024" "a = 5 \<longleftrightarrow> unat a = 5" using a by (simp_all add: word_less_nat_alt word_unat_eq_iff)
    have "used s a \<longleftrightarrow> bit (((\<lambda>_. 255)(0 := 223 :: uchar, 126 := 63, 127 := 0)) (unat a div 8)) (unat a mod 8)"
      using n(1) bb [OF a] unfolding s_def by (simp add: used_def sample_hv bit_free_iff) (simp add: sample_fdisk_def)
    then show ?thesis unfolding sample_bitmap [OF n(1)] il [OF a] n(2) by blast
  qed
  then show "a < 1024 \<Longrightarrow> used s a \<longleftrightarrow> a \<noteq> 5 \<and> \<not> in_log sample_disk a" .
  have h: "hm s a \<longleftrightarrow> a < 1014 \<and> a \<noteq> 1" "disk s = sample_fdisk" for a by (simp_all add: s_def sample_hm)
  have l: "in_log sample_disk a" if "1014 \<le> a" "a < 1024" for a using that il by (simp add: word_less_nat_alt word_le_nat_alt)
  have n3: "\<not> in_log sample_disk 3" by (simp add: sample_in_log)
  show "fs_wf s" unfolding fs_wf_def su h sample_flayout using bb us l n3 by auto
qed

text \<open>The block 5 is allocated first; then the bitmap has only the log left, and its header is handed out.\<close>

theorem allocator_correct_witness:
  "runs (bnd (balloc 1) (\<lambda>a. bnd (balloc 1) (\<lambda>b. ret (a, b)))) (sample_boot sample_fdisk True ()) (\<lambda>r t. r = (5, 1014))"
proof -
  let ?s = "sample_boot sample_fdisk True ()"
  note A = sample_alloc
  have ex: "\<exists>a < sb_size (super ?s). \<not> used ?s a \<and> \<not> in_log (disk ?s) a" by (rule exI [of _ 5]) (simp add: A sample_in_log sample_flayout)
  obtain a t where t: "balloc 1 ?s = Ret a t" "a < sb_size (super ?s)" "\<not> used ?s a" "\<not> in_log (disk ?s) a"
      "\<forall>c < sb_size (super ?s). used t c \<longleftrightarrow> c = a \<or> used ?s c" "tx 0 t" "tsame ?s t" "fs_wf t" "super t = super ?s" "room ?s \<le> room t + 2"
    using allocator_correct [OF sample_tx(1) A(3)] ex unfolding sample_tx(2) runs_iff by auto
  have a: "a = 5" using t(2-4) A sample_flayout(6) by auto
  have l: "dstart (disk t) = 1014" "in_log (disk t) = in_log sample_disk"
    using same_layout(1,5) [where d' = "disk t" and d = "disk ?s"] t(7) sample_flayout(2,6) by (simp_all add: tsame_def)
  have "dstart (disk t) < sb_size (super t) \<and> (\<forall>a < sb_size (super t). \<not> used t a \<longleftrightarrow> in_log (disk t) a)"
    using t(5) A(2) unfolding l t(9) A(1) a by (auto simp: sample_in_log)
  then obtain b u where "balloc 1 t = Ret b u" "b = 1014"
    using allocator_correct [OF t(6,8)] t(10) l(1) unfolding sample_tx(2) runs_iff by auto
  then show ?thesis using t(1) a by (simp add: runs_def bnd_Ret op_simps)
qed

end
