(* ===== verification/Names.thy ===== *)
theory Names
  imports Fs
begin

text \<open>
  Path names and on-disk inodes of \<^verbatim>\<open>src/fs.c\<close>: what \<^verbatim>\<open>skipelem\<close> splits a path into, that \<^verbatim>\<open>namex\<close> comes to the end of every path,
  and that an inode survives its way to the disk and back.
\<close>

section \<open>The elements of a path\<close>

text \<open>A name as a directory can hold it.\<close>

definition name_ok :: "uchar list \<Rightarrow> bool" where
  "name_ok nm \<longleftrightarrow> nm \<noteq> [] \<and> length nm \<le> DIRSIZ \<and> slash \<notin> set nm"

lemma skipelem_None: "skipelem path = None \<longleftrightarrow> (\<forall>c \<in> set path. c = slash)"
  by (simp add: skipelem_def Let_def)

lemma skipelem_Some:
  assumes "skipelem path = Some (rest, nm)"
  shows "name_ok nm" "length rest < length path"
proof -
  define p where "p = dropWhile (\<lambda>c. c = slash) path"
  define e where "e = takeWhile (\<lambda>c. c \<noteq> slash) p"
  have p: "p \<noteq> []" using assms by (auto simp: skipelem_def p_def [symmetric])
  then have h: "hd p \<noteq> slash" unfolding p_def by (rule hd_dropWhile [of "\<lambda>c. c = slash"])
  then have e: "e \<noteq> []" using p by (cases p) (auto simp: e_def)
  have nm: "nm = take DIRSIZ e" and r: "rest = dropWhile (\<lambda>c. c = slash) (dropWhile (\<lambda>c. c \<noteq> slash) p)"
    using assms p by (auto simp: skipelem_def p_def e_def Let_def split: if_splits)
  have "slash \<notin> set e" by (auto simp: e_def dest: set_takeWhileD)
  then have "slash \<notin> set nm" unfolding nm by (auto dest: in_set_takeD)
  then show "name_ok nm" using e nm by (simp add: name_ok_def)
  have "length rest \<le> length (dropWhile (\<lambda>c. c \<noteq> slash) p)" unfolding r by (rule length_dropWhile_le)
  moreover have "length (dropWhile (\<lambda>c. c \<noteq> slash) p) < length p"
    using e takeWhile_dropWhile_id [of "\<lambda>c. c \<noteq> slash" p] by (metis e_def length_append length_greater_0_conv less_add_same_cancel2)
  moreover have "length p \<le> length path" unfolding p_def by (rule length_dropWhile_le)
  ultimately show "length rest < length path" by linarith
qed

text \<open>The elements \<^verbatim>\<open>namex\<close> goes through.\<close>

function elements :: "uchar list \<Rightarrow> uchar list list" where
  "elements path = (case skipelem path of None \<Rightarrow> [] | Some (rest, nm) \<Rightarrow> nm # elements rest)"
  by pat_completeness auto

termination elements
  by (relation "measure length") (auto dest: skipelem_Some(2))

declare elements.simps [simp del]

text \<open>The reference: cut the path at the slashes, and leave out what is empty.\<close>

fun cut :: "uchar list \<Rightarrow> uchar list list" where
  "cut [] = [[]]"
| "cut (c # cs) = (if c = slash then [] # cut cs else (case cut cs of [] \<Rightarrow> [[c]] | x # xs \<Rightarrow> (c # x) # xs))"

definition segments :: "uchar list \<Rightarrow> uchar list list" where
  "segments path = filter (\<lambda>x. x \<noteq> []) (cut path)"

lemma cut_nonempty: "cut cs \<noteq> []"
  by (cases cs) (auto split: list.splits)

lemma cut_prefix: "slash \<notin> set xs \<Longrightarrow> cut (xs @ slash # ys) = xs # cut ys" "slash \<notin> set xs \<Longrightarrow> cut xs = [xs]"
  by (induction xs) auto

lemma segments_slashes: "segments (dropWhile (\<lambda>c. c = slash) path) = segments path"
  by (induction path) (auto simp: segments_def)

lemma segments_element:
  assumes "p \<noteq> []" and "hd p \<noteq> slash"
  shows "segments p = takeWhile (\<lambda>c. c \<noteq> slash) p # segments (dropWhile (\<lambda>c. c \<noteq> slash) p)"
proof -
  define e where "e = takeWhile (\<lambda>c. c \<noteq> slash) p"
  define r where "r = dropWhile (\<lambda>c. c \<noteq> slash) p"
  have p: "p = e @ r" by (simp add: e_def r_def)
  have e: "slash \<notin> set e" "e \<noteq> []" using assms by (auto simp: e_def dest: set_takeWhileD) (cases p; simp)
  show ?thesis
  proof (cases r)
    case Nil
    then have "segments p = e # segments r" using cut_prefix(2) [OF e(1)] e(2) p by (simp add: segments_def)
    then show ?thesis by (simp add: e_def r_def)
  next
    case (Cons c cs)
    then have "c = slash" using hd_dropWhile [of "\<lambda>c. c \<noteq> slash" p] by (auto simp: r_def)
    then have "segments p = e # segments r" using cut_prefix(1) [OF e(1), of cs] e(2) p Cons by (simp add: segments_def)
    then show ?thesis by (simp add: e_def r_def)
  qed
qed

lemma elements_segments: "elements path = map (take DIRSIZ) (segments path)"
proof (induction path rule: elements.induct)
  case (1 path)
  define p where "p = dropWhile (\<lambda>c. c = slash) path"
  have sp: "segments path = segments p" by (simp add: p_def segments_slashes)
  show ?case
  proof (cases "p = []")
    case True
    then have "skipelem path = None" "segments path = []" using sp by (simp_all add: skipelem_def p_def [symmetric] segments_def)
    then show ?thesis by (simp add: elements.simps)
  next
    case False
    define e where "e = takeWhile (\<lambda>c. c \<noteq> slash) p"
    define r where "r = dropWhile (\<lambda>c. c \<noteq> slash) p"
    have s: "skipelem path = Some (dropWhile (\<lambda>c. c = slash) r, take DIRSIZ e)"
      using False by (auto simp: skipelem_def p_def e_def r_def Let_def)
    have "hd p \<noteq> slash" using False unfolding p_def by (rule hd_dropWhile [of "\<lambda>c. c = slash"])
    then have "segments path = e # segments r"
      using segments_element [OF False] by (simp add: sp e_def r_def)
    moreover have "elements (dropWhile (\<lambda>c. c = slash) r) = map (take DIRSIZ) (segments r)"
      using "1.IH" [OF s refl] segments_slashes [of r] by simp
    ultimately show ?thesis using s by (simp add: elements.simps [of path])
  qed
qed

section \<open>The end of a path\<close>

text \<open>Every round takes an element off the path, so more fuel than the path is long makes no difference.\<close>

lemma namex_loop_fuel:
  "length path < fuel \<Longrightarrow> namex_loop fuel dv par path ip nm = namex_loop (Suc (length path)) dv par path ip nm"
proof (induction "length path" arbitrary: path fuel ip nm rule: less_induct)
  case less
  obtain k where k: "fuel = Suc k" using less.prems by (cases fuel) auto
  show ?case
  proof (cases "skipelem path")
    case None
    then show ?thesis by (simp add: k)
  next
    case (Some a)
    obtain rest nm' where a: "a = (rest, nm')" by fastforce
    have l: "length rest < length path" using skipelem_Some(2) Some a by simp
    then have e: "namex_loop k dv par rest nx nm' = namex_loop (Suc (length rest)) dv par rest nx nm'" "namex_loop (length path) dv par rest nx nm' = namex_loop (Suc (length rest)) dv par rest nx nm'" for nx
      using less.hyps [of rest k] less.hyps [of rest "length path"] less.prems k by (simp_all del: namex_loop.simps)
    show ?thesis unfolding k namex_loop.simps Some a option.case prod.case e ..
  qed
qed

lemma namex_loop_name:
  "namex_loop fuel dv True path ip nm s = Ret (Some (ip', nm')) t \<Longrightarrow> name_ok nm'"
proof (induction fuel arbitrary: path ip nm s)
  case (Suc fuel)
  then show ?case
    by (auto split: option.splits if_splits prod.splits elim!: sq_RetE bnd_RetE simp: ret_def)
      (erule skipelem_Some(1))
qed simp

section \<open>Inodes on the disk\<close>

lemma put_addrs_upto:
  fixes o0 :: nat and a :: "nat \<Rightarrow> uint"
  defines "F \<equiv> \<lambda>n. fold (\<lambda>i d. st32 d (o0 + 76 + 4 * i) (a i)) [0..<n]"
  shows "i < n \<Longrightarrow> ld32 (F n d) (o0 + 76 + 4 * i) = a i" "x < o0 + 76 \<or> o0 + 76 + 4 * n \<le> x \<Longrightarrow> F n d x = d x"
proof -
  show "ld32 (F n d) (o0 + 76 + 4 * i) = a i" if "i < n"
    using that
  proof (induction n)
    case (Suc n)
    then show ?case by (cases "i = n") (auto simp: F_def ld32_st32_nat)
  qed simp
  show "F n d x = d x" if "x < o0 + 76 \<or> o0 + 76 + 4 * n \<le> x"
    using that by (induction n) (auto simp: F_def st32_other)
qed

lemmas put_addrs_at = put_addrs_upto(1) [of _ "NDIRECT + 1", folded put_addrs_def]
lemmas put_addrs_other = put_addrs_upto(2) [of _ _ "NDIRECT + 1", folded put_addrs_def]

lemma ld16_put_addrs: "b + 2 \<le> o0 + 76 \<or> o0 + 128 \<le> b \<Longrightarrow> ld16 (put_addrs o0 a d) b = ld16 d b"
  by (auto simp: ld16_def put_addrs_other)

lemma ld32_put_addrs: "b + 4 \<le> o0 + 76 \<or> o0 + 128 \<le> b \<Longrightarrow> ld32 (put_addrs o0 a d) b = ld32 d b"
  by (intro ld32_cong) (auto simp: put_addrs_other)

lemmas dinode_loads = ld16_put_addrs ld32_put_addrs ld16_st16_nat ld32_st32_nat

lemma get_put_dinode:
  "get_dinode o0 (put_dinode o0 m d) ip = ip\<lparr>i_type := i_type m, i_major := i_major m, i_minor := i_minor m, i_nlink := i_nlink m,
     i_size := i_size m, i_addrs := (\<lambda>i. if i < NDIRECT + 1 then i_addrs m i else i_addrs ip i)\<rparr>"
proof -
  have "(\<lambda>i. if i < NDIRECT + 1 then ld32 (put_dinode o0 m d) (o0 + 76 + 4 * i) else i_addrs ip i) =
      (\<lambda>i. if i < NDIRECT + 1 then i_addrs m i else i_addrs ip i)"
    by (intro ext) (simp add: put_dinode_def put_addrs_at)
  moreover have "ld16 (put_dinode o0 m d) o0 = i_type m" "ld16 (put_dinode o0 m d) (o0 + 2) = i_major m"
    "ld16 (put_dinode o0 m d) (o0 + 4) = i_minor m" "ld16 (put_dinode o0 m d) (o0 + 6) = i_nlink m" "ld32 (put_dinode o0 m d) (o0 + 8) = i_size m"
    by (simp_all add: put_dinode_def dinode_loads)
  ultimately show ?thesis unfolding get_dinode_def by simp
qed

lemma get_put_other:
  assumes "o1 + 128 \<le> o0 \<or> o0 + 128 \<le> o1"
  shows "get_dinode o1 (put_dinode o0 m d) ip = get_dinode o1 d ip"
proof -
  have "(\<lambda>i. if i < NDIRECT + 1 then ld32 (put_dinode o0 m d) (o1 + 76 + 4 * i) else i_addrs ip i) =
      (\<lambda>i. if i < NDIRECT + 1 then ld32 d (o1 + 76 + 4 * i) else i_addrs ip i)"
  proof (intro ext)
    fix i show "(if i < NDIRECT + 1 then ld32 (put_dinode o0 m d) (o1 + 76 + 4 * i) else i_addrs ip i) =
        (if i < NDIRECT + 1 then ld32 d (o1 + 76 + 4 * i) else i_addrs ip i)"
      using assms by (cases "i < NDIRECT + 1") (auto simp: put_dinode_def dinode_loads)
  qed
  moreover have "ld16 (put_dinode o0 m d) o1 = ld16 d o1" "ld16 (put_dinode o0 m d) (o1 + 2) = ld16 d (o1 + 2)"
    "ld16 (put_dinode o0 m d) (o1 + 4) = ld16 d (o1 + 4)" "ld16 (put_dinode o0 m d) (o1 + 6) = ld16 d (o1 + 6)"
    "ld32 (put_dinode o0 m d) (o1 + 8) = ld32 d (o1 + 8)"
    using assms by (auto simp: put_dinode_def dinode_loads)
  ultimately show ?thesis unfolding get_dinode_def by simp
qed

section \<open>Properties\<close>

text \<open>
  (C33) \<^verbatim>\<open>skipelem\<close>, repeated as in \<^verbatim>\<open>namex\<close>, gives the parts of the path between slashes, in order and without the empty ones, each cut to
  \<^verbatim>\<open>DIRSIZ\<close> bytes; every name it hands on is not empty, has at most \<^verbatim>\<open>DIRSIZ\<close> bytes and no slash.
\<close>

theorem path_elements: "elements path = map (take DIRSIZ) (segments path) \<and> list_all name_ok (elements path)"
proof
  show "elements path = map (take DIRSIZ) (segments path)" by (rule elements_segments)
  show "list_all name_ok (elements path)"
  proof (induction path rule: elements.induct)
    case (1 path)
    then show ?case using skipelem_Some(1) [of path] by (subst elements.simps) (auto split: option.split)
  qed
qed

text \<open>The loop of \<^verbatim>\<open>namex\<close> with the rounds that \<^verbatim>\<open>namex\<close> allows it.\<close>

definition look_up :: "'z fsst_scheme devsw \<Rightarrow> bool \<Rightarrow> uchar list \<Rightarrow> nat \<Rightarrow> uchar list \<Rightarrow> ('z fsst_scheme, (nat \<times> uchar list) option) op" where
  "look_up dv par path = namex_loop (Suc (length path)) dv par path"

lemma look_up_rec:
  "look_up dv par path ip nm =
     (case skipelem path of
        None \<Rightarrow> if par then sq (iput ip) (ret None) else ret (Some (ip, nm))
      | Some (path', nm') \<Rightarrow>
          sq (ilock (Some ip))
         (bnd (gets (\<lambda>s. i_type (inodes s ip))) (\<lambda>t.
          if t \<noteq> T_DIR then sq (iunlockput ip) (ret None)
          else if par \<and> path' = [] then sq (iunlock (Some ip)) (ret (Some (ip, nm')))
          else
            bnd (dirlookup dv ip nm') (\<lambda>r.
            case r of
              None \<Rightarrow> sq (iunlockput ip) (ret None)
            | Some (next, _) \<Rightarrow> sq (iunlockput ip) (look_up dv par path' next nm')))))"
proof (cases "skipelem path")
  case (Some a)
  obtain rest nm' where a: "a = (rest, nm')" by fastforce
  have "length rest < length path" using skipelem_Some(2) Some a by simp
  then have e: "namex_loop (length path) dv par rest nx nm' = look_up dv par rest nx nm'" for nx
    unfolding look_up_def by (rule namex_loop_fuel)
  show ?thesis unfolding look_up_def [of dv par path] namex_loop.simps Some a option.case prod.case e ..
qed (simp add: look_up_def)

text \<open>
  (C32) \<^verbatim>\<open>namex\<close> comes to the end of every path, whatever the directories contain.  With one round more than the path has bytes its loop
  satisfies the equation of the loop without a bound on the rounds, so the bound is never the reason that a lookup ends; and further rounds change nothing.
\<close>

theorem namex_terminates:
  "namex_loop (Suc (length path) + k) dv par path ip nm = look_up dv par path ip nm \<and>
   look_up dv par path ip nm =
     (case skipelem path of
        None \<Rightarrow> if par then sq (iput ip) (ret None) else ret (Some (ip, nm))
      | Some (path', nm') \<Rightarrow>
          sq (ilock (Some ip))
         (bnd (gets (\<lambda>s. i_type (inodes s ip))) (\<lambda>t.
          if t \<noteq> T_DIR then sq (iunlockput ip) (ret None)
          else if par \<and> path' = [] then sq (iunlock (Some ip)) (ret (Some (ip, nm')))
          else
            bnd (dirlookup dv ip nm') (\<lambda>r.
            case r of
              None \<Rightarrow> sq (iunlockput ip) (ret None)
            | Some (next, _) \<Rightarrow> sq (iunlockput ip) (look_up dv par path' next nm')))))"
  by (rule conjI [OF _ look_up_rec]) (unfold look_up_def, rule namex_loop_fuel, simp)

text \<open>
  (C34) An inode comes back from the disk as \<^verbatim>\<open>iupdate\<close> stored it: reading the inode \<open>j\<close> of a block in which the inode \<open>i\<close> was stored gives the stored
  fields for the same inode, and for its neighbours what was there before.
\<close>

theorem dinode_roundtrip:
  "get_dinode (dip_off j) (put_dinode (dip_off i) m d) ip =
     (if unat j mod 4 = unat i mod 4
      then ip\<lparr>i_type := i_type m, i_major := i_major m, i_minor := i_minor m, i_nlink := i_nlink m, i_size := i_size m,
        i_addrs := (\<lambda>n. if n < NDIRECT + 1 then i_addrs m n else i_addrs ip n)\<rparr>
      else get_dinode (dip_off j) d ip)"
proof (cases "unat j mod 4 = unat i mod 4")
  case True
  then have "dip_off j = dip_off i" by (simp add: dip_off_def)
  then show ?thesis using True get_put_dinode by simp
next
  case False
  then have "dip_off j + 128 \<le> dip_off i \<or> dip_off i + 128 \<le> dip_off j" unfolding dip_off_def by linarith
  then show ?thesis using False get_put_other by simp
qed

end
