(* ===== verification/Wakeup.thy ===== *)
theory Wakeup
  imports Blocking
begin

text \<open>
  \<^verbatim>\<open>sleep\<close> and \<^verbatim>\<open>wakeup\<close> (\<^verbatim>\<open>src/proc.c\<close>) on two CPUs, one operation at a time: whoever takes the lock of the sleeper's condition after the
  sleeper has tested it wakes the sleeper up, in every interleaving of the two calls.
\<close>

section \<open>The operations of the two calls\<close>

primrec steps :: "('s, unit) op list \<Rightarrow> ('s, unit) op" where
  "steps [] = ret ()"
| "steps (m # ms) = sq m (steps ms)"

text \<open>\<open>sleep\<close> with a lock that is not the table's, as the operations on shared data it consists of; \<^verbatim>\<open>sched\<close> gives up the CPU.\<close>

definition sleep_steps :: "nat \<Rightarrow> chan \<Rightarrow> lock \<Rightarrow> ('z ptab_scheme, unit) op list" where
  "sleep_steps p ch lk =
     [acquire PtableLock,
      release lk,
      upd_proc p (\<lambda>q. q\<lparr>pchan := ch\<rparr>),
      upd_proc p (\<lambda>q. q\<lparr>pstate := SLEEPING\<rparr>),
      bnd (gets (\<lambda>s. priority (procs s p))) (\<lambda>x. whenM (x > 0) (upd_proc p (\<lambda>q. q\<lparr>priority := priority q - 1\<rparr>))),
      sched]"

definition wakeup_steps :: "chan \<Rightarrow> ('z ptab_scheme, unit) op list" where
  "wakeup_steps ch = [acquire PtableLock, wakeup1 ch, release PtableLock]"

lemma sq_ret_unit: "sq m (ret ()) = m"
proof
  show "sq m (ret ()) s = m s" for s by (cases "m s") (simp_all add: sq_def bnd_def ret_def)
qed

lemma sq_nest: "sq (sq m k) l s = sq m (sq k l) s"
  by (cases "m s") (simp_all add: sq_def bnd_def)

lemma steps_sleep: "cur s = Some p \<Longrightarrow> lk \<noteq> PtableLock \<Longrightarrow> steps (sleep_steps p ch lk) s = sleep ch lk s"
  by (simp add: sleep_steps_def sleep_def basic_ops sq_nest sq_ret_unit)

lemma steps_wakeup: "steps (wakeup_steps ch) s = wakeup ch s"
  by (simp add: wakeup_steps_def wakeup_def sq_ret_unit)

section \<open>Two CPUs\<close>

text \<open>
  The CPUs share the kernel's data and the locks; each has its own interrupt state and current process, and a list of operations to do.
\<close>

record 'z smp =
  shared :: "'z ptab_scheme"
  own :: "nat \<Rightarrow> cpust \<times> nat option"
  todo :: "nat \<Rightarrow> ('z ptab_scheme, unit) op list"

definition seen :: "nat \<Rightarrow> 'z smp \<Rightarrow> 'z ptab_scheme" where
  "seen i c = (shared c)\<lparr>cpust := (fst (own c i))\<lparr>lks := lks (cpust (shared c))\<rparr>, cur := snd (own c i)\<rparr>"

definition did :: "nat \<Rightarrow> 'z ptab_scheme \<Rightarrow> ('z ptab_scheme, unit) op list \<Rightarrow> 'z smp \<Rightarrow> 'z smp" where
  "did i t ms c = c\<lparr>shared := t, own := (own c)(i := (cpust t, cur t)), todo := (todo c)(i := ms)\<rparr>"

text \<open>
  A CPU does its next operation.  An \<open>acquire\<close> that would spin is not a step: the CPU tries again later.  When the operation gives up the
  CPU, the scheduler of this CPU goes on and releases the table lock.
\<close>

inductive smp_step :: "'z smp \<Rightarrow> 'z smp \<Rightarrow> bool" where
  run: "todo c i = m # ms \<Longrightarrow> m (seen i c) = Ret () t \<Longrightarrow> smp_step c (did i t ms c)"
| switch: "todo c i = m # ms \<Longrightarrow> m (seen i c) = Sleep ch t \<Longrightarrow> scheduler_resume t = Ret () u \<Longrightarrow> smp_step c (did i u ms c)"

text \<open>
  CPU 0 is about to call \<open>sleep ch lk\<close>; CPU 1 takes \<open>lk\<close>, changes the data it protects (any function of the fields the process table knows
  nothing of), calls \<open>wakeup ch\<close> and releases \<open>lk\<close>.
\<close>

definition waker :: "chan \<Rightarrow> lock \<Rightarrow> ('z \<Rightarrow> 'z) \<Rightarrow> ('z ptab_scheme, unit) op list" where
  "waker ch lk f = acquire lk # modify (ptab.more_update f) # wakeup_steps ch @ [release lk]"

definition smp_start :: "'z ptab_scheme \<Rightarrow> cpust \<Rightarrow> nat option \<Rightarrow> nat \<Rightarrow> chan \<Rightarrow> lock \<Rightarrow> ('z \<Rightarrow> 'z) \<Rightarrow> 'z smp" where
  "smp_start s k q p ch lk f = \<lparr>shared = s, own = (\<lambda>i. if i = 0 then (cpust s, cur s) else (k, q)),
     todo = (\<lambda>_. [])(0 := sleep_steps p ch lk, 1 := waker ch lk f)\<rparr>"

section \<open>The invariant\<close>

definition taken :: "nat \<Rightarrow> spinlock" where
  "taken i = \<lparr>locked = 1, lk_cpu = Some i\<rparr>"

text \<open>
  \<open>a\<close> and \<open>b\<close> are the numbers of operations the sleeper and the waker still have to do, \<open>i\<close> and \<open>j\<close> their CPUs.
\<close>

definition smp_inv :: "nat \<Rightarrow> chan \<Rightarrow> lock \<Rightarrow> ('z \<Rightarrow> 'z) \<Rightarrow> nat \<Rightarrow> nat \<Rightarrow> int \<Rightarrow> nat \<Rightarrow> nat \<Rightarrow> 'z smp \<Rightarrow> bool" where
  "smp_inv p ch lk f i j n a b c \<longleftrightarrow>
     a \<le> 6 \<and> b \<le> 6 \<and> (5 \<le> a \<longrightarrow> b = 6) \<and> (b \<le> 3 \<longrightarrow> a = 0) \<and>
     todo c 0 = drop (6 - a) (sleep_steps p ch lk) \<and> todo c 1 = drop (6 - b) (waker ch lk f) \<and> (\<forall>x > 1. todo c x = []) \<and>
     cpu_id (fst (own c 0)) = i \<and> cpu_id (fst (own c 1)) = j \<and>
     lks (cpust (shared c)) lk = (if 5 \<le> a then taken i else if 1 \<le> b \<and> b \<le> 5 then taken j else initlock) \<and>
     lks (cpust (shared c)) PtableLock = (if 1 \<le> a \<and> a \<le> 5 then taken i else if b = 3 \<or> b = 2 then taken j else initlock) \<and>
     ncli (fst (own c 0)) = (if a = 0 then 0 else if a = 5 then 2 else 1) \<and> (0 < a \<longrightarrow> \<not> eflags_IF (fst (own c 0))) \<and>
     ncli (fst (own c 1)) = n + (if b = 6 \<or> b = 0 then 0 else if b = 3 \<or> b = 2 then 2 else 1) \<and>
     (0 < ncli (fst (own c 1)) \<longrightarrow> \<not> eflags_IF (fst (own c 1))) \<and>
     (0 < a \<longrightarrow> snd (own c 0) = Some p) \<and> sched_ok (shared c) \<and>
     (3 \<le> a \<longrightarrow> pstate (procs (shared c) p) = RUNNING) \<and> (a \<le> 3 \<longrightarrow> pchan (procs (shared c) p) = ch) \<and>
     (a \<le> 2 \<longrightarrow> pstate (procs (shared c) p) = (if b \<le> 2 then RUNNABLE else SLEEPING))"

lemma seen_sel [simp]:
  "procs (seen i c) = procs (shared c)" "mlf (seen i c) = mlf (shared c)" "cur (seen i c) = snd (own c i)"
  "cpust (seen i c) = (fst (own c i))\<lparr>lks := lks (cpust (shared c))\<rparr>" "sched_ok (seen i c) = sched_ok (shared c)"
  by (simp_all add: seen_def sched_ok_def)

lemma did_sel [simp]:
  "shared (did i t ms c) = t" "own (did i t ms c) = (own c)(i := (cpust t, cur t))" "todo (did i t ms c) = (todo c)(i := ms)"
  by (simp_all add: did_def)

lemma acquire_taken: "lks (cpust s) l = taken x \<Longrightarrow> x \<noteq> cpu_id (cpust s) \<Longrightarrow> acquire l s = Spin"
  by (simp add: acquire_def on_cpust_def acquire_k_def taken_def holding_def xchg_locked_def Let_def)

lemma acquire_init: "lks (cpust s) l = initlock \<Longrightarrow> acquire l s = Ret () (s\<lparr>cpust := acq l (cpust s)\<rparr>)"
  by (rule acquire_free) (simp add: lock_free_def)

definition rel :: "lock \<Rightarrow> cpust \<Rightarrow> cpust" where
  "rel l k = k\<lparr>lks := (lks k)(l := initlock), ncli := ncli k - 1, eflags_IF := ncli k = 1 \<and> intena k\<rparr>"

lemma release_taken:
  "lks (cpust s) l = taken (cpu_id (cpust s)) \<Longrightarrow> 0 < ncli (cpust s) \<Longrightarrow> \<not> eflags_IF (cpust s) \<Longrightarrow>
     release l s = Ret () (s\<lparr>cpust := rel l (cpust s)\<rparr>)"
  by (cases "cpust s")
    (auto simp: release_def on_cpust_def release_k_def popcli_def taken_def holding_def xchg_locked_def Let_def rel_def initlock_def)

lemma rel_sel [simp]:
  "lks (rel l k) = (lks k)(l := initlock)" "ncli (rel l k) = ncli k - 1" "cpu_id (rel l k) = cpu_id k"
  "eflags_IF (rel l k) \<longleftrightarrow> ncli k = 1 \<and> intena k"
  by (simp_all add: rel_def)


lemma sched_ok_proc:
  assumes "sched_ok s" and "pstate (procs s p) \<noteq> RUNNABLE" and "pstate x \<noteq> RUNNABLE" and "pnext x = pnext (procs s p)"
    and "p < NPROC" and "priority x = priority (procs s p) \<or> 0 \<le> priority x \<and> priority x < priority (procs s p)"
  shows "sched_ok (s\<lparr>procs := (procs s)(p := x)\<rparr>)"
proof -
  obtain qs where m: "mlfq_inv qs s" using assms(1) by (auto simp: sched_ok_def)
  have "mlfq_inv qs (s\<lparr>procs := (procs s)(p := x)\<rparr>)"
    using assms(2-6) mlfq_inv_prio [OF m assms(5)] by (intro mlfq_inv_other [OF m]) auto
  then show ?thesis by (auto simp: sched_ok_def)
qed

lemma sleeper_next:
  assumes I: "smp_inv p ch lk f i j n a b c" and "0 < a" and "i \<noteq> j" and "lk \<noteq> PtableLock" and "p < NPROC"
  shows "\<exists>m ms t. todo c 0 = m # ms \<and> (m (seen 0 c) = Ret () t \<or> (\<exists>ch' u. m (seen 0 c) = Sleep ch' u \<and> scheduler_resume u = Ret () t)) \<and>
    smp_inv p ch lk f i j n (a - 1) b (did 0 t ms c)"
proof -
  have "a \<le> 6" using I by (simp add: smp_inv_def)
  then consider "a = 6" | "a = 5" | "a = 4" | "a = 3" | "a = 2" | "a = 1" using assms(2) by linarith
  then show ?thesis
  proof cases
    case 1
    have "acquire PtableLock (seen 0 c) = Ret () (seen 0 c\<lparr>cpust := acq PtableLock (cpust (seen 0 c))\<rparr>)"
      using I 1 by (intro acquire_init) (simp add: smp_inv_def)
    then show ?thesis using I 1 assms(3-5) by (simp add: smp_inv_def sleep_steps_def taken_def)
  next
    case 2
    have "release lk (seen 0 c) = Ret () (seen 0 c\<lparr>cpust := rel lk (cpust (seen 0 c))\<rparr>)"
      using I 2 by (intro release_taken) (simp_all add: smp_inv_def)
    then show ?thesis using I 2 assms(3-5) by (simp add: smp_inv_def sleep_steps_def)
  next
    case 3
    let ?x = "(procs (shared c) p)\<lparr>pchan := ch\<rparr>"
    have "sched_ok (seen 0 c\<lparr>procs := (procs (seen 0 c))(p := ?x)\<rparr>)"
      using I 3 assms(5) by (intro sched_ok_proc) (simp_all add: smp_inv_def)
    then show ?thesis using I 3 assms(3-5) by (simp add: smp_inv_def sleep_steps_def upd_proc_run)
  next
    case 4
    let ?x = "(procs (shared c) p)\<lparr>pstate := SLEEPING\<rparr>"
    have "sched_ok (seen 0 c\<lparr>procs := (procs (seen 0 c))(p := ?x)\<rparr>)"
      using I 4 assms(5) by (intro sched_ok_proc) (simp_all add: smp_inv_def)
    then show ?thesis using I 4 assms(3-5) by (simp add: smp_inv_def sleep_steps_def upd_proc_run)
  next
    case 5
    let ?x = "(procs (shared c) p)\<lparr>priority := priority (procs (shared c) p) - 1\<rparr>"
    have "0 < priority (procs (shared c) p) \<Longrightarrow> sched_ok (seen 0 c\<lparr>procs := (procs (seen 0 c))(p := ?x)\<rparr>)"
      using I 5 assms(5) by (intro sched_ok_proc) (simp_all add: smp_inv_def)
    then show ?thesis using I 5 assms(3-5)
      by (cases "0 < priority (procs (shared c) p)") (simp_all add: smp_inv_def sleep_steps_def basic_ops)
  next
    case 6
    have k: "lks (cpust (seen 0 c)) PtableLock = taken (cpu_id (cpust (seen 0 c)))" "ncli (cpust (seen 0 c)) = 1" "\<not> eflags_IF (cpust (seen 0 c))"
      "cur (seen 0 c) = Some p" "pstate (procs (seen 0 c) p) \<noteq> RUNNING"
      using I 6 by (simp_all add: smp_inv_def)
    have "sched (seen 0 c) = Sleep (pchan (procs (seen 0 c) p)) (seen 0 c)"
      using k by (simp add: sched_def holding_def taken_def bnd_Ret curproc_def)
    moreover have "scheduler_resume (seen 0 c) = Ret () (seen 0 c\<lparr>cur := None, cpust := rel PtableLock (cpust (seen 0 c))\<rparr>)"
      using k release_taken [of "seen 0 c\<lparr>cur := None\<rparr>" PtableLock] by (simp add: scheduler_resume_def basic_ops)
    moreover have "sched_ok (seen 0 c\<lparr>cur := None, cpust := rel PtableLock (cpust (seen 0 c))\<rparr>)"
      using I sched_ok_cong [of "seen 0 c\<lparr>cur := None, cpust := rel PtableLock (cpust (seen 0 c))\<rparr>" "shared c"] by (simp add: smp_inv_def)
    ultimately show ?thesis using I 6 assms(3-5) by (simp add: smp_inv_def sleep_steps_def)
  qed
qed


lemma waker_next:
  assumes I: "smp_inv p ch lk f i j n a b c" and "0 < b" and "0 \<le> n" and "i \<noteq> j" and "lk \<noteq> PtableLock" and "p < NPROC"
  shows "\<exists>m ms. todo c 1 = m # ms \<and> (m (seen 1 c) = Spin \<and> 0 < a \<or>
    (\<exists>t. m (seen 1 c) = Ret () t \<and> smp_inv p ch lk f i j n a (b - 1) (did 1 t ms c)))"
proof -
  have "b \<le> 6" using I by (simp add: smp_inv_def)
  then consider "b = 6" "5 \<le> a" | "b = 6" "a < 5" | "b = 5" | "b = 4" "0 < a" | "b = 4" "a = 0" | "b = 3" | "b = 2" | "b = 1"
    using assms(2) by linarith
  then show ?thesis
  proof cases
    case 1
    then have "acquire lk (seen 1 c) = Spin" using I assms(4) by (intro acquire_taken [of _ _ i]) (simp_all add: smp_inv_def)
    then show ?thesis using I 1 by (simp add: smp_inv_def waker_def)
  next
    case 2
    have "acquire lk (seen 1 c) = Ret () (seen 1 c\<lparr>cpust := acq lk (cpust (seen 1 c))\<rparr>)"
      using I 2 by (intro acquire_init) (simp add: smp_inv_def)
    then show ?thesis using I 2 assms(4-6) by (simp add: smp_inv_def waker_def taken_def)
  next
    case 3
    have "modify (ptab.more_update f) (seen 1 c) = Ret () (ptab.more_update f (seen 1 c))" by (simp add: modify_apply)
    moreover have "sched_ok (ptab.more_update f (seen 1 c))" using I sched_ok_cong [of "ptab.more_update f (seen 1 c)" "shared c"] by (simp add: smp_inv_def)
    ultimately show ?thesis using I 3 assms(3-6) by (simp add: smp_inv_def waker_def)
  next
    case 4
    then have "acquire PtableLock (seen 1 c) = Spin" using I assms(4) by (intro acquire_taken [of _ _ i]) (simp_all add: smp_inv_def)
    then show ?thesis using I 4 by (simp add: smp_inv_def waker_def wakeup_steps_def)
  next
    case 5
    have "acquire PtableLock (seen 1 c) = Ret () (seen 1 c\<lparr>cpust := acq PtableLock (cpust (seen 1 c))\<rparr>)"
      using I 5 by (intro acquire_init) (simp add: smp_inv_def)
    then show ?thesis using I 5 assms(4-6) by (simp add: smp_inv_def waker_def wakeup_steps_def taken_def)
  next
    case 6
    obtain qs where "mlfq_inv qs (seen 1 c)" using I seen_sel(5) [of 1 c] by (auto simp: smp_inv_def sched_ok_def simp del: seen_sel)
    from wakeup1_run [OF this, of ch] have "runs (wakeup1 ch) (seen 1 c) (\<lambda>_ t. woke ch (seen 1 c) t)"
      by (rule runs_conseq) (rule wake_inv_woke)
    then obtain t where t: "wakeup1 ch (seen 1 c) = Ret () t" "woke ch (seen 1 c) t" by (auto simp: runs_iff)
    obtain pr ml where e: "t = seen 1 c\<lparr>procs := pr, mlf := ml\<rparr>" using t(2) by (auto simp: woke_def)
    have "sched_ok t" "pchan (procs t p) = pchan (procs (shared c) p)"
      "pstate (procs t p) = (if woken ch (seen 1 c) p then RUNNABLE else pstate (procs (shared c) p))"
      using t(2) assms(6) stillD(1) [of "procs t p" "procs (seen 1 c) p"] by (simp_all add: woke_def)
    moreover have "cpust t = cpust (seen 1 c)" "cur t = cur (seen 1 c)" by (simp_all add: e)
    ultimately show ?thesis using I 6 t(1) assms(3-6) by (simp add: smp_inv_def waker_def wakeup_steps_def woken_def)
  next
    case 7
    have "release PtableLock (seen 1 c) = Ret () (seen 1 c\<lparr>cpust := rel PtableLock (cpust (seen 1 c))\<rparr>)"
      using I 7 assms(3) by (intro release_taken) (simp_all add: smp_inv_def)
    then show ?thesis using I 7 assms(3-6) by (simp add: smp_inv_def waker_def wakeup_steps_def)
  next
    case 8
    have "release lk (seen 1 c) = Ret () (seen 1 c\<lparr>cpust := rel lk (cpust (seen 1 c))\<rparr>)"
      using I 8 assms(3) by (intro release_taken) (simp_all add: smp_inv_def)
    then show ?thesis using I 8 assms(3-6) by (simp add: smp_inv_def waker_def wakeup_steps_def)
  qed
qed


lemma smp_inv_start:
  assumes "sched_ok s" and "cur s = Some p" and "pstate (procs s p) = RUNNING" and "holds_only lk k0 (cpust s)" and "lk \<noteq> PtableLock"
    and "cli_wf k"
  shows "smp_inv p ch lk f (cpu_id (cpust s)) (cpu_id k) (ncli k) 6 6 (smp_start s k q p ch lk f)"
  using assms by (auto simp: smp_inv_def smp_start_def holds_only_def taken_def lock_free_def cli_wf_def)

lemma smp_step_inv:
  assumes I: "smp_inv p ch lk f i j n a b c" and "0 \<le> n" and "i \<noteq> j" and "lk \<noteq> PtableLock" and "p < NPROC" and "smp_step c d"
  shows "\<exists>a' b'. smp_inv p ch lk f i j n a' b' d \<and> a + b = Suc (a' + b')"
proof -
  obtain x m ms t where x: "todo c x = m # ms" "d = did x t ms c"
      "m (seen x c) = Ret () t \<or> (\<exists>ch' u. m (seen x c) = Sleep ch' u \<and> scheduler_resume u = Ret () t)"
    using assms(6) by (cases rule: smp_step.cases) auto
  have "x = 0 \<or> x = 1" using I x(1) by (cases "x > 1") (auto simp: smp_inv_def)
  then show ?thesis
  proof
    assume 0: "x = 0"
    then have "0 < a" using I x(1) by (cases a) (auto simp: smp_inv_def sleep_steps_def)
    from sleeper_next [OF I this assms(3-5)] have "smp_inv p ch lk f i j n (a - 1) b d" using x unfolding 0 by fastforce
    then show ?thesis using \<open>0 < a\<close> by (intro exI [of _ "a - 1"] exI [of _ b]) simp
  next
    assume 1: "x = 1"
    then have "0 < b" using I x(1) by (cases b) (auto simp: smp_inv_def waker_def wakeup_steps_def)
    from waker_next [OF I this assms(2-5)] have "smp_inv p ch lk f i j n a (b - 1) d" using x unfolding 1 by fastforce
    then show ?thesis using \<open>0 < b\<close> by (intro exI [of _ a] exI [of _ "b - 1"]) simp
  qed
qed

lemma smp_reach_inv:
  assumes "smp_step\<^sup>*\<^sup>* c d" and "smp_inv p ch lk f i j n a b c" and "0 \<le> n" and "i \<noteq> j" and "lk \<noteq> PtableLock" and "p < NPROC"
  shows "\<exists>a' b'. smp_inv p ch lk f i j n a' b' d"
  using assms(1,2)
proof (induction rule: rtranclp_induct)
  case (step d e)
  then show ?case using smp_step_inv [OF _ assms(3-6)] by blast
qed blast

lemma smp_progress:
  assumes I: "smp_inv p ch lk f i j n a b c" and "0 \<le> n" and "i \<noteq> j" and "lk \<noteq> PtableLock" and "p < NPROC" and "0 < a \<or> 0 < b"
  shows "\<exists>d. smp_step c d"
proof (cases "0 < a")
  case True
  from sleeper_next [OF I this assms(3-5)] show ?thesis by (blast intro: smp_step.intros)
next
  case False
  then have "0 < b" using assms(6) by simp
  from waker_next [OF I this assms(2-5)] False show ?thesis by (blast intro: smp_step.intros)
qed

lemma smp_inv_done:
  assumes "smp_inv p ch lk f i j n a b c"
  shows "todo c 0 = [] \<longleftrightarrow> a = 0" "todo c 1 = [] \<longleftrightarrow> b = 0"
  using assms by (auto simp: smp_inv_def sleep_steps_def waker_def wakeup_steps_def)

lemma smp_finishes:
  assumes "smp_inv p ch lk f i j n a b c" and "0 \<le> n" and "i \<noteq> j" and "lk \<noteq> PtableLock" and "p < NPROC"
  shows "\<exists>d. smp_step\<^sup>*\<^sup>* c d \<and> todo d 0 = [] \<and> todo d 1 = []"
  using assms(1)
proof (induction "a + b" arbitrary: a b c)
  case 0
  then show ?case using smp_inv_done [OF 0(2)] by auto
next
  case (Suc m)
  then have "0 < a \<or> 0 < b" by auto
  from smp_progress [OF Suc.prems assms(2-5) this] obtain d where d: "smp_step c d" ..
  obtain a' b' where "smp_inv p ch lk f i j n a' b' d" "a + b = Suc (a' + b')" using smp_step_inv [OF Suc.prems assms(2-5) d] by blast
  then show ?case using Suc.hyps d by (metis Suc_inject converse_rtranclp_into_rtranclp)
qed

section \<open>Properties\<close>

text \<open>
  (C10) No wakeup is lost.  Process \<open>p\<close> on one CPU has tested its condition with \<open>lk\<close> held and calls \<^verbatim>\<open>sleep(chan, lk)\<close>; another CPU takes
  \<open>lk\<close>, changes the data, calls \<^verbatim>\<open>wakeup(chan)\<close> and releases \<open>lk\<close>.  However the operations of the two calls are interleaved, some CPU can go on until
  both are through, and then \<open>p\<close> is \<^verbatim>\<open>RUNNABLE\<close> and in a ready queue and both locks are free.  The reason is that \<^verbatim>\<open>sleep\<close> takes
  \<^verbatim>\<open>ptable.lock\<close> before it releases \<open>lk\<close>, and holds it until \<open>p\<close> is marked as sleeping.
\<close>

theorem no_lost_wakeup:
  fixes s :: "'z ptab_scheme"
  assumes "sched_ok s" and "cur s = Some p" and "p < NPROC" and "pstate (procs s p) = RUNNING"
    and "holds_only lk k0 (cpust s)" and "lk \<noteq> PtableLock" and "cli_wf k" and "cpu_id k \<noteq> cpu_id (cpust s)"
    and "smp_step\<^sup>*\<^sup>* (smp_start s k q p ch lk f) c"
  shows "steps (sleep_steps p ch lk) s = sleep ch lk s \<and> (\<forall>t :: 'z ptab_scheme. steps (wakeup_steps ch) t = wakeup ch t) \<and>
    (if todo c 0 = [] \<and> todo c 1 = []
     then pstate (procs (shared c) p) = RUNNABLE \<and> (\<exists>qs l. mlfq_inv qs (shared c) \<and> p \<in> set (qs l)) \<and>
       lock_free lk (cpust (shared c)) \<and> lock_free PtableLock (cpust (shared c))
     else \<exists>d. smp_step c d)"
proof -
  let ?i = "cpu_id (cpust s)" and ?j = "cpu_id k" and ?n = "ncli k"
  have n: "0 \<le> ?n" "?i \<noteq> ?j" using assms(7,8) by (auto simp: cli_wf_def)
  obtain a b where I: "smp_inv p ch lk f ?i ?j ?n a b c"
    using smp_reach_inv [OF assms(9) smp_inv_start [OF assms(1,2,4-7)] n assms(6,3)] by blast
  note e = smp_inv_done [OF I]
  have "if todo c 0 = [] \<and> todo c 1 = []
     then pstate (procs (shared c) p) = RUNNABLE \<and> (\<exists>qs l. mlfq_inv qs (shared c) \<and> p \<in> set (qs l)) \<and>
       lock_free lk (cpust (shared c)) \<and> lock_free PtableLock (cpust (shared c))
     else \<exists>d. smp_step c d"
  proof (cases "todo c 0 = [] \<and> todo c 1 = []")
    case True
    then have r: "pstate (procs (shared c) p) = RUNNABLE" "sched_ok (shared c)"
        "lock_free lk (cpust (shared c))" "lock_free PtableLock (cpust (shared c))"
      using I e by (simp_all add: smp_inv_def lock_free_def)
    then obtain qs where "mlfq_inv qs (shared c)" by (auto simp: sched_ok_def)
    with mlfq_inv_queued(1) [OF this assms(3) r(1)] r True show ?thesis by auto
  next
    case False
    then show ?thesis using smp_progress [OF I n assms(6,3)] e by auto
  qed
  then show ?thesis using steps_sleep [OF assms(2,6)] steps_wakeup by blast
qed

section \<open>A concrete interleaving\<close>

text \<open>Process 0 sleeps for a tick; the other CPU starts as soon as the lock of the ticks is free.\<close>

theorem no_lost_wakeup_witness:
  "\<exists>c. smp_step\<^sup>*\<^sup>* (smp_start (sample_ptab\<lparr>cpust := acq TicksLock boot_cpust\<rparr>) (boot_cpust\<lparr>cpu_id := 1\<rparr>) None 0 ChanTicks TicksLock id) c \<and>
     todo c 0 = [] \<and> todo c 1 = [] \<and> pstate (procs (shared c) 0) = RUNNABLE"
proof -
  let ?s = "sample_ptab\<lparr>cpust := acq TicksLock boot_cpust\<rparr>" and ?k = "boot_cpust\<lparr>cpu_id := 1\<rparr>"
  have o: "sched_ok ?s" using sample_mlfq [of "()"] by (auto simp: sched_ok_def)
  have h: "holds_only TicksLock boot_cpust (cpust ?s)" "cli_wf ?k" "cpu_id ?k \<noteq> cpu_id (cpust ?s)" "pstate (procs ?s 0) = RUNNING"
    by (simp_all add: holds_only_def cli_wf_def sample_state) (simp_all add: boot_cpust_def)
  have k: "0 \<le> ncli ?k" "cpu_id (cpust ?s) \<noteq> cpu_id ?k" using h(3) by simp_all
  obtain c where c: "smp_step\<^sup>*\<^sup>* (smp_start ?s ?k None 0 ChanTicks TicksLock id) c" "todo c 0 = [] \<and> todo c 1 = []"
    using smp_finishes [OF smp_inv_start [OF o _ h(4,1) _ h(2), of ChanTicks id None] k] by auto
  have "pstate (procs (shared c) 0) = RUNNABLE"
    using no_lost_wakeup [OF o _ _ h(4,1) _ h(2,3) c(1)] c(2) by simp
  then show ?thesis using c by blast
qed

end
