(* ===== verification/Terminal.thy ===== *)
theory Terminal
  imports Console
begin

text \<open>
  Properties of the console (\<^verbatim>\<open>src/console.c\<close>): printed numbers, the screen, and the input buffer.
\<close>

section \<open>Printed numbers\<close>

text \<open>Reading a number as \<^verbatim>\<open>printint\<close> writes it.\<close>

definition char_digit :: "int \<Rightarrow> int" where
  "char_digit c = (if c \<ge> 97 then c - 87 else c - 48)"

definition horner :: "int \<Rightarrow> int list \<Rightarrow> int" where
  "horner base cs = foldl (\<lambda>a c. a * base + char_digit c) 0 cs"

definition read_number :: "int \<Rightarrow> int list \<Rightarrow> int" where
  "read_number base cs = (case cs of [] \<Rightarrow> 0 | c # ds \<Rightarrow> if c = 45 then - horner base ds else horner base cs)"

lemma digits_of_more: "digits_of k base x = Some ds \<Longrightarrow> digits_of (k + j) base x = Some ds"
  by (induction k arbitrary: x ds) (auto split: if_splits)

lemma digits_of_value:
  assumes "1 < base" and "0 < k" and "unat x < unat base ^ k"
  shows "\<exists>ds. digits_of k base x = Some ds \<and> ds \<noteq> [] \<and> length ds \<le> k \<and> (\<forall>d \<in> set ds. d < base) \<and>
    foldr (\<lambda>d a. a * uint base + uint d) ds 0 = uint x"
  using assms(2,3)
proof (induction k arbitrary: x)
  case (Suc k)
  have m: "x mod base < base" using assms(1) by (simp add: word_less_nat_alt unat_mod)
  have eq: "uint (x div base) * uint base + uint (x mod base) = uint x" by (simp add: uint_div uint_mod)
  show ?case
  proof (cases "x div base = 0")
    case True
    then have "uint (x mod base) = uint x" using eq by simp
    then show ?thesis using True m by simp
  next
    case False
    have p: "0 < unat base" using assms(1) by (simp add: word_less_nat_alt)
    have "unat (x div base) < unat base ^ k" using Suc.prems(2) p by (simp add: unat_div div_less_iff_less_mult mult.commute)
    moreover have "0 < k" using calculation False by (cases k) (auto simp: unat_eq_0)
    ultimately obtain ds where ds: "digits_of k base (x div base) = Some ds" "ds \<noteq> []" "length ds \<le> k" "\<forall>d \<in> set ds. d < base"
        "foldr (\<lambda>d a. a * uint base + uint d) ds 0 = uint (x div base)"
      using Suc.IH by blast
    then show ?thesis using False m eq by simp
  qed
qed simp

lemma digits_of_16:
  assumes "base = 10 \<or> base = 16"
  shows "\<exists>ds. digits_of 16 base x = Some ds \<and> ds \<noteq> [] \<and> length ds \<le> 10 \<and> (\<forall>d \<in> set ds. d < base) \<and>
    foldr (\<lambda>d a. a * uint base + uint d) ds 0 = uint x"
proof -
  have "unat x < 2 ^ 32" using unsigned_less [of x, where 'a = nat] by simp
  then have "unat x < unat base ^ 10" "1 < base" using assms by (auto simp: word_less_nat_alt)
  then obtain ds where "digits_of 10 base x = Some ds" "ds \<noteq> []" "length ds \<le> 10" "\<forall>d \<in> set ds. d < base"
      "foldr (\<lambda>d a. a * uint base + uint d) ds 0 = uint x"
    using digits_of_value [of base 10 x] by auto
  then show ?thesis using digits_of_more [of 10 base x ds 6] by auto
qed

lemma char_digit_char:
  assumes "d < 16"
  shows "char_digit (digit_char d) = uint d" "digit_char d \<noteq> 45"
proof -
  show "char_digit (digit_char d) = uint d" using assms by (auto simp: char_digit_def digit_char_def word_less_def)
  have "48 \<le> digit_char d" by (simp add: digit_char_def)
  then show "digit_char d \<noteq> 45" by linarith
qed

lemma horner_digits:
  assumes "\<forall>d \<in> set ds. d < 16"
  shows "horner b (rev (map digit_char ds)) = foldr (\<lambda>d a. a * b + uint d) ds 0"
  using assms by (induction ds) (auto simp: horner_def foldl_append char_digit_char(1))

lemma uint_neg: "sint (x :: uint) < 0 \<Longrightarrow> uint (- x) = - sint x" "0 \<le> sint (x :: uint) \<Longrightarrow> uint x = sint x"
proof -
  have b: "- (2 ^ 31) \<le> sint x" "sint x < 2 ^ 31" using sint_greater_eq [of x] sint_less [of x] by simp_all
  have x: "of_int (sint x) = x" by simp
  show "uint (- x) = - sint x" if "sint x < 0"
  proof -
    have "uint (- x) = uint (of_int (- sint x) :: uint)" by simp
    also have "\<dots> = (- sint x) mod 2 ^ 32" by (simp only: uint_word_of_int) simp
    also have "\<dots> = - sint x" using that b by (intro mod_pos_pos_trivial) simp_all
    finally show ?thesis .
  qed
  show "uint x = sint x" if "0 \<le> sint x"
  proof -
    have "uint x = uint (of_int (sint x) :: uint)" by simp
    also have "\<dots> = sint x mod 2 ^ 32" by (simp only: uint_word_of_int) simp
    also have "\<dots> = sint x" using that b by (intro mod_pos_pos_trivial) simp_all
    finally show ?thesis .
  qed
qed

lemma printint_number:
  assumes b: "base = 10 \<or> base = 16"
  shows "\<exists>cs. printint_chars xx base sign = Some cs \<and> length cs \<le> 11 \<and> read_number (uint base) cs = (if sign then sint xx else uint xx)"
proof -
  define neg where "neg \<longleftrightarrow> sign \<and> sint xx < 0"
  define x where "x = (if neg then - xx else xx)"
  obtain ds where ds: "digits_of 16 base x = Some ds" "ds \<noteq> []" "length ds \<le> 10" "\<forall>d \<in> set ds. d < base"
      "foldr (\<lambda>d a. a * uint base + uint d) ds 0 = uint x"
    using digits_of_16 [OF b, of x] by blast
  have lt: "\<forall>d \<in> set ds. d < 16" using ds(4) b by (auto simp: word_less_nat_alt)
  define cs where "cs = rev (map digit_char ds)"
  have h: "horner (uint base) cs = uint x" using horner_digits [OF lt] ds(5) by (simp add: cs_def)
  have c: "cs \<noteq> []" "hd cs \<noteq> 45" using ds(2) lt char_digit_char(2) [of "last ds"] by (simp_all add: cs_def hd_rev last_map)
  have e: "printint_chars xx base sign = Some (if neg then 45 # cs else cs)"
    using ds(1,3) by (simp add: printint_chars_def Let_def neg_def [symmetric] x_def [symmetric] cs_def)
  have v: "read_number (uint base) (if neg then 45 # cs else cs) = (if neg then - uint x else uint x)"
    using c h by (cases cs) (auto simp: read_number_def)
  have "(if neg then - uint x else uint x) = (if sign then sint xx else uint xx)"
    using uint_neg [of xx] by (auto simp: neg_def x_def)
  then show ?thesis using e v ds(3) by (intro exI [of _ "if neg then 45 # cs else cs"]) (simp add: cs_def)
qed

section \<open>The screen\<close>

text \<open>
  The text screen: 24 lines of 80 characters of two bytes.  The abstract terminal is the position of the cursor
  and the contents of the 1920 cells; \<open>term_put\<close> is what a character does to it.
\<close>

definition sbytes :: "memory \<Rightarrow> nat \<Rightarrow> uchar" where
  "sbytes m k = m (crt + of_nat k)"

definition cells :: "memory \<Rightarrow> nat \<Rightarrow> ushort" where
  "cells m i = (if i < 1920 then ld16 (sbytes m) (2 * i) else 0)"

definition screen :: "'z kst_scheme \<Rightarrow> nat \<times> (nat \<Rightarrow> ushort)" where
  "screen s = (unat (crt_cursor s), cells (mem s))"

definition term_end :: "nat \<Rightarrow> (nat \<Rightarrow> ushort) \<Rightarrow> nat \<times> (nat \<Rightarrow> ushort)" where
  "term_end p f = (if p < 1920 then (p, f(p := 0x0720))
     else (1840, (\<lambda>i. if i < 1840 then f (i + 80) else 0)(1840 := 0x0720)))"

definition term_put :: "int \<Rightarrow> nat \<times> (nat \<Rightarrow> ushort) \<Rightarrow> nat \<times> (nat \<Rightarrow> ushort)" where
  "term_put c scr = (case scr of (p, f) \<Rightarrow>
     if c = 10 then term_end (p + (80 - p mod 80)) f
     else if c = BACKSPACE then term_end (p - 1) f
     else term_end (p + 1) (f(p := (of_int c AND 0xff) OR 0x0700)))"

definition in_screen :: "uint \<Rightarrow> bool" where
  "in_screen a \<longleftrightarrow> unat (a - crt) < 3840"

definition screen_ok :: "'z kst_scheme \<Rightarrow> bool" where
  "screen_ok s \<longleftrightarrow> unat (crt_cursor s) < 1920"

text \<open>Nothing but the screen, the cursor and the serial line has changed.\<close>

definition off_screen_same :: "memory \<Rightarrow> memory \<Rightarrow> bool" where
  "off_screen_same m m' \<longleftrightarrow> (\<forall>a. \<not> in_screen a \<longrightarrow> m' a = m a)"

definition displayed :: "'z kst_scheme \<Rightarrow> 'z kst_scheme \<Rightarrow> bool" where
  "displayed s t \<longleftrightarrow> (\<exists>m c b. off_screen_same (mem s) m \<and> t = s\<lparr>mem := m, crt_cursor := c, uart_out := b\<rparr>)"

lemma displayedE:
  assumes "displayed s t"
  obtains m c b where "off_screen_same (mem s) m" "t = s\<lparr>mem := m, crt_cursor := c, uart_out := b\<rparr>"
  using assms unfolding displayed_def by blast

lemma displayedI: "off_screen_same (mem s) m \<Longrightarrow> displayed s (s\<lparr>mem := m, crt_cursor := c, uart_out := b\<rparr>)"
  unfolding displayed_def by blast

lemma off_screen_refl [simp]: "off_screen_same m m"
  by (simp add: off_screen_same_def)

lemma displayed_refl [simp]: "displayed s s"
  using displayedI [where s = s and m = "mem s" and c = "crt_cursor s" and b = "uart_out s"] by simp

lemma displayed_mem: "off_screen_same (mem s) m \<Longrightarrow> displayed s (s\<lparr>mem := m\<rparr>)"
  using displayedI [where s = s and m = m and c = "crt_cursor s" and b = "uart_out s"] by simp

lemma displayed_line: "displayed s (s\<lparr>uart_out := b\<rparr>)"
  using displayedI [where s = s and m = "mem s" and c = "crt_cursor s" and b = b] by simp

lemma displayed_trans: "displayed s t \<Longrightarrow> displayed t u \<Longrightarrow> displayed s u"
  by (elim displayedE) (auto intro!: displayedI simp: off_screen_same_def)

lemma displayed_sel:
  assumes "displayed s t"
  shows "uart t = uart s" "panicked t = panicked s" "cpust t = cpust s" "cons_locking t = cons_locking s" "procs t = procs s"
    "mlf t = mlf s" "in_buf t = in_buf s" "in_r t = in_r s" "in_w t = in_w s" "in_e t = in_e s" "kbd_in t = kbd_in s" "uart_in t = uart_in s"
  using assms by (auto elim: displayedE)

text \<open>The screen as memory.\<close>

lemma screen_address:
  assumes "k < 3840"
  shows "crt + of_nat k = a \<longleftrightarrow> unat (a - crt) = k"
proof -
  have "unat (of_nat k :: uint) = k" using assms by (simp add: unat_of_nat)
  then have "of_nat k = a - crt \<longleftrightarrow> unat (a - crt) = k" by (auto simp: word_unat_eq_iff)
  then show ?thesis by (simp add: algebra_simps)
qed

lemma cells_cong: "(\<And>k. k < 3840 \<Longrightarrow> sbytes m k = g k) \<Longrightarrow> cells m = (\<lambda>i. if i < 1920 then ld16 g (2 * i) else 0)"
  by (auto simp: cells_def ld16_def)

lemma crt_index:
  assumes "unat (pos :: uint) < 1920"
  shows "unat (2 * pos) = 2 * unat pos" "unat (1 + 2 * pos) = 1 + 2 * unat pos"
  using assms by (simp_all add: unat_word_ariths)

lemma cells_put:
  assumes "unat pos < 1920"
  shows "cells (st16 m (crt + 2 * pos) v) = (cells m)(unat pos := v)"
proof -
  have "sbytes (st16 m (crt + 2 * pos) v) k = st16 (sbytes m) (2 * unat pos) v k" if "k < 3840" for k
    using screen_address [OF that, of "crt + 2 * pos"] screen_address [OF that, of "crt + 2 * pos + 1"] crt_index [OF assms]
    by (auto simp: sbytes_def st16_def add.assoc)
  note cells_cong [OF this]
  moreover have "ld16 (st16 (sbytes m) (2 * unat pos) v) (2 * x) = (if x = unat pos then v else ld16 (sbytes m) (2 * x))" for x
    using ld16_st16_nat(1) ld16_st16_nat(2) [of "2 * unat pos" "2 * x"] by (cases x "unat pos" rule: linorder_cases) auto
  ultimately show ?thesis using assms by (auto simp: cells_def)
qed

lemma screen_store:
  assumes "unat pos < 1920"
  shows "off_screen_same m (st16 m (crt + 2 * pos) v)"
  unfolding off_screen_same_def
proof (intro allI impI)
  fix a assume "\<not> in_screen a"
  moreover have "in_screen (crt + 2 * pos)" "in_screen (crt + 2 * pos + 1)"
    using crt_index [OF assms] assms by (simp_all add: in_screen_def add.assoc)
  ultimately have "a \<noteq> crt + 2 * pos" "a \<noteq> crt + 2 * pos + 1" by auto
  then show "st16 m (crt + 2 * pos) v a = m a" by (simp add: st16_def)
qed

lemma crt_put_run:
  fixes s :: "'z kst_scheme"
  assumes "unat pos < 1920"
  shows "crt_put pos v s = Ret () (s\<lparr>mem := st16 (mem s) (crt + 2 * pos) v\<rparr>)"
  by (simp add: crt_put_def store16_def update_mem_def op_simps)

text \<open>Scrolling: the lines move up by one, and the last one becomes empty.\<close>

definition scrolled :: "memory \<Rightarrow> memory" where
  "scrolled m = memset (crt + 3680) 0 160 (memmove crt (crt + 160) 3680 m)"

lemma scrolled_apply:
  "scrolled m a = (if unat (a - crt) < 3680 then m (160 + a) else if unat (a - crt) < 3840 then 0 else m a)"
proof -
  have mv: "memmove crt (crt + 160) 3680 m = (\<lambda>x. if x - crt < 3680 then m (crt + 160 + (x - crt)) else m x)"
    by (rule memmove_apply) simp_all
  have "a - (crt + 3680) < 160 \<longleftrightarrow> 3680 \<le> unat (a - crt) \<and> unat (a - crt) < 3840"
  proof
    assume l: "a - (crt + 3680) < 160"
    define d where "d = a - (crt + 3680)"
    have "a - crt = 3680 + d" by (simp add: d_def)
    moreover have "unat d < 160" using l by (simp add: d_def word_less_nat_alt)
    then have "unat (3680 + d) = unat d + 3680" by (simp add: unat_word_ariths)
    ultimately show "3680 \<le> unat (a - crt) \<and> unat (a - crt) < 3840" using \<open>unat d < 160\<close> by simp
  next
    assume b: "3680 \<le> unat (a - crt) \<and> unat (a - crt) < 3840"
    then have "unat (a - crt - 3680) = unat (a - crt) - 3680"
      using unat_sub [of 3680 "a - crt"] by (simp add: word_le_nat_alt)
    with b have "unat (a - crt - 3680) < 160" by linarith
    then show "a - (crt + 3680) < 160" by (simp add: word_less_nat_alt)
  qed
  then show ?thesis unfolding scrolled_def memset_apply mv by (auto simp: word_less_nat_alt)
qed

lemma scrolled_off: "off_screen_same m (scrolled m)"
  by (simp add: off_screen_same_def in_screen_def scrolled_apply)

lemma cells_scrolled: "cells (scrolled m) = (\<lambda>i. if i < 1840 then cells m (i + 80) else 0)"
proof -
  have "sbytes (scrolled m) k = (if k < 3680 then sbytes m (k + 160) else 0)" if "k < 3840" for k
    using that by (simp add: sbytes_def scrolled_apply unat_of_nat add.assoc)
  note cells_cong [OF this]
  then show ?thesis by (auto simp: cells_def ld16_def fun_eq_iff algebra_simps)
qed

text \<open>\<^verbatim>\<open>cgaputc\<close> once the new position of the cursor is known.\<close>

definition cga_end :: "uint \<Rightarrow> ('z kst_scheme, unit) op" where
  "cga_end pos1 =
     bnd (if pos1 div 80 \<ge> 24 then
            sq (update_mem (memmove crt (crt + 160) 3680))
           (let pos2 = pos1 - 80 in
            sq (update_mem (memset (crt + 2 * pos2) 0 (2 * (1920 - pos2))))
               (ret pos2))
          else ret pos1) (\<lambda>pos3.
     sq (modify (\<lambda>s. s\<lparr>crt_cursor := ucast pos3\<rparr>))
        (crt_put pos3 0x0720))"

lemma cgaputc_alt:
  "cgaputc c s = (let pos = ucast (crt_cursor s) :: uint in
     bnd (if c = 10 then ret (pos + (80 - pos mod 80))
          else if c = BACKSPACE then ret (if pos > 0 then pos - 1 else pos)
          else sq (crt_put pos ((of_int c AND 0xff) OR 0x0700)) (ret (pos + 1))) cga_end) s"
  unfolding cgaputc_def cga_end_def [symmetric] bnd_gets ..

lemma cga_end_run:
  fixes s :: "'z kst_scheme"
  assumes "unat pos1 \<le> 1920"
  shows "runs (cga_end pos1) s (\<lambda>_ t. screen t = term_end (unat pos1) (cells (mem s)) \<and> screen_ok t \<and> displayed s t \<and> uart_out t = uart_out s)"
proof -
  have fin: "runs (sq (modify (\<lambda>s. s\<lparr>crt_cursor := ucast p\<rparr>)) (crt_put p 0x0720)) u
      (\<lambda>_ t. screen t = (unat p, (cells (mem u))(unat p := 0x0720)) \<and> screen_ok t \<and> displayed u t \<and> uart_out t = uart_out u)"
    if p: "unat p < 1920" for p and u :: "'z kst_scheme"
  proof -
    have "unat (ucast p :: ushort) = unat p" using p by (simp add: unsigned_ucast_eq take_bit_nat_eq_self)
    moreover have "u\<lparr>crt_cursor := c, mem := m\<rparr> = u\<lparr>mem := m, crt_cursor := c, uart_out := uart_out u\<rparr>" for c m by simp
    then have "displayed u (u\<lparr>crt_cursor := ucast p, mem := st16 (mem u) (crt + 2 * p) 0x0720\<rparr>)"
      by (simp only:) (rule displayedI [OF screen_store [OF p]])
    ultimately show ?thesis using p by (simp add: runs_def sq_modify crt_put_run screen_ok_def screen_def cells_put)
  qed
  show ?thesis
  proof (cases "pos1 div 80 \<ge> 24")
    case True
    then have "24 \<le> unat pos1 div 80" by (simp add: word_le_nat_alt unat_div)
    then have "unat pos1 = 1920" using assms by linarith
    then have e: "pos1 = 1920" by (simp add: word_unat_eq_iff)
    define u where "u = s\<lparr>mem := scrolled (mem s)\<rparr>"
    have d: "displayed s u" unfolding u_def by (rule displayed_mem [OF scrolled_off])
    have "runs (cga_end pos1) s Q = runs (sq (modify (\<lambda>s. s\<lparr>crt_cursor := ucast (1840 :: uint)\<rparr>)) (crt_put 1840 0x0720)) u Q" for Q
      unfolding e u_def cga_end_def by (simp add: runs_simps Let_def scrolled_def)
    then show ?thesis using fin [of 1840 u]
      by (auto simp: e term_end_def u_def cells_scrolled elim!: runs_conseq intro: displayed_trans [OF d [unfolded u_def]])
  next
    case False
    then have "\<not> 24 \<le> unat pos1 div 80" by (simp add: word_le_nat_alt unat_div)
    then have "unat pos1 < 1920" by linarith
    then show ?thesis using False fin [of pos1 s] by (simp add: cga_end_def runs_simps term_end_def)
  qed
qed

lemma cgaputc_run:
  fixes s :: "'z kst_scheme"
  assumes "screen_ok s"
  shows "runs (cgaputc c) s (\<lambda>_ t. screen t = term_put c (screen s) \<and> screen_ok t \<and> displayed s t \<and> uart_out t = uart_out s)"
proof -
  define pos where "pos = (ucast (crt_cursor s) :: uint)"
  have up: "unat pos = unat (crt_cursor s)" using assms by (simp add: screen_ok_def pos_def unsigned_ucast_eq take_bit_nat_eq_self)
  have p: "unat pos < 1920" using assms by (simp add: up screen_ok_def)
  have md: "unat (pos mod 80) = unat pos mod 80" by (simp add: unat_mod)
  have "unat (80 - pos mod 80) = 80 - unat pos mod 80" using md by (simp add: unat_sub word_le_nat_alt)
  moreover have le: "unat pos + (80 - unat pos mod 80) \<le> 1920"
  proof -
    have "unat pos mod 80 < 80" by simp
    then have "unat pos + (80 - unat pos mod 80) = 80 * (unat pos div 80 + 1)"
      using mult_div_mod_eq [of 80 "unat pos"] unfolding distrib_left by linarith
    moreover have "unat pos div 80 < 24" using p by (simp add: div_less_iff_less_mult)
    ultimately show ?thesis by simp
  qed
  ultimately have nl: "unat (pos + (80 - pos mod 80)) = unat pos + (80 - unat pos mod 80)" by (simp add: unat_word_ariths)
  have inc: "unat (pos + 1) = unat pos + 1" using p by (simp add: unat_word_ariths)
  have dec: "unat (if pos > 0 then pos - 1 else pos) = unat pos - 1" using unat_minus_one [of pos] by (auto simp: word_gt_0)
  have e: "cgaputc c s = bnd (if c = 10 then ret (pos + (80 - pos mod 80))
          else if c = BACKSPACE then ret (if pos > 0 then pos - 1 else pos)
          else sq (crt_put pos ((of_int c AND 0xff) OR 0x0700)) (ret (pos + 1))) cga_end s"
    unfolding cgaputc_alt Let_def pos_def ..
  consider "c = 10" | "c \<noteq> 10" "c = BACKSPACE" | "c \<noteq> 10" "c \<noteq> BACKSPACE" by blast
  then show ?thesis
  proof cases
    case 1
    then have "cgaputc c s = cga_end (pos + (80 - pos mod 80)) s" unfolding e by (simp add: bnd_def ret_def)
    moreover have "term_put c (screen s) = term_end (unat (pos + (80 - pos mod 80))) (cells (mem s))"
      unfolding nl using 1 by (simp add: term_put_def screen_def up)
    ultimately show ?thesis using cga_end_run [of "pos + (80 - pos mod 80)" s] le unfolding nl by (simp only: runs_def)
  next
    case 2
    then have "cgaputc c s = cga_end (if pos > 0 then pos - 1 else pos) s" unfolding e by (simp add: bnd_def ret_def)
    moreover have "term_put c (screen s) = term_end (unat (if pos > 0 then pos - 1 else pos)) (cells (mem s))"
      unfolding dec using 2 by (simp add: term_put_def screen_def up)
    moreover have "unat pos - 1 \<le> 1920" using p by simp
    ultimately show ?thesis using cga_end_run [of "if pos > 0 then pos - 1 else pos" s] unfolding dec by (simp only: runs_def)
  next
    case 3
    let ?v = "(of_int c AND 0xff) OR 0x0700"
    define u where "u = s\<lparr>mem := st16 (mem s) (crt + 2 * pos) ?v\<rparr>"
    have "cgaputc c s = cga_end (pos + 1) u" unfolding e using 3 crt_put_run [OF p, of _ s] by (simp add: u_def sq_def bnd_def ret_def)
    moreover have "displayed s u" unfolding u_def by (rule displayed_mem [OF screen_store [OF p]])
    moreover have "term_put c (screen s) = term_end (unat pos + 1) (cells (mem u))"
      using 3 by (simp add: term_put_def screen_def up u_def cells_put [OF p])
    moreover have "uart_out u = uart_out s" by (simp add: u_def)
    moreover note cga_end_run [of "pos + 1" u, unfolded inc]
    ultimately show ?thesis using p by (auto simp: runs_def intro: displayed_trans split: outcome.splits)
  qed
qed

text \<open>The bytes a character puts on the serial line.\<close>

definition line_bytes :: "int \<Rightarrow> uchar list" where
  "line_bytes c = (if c = BACKSPACE then [8, 32, 8] else [of_int c])"

lemma uartputc_run: "uartputc c s = Ret () (if \<not> uart s then s else s\<lparr>uart_out := uart_out s @ [of_int c]\<rparr>)"
  by (simp add: uartputc_def op_simps)

lemma consputc_run:
  fixes s :: "'z kst_scheme"
  assumes "screen_ok s" and "\<not> panicked s"
  shows "runs (consputc c) s (\<lambda>_ t. screen t = term_put c (screen s) \<and> screen_ok t \<and> displayed s t \<and>
    uart_out t = (if uart s then uart_out s @ line_bytes c else uart_out s))"
proof -
  let ?o = "if c = BACKSPACE then sq (uartputc 8) (sq (uartputc 32) (uartputc 8)) else uartputc c :: ('z kst_scheme, unit) op"
  define u where "u = (if uart s then s\<lparr>uart_out := uart_out s @ line_bytes c\<rparr> else s)"
  have "?o s = Ret () u" by (simp add: uartputc_run sq_Ret line_bytes_def u_def)
  then have "consputc c s = cgaputc c u" using assms(2) by (simp add: consputc_def bnd_gets sq_Ret)
  moreover have "displayed s u" by (simp add: displayed_line u_def)
  moreover have "screen u = screen s" "uart_out u = (if uart s then uart_out s @ line_bytes c else uart_out s)"
    by (simp_all add: screen_def u_def)
  moreover have "screen_ok u" using assms(1) by (simp add: screen_ok_def u_def)
  note cgaputc_run [OF this, of c]
  ultimately show ?thesis by (auto simp: runs_def intro: displayed_trans split: outcome.splits)
qed

text \<open>What printing a text does.\<close>

definition printed :: "int list \<Rightarrow> 'z kst_scheme \<Rightarrow> 'z kst_scheme \<Rightarrow> bool" where
  "printed cs s t \<longleftrightarrow> screen t = fold term_put cs (screen s) \<and> screen_ok t \<and> displayed s t \<and>
     uart_out t = (if uart s then uart_out s @ concat (map line_bytes cs) else uart_out s)"

lemma printed_Nil: "screen_ok s \<Longrightarrow> printed [] s s"
  by (simp add: printed_def)

lemma printed_append: "printed cs s t \<Longrightarrow> printed ds t u \<Longrightarrow> printed (cs @ ds) s u"
  by (auto simp: printed_def displayed_sel intro: displayed_trans)

lemma printed_ok: "printed cs s t \<Longrightarrow> \<not> panicked s \<Longrightarrow> screen_ok t \<and> \<not> panicked t"
  by (auto simp: printed_def displayed_sel)

lemma consputs_run:
  fixes s :: "'z kst_scheme"
  assumes "screen_ok s" and "\<not> panicked s"
  shows "runs (foreach cs consputc) s (\<lambda>_. printed cs s)"
  using assms
proof (induction cs arbitrary: s)
  case Nil
  then show ?case by (simp add: runs_simps printed_Nil)
next
  case (Cons c cs)
  show ?case unfolding foreach.simps runs_sq
  proof (rule runs_conseq [OF consputc_run [OF Cons.prems, of c]], elim conjE)
    fix t :: "'z kst_scheme" assume "screen t = term_put c (screen s)" "screen_ok t" "displayed s t"
      "uart_out t = (if uart s then uart_out s @ line_bytes c else uart_out s)"
    then have t: "printed [c] s t" by (simp add: printed_def)
    with printed_ok [OF this Cons.prems(2)] show "runs (foreach cs consputc) t (\<lambda>_. printed (c # cs) s)"
      using Cons.IH [of t] printed_append [OF t] by (auto elim!: runs_conseq)
  qed
qed

section \<open>Formatted output\<close>

text \<open>The characters that a format string and its arguments stand for.\<close>

fun cprintf_text :: "string \<Rightarrow> carg list \<Rightarrow> int list option" where
  "cprintf_text [] args = Some []"
| "cprintf_text (c # cs) args =
     (if c \<noteq> CHR ''%'' then map_option ((#) (of_char c)) (cprintf_text cs args)
      else case cs of
        [] \<Rightarrow> Some []
      | d # ds \<Rightarrow>
          if d \<in> {CHR ''d'', CHR ''x'', CHR ''p''} then
            (case args of
               Num x # as \<Rightarrow>
                 (case printint_chars x (if d = CHR ''d'' then 10 else 16) (d = CHR ''d'') of
                    None \<Rightarrow> None
                  | Some ns \<Rightarrow> map_option ((@) ns) (cprintf_text ds as))
             | _ \<Rightarrow> None)
          else if d = CHR ''s'' then
            (case args of
               Str bs # as \<Rightarrow>
                 map_option ((@) (case bs of None \<Rightarrow> map of_char ''(null)'' | Some b \<Rightarrow> map sint b)) (cprintf_text ds as)
             | _ \<Rightarrow> None)
          else map_option ((@) (if d = CHR ''%'' then [37] else [37, of_char d])) (cprintf_text ds args))"

lemma printed_then:
  fixes s :: "'z kst_scheme"
  assumes "screen_ok s" "\<not> panicked s"
    and "\<And>t :: 'z kst_scheme. screen_ok t \<Longrightarrow> \<not> panicked t \<Longrightarrow> runs m t (\<lambda>_. printed ds t)"
  shows "runs (sq (foreach cs consputc) m) s (\<lambda>_. printed (cs @ ds) s)"
  unfolding runs_sq
proof (rule runs_conseq [OF consputs_run [OF assms(1,2), of cs]])
  fix t :: "'z kst_scheme" assume t: "printed cs s t"
  show "runs m t (\<lambda>_. printed (cs @ ds) s)"
    by (rule runs_conseq [OF assms(3)]) (use printed_ok [OF t assms(2)] printed_append [OF t] in auto)
qed

lemma foreach_one: "foreach [c] m = m c" for m :: "'i \<Rightarrow> ('s, unit) op"
  by (rule ext) (simp add: sq_def bnd_def ret_def split: outcome.splits)

lemma printed_then1:
  fixes s :: "'z kst_scheme"
  assumes "screen_ok s" "\<not> panicked s"
    and "\<And>t :: 'z kst_scheme. screen_ok t \<Longrightarrow> \<not> panicked t \<Longrightarrow> runs m t (\<lambda>_. printed ds t)"
  shows "runs (sq (consputc c) m) s (\<lambda>_. printed (c # ds) s)"
  using printed_then [OF assms, of "[c]"] unfolding foreach_one by simp

lemma cprintf_loop_run:
  fixes s :: "'z kst_scheme"
  assumes "cprintf_text fmt args = Some cs" "screen_ok s" "\<not> panicked s"
  shows "runs (cprintf_loop fmt args) s (\<lambda>_. printed cs s)"
  using assms
proof (induction fmt args arbitrary: s cs rule: cprintf_text.induct)
  case (1 args)
  then show ?case by (simp add: runs_simps printed_Nil)
next
  case (2 c fs args)
  note IH = "2.IH" and ok = "2.prems"(2,3)
  show ?case
  proof (cases "c = CHR ''%''")
    case False
    then obtain ds where "cprintf_text fs args = Some ds" "cs = of_char c # ds" using "2.prems"(1) by auto
    then show ?thesis using False IH(1) by (simp add: printed_then1 [OF ok])
  next
    case c: True
    show ?thesis
    proof (cases fs)
      case Nil
      then show ?thesis using c "2.prems" by (simp add: runs_simps printed_Nil)
    next
      case (Cons d fs')
      consider "d \<in> {CHR ''d'', CHR ''x'', CHR ''p''}" | "d = CHR ''s''" | "d \<notin> {CHR ''d'', CHR ''x'', CHR ''p'', CHR ''s''}" by blast
      then show ?thesis
      proof cases
        case d: 1
        let ?b = "if d = CHR ''d'' then 10 else 16 :: uint" and ?g = "d = CHR ''d''"
        obtain x as ns ds where e: "args = Num x # as" "printint_chars x ?b ?g = Some ns" "cprintf_text fs' as = Some ds" "cs = ns @ ds"
          using "2.prems"(1) c Cons d by (auto split: list.splits carg.splits option.splits simp del: insert_iff)
        have "cprintf_loop (c # fs) args = sq (foreach ns consputc) (cprintf_loop fs' as :: ('z kst_scheme, unit) op)"
          using c Cons d e(1,2) by (auto simp: printint_def)
        then show ?thesis using printed_then [OF ok IH(2) [OF _ Cons d e(1)]] e c by simp
      next
        case d: 2
        obtain bs as ds where e: "args = Str bs # as" "cprintf_text fs' as = Some ds"
          "cs = (case bs of None \<Rightarrow> map of_char ''(null)'' | Some b \<Rightarrow> map sint b) @ ds"
          using "2.prems"(1) c Cons d by (auto split: list.splits carg.splits)
        have "cprintf_loop (c # fs) args = sq (foreach (case bs of None \<Rightarrow> map of_char ''(null)'' | Some b \<Rightarrow> map sint b) consputc)
            (cprintf_loop fs' as :: ('z kst_scheme, unit) op)"
          using c Cons d e(1) by (auto split: option.splits)
        then show ?thesis using printed_then [OF ok IH(3) [OF _ Cons _ d e(1)]] e c d by simp
      next
        case d: 3
        let ?p = "if d = CHR ''%'' then [37] else [37, of_char d]"
        obtain ds where e: "cprintf_text fs' args = Some ds" "cs = ?p @ ds" using "2.prems"(1) c Cons d by auto
        have "runs (cprintf_loop fs' args) t (\<lambda>_. printed ds t)" if "screen_ok t" "\<not> panicked t" for t :: "'z kst_scheme"
          using IH(4) [OF _ Cons _ _ e(1) that] c d by simp
        then show ?thesis using c Cons d e(2) by (auto intro!: printed_then1 [OF ok] printed_then1)
      qed
    qed
  qed
qed

section \<open>Input\<close>

interpretation input_ring: ring 128
  by unfold_locales simp_all

text \<open>
  The input as the reader and the typist see it: the characters handed over to readers, and the line that can
  still be edited.  \<open>edit_key\<close> is what a key does to them.
\<close>

definition input_of :: "'z kst_scheme \<Rightarrow> uchar list \<times> uchar list" where
  "input_of s = (ring_content 128 (in_buf s) (in_r s) (in_w s), ring_content 128 (in_buf s) (in_w s) (in_e s))"

definition in_ok :: "'z kst_scheme \<Rightarrow> bool" where
  "in_ok s \<longleftrightarrow> unat (in_w s - in_r s) \<le> unat (in_e s - in_r s) \<and> unat (in_e s - in_r s) \<le> 128 \<and> 10 \<notin> set (snd (input_of s))"

definition edit_key :: "int \<Rightarrow> uchar list \<times> uchar list \<Rightarrow> uchar list \<times> uchar list" where
  "edit_key c inp = (case inp of (rd, pd) \<Rightarrow>
     if c = 21 then (rd, [])
     else if c = 8 \<or> c = 127 then (rd, butlast pd)
     else if c = 0 \<or> length rd + length pd \<ge> 128 then (rd, pd)
     else
       let b = (if c = 13 then 10 else of_int c) in
       if b = 10 \<or> b = 4 \<or> length rd + length pd = 127 then (rd @ pd @ [b], []) else (rd, pd @ [b]))"

definition devices :: "'z kst_scheme \<Rightarrow> bool \<times> uchar list \<times> uchar list \<times> uint" where
  "devices s = (uart s, uart_in s, kbd_in s, kbd_shift s)"

text \<open>The state in which the handler of a device interrupt treats a key.\<close>

definition key_ok :: "cpust \<Rightarrow> 'z kst_scheme \<Rightarrow> bool" where
  "key_ok k s \<longleftrightarrow> in_ok s \<and> screen_ok s \<and> \<not> panicked s \<and> sched_ok s \<and> can_lock InputLock k \<and> cpust s = acq InputLock k"

lemma input_cong:
  "in_buf t = in_buf s \<Longrightarrow> in_r t = in_r s \<Longrightarrow> in_w t = in_w s \<Longrightarrow> in_e t = in_e s \<Longrightarrow> input_of t = input_of s \<and> in_ok t = in_ok s"
  by (simp add: input_of_def in_ok_def)

lemma displayed_devices: "displayed s t \<Longrightarrow> devices t = devices s"
  by (auto simp: devices_def elim: displayedE)

lemma in_ok_lengths:
  assumes "in_ok s"
  shows "length (fst (input_of s)) + length (snd (input_of s)) = unat (in_e s - in_r s)"
    "ring_content 128 (in_buf s) (in_r s) (in_e s) = fst (input_of s) @ snd (input_of s)"
proof -
  have le: "unat (in_w s - in_r s) \<le> unat (in_e s - in_r s)" using assms by (simp add: in_ok_def)
  show "ring_content 128 (in_buf s) (in_r s) (in_e s) = fst (input_of s) @ snd (input_of s)"
    by (simp add: input_of_def ring_content_take [OF le] ring_content_drop [OF le])
  from arg_cong [OF this, of length] show "length (fst (input_of s)) + length (snd (input_of s)) = unat (in_e s - in_r s)"
    by simp
qed

text \<open>Erasing a character.\<close>

lemma erased:
  assumes "in_ok s" "in_e s \<noteq> in_w s"
  shows "input_of (s\<lparr>in_e := in_e s - 1\<rparr>) = (fst (input_of s), butlast (snd (input_of s)))"
    "in_ok (s\<lparr>in_e := in_e s - 1\<rparr>)" "snd (input_of s) \<noteq> []" "in_buf s (unat (in_e s - 1) mod 128) \<noteq> 10"
proof -
  let ?t = "s\<lparr>in_e := in_e s - 1\<rparr>"
  have b: "snd (input_of s) = snd (input_of ?t) @ [in_buf s (unat (in_e s - 1) mod 128)]"
    using ring_content_back [OF assms(2) [symmetric]] by (simp add: input_of_def)
  then show "input_of ?t = (fst (input_of s), butlast (snd (input_of s)))" by (simp add: input_of_def)
  show "snd (input_of s) \<noteq> []" using b by simp
  have n: "10 \<notin> set (snd (input_of s))" using assms(1) by (simp add: in_ok_def)
  then show "in_buf s (unat (in_e s - 1) mod 128) \<noteq> 10" using b by auto
  have le: "unat (in_w s - in_r s) \<le> unat (in_e s - in_r s)" "unat (in_e s - in_r s) \<le> 128" using assms(1) by (simp_all add: in_ok_def)
  have "unat (in_w s - in_r s) \<noteq> unat (in_e s - in_r s)" using assms(2) by (simp add: word_unat_eq_iff [symmetric])
  moreover from this le have "in_e s - in_r s \<noteq> 0" by (auto simp: unat_eq_0)
  then have "unat (in_e s - 1 - in_r s) = unat (in_e s - in_r s) - 1"
    using unat_minus_one [of "in_e s - in_r s"] by (simp add: algebra_simps)
  ultimately have "unat (in_w s - in_r s) \<le> unat (in_e s - 1 - in_r s)" "unat (in_e s - 1 - in_r s) \<le> 128" using le by linarith+
  then show "in_ok ?t" using n b by (simp add: in_ok_def)
qed

lemma key_ok_displayed:
  assumes "key_ok k s" "displayed s t" "screen_ok t"
  shows "key_ok k t \<and> input_of t = input_of s \<and> devices t = devices s"
  using assms input_cong [of t s] displayed_devices [OF assms(2)] sched_ok_cong [of t s]
  by (simp add: key_ok_def displayed_sel [OF assms(2)])

lemma key_ok_erase: "key_ok k s \<Longrightarrow> in_ok (s\<lparr>in_e := e\<rparr>) \<Longrightarrow> key_ok k (s\<lparr>in_e := e\<rparr>)"
  using sched_ok_cong [of "s\<lparr>in_e := e\<rparr>" s] by (simp add: key_ok_def screen_ok_def)

lemma erase_run:
  fixes s :: "'z kst_scheme"
  assumes "key_ok k s" "in_e s \<noteq> in_w s"
  shows "runs (sq (modify (\<lambda>s. s\<lparr>in_e := in_e s - 1\<rparr>)) (consputc BACKSPACE)) s
    (\<lambda>_ t. key_ok k t \<and> input_of t = (fst (input_of s), butlast (snd (input_of s))) \<and> devices t = devices s)"
proof -
  let ?t = "s\<lparr>in_e := in_e s - 1\<rparr>"
  have i: "in_ok s" using assms(1) by (simp add: key_ok_def)
  have k: "key_ok k ?t" by (rule key_ok_erase [OF assms(1) erased(2) [OF i assms(2)]])
  then have "screen_ok ?t" "\<not> panicked ?t" by (simp_all add: key_ok_def)
  note c = consputc_run [OF this, of BACKSPACE]
  have "devices ?t = devices s" by (simp add: devices_def)
  then have "runs (consputc BACKSPACE) ?t (\<lambda>_ t. key_ok k t \<and> input_of t = (fst (input_of s), butlast (snd (input_of s))) \<and> devices t = devices s)"
    using erased(1) [OF i assms(2)] key_ok_displayed [OF k] by (intro runs_conseq [OF c]) auto
  then show ?thesis by (simp add: runs_def sq_modify)
qed

lemma kill_line_run:
  fixes s :: "'z kst_scheme"
  assumes "key_ok k s" "length (snd (input_of s)) \<le> n"
  shows "runs (kill_line (Suc n)) s (\<lambda>_ t. key_ok k t \<and> input_of t = (fst (input_of s), []) \<and> devices t = devices s)"
  using assms
proof (induction n arbitrary: s)
  case 0
  then have "in_e s = in_w s" by (simp add: input_of_def unat_eq_0)
  moreover have "input_of s = (fst (input_of s), [])" using 0 by (simp add: prod_eq_iff)
  ultimately show ?case using 0(1) by (simp add: runs_simps)
next
  case (Suc n)
  have i: "in_ok s" using Suc.prems(1) by (simp add: key_ok_def)
  show ?case
  proof (cases "in_e s = in_w s")
    case True
    then have "input_of s = (fst (input_of s), [])" by (simp add: input_of_def)
    then show ?thesis using Suc.prems(1) True by (subst kill_line.simps) (simp add: runs_simps)
  next
    case False
    note e = erase_run [OF Suc.prems(1) False] and b = erased(4) [OF i False]
    have "runs (kill_line (Suc (Suc n))) s Q = runs (sq (sq (modify (\<lambda>s. s\<lparr>in_e := in_e s - 1\<rparr>)) (consputc BACKSPACE)) (kill_line (Suc n))) s Q" for Q
      using False b by (subst kill_line.simps) (simp add: runs_bnd runs_gets runs_sq del: kill_line.simps)
    moreover have "runs (sq (sq (modify (\<lambda>s. s\<lparr>in_e := in_e s - 1\<rparr>)) (consputc BACKSPACE)) (kill_line (Suc n))) s
        (\<lambda>_ t. key_ok k t \<and> input_of t = (fst (input_of s), []) \<and> devices t = devices s)"
      unfolding runs_sq [of _ "kill_line (Suc n)"]
    proof (rule runs_conseq [OF e], elim conjE)
      fix t :: "'z kst_scheme" assume t: "key_ok k t" "input_of t = (fst (input_of s), butlast (snd (input_of s)))" "devices t = devices s"
      then have "length (snd (input_of t)) \<le> n" using Suc.prems(2) by simp
      from Suc.IH [OF t(1) this] show "runs (kill_line (Suc n)) t (\<lambda>_ t. key_ok k t \<and> input_of t = (fst (input_of s), []) \<and> devices t = devices s)"
        by (rule runs_conseq) (simp add: t)
    qed
    ultimately show ?thesis by simp
  qed
qed

text \<open>Storing a character.\<close>

lemma char_byte:
  assumes "0 \<le> c" "c < 256" "0 \<le> d" "d < 256"
  shows "(of_int c :: uchar) = of_int d \<longleftrightarrow> c = d"
proof -
  have "uint (of_int c :: uchar) = c" "uint (of_int d :: uchar) = d"
    using assms by (simp_all add: uint_word_of_int)
  then show ?thesis by metis
qed

lemma stored:
  fixes s :: "'z kst_scheme" and b :: uchar
  assumes "in_ok s" "in_e s - in_r s < 128"
  defines "t \<equiv> s\<lparr>in_buf := (in_buf s)(unat (in_e s) mod 128 := b), in_e := in_e s + 1\<rparr>"
  shows "input_of t = (fst (input_of s), snd (input_of s) @ [b])" "unat (in_w t - in_r t) \<le> unat (in_e t - in_r t)"
    "unat (in_e t - in_r t) = Suc (unat (in_e s - in_r s))"
proof -
  have le: "unat (in_w s - in_r s) \<le> unat (in_e s - in_r s)" "unat (in_e s - in_r s) \<le> 128" using assms(1) by (simp_all add: in_ok_def)
  have ne: "in_e s \<noteq> in_r s + of_nat 128" using assms(2) by auto
  note p = input_ring.content_put [OF le(2) ne] input_ring.count_put(1) [OF le(2) ne]
  show n: "unat (in_e t - in_r t) = Suc (unat (in_e s - in_r s))" using p(2) by (simp add: t_def)
  then show le': "unat (in_w t - in_r t) \<le> unat (in_e t - in_r t)" using le(1) by (simp add: t_def)
  let ?n = "unat (in_w s - in_r s)"
  have w: "unat (in_w t - in_r t) = ?n" by (simp add: t_def)
  have c: "ring_content 128 (in_buf t) (in_r t) (in_e t) = (fst (input_of s) @ snd (input_of s)) @ [b]"
    using p(1) [of "in_buf s" b] in_ok_lengths(2) [OF assms(1)] by (simp add: t_def)
  have l: "length (fst (input_of s)) = ?n" by (simp add: input_of_def)
  have "fst (input_of t) = fst (input_of s)" "snd (input_of t) = snd (input_of s) @ [b]"
    using ring_content_take [OF le', of 128 "in_buf t"] ring_content_drop [OF le', of 128 "in_buf t"] l
    unfolding c w by (simp_all add: input_of_def)
  then show "input_of t = (fst (input_of s), snd (input_of s) @ [b])" by (simp add: prod_eq_iff)
qed

lemma committed:
  assumes "unat (in_w t - in_r t) \<le> unat (in_e t - in_r t)" "unat (in_e t - in_r t) \<le> 128"
  shows "input_of (t\<lparr>in_w := in_e t\<rparr>) = (fst (input_of t) @ snd (input_of t), [])" "in_ok (t\<lparr>in_w := in_e t\<rparr>)"
proof -
  show "input_of (t\<lparr>in_w := in_e t\<rparr>) = (fst (input_of t) @ snd (input_of t), [])"
    by (simp add: input_of_def ring_content_take [OF assms(1)] ring_content_drop [OF assms(1)])
  then show "in_ok (t\<lparr>in_w := in_e t\<rparr>)" using assms(2) by (simp add: in_ok_def)
qed

lemma woke_key_ok:
  fixes s :: "'z kst_scheme"
  assumes "key_ok k s" "woke ch s t"
  shows "key_ok k t \<and> input_of t = input_of s \<and> devices t = devices s"
proof -
  obtain pr ml where t: "t = s\<lparr>procs := pr, mlf := ml\<rparr>" and "sched_ok t" using assms(2) by (auto simp: woke_def)
  then show ?thesis using assms(1) input_cong [of t s] by (simp add: key_ok_def screen_ok_def devices_def)
qed

lemma console_char_run:
  fixes s :: "'z kst_scheme"
  assumes key: "key_ok k s" and c: "0 \<le> c" "c < 256" "c \<notin> {8, 21, 127}"
  shows "runs (console_char c) s (\<lambda>_ t. key_ok k t \<and> input_of t = edit_key c (input_of s) \<and> devices t = devices s \<and>
    (fst (input_of t) \<noteq> fst (input_of s) \<longrightarrow> (\<forall>p < NPROC. \<not> woken ChanInput t p)))"
proof (cases "c \<noteq> 0 \<and> in_e s - in_r s < 128")
  case False
  have i: "in_ok s" using key by (simp add: key_ok_def)
  have "edit_key c (input_of s) = input_of s"
    using False c in_ok_lengths(1) [OF i] by (auto simp: edit_key_def word_less_nat_alt split: prod.splits)
  then show ?thesis using key False by (auto simp: console_char_def runs_simps)
next
  case True
  define c1 where "c1 = (if c = 13 then 10 else c)"
  let ?b = "of_int c1 :: uchar"
  define u where "u = s\<lparr>in_buf := (in_buf s)(unat (in_e s) mod 128 := ?b), in_e := in_e s + 1\<rparr>"
  have i: "in_ok s" using key by (simp add: key_ok_def)
  note st = stored [OF i conjunct2 [OF True], of ?b, folded u_def]
  have bs: "?b = (if c = 13 then 10 else of_int c)" "?b = 10 \<longleftrightarrow> c1 = 10" "?b = 4 \<longleftrightarrow> c1 = 4"
    using char_byte [of c1 10] char_byte [of c1 4] c by (auto simp: c1_def)
  have lt: "unat (in_e s - in_r s) < 128" using True by (simp add: word_less_nat_alt)
  have full: "in_e u = in_r u + 128 \<longleftrightarrow> length (fst (input_of s)) + length (snd (input_of s)) = 127"
  proof -
    have "in_e u = in_r u + 128 \<longleftrightarrow> in_e u - in_r u = 128" by (auto simp: algebra_simps)
    also have "\<dots> \<longleftrightarrow> unat (in_e u - in_r u) = 128" by (simp add: word_unat_eq_iff)
    finally show ?thesis using in_ok_lengths(1) [OF i] st(3) by simp
  qed
  have edit: "edit_key c (input_of s) = (if c1 = 10 \<or> c1 = 4 \<or> in_e u = in_r u + 128
      then (fst (input_of u) @ snd (input_of u), []) else input_of u)"
    using True c lt in_ok_lengths(1) [OF i] unfolding st(1) full bs(2,3) [symmetric] bs(1)
    by (auto simp: edit_key_def Let_def split: prod.splits)
  have eq: "runs (console_char c) s Q = runs (consputc c1) u (\<lambda>_ t.
      runs (whenM (c1 = 10 \<or> c1 = 4 \<or> in_e t = in_r t + 128) (sq (modify (\<lambda>s. s\<lparr>in_w := in_e s\<rparr>)) (wakeup ChanInput))) t Q)" for Q
    using True by (simp add: console_char_def runs_simps Let_def c1_def [symmetric] u_def)
  have oku: "screen_ok u" "\<not> panicked u" using key by (simp_all add: key_ok_def u_def screen_ok_def)
  show ?thesis unfolding eq
  proof (rule runs_conseq [OF consputc_run [OF oku, of c1]], elim conjE)
    fix t :: "'z kst_scheme" assume d: "displayed u t" and sc: "screen_ok t"
    note ds = displayed_sel [OF d]
    have it: "input_of t = input_of u" "in_ok t = in_ok u" using input_cong [of t u] ds by simp_all
    have dv: "devices t = devices s" using displayed_devices [OF d] by (simp add: devices_def u_def)
    have base: "sched_ok t" "can_lock InputLock k" "cpust t = acq InputLock k" "\<not> panicked t"
      using key ds sched_ok_cong [of t s] by (simp_all add: key_ok_def u_def)
    show "runs (whenM (c1 = 10 \<or> c1 = 4 \<or> in_e t = in_r t + 128) (sq (modify (\<lambda>s. s\<lparr>in_w := in_e s\<rparr>)) (wakeup ChanInput))) t
      (\<lambda>_ t. key_ok k t \<and> input_of t = edit_key c (input_of s) \<and> devices t = devices s \<and>
        (fst (input_of t) \<noteq> fst (input_of s) \<longrightarrow> (\<forall>p < NPROC. \<not> woken ChanInput t p)))"
    proof (cases "c1 = 10 \<or> c1 = 4 \<or> in_e t = in_r t + 128")
      case False
      then have "in_ok u" using st lt i bs(2) by (auto simp: in_ok_def)
      then have "key_ok k t" using base sc it by (simp add: key_ok_def)
      moreover have "input_of t = edit_key c (input_of s)" using edit False it ds by simp
      moreover have "fst (input_of t) = fst (input_of s)" using st(1) it by simp
      ultimately show ?thesis using False dv by (simp add: runs_simps)
    next
      case True
      define v where "v = t\<lparr>in_w := in_e t\<rparr>"
      have v: "input_of v = (fst (input_of t) @ snd (input_of t), [])" "in_ok v"
        using committed [of t] st(2,3) lt ds by (simp_all add: v_def)
      have kv: "key_ok k v" using base sc v(2) sched_ok_cong [of v t] by (simp add: key_ok_def v_def screen_ok_def)
      have "runs (wakeup ChanInput) v (\<lambda>_ t. key_ok k t \<and> input_of t = edit_key c (input_of s) \<and> devices t = devices s \<and>
          (fst (input_of t) \<noteq> fst (input_of s) \<longrightarrow> (\<forall>p < NPROC. \<not> woken ChanInput t p)))"
      proof (rule runs_conseq [OF wakeup_held [of v InputLock k ChanInput]])
        show "sched_ok v" "can_lock InputLock k" "cpust v = acq InputLock k" using kv by (simp_all add: key_ok_def)
        fix x :: "'z kst_scheme" assume w: "woke ChanInput v x"
        have "devices v = devices t" by (simp add: devices_def v_def)
        then show "key_ok k x \<and> input_of x = edit_key c (input_of s) \<and> devices x = devices s \<and>
          (fst (input_of x) \<noteq> fst (input_of s) \<longrightarrow> (\<forall>p < NPROC. \<not> woken ChanInput x p))"
          using woke_key_ok [OF kv w] v(1) edit True it ds dv w stillD(1) [of "procs x _" "procs v _"]
          by (auto simp: woke_def woken_def)
      qed
      then show ?thesis using True by (simp add: v_def runs_simps)
    qed
  qed
qed

lemma console_key_run:
  fixes s :: "'z kst_scheme"
  assumes key: "key_ok k s" and c: "0 \<le> c" "c < 256" "c \<noteq> 16"
  shows "runs (console_key c) s (\<lambda>_ t. key_ok k t \<and> input_of t = edit_key c (input_of s) \<and> devices t = devices s \<and>
    (fst (input_of t) \<noteq> fst (input_of s) \<longrightarrow> (\<forall>p < NPROC. \<not> woken ChanInput t p)))"
proof -
  consider "c = 21" | "c = 8 \<or> c = 127" | "c \<notin> {8, 21, 127}" by blast
  then show ?thesis
  proof cases
    case 1
    have "edit_key c (input_of s) = (fst (input_of s), [])" using 1 by (simp add: edit_key_def split: prod.splits)
    moreover have "length (snd (input_of s)) = unat (in_e s - in_w s)" by (simp add: input_of_def)
    ultimately show ?thesis using 1 kill_line_run [OF key, of "unat (in_e s - in_w s)"]
      by (auto simp: console_key_def runs_bnd runs_gets simp del: kill_line.simps elim!: runs_conseq)
  next
    case 2
    then have e: "edit_key c (input_of s) = (fst (input_of s), butlast (snd (input_of s)))" by (auto simp: edit_key_def split: prod.splits)
    show ?thesis
    proof (cases "in_e s = in_w s")
      case True
      then have "input_of s = (fst (input_of s), butlast (snd (input_of s)))" by (simp add: input_of_def)
      then show ?thesis using True 2 e key by (auto simp: console_key_def runs_simps)
    next
      case False
      have "runs (console_key c) s Q = runs (sq (modify (\<lambda>s. s\<lparr>in_e := in_e s - 1\<rparr>)) (consputc BACKSPACE)) s Q" for Q
        using 2 False by (auto simp: console_key_def runs_simps)
      then show ?thesis using erase_run [OF key False] e by (auto elim!: runs_conseq)
    qed
  next
    case 3
    then have "console_key c = (console_char c :: ('z kst_scheme, unit) op)" using c(3) by (auto simp: console_key_def)
    then show ?thesis using console_char_run [OF key c(1,2) 3] by simp
  qed
qed

section \<open>Devices that deliver characters\<close>

text \<open>
  \<^verbatim>\<open>consoleintr\<close> asks its device for characters until there is none.  \<open>more\<close> are the characters the device has yet to
  deliver.
\<close>

definition polled :: "'z kst_scheme \<Rightarrow> 'z kst_scheme \<Rightarrow> bool" where
  "polled s t \<longleftrightarrow> (\<exists>u b h. t = s\<lparr>uart_in := u, kbd_in := b, kbd_shift := h\<rparr>)"

lemma polledI: "polled s (s\<lparr>uart_in := u\<rparr>)" "polled s (s\<lparr>kbd_in := b, kbd_shift := h\<rparr>)"
proof -
  have "s\<lparr>uart_in := u\<rparr> = s\<lparr>uart_in := u, kbd_in := kbd_in s, kbd_shift := kbd_shift s\<rparr>"
    "s\<lparr>kbd_in := b, kbd_shift := h\<rparr> = s\<lparr>uart_in := uart_in s, kbd_in := b, kbd_shift := h\<rparr>" by simp_all
  then show "polled s (s\<lparr>uart_in := u\<rparr>)" "polled s (s\<lparr>kbd_in := b, kbd_shift := h\<rparr>)" unfolding polled_def by blast+
qed

locale char_device =
  fixes getc :: "('z kst_scheme, int) op" and more :: "'z kst_scheme \<Rightarrow> int list"
  assumes getc_none: "more s = [] \<Longrightarrow> runs getc s (\<lambda>c t. c < 0 \<and> t = s)"
    and getc_some: "more s = c # cs \<Longrightarrow> runs getc s (\<lambda>x t. x = c \<and> more t = cs \<and> polled s t)"
    and more_bytes: "c \<in> set (more s) \<Longrightarrow> 0 \<le> c \<and> c < 256"
    and more_cong: "devices t = devices s \<Longrightarrow> more t = more s"
begin

lemma polled_key_ok:
  fixes s t :: "'z kst_scheme"
  assumes "key_ok k s" "polled s t"
  shows "key_ok k t \<and> input_of t = input_of s \<and> uart t = uart s"
proof -
  obtain u b h where t: "t = s\<lparr>uart_in := u, kbd_in := b, kbd_shift := h\<rparr>" using assms(2) by (auto simp: polled_def)
  then have "procs t = procs s" "mlf t = mlf s" by simp_all
  then show ?thesis using assms(1) input_cong [of t s] sched_ok_cong [of t s] by (simp add: key_ok_def screen_ok_def t)
qed

lemma loop_run:
  fixes s :: "'z kst_scheme"
  assumes "key_ok k s" "16 \<notin> set (more s)" "length (more s) < n"
  shows "runs (consoleintr_loop n getc) s (\<lambda>_ t. key_ok k t \<and> more t = [] \<and> uart t = uart s \<and> input_of t = fold edit_key (more s) (input_of s))"
  using assms
proof (induction n arbitrary: s)
  case (Suc n)
  show ?case
  proof (cases "more s")
    case Nil
    show ?thesis unfolding consoleintr_loop.simps runs_bnd
      by (rule runs_conseq [OF getc_none [OF Nil]]) (use Suc.prems(1) Nil in \<open>simp add: runs_ret\<close>)
  next
    case (Cons c cs)
    have c: "0 \<le> c" "c < 256" "c \<noteq> 16" using more_bytes [of c s] Cons Suc.prems(2) by auto
    show ?thesis unfolding consoleintr_loop.simps runs_bnd
    proof (rule runs_conseq [OF getc_some [OF Cons]], elim conjE)
      fix x and t :: "'z kst_scheme" assume x: "x = c" and m: "more t = cs" and p: "polled s t"
      note t = polled_key_ok [OF Suc.prems(1) p]
      have "runs (sq (console_key c) (consoleintr_loop n getc)) t (\<lambda>_ u. key_ok k u \<and> more u = [] \<and> uart u = uart s \<and> input_of u = fold edit_key (more s) (input_of s))"
        unfolding runs_sq
      proof (rule runs_conseq [OF console_key_run [OF conjunct1 [OF t] c]], elim conjE)
        fix u :: "'z kst_scheme" assume u: "key_ok k u" "input_of u = edit_key c (input_of t)" "devices u = devices t"
        have "more u = cs" using more_cong [OF u(3)] m by simp
        then show "runs (consoleintr_loop n getc) u (\<lambda>_ u. key_ok k u \<and> more u = [] \<and> uart u = uart s \<and> input_of u = fold edit_key (more s) (input_of s))"
          using Suc.IH [OF u(1)] Suc.prems(2,3) Cons u(2,3) t by (simp add: devices_def)
      qed
      then show "runs (if x \<ge> 0 then sq (console_key x) (consoleintr_loop n getc) else ret ()) t
          (\<lambda>_ u. key_ok k u \<and> more u = [] \<and> uart u = uart s \<and> input_of u = fold edit_key (more s) (input_of s))"
        using x c(1) by simp
    qed
  qed
qed simp

lemma intr_run:
  fixes s :: "'z kst_scheme"
  assumes "in_ok s" "screen_ok s" "\<not> panicked s" "sched_ok s" "can_lock InputLock (cpust s)"
    and "16 \<notin> set (more s)" "length (more s) < n"
  shows "runs (consoleintr n getc) s (\<lambda>_ t. in_ok t \<and> screen_ok t \<and> sched_ok t \<and> cpust t = settled (cpust s) \<and> more t = [] \<and> uart t = uart s \<and>
    input_of t = fold edit_key (more s) (input_of s))"
proof -
  let ?k = "cpust s" and ?u = "s\<lparr>cpust := acq InputLock (cpust s)\<rparr>"
  have i: "input_of ?u = input_of s" "in_ok ?u = in_ok s" using input_cong [of ?u s] by simp_all
  have ku: "key_ok ?k ?u" using assms(1-5) i by (simp add: key_ok_def screen_ok_def)
  have mu: "more ?u = more s" by (rule more_cong) (simp add: devices_def)
  have l: "lock_free InputLock ?k" "cli_wf ?k" using assms(5) by (simp_all add: can_lock_def)
  have "runs (consoleintr n getc) s Q = runs (sq (consoleintr_loop n getc) (release InputLock)) ?u Q" for Q
    using l by (simp add: consoleintr_def runs_sq runs_acquire)
  moreover have "runs (sq (consoleintr_loop n getc) (release InputLock)) ?u (\<lambda>_ t. in_ok t \<and> screen_ok t \<and> sched_ok t \<and>
      cpust t = settled ?k \<and> more t = [] \<and> uart t = uart s \<and> input_of t = fold edit_key (more s) (input_of s))"
    unfolding runs_sq
  proof (rule runs_conseq [OF loop_run [OF ku, of n]], goal_cases)
    case (3 x t)
    let ?v = "t\<lparr>cpust := settled ?k\<rparr>"
    have "cpust t = acq InputLock ?k" using 3 by (simp add: key_ok_def)
    moreover have "more ?v = more t" by (rule more_cong) (simp add: devices_def)
    ultimately show ?case using 3 l i mu input_cong [of ?v t]
      by (subst runs_release [of t InputLock ?k]) (simp_all add: key_ok_def screen_ok_def)
  qed (use assms(6,7) mu in simp_all)
  ultimately show ?thesis by simp
qed

end

interpretation uart_dev: char_device uartgetc "\<lambda>s. if uart s then map uint (uart_in s) else []"
proof (unfold_locales, goal_cases)
  case (1 s)
  then show ?case by (auto simp: uartgetc_def runs_simps split: if_splits)
next
  case (2 s c cs)
  then obtain b bs where "uart s" "uart_in s = b # bs" "c = uint b" "cs = map uint bs" by (auto split: if_splits)
  then show ?case by (simp add: uartgetc_def runs_simps polledI)
next
  case (3 c s)
  then show ?case using uint_lt2p [where 'a = 8] by (auto split: if_splits)
next
  case (4 t s)
  then show ?case by (simp add: devices_def)
qed

text \<open>The characters the keyboard delivers for the bytes of its controller, with the shift state threaded through.\<close>

primrec kbd_chars :: "uint \<Rightarrow> uchar list \<Rightarrow> int list" where
  "kbd_chars h [] = []"
| "kbd_chars h (b # bs) = (let r = kbd_decode h (ucast b) in sint (snd r) # kbd_chars (fst r) bs)"

lemma charcode_byte: "unat (ucast (charcode k d) :: uint) < 256"
proof -
  have "unat (charcode k d) < 256" using unsigned_less [of "charcode k d", where 'a = nat] by simp
  then show ?thesis by (simp add: unsigned_ucast_eq take_bit_nat_eq_self)
qed

lemma caps_byte:
  assumes "unat (c :: uint) < 256"
  shows "unat (if cap then (if 97 \<le> c \<and> c \<le> 122 then c - 32 else if 65 \<le> c \<and> c \<le> 90 then c + 32 else c) else c) < 256"
proof -
  have "unat (c - 32) = unat c - 32" if "97 \<le> c" using that by (simp add: unat_sub word_le_nat_alt)
  moreover have "unat (c + 32) = unat c + 32" using assms by (simp add: unat_word_ariths)
  moreover have "unat c \<le> 90" if "c \<le> 90" using that by (simp add: word_le_nat_alt)
  ultimately show ?thesis using assms by auto
qed

lemma kbd_decode_byte: "unat (snd (kbd_decode h d)) < 256"
  unfolding kbd_decode_def Let_def using caps_byte [OF charcode_byte] by (auto simp del: if_split_asm)

lemma small_sint:
  assumes "unat (x :: uint) < 256"
  shows "0 \<le> sint x \<and> sint x < 256"
proof (cases "0 \<le> sint x")
  case True
  have "uint x = int (unat x)" by simp
  then show ?thesis using True uint_neg(2) [OF True] assms by linarith
next
  case False
  then have "uint (- x) = - sint x" using uint_neg(1) [of x] by simp
  moreover have "uint x = int (unat x)" by simp
  then have "uint x < 256" using assms by linarith
  moreover have "- sint x \<le> 2 ^ 31" using sint_greater_eq [of x] by simp
  moreover have "uint (- x) + uint x = 2 ^ 32" if "x \<noteq> 0"
  proof -
    have "uint x < 2 ^ 32" "0 < uint x" using uint_lt2p [of x] uint_ge_0 [of x] that by (simp_all add: uint_0_iff order_less_le)
    then have "uint x mod 2 ^ 32 = uint x" "uint x \<noteq> 0" by simp_all
    then show ?thesis by (simp add: uint_word_ariths zmod_zminus1_eq_if)
  qed
  ultimately show ?thesis using False assms by (cases "x = 0") auto
qed

lemma kbd_chars_bytes: "c \<in> set (kbd_chars h bs) \<Longrightarrow> 0 \<le> c \<and> c < 256"
proof (induction bs arbitrary: h)
  case (Cons b bs)
  show ?case
  proof (cases "c = sint (snd (kbd_decode h (ucast b)))")
    case True
    then show ?thesis using small_sint [OF kbd_decode_byte] by simp
  next
    case False
    then have "c \<in> set (kbd_chars (fst (kbd_decode h (ucast b))) bs)" using Cons.prems by (simp add: Let_def)
    then show ?thesis by (rule Cons.IH)
  qed
qed simp

interpretation kbd_dev: char_device kbdgetc "\<lambda>s. kbd_chars (kbd_shift s) (kbd_in s)"
proof (unfold_locales, goal_cases)
  case (1 s)
  then have "kbd_in s = []" by (cases "kbd_in s") (simp_all add: Let_def)
  then show ?case by (simp add: kbdgetc_def runs_simps)
next
  case (2 s c cs)
  then obtain b bs where "kbd_in s = b # bs" "c = sint (snd (kbd_decode (kbd_shift s) (ucast b)))"
      "cs = kbd_chars (fst (kbd_decode (kbd_shift s) (ucast b))) bs"
    by (cases "kbd_in s") (auto simp: Let_def)
  then show ?case by (simp add: kbdgetc_def runs_simps polledI)
next
  case (3 c s)
  then show ?case by (rule kbd_chars_bytes)
next
  case (4 t s)
  then show ?case by (simp add: devices_def)
qed

section \<open>Reading lines\<close>

text \<open>
  What a read of at most \<open>n\<close> bytes takes from the characters that are ready, and what it leaves: up to a newline, or up
  to an end-of-file mark, which is left for the next read unless the read has nothing else.  \<open>None\<close> is a read that
  must wait.
\<close>

primrec read_line :: "nat \<Rightarrow> bool \<Rightarrow> uchar list \<Rightarrow> (uchar list \<times> uchar list) option" where
  "read_line 0 started rd = Some ([], rd)"
| "read_line (Suc n) started rd =
     (case rd of
        [] \<Rightarrow> None
      | c # cs \<Rightarrow>
          if c = 4 then Some ([], if started then rd else cs)
          else if c = 10 then Some ([c], cs)
          else map_option (\<lambda>(bs, rest). (c # bs, rest)) (read_line n True cs))"

lemma taken:
  assumes "in_ok s" "in_r s \<noteq> in_w s"
  shows "fst (input_of s) = in_buf s (unat (in_r s) mod 128) # fst (input_of (s\<lparr>in_r := in_r s + 1\<rparr>))"
    "snd (input_of (s\<lparr>in_r := in_r s + 1\<rparr>)) = snd (input_of s)" "in_ok (s\<lparr>in_r := in_r s + 1\<rparr>)"
proof -
  have le: "unat (in_w s - in_r s) \<le> unat (in_e s - in_r s)" "unat (in_e s - in_r s) \<le> 128" using assms(1) by (simp_all add: in_ok_def)
  show "fst (input_of s) = in_buf s (unat (in_r s) mod 128) # fst (input_of (s\<lparr>in_r := in_r s + 1\<rparr>))"
    using input_ring.content_get [OF assms(2)] by (simp add: input_of_def)
  show s: "snd (input_of (s\<lparr>in_r := in_r s + 1\<rparr>)) = snd (input_of s)" by (simp add: input_of_def)
  have w: "unat (in_w s - in_r s) = Suc (unat (in_w s - (in_r s + 1)))" by (rule input_ring.count_get [OF assms(2)])
  then have "in_r s \<noteq> in_e s" using le(1) by auto
  then have "unat (in_e s - in_r s) = Suc (unat (in_e s - (in_r s + 1)))" by (rule input_ring.count_get)
  then show "in_ok (s\<lparr>in_r := in_r s + 1\<rparr>)" using assms(1) le w s by (simp add: in_ok_def)
qed

lemma consoleread_loop_step:
  fixes s :: "'z kst_scheme"
  assumes "in_r s \<noteq> in_w s"
  defines "t \<equiv> s\<lparr>in_r := in_r s + 1\<rparr>" and "c \<equiv> in_buf s (unat (in_r s) mod 128)"
  shows "consoleread_loop (Suc n) ip target bs s =
    (if c = 4 then consoleread_done ip bs (if Suc n < target then s else t)
     else if c = 10 then consoleread_done ip (bs @ [c]) t else consoleread_loop n ip target (bs @ [c]) t)"
proof -
  have "sq (whenM (Suc n < target) (modify (\<lambda>s. s\<lparr>in_r := in_r s - 1\<rparr>))) (consoleread_done ip bs) t =
      consoleread_done ip bs (if Suc n < target then s else t)"
    by (simp add: whenM_def sq_modify sq_Ret ret_def t_def)
  then show ?thesis
    unfolding consoleread_loop.simps bnd_gets t_def c_def using assms(1) by (simp add: sq_modify)
qed

lemma read_line_taken:
  assumes "in_ok s" "read_line (Suc n) started (fst (input_of s)) = Some (out, rest)"
  shows "in_r s \<noteq> in_w s"
proof
  assume "in_r s = in_w s"
  then have "fst (input_of s) = []" by (simp add: input_of_def)
  then show False using assms(2) by simp
qed

lemma read_line_more:
  assumes "read_line (Suc n) started (c # cs) = Some (out, rest)" "c \<noteq> 4" "c \<noteq> 10"
  obtains ys where "read_line n True cs = Some (ys, rest)" "out = c # ys"
  using assms by (auto simp: map_option_eq_Some)

lemma consoleread_loop_run:
  fixes s :: "'z kst_scheme"
  assumes "in_ok s" "n \<le> target" "read_line n (n < target) (fst (input_of s)) = Some (out, rest)"
  shows "\<exists>r. consoleread_loop n ip target bs s = consoleread_done ip (bs @ out) (s\<lparr>in_r := r\<rparr>) \<and>
    in_ok (s\<lparr>in_r := r\<rparr>) \<and> input_of (s\<lparr>in_r := r\<rparr>) = (rest, snd (input_of s))"
  using assms
proof (induction n arbitrary: s bs out)
  case 0
  then show ?case by (intro exI [of _ "in_r s"]) (simp add: prod_eq_iff)
next
  case (Suc n)
  define t where "t = s\<lparr>in_r := in_r s + 1\<rparr>"
  define c where "c = in_buf s (unat (in_r s) mod 128)"
  have ne: "in_r s \<noteq> in_w s" by (rule read_line_taken [OF Suc.prems(1,3)])
  note tk = taken [OF Suc.prems(1) ne, folded t_def c_def] and step = consoleread_loop_step [OF ne, of n ip target bs, folded t_def c_def]
  note rl = Suc.prems(3) [unfolded tk(1)]
  have st: "t\<lparr>in_r := r\<rparr> = s\<lparr>in_r := r\<rparr>" "s\<lparr>in_r := in_r t\<rparr> = t" for r by (simp_all add: t_def)
  have s: "input_of s = (c # fst (input_of t), snd (input_of s))" "input_of t = (fst (input_of t), snd (input_of s))"
    using tk(1,2) by (simp_all add: prod_eq_iff)
  consider "c = 4" "Suc n < target" | "c = 4" "\<not> Suc n < target" | "c \<noteq> 4" "c = 10" | "c \<noteq> 4" "c \<noteq> 10" by blast
  then show ?case
  proof cases
    case 1
    then have "out = []" "rest = c # fst (input_of t)" using rl by auto
    then show ?thesis using Suc.prems(1) s(1) 1 step by (intro exI [of _ "in_r s"]) (simp del: consoleread_loop.simps)
  next
    case 2
    then have "out = []" "rest = fst (input_of t)" using rl by auto
    then show ?thesis using tk(3) s(2) 2 step st(2) by (intro exI [of _ "in_r t"]) (simp del: consoleread_loop.simps)
  next
    case 3
    then have "out = [c]" "rest = fst (input_of t)" using rl by auto
    then show ?thesis using tk(3) s(2) 3 step st(2) by (intro exI [of _ "in_r t"]) (simp del: consoleread_loop.simps)
  next
    case 4
    obtain ys where o: "read_line n True (fst (input_of t)) = Some (ys, rest)" "out = c # ys" using read_line_more [OF rl 4] .
    have "n \<le> target" "read_line n (n < target) (fst (input_of t)) = Some (ys, rest)" using o(1) Suc.prems(2) by simp_all
    from Suc.IH [OF tk(3) this, of "bs @ [c]"] show ?thesis unfolding st(1) tk(2) step using 4 o(2) by simp
  qed
qed

text \<open>The interrupt handlers leave the inodes alone, the list of processes included.\<close>

lemma keeps_consputc [keeps_intros]:
  fixes P :: "'z kst_scheme \<Rightarrow> bool"
  assumes "\<And>s x. P s \<Longrightarrow> P (s\<lparr>mem := x\<rparr>)" "\<And>s x. P s \<Longrightarrow> P (s\<lparr>crt_cursor := x\<rparr>)" "\<And>s x. P s \<Longrightarrow> P (s\<lparr>uart_out := x\<rparr>)"
  shows "keeps P (consputc c)"
  unfolding consputc_def cgaputc_def crt_put_def uartputc_def store16_def update_mem_def
  by (intro keeps_intros assms; simp add: assms)

lemma carg_cases:
  obtains "args = []" | x as where "args = Num x # as" | as where "args = Str None # as" | bs as where "args = Str (Some bs) # as"
proof (cases args)
  case (Cons a as)
  show ?thesis
  proof (cases a)
    case (Num x)
    then show ?thesis using Cons that(2) by simp
  next
    case (Str bs)
    then show ?thesis using Cons that(3,4) by (cases bs) simp_all
  qed
qed (rule that(1))

lemma keeps_cprintf [keeps_intros]:
  fixes P :: "'z kst_scheme \<Rightarrow> bool"
  assumes "\<And>s x. P s \<Longrightarrow> P (s\<lparr>mem := x\<rparr>)" "\<And>s x. P s \<Longrightarrow> P (s\<lparr>crt_cursor := x\<rparr>)" "\<And>s x. P s \<Longrightarrow> P (s\<lparr>uart_out := x\<rparr>)"
    "\<And>s k. P s \<Longrightarrow> P (s\<lparr>cpust := k\<rparr>)"
  shows "keeps P (cprintf fmt args)"
proof -
  note c = keeps_consputc [OF assms(1-3)]
  have "keeps P (printint x b sg)" for x b sg unfolding printint_def by (intro keeps_intros c)
  then have p: "keeps P (printint x b sg)" for x b sg .
  have "keeps P (cprintf_loop fmt args)"
  proof (induction fmt arbitrary: args rule: length_induct)
    case (1 fmt)
    then have l: "keeps P (cprintf_loop cs as)" if "length cs < length fmt" for cs as using that by blast
    show ?case
    proof (cases fmt)
      case (Cons a cs)
      have 1: "keeps P (cprintf_loop cs as)" for as by (rule l) (simp add: Cons)
      show ?thesis
      proof (cases cs)
        case Nil
        show ?thesis unfolding Cons Nil cprintf_loop.simps list.case by (intro keeps_if keeps_sq keeps_basic c)
      next
        case (Cons d ds)
        have 2: "keeps P (cprintf_loop ds as)" for as by (rule l) (simp add: Cons \<open>fmt = a # cs\<close>)
        show ?thesis unfolding \<open>fmt = a # cs\<close> Cons cprintf_loop.simps(2) [of a] list.case
          by (intro keeps_if keeps_sq c 2 1 [unfolded Cons]; cases args rule: carg_cases; simp only: list.case carg.case option.case;
              intro keeps_sq keeps_basic keeps_foreach c p 2)
      qed
    qed (simp add: keeps_basic)
  qed
  then show ?thesis unfolding cprintf_def by (intro keeps_intros assms)
qed

lemma leaves_uartintr: "leaves inodes (uartintr :: ('z kst_scheme, unit) op)"
proof
  fix x
  let ?P = "\<lambda>s :: 'z kst_scheme. inodes s = x"
  have k: "keeps ?P (kill_line n)" for n
  proof (induction n)
    case (Suc n)
    then show ?case unfolding kill_line.simps by (intro keeps_intros; simp)
  qed (simp add: keeps_basic)
  have "keeps ?P (load a)" for a unfolding load_def by (intro keeps_intros)
  then have "keeps ?P procdump" unfolding procdump_def by (intro keeps_intros; simp)
  then have "keeps ?P (console_key c)" for c unfolding console_key_def console_char_def by (intro keeps_intros k; simp)
  moreover have "keeps ?P uartgetc"
    unfolding uartgetc_def by (intro keeps_intros; auto split: list.split intro!: keeps_sq keeps_basic keeps_modify)
  ultimately have l: "keeps ?P (consoleintr_loop n uartgetc)" for n
  proof (induction n)
    case (Suc n)
    then show ?case unfolding consoleintr_loop.simps by (intro keeps_intros; simp)
  qed (simp add: keeps_basic)
  show "keeps ?P uartintr" unfolding uartintr_def consoleintr_def by (intro keeps_intros l; simp)
qed

text \<open>An unlocked inode that is in memory is locked at once; a locked one is unlocked, and its waiters woken.\<close>

lemma runs_ilock:
  fixes s :: "'z fsst_scheme"
  assumes "can_lock IcacheLock (cpust s)" and "1 \<le> i_ref (inodes s ip)" and "\<not> i_busy (inodes s ip)" and "i_valid (inodes s ip)"
  shows "runs (ilock (Some ip)) s Q = Q () (s\<lparr>inodes := (inodes s)(ip := inodes s ip\<lparr>i_busy := True\<rparr>), cpust := settled (cpust s)\<rparr>)"
proof -
  have l: "lock_free IcacheLock (cpust s)" "cli_wf (cpust s)" using assms(1) by (simp_all add: can_lock_def)
  show ?thesis using l assms(2-4)
    by (simp add: ilock_def ilock_loop_def runs_simps upd_inode_def whenM_def)
qed

lemma iunlock_run:
  fixes s :: "'z fsst_scheme"
  assumes "sched_ok s" and "can_lock IcacheLock (cpust s)" and "1 \<le> i_ref (inodes s ip)" and "i_busy (inodes s ip)"
  shows "runs (iunlock (Some ip)) s (\<lambda>_ t. woke (ChanInode ip) (s\<lparr>inodes := (inodes s)(ip := inodes s ip\<lparr>i_busy := False\<rparr>), cpust := settled (cpust s)\<rparr>) t)"
proof -
  have l: "lock_free IcacheLock (cpust s)" "cli_wf (cpust s)" using assms(2) by (simp_all add: can_lock_def)
  let ?u = "s\<lparr>cpust := acq IcacheLock (cpust s), inodes := (inodes s)(ip := inodes s ip\<lparr>i_busy := False\<rparr>)\<rparr>"
  have "runs (iunlock (Some ip)) s Q = runs (sq (wakeup (ChanInode ip)) (release IcacheLock)) ?u Q" for Q
    using l assms(3,4) by (simp add: iunlock_def runs_bnd runs_gets runs_sq runs_acquire upd_inode_def runs_modify)
  moreover have "sched_ok ?u" using assms(1) sched_ok_cong [of ?u s] by simp
  ultimately show ?thesis using wakeup_release [of ?u IcacheLock "cpust s" "ChanInode ip"] assms(2) by simp
qed

lemma consoleread_run:
  fixes s :: "'z kst_scheme"
  assumes "in_ok s" and "sched_ok s" and "can_lock InputLock (cpust s)" and "can_lock IcacheLock (cpust s)"
    and i: "1 \<le> i_ref (inodes s ip)" "i_busy (inodes s ip)" "i_valid (inodes s ip)"
    and r: "read_line (nat (sint n)) False (fst (input_of s)) = Some (out, rest)"
  shows "runs (consoleread ip n) s (\<lambda>x t. x = Some out \<and> in_ok t \<and> input_of t = (rest, snd (input_of s)) \<and> inodes t = inodes s \<and> cpust t = settled (cpust s))"
proof -
  let ?k = "cpust s"
  let ?s0 = "s\<lparr>inodes := (inodes s)(ip := inodes s ip\<lparr>i_busy := False\<rparr>), cpust := settled ?k\<rparr>"
  have l: "lock_free InputLock ?k" "cli_wf ?k" using assms(3) by (simp_all add: can_lock_def)
  have "runs (sq (acquire InputLock) (consoleread_loop (nat (sint n)) ip (nat (sint n)) [])) t
      (\<lambda>x t. x = Some out \<and> in_ok t \<and> input_of t = (rest, snd (input_of s)) \<and> inodes t = inodes s \<and> cpust t = settled ?k)"
    if w: "woke (ChanInode ip) ?s0 t" for t
  proof -
    obtain pr ml where t: "t = ?s0\<lparr>procs := pr, mlf := ml\<rparr>" using w by (auto simp: woke_def)
    let ?u = "t\<lparr>cpust := acq InputLock ?k\<rparr>"
    have in_u: "input_of ?u = input_of s" "in_ok ?u" using input_cong [of ?u s] assms(1) by (simp_all add: t)
    obtain r where e: "consoleread_loop (nat (sint n)) ip (nat (sint n)) [] ?u = consoleread_done ip out (?u\<lparr>in_r := r\<rparr>)"
        and o: "in_ok (?u\<lparr>in_r := r\<rparr>)" "input_of (?u\<lparr>in_r := r\<rparr>) = (rest, snd (input_of s))"
      using consoleread_loop_run [OF in_u(2), of "nat (sint n)" "nat (sint n)" out rest ip "[]"] assms(8) in_u(1) by auto
    let ?v = "?u\<lparr>in_r := r\<rparr>"
    let ?w = "?v\<lparr>cpust := settled ?k\<rparr>"
    have "runs (release InputLock) ?v Q = Q () ?w" for Q using runs_release [of ?v InputLock ?k Q] l by simp
    moreover have "runs (ilock (Some ip)) ?w Q = Q () (?w\<lparr>inodes := inodes s\<rparr>)" for Q
    proof -
      have "(inodes ?w)(ip := inodes ?w ip\<lparr>i_busy := True\<rparr>) = inodes s" using i(2) by (auto simp: t fun_eq_iff)
      then show ?thesis using runs_ilock [of ?w ip Q] assms(4) i by (simp add: t can_lock_def)
    qed
    moreover have "input_of (?w\<lparr>inodes := inodes s\<rparr>) = input_of ?v" "in_ok (?w\<lparr>inodes := inodes s\<rparr>) = in_ok ?v"
      using input_cong [of "?w\<lparr>inodes := inodes s\<rparr>" ?v] by simp_all
    ultimately have "runs (consoleread_done ip out) ?v (\<lambda>x t. x = Some out \<and> in_ok t \<and> input_of t = (rest, snd (input_of s)) \<and> inodes t = inodes s \<and> cpust t = settled ?k)"
      using o by (simp add: consoleread_done_def runs_sq runs_ret)
    then have "runs (consoleread_loop (nat (sint n)) ip (nat (sint n)) []) ?u
        (\<lambda>x t. x = Some out \<and> in_ok t \<and> input_of t = (rest, snd (input_of s)) \<and> inodes t = inodes s \<and> cpust t = settled ?k)"
      unfolding runs_def e .
    moreover have "runs (acquire InputLock) t Q = Q () ?u" for Q using runs_acquire [of InputLock t] l by (simp add: t)
    ultimately show ?thesis unfolding runs_sq by simp
  qed
  then show ?thesis unfolding consoleread_def runs_sq [of "iunlock (Some ip)"]
    by (intro runs_conseq [OF iunlock_run [OF assms(2,4) i(1,2)]]) blast
qed

text \<open>Ordinary characters, which have no function in the editing of a line.\<close>

definition plain :: "uchar \<Rightarrow> bool" where
  "plain b \<longleftrightarrow> uint b \<notin> {0, 4, 8, 10, 13, 16, 21, 127}"

lemma plain_byte: "plain b \<Longrightarrow> b \<noteq> 4 \<and> b \<noteq> 10"
  by (auto simp: plain_def)

lemma edit_plain: "list_all plain cs \<Longrightarrow> length rd + length pd + length cs \<le> 127 \<Longrightarrow> fold edit_key (map uint cs) (rd, pd) = (rd, pd @ cs)"
proof (induction cs arbitrary: pd)
  case (Cons c cs)
  have "edit_key (uint c) (rd, pd) = (rd, pd @ [c])"
    using Cons.prems plain_byte [of c] by (auto simp: edit_key_def plain_def Let_def)
  then show ?case using Cons by simp
qed simp

lemma read_plain: "list_all plain cs \<Longrightarrow> length cs < n \<Longrightarrow> read_line n started (cs @ [10]) = Some (cs @ [10], [])"
proof (induction cs arbitrary: n started)
  case Nil
  then show ?case by (cases n) simp_all
next
  case (Cons c cs)
  then show ?case using plain_byte [of c] by (cases n) auto
qed

section \<open>Properties\<close>

text \<open>
  (C38) Printed numbers.  In base 10 and 16 \<open>printint\<close> never writes more than 11 of the 16 bytes of its buffer, for
  the most negative number as well (whose \<^verbatim>\<open>x = -xx\<close> is taken to wrap around), and the characters it prints are the number: read back,
  they give the value of the argument, as a signed or as an unsigned integer.
\<close>

theorem printint_correct:
  assumes "base = 10 \<or> base = 16"
  shows "\<exists>cs. printint xx base sign s = foreach cs consputc s \<and> length cs \<le> 11 \<and>
    read_number (uint base) cs = (if sign then sint xx else uint xx)"
proof -
  obtain cs where "printint_chars xx base sign = Some cs" "length cs \<le> 11"
      "read_number (uint base) cs = (if sign then sint xx else uint xx)"
    using printint_number [OF assms] by blast
  then show ?thesis by (intro exI [of _ cs]) (simp add: printint_def)
qed

text \<open>
  (C35) Formatted output refines an abstract terminal.  With its cursor on the screen, \<open>cprintf\<close> of a format with
  fitting arguments takes and gives back the lock of the console, does to the cursor and the 1920 cells of the screen
  what the characters of the formatted text do to the terminal one by one, scrolling included, sends the same text
  to the serial line when there is one, writes no memory outside of the screen, and leaves the cursor on it.
\<close>

theorem cprintf_correct:
  fixes s :: "'z kst_scheme"
  assumes "cprintf_text fmt args = Some cs" and "screen_ok s" and "\<not> panicked s"
    and "cons_locking s" and "lock_free ConsLock (cpust s)" and "cli_wf (cpust s)"
  shows "runs (cprintf fmt args) s (\<lambda>_ t. screen t = fold term_put cs (screen s) \<and> screen_ok t \<and>
    uart_out t = (if uart s then uart_out s @ concat (map line_bytes cs) else uart_out s) \<and>
    displayed (s\<lparr>cpust := settled (cpust s)\<rparr>) t)"
proof -
  let ?k = "cpust s" and ?u = "s\<lparr>cpust := acq ConsLock (cpust s)\<rparr>"
  have ok: "screen_ok ?u" "\<not> panicked ?u" using assms(2,3) by (simp_all add: screen_ok_def)
  have eq: "runs (cprintf fmt args) s Q = runs (cprintf_loop fmt args) ?u (\<lambda>_ t. runs (release ConsLock) t Q)" for Q
    using assms(4-6) by (simp add: cprintf_def runs_bnd runs_gets runs_sq runs_acquire whenM_def)
  show ?thesis unfolding eq
  proof (rule runs_conseq [OF cprintf_loop_run [OF assms(1) ok]])
    fix t :: "'z kst_scheme" assume p: "printed cs ?u t"
    then obtain m c b where t: "off_screen_same (mem s) m" "t = ?u\<lparr>mem := m, crt_cursor := c, uart_out := b\<rparr>"
      by (auto simp: printed_def elim!: displayedE)
    have "t\<lparr>cpust := settled ?k\<rparr> = s\<lparr>cpust := settled ?k\<rparr>\<lparr>mem := m, crt_cursor := c, uart_out := b\<rparr>" by (simp add: t(2))
    then have "displayed (s\<lparr>cpust := settled ?k\<rparr>) (t\<lparr>cpust := settled ?k\<rparr>)"
      using displayedI [of "s\<lparr>cpust := settled ?k\<rparr>" m] t(1) by simp
    moreover have "cpust t = acq ConsLock ?k" by (simp add: t(2))
    ultimately show "runs (release ConsLock) t (\<lambda>_ t. screen t = fold term_put cs (screen s) \<and> screen_ok t \<and>
        uart_out t = (if uart s then uart_out s @ concat (map line_bytes cs) else uart_out s) \<and>
        displayed (s\<lparr>cpust := settled (cpust s)\<rparr>) t)"
      using p assms(5,6) by (subst runs_release [of t ConsLock ?k]) (simp_all add: printed_def screen_def screen_ok_def)
  qed
qed

text \<open>
  (C36) Interrupts of the keyboard and the serial line.  The handler takes every character its device has,
  so its loop ends, and edits the input line as \<open>edit_key\<close> says, one key after the other: characters are appended while
  there is room, backspace and \<^verbatim>\<open>^U\<close> erase what no reader can have yet, and a newline, \<^verbatim>\<open>^D\<close> or a full buffer
  hands the line over to the readers.  The counters stay ordered and at most 128 apart.  The keys do not include \<^verbatim>\<open>^P\<close>, which lists the
  processes.
\<close>

theorem consoleintr_correct:
  fixes s :: "'z kst_scheme"
  assumes "in_ok s" and "screen_ok s" and "\<not> panicked s" and "sched_ok s" and "can_lock InputLock (cpust s)"
  shows "(uart s \<and> 16 \<notin> set (uart_in s) \<longrightarrow>
      runs uartintr s (\<lambda>_ t. in_ok t \<and> screen_ok t \<and> sched_ok t \<and> cpust t = settled (cpust s) \<and> uart_in t = [] \<and>
        input_of t = fold edit_key (map uint (uart_in s)) (input_of s))) \<and>
    (16 \<notin> set (kbd_chars (kbd_shift s) (kbd_in s)) \<longrightarrow>
      runs kbdintr s (\<lambda>_ t. in_ok t \<and> screen_ok t \<and> sched_ok t \<and> cpust t = settled (cpust s) \<and> kbd_in t = [] \<and>
        input_of t = fold edit_key (kbd_chars (kbd_shift s) (kbd_in s)) (input_of s)))"
proof (intro conjI impI)
  assume u: "uart s \<and> 16 \<notin> set (uart_in s)"
  have e: "runs uartintr s Q = runs (consoleintr (Suc (length (uart_in s))) uartgetc) s Q" for Q
    by (simp add: uartintr_def runs_bnd runs_gets)
  have "16 \<notin> set (map uint (uart_in s))"
  proof
    assume "16 \<in> set (map uint (uart_in s))"
    then obtain b where "b \<in> set (uart_in s)" "uint b = uint (16 :: uchar)" by auto
    then have "b = 16" by (simp only: word_uint_eq_iff)
    then show False using u \<open>b \<in> set (uart_in s)\<close> by simp
  qed
  then show "runs uartintr s (\<lambda>_ t. in_ok t \<and> screen_ok t \<and> sched_ok t \<and> cpust t = settled (cpust s) \<and> uart_in t = [] \<and>
      input_of t = fold edit_key (map uint (uart_in s)) (input_of s))"
    unfolding e using u uart_dev.intr_run [OF assms, of "Suc (length (uart_in s))"] by (auto elim!: runs_conseq)
next
  assume "16 \<notin> set (kbd_chars (kbd_shift s) (kbd_in s))"
  moreover have "length (kbd_chars h bs) = length bs" for h bs by (induction bs arbitrary: h) (simp_all add: Let_def)
  moreover from this have "kbd_chars h bs = [] \<longleftrightarrow> bs = []" for h bs by (metis length_0_conv)
  moreover have "runs kbdintr s Q = runs (consoleintr (Suc (length (kbd_in s))) kbdgetc) s Q" for Q
    by (simp add: kbdintr_def runs_bnd runs_gets)
  ultimately show "runs kbdintr s (\<lambda>_ t. in_ok t \<and> screen_ok t \<and> sched_ok t \<and> cpust t = settled (cpust s) \<and> kbd_in t = [] \<and>
      input_of t = fold edit_key (kbd_chars (kbd_shift s) (kbd_in s)) (input_of s))"
    using kbd_dev.intr_run [OF assms, of "Suc (length (kbd_in s))"] by (auto elim!: runs_conseq)
qed

text \<open>
  (C37) A line typed is a line read.  At most 127 ordinary characters and a return arrive at an empty input buffer and are taken by
  the interrupt; then \<^verbatim>\<open>consoleread\<close> of enough bytes, on an inode its caller has locked, does not wait and returns exactly that line with a
  newline at the end.  The buffer is empty again, the inode is locked again, and the locks are as before.
\<close>

theorem console_line_roundtrip:
  fixes s :: "'z kst_scheme"
  assumes "in_ok s" and "screen_ok s" and "\<not> panicked s" and "sched_ok s" and "can_lock InputLock (cpust s)" and "can_lock IcacheLock (cpust s)"
    and "uart s" and "uart_in s = cs @ [13]" and "list_all plain cs" and "length cs \<le> 127" and "length cs < nat (sint n)"
    and "input_of s = ([], [])" and "1 \<le> i_ref (inodes s ip)" and "i_busy (inodes s ip)" and "i_valid (inodes s ip)"
  shows "runs (sq uartintr (consoleread ip n)) s (\<lambda>x t. x = Some (cs @ [10]) \<and> in_ok t \<and> input_of t = ([], []) \<and>
    inodes t = inodes s \<and> cpust t = settled (cpust s))"
proof -
  have "fold edit_key (map uint (uart_in s)) (input_of s) = (cs @ [10], [])"
    using assms(8,10) edit_plain [OF assms(9), of "[]" "[]"] by (simp add: assms(12) edit_key_def)
  moreover have "16 \<notin> set (map uint (uart_in s))" using assms(8,9) by (auto simp: list_all_iff plain_def)
  moreover have "runs uartintr s Q = runs (consoleintr (Suc (length (uart_in s))) uartgetc) s Q" for Q
    by (simp add: uartintr_def runs_bnd runs_gets)
  ultimately have r: "runs uartintr s (\<lambda>_ t. in_ok t \<and> sched_ok t \<and> cpust t = settled (cpust s) \<and> input_of t = (cs @ [10], []))"
    using uart_dev.intr_run [OF assms(1-5), of "Suc (length (uart_in s))"] assms(7) by (auto elim!: runs_conseq)
  show ?thesis unfolding runs_sq
  proof (rule runs_conseq [OF runs_leaves [OF r leaves_uartintr]], elim conjE)
    fix t :: "'z kst_scheme"
    assume t: "in_ok t" "sched_ok t" "cpust t = settled (cpust s)" "input_of t = (cs @ [10], [])" and i: "inodes t = inodes s"
    have l: "can_lock InputLock (cpust t)" "can_lock IcacheLock (cpust t)" using assms(5,6) by (simp_all add: t(3) can_lock_def)
    have "read_line (nat (sint n)) False (fst (input_of t)) = Some (cs @ [10], [])" using read_plain [OF assms(9,11)] t(4) by simp
    from consoleread_run [OF t(1,2) l _ _ _ this, of ip]
    show "runs (consoleread ip n) t (\<lambda>x t. x = Some (cs @ [10]) \<and> in_ok t \<and> input_of t = ([], []) \<and> inodes t = inodes s \<and> cpust t = settled (cpust s))"
      using assms(13-15) t(3,4) i by simp
  qed
qed

section \<open>A concrete state\<close>

text \<open>
  An empty input buffer whose counters are about to wrap around, four bytes waiting at the serial port, two at the
  keyboard controller, and the cursor near the end of the screen.
\<close>

definition sample_cons :: kst where
  "sample_cons = sample_pipes \<lparr>files = (\<lambda>_. \<lparr>f_type = FD_NONE, f_ref = 0, f_readable = False, f_writable = False,
       f_pipe = 0, f_ip = None, f_off = 0\<rparr>), fork_first = False,
     ticks = 0, panicked = False, cons_locking = True, crt_cursor = 1900, uart = True, uart_out = [],
     uart_in = [108, 115, 13], kbd_in = [0x1E, 0x0E], kbd_shift = 0, in_buf = (\<lambda>_. 0), in_r = -2, in_w = -2, in_e = -2\<rparr>"

lemma sample_cons_sel [simp]:
  "panicked sample_cons = False" "cons_locking sample_cons = True" "uart sample_cons = True" "uart_out sample_cons = []"
  "uart_in sample_cons = [108, 115, 13]" "kbd_in sample_cons = [0x1E, 0x0E]" "kbd_shift sample_cons = 0" "cpust sample_cons = boot_cpust"
  "in_r sample_cons = -2" "in_w sample_cons = -2" "in_e sample_cons = -2" "crt_cursor sample_cons = 1900"
  by (simp_all add: sample_cons_def sample_pipes_def sample_fs_def sample_log_def sample_bc_def sample_table_def)

lemma sample_cons_ok:
  "in_ok sample_cons" "screen_ok sample_cons" "input_of sample_cons = ([], [])" "sched_ok sample_cons" "can_lock InputLock (cpust sample_cons)"
proof -
  show i: "input_of sample_cons = ([], [])" by (simp add: input_of_def)
  show "in_ok sample_cons" by (simp add: in_ok_def i)
  show "screen_ok sample_cons" by (simp add: screen_ok_def)
  have "caller InputLock 0 sample_cons"
    by (simp add: sample_cons_def sample_pipes_def sample_fs_def sample_log_def sample_bc_def sample_caller)
  then show "sched_ok sample_cons" "can_lock InputLock (cpust sample_cons)" using callerD by blast+
qed

theorem printint_correct_witness:
  "\<exists>cs. printint 0x80000000 10 True sample_cons = foreach cs consputc sample_cons \<and> length cs \<le> 11 \<and> read_number 10 cs = - 2147483648"
  using printint_correct [of 10 "0x80000000" True sample_cons] by simp

theorem cprintf_correct_witness:
  "runs (cprintf ''pid %d'' [Num 7]) sample_cons (\<lambda>_ t. uart_out t = [112, 105, 100, 32, 55] \<and> screen_ok t)"
proof -
  have "(16 :: nat) = Suc 15" by simp
  then have "digits_of 16 10 7 = Some [7]" by (simp only: digits_of.simps) simp
  then have "printint_chars 7 10 True = Some [55]" by (simp add: printint_chars_def digit_char_def)
  then have "cprintf_text ''pid %d'' [Num 7] = Some [112, 105, 100, 32, 55]" by simp
  from cprintf_correct [OF this sample_cons_ok(2)] show ?thesis
    by (auto simp: line_bytes_def elim!: runs_conseq)
qed

theorem consoleintr_correct_witness:
  "runs uartintr sample_cons (\<lambda>_ t. input_of t = ([108, 115, 10], [])) \<and> runs kbdintr sample_cons (\<lambda>_ t. input_of t = ([], []) \<and> kbd_in t = [])"
proof -
  have k: "kbd_chars 0 [0x1E, 0x0E] = [97, 8]"
    by (simp add: Let_def kbd_decode_def shiftcode_def togglecode_def charcode_def normalmap_def key_table_def)
  have f: "fold edit_key (map uint [108, 115, 13 :: uchar]) (input_of sample_cons) = ([108, 115, 10], [])"
    "fold edit_key [97, 8] (input_of sample_cons) = ([], [])"
    unfolding sample_cons_sel k sample_cons_ok by (simp_all add: edit_key_def)
  from consoleintr_correct [OF sample_cons_ok(1,2) _ sample_cons_ok(4,5)] show ?thesis
    unfolding f sample_cons_sel k by (auto elim!: runs_conseq)
qed

theorem console_line_roundtrip_witness:
  "runs (sq uartintr (consoleread 1 10)) (sample_cons\<lparr>inodes := (\<lambda>i. inodes sample_cons i\<lparr>i_ref := 1, i_busy := True, i_valid := True\<rparr>)\<rparr>) (\<lambda>x t. x = Some [108, 115, 10] \<and> input_of t = ([], []))"
proof -
  let ?s = "sample_cons\<lparr>inodes := (\<lambda>i. inodes sample_cons i\<lparr>i_ref := 1, i_busy := True, i_valid := True\<rparr>)\<rparr>"
  have i: "input_of ?s = ([], [])" "in_ok ?s" using input_cong [of ?s sample_cons] sample_cons_ok(1,3) by simp_all
  have o: "screen_ok ?s" "sched_ok ?s" using sample_cons_ok(2,4) sched_ok_cong [of ?s sample_cons] by (simp_all add: screen_ok_def)
  have l: "can_lock InputLock (cpust ?s)" "can_lock IcacheLock (cpust ?s)"
    using sample_cons_ok(5) by (simp_all add: can_lock_def lock_free_def boot_cpust_def)
  have "runs (sq uartintr (consoleread 1 10)) ?s (\<lambda>x t. x = Some ([108, 115] @ [10]) \<and> in_ok t \<and> input_of t = ([], []) \<and>
      inodes t = inodes ?s \<and> cpust t = settled (cpust ?s))"
    by (rule console_line_roundtrip [OF i(2) o(1) _ o(2) l]) (use i(1) in \<open>simp_all add: plain_def\<close>)
  then show ?thesis by (rule runs_conseq) simp
qed

end
