(* ===== verification/Grep.thy ===== *)
theory Grep
  imports Prelude
begin

text \<open>
  The pattern matcher and the main loop of \<^verbatim>\<open>grep\<close> (\<^verbatim>\<open>src/user/grep.c\<close>) with \<^verbatim>\<open>strchr\<close> (\<^verbatim>\<open>src/user/ulib.c\<close>).

  A C string is the list of its characters before the NUL, and a pointer into it is a suffix of the list.  The
  buffer of the main loop is an array of 1024 bytes; a read past its end is undefined.  What \<^verbatim>\<open>read\<close> returns is an
  argument, call by call.
\<close>

section \<open>The matcher\<close>

abbreviation (input) c_star :: uchar where "c_star \<equiv> 42"
abbreviation (input) c_dot :: uchar where "c_dot \<equiv> 46"
abbreviation (input) c_dollar :: uchar where "c_dollar \<equiv> 36"
abbreviation (input) c_hat :: uchar where "c_hat \<equiv> 94"

function matchhere :: "uchar list \<Rightarrow> uchar list \<Rightarrow> bool" and matchstar :: "uchar \<Rightarrow> uchar list \<Rightarrow> uchar list \<Rightarrow> bool" where
  "matchhere re str =
     (case re of
        [] \<Rightarrow> True
      | c # re1 \<Rightarrow>
          if re1 \<noteq> [] \<and> hd re1 = c_star then matchstar c (tl re1) str
          else if c = c_dollar \<and> re1 = [] then str = []
          else
            (case str of
               [] \<Rightarrow> False
             | x # xs \<Rightarrow> if c = c_dot \<or> c = x then matchhere re1 xs else False))"
| "matchstar c re str =
     (if matchhere re str then True
      else
        (case str of
           [] \<Rightarrow> False
         | x # xs \<Rightarrow> if x = c \<or> c = c_dot then matchstar c re xs else False))"
  by pat_completeness auto

termination
  by (relation "inv_image (less_than <*lex*> less_than)
       (case_sum (\<lambda>(re, str). (2 * length re, length str)) (\<lambda>(c, re, str). (2 * length re + 1, length str)))")
    (auto simp: neq_Nil_conv)

declare matchhere.simps [simp del] matchstar.simps [simp del]

text \<open>The loop of \<^verbatim>\<open>match\<close> tries every suffix of the text, the empty one included.\<close>

fun match_loop :: "uchar list \<Rightarrow> uchar list \<Rightarrow> bool" where
  "match_loop re str =
     (if matchhere re str then True
      else (case str of [] \<Rightarrow> False | x # xs \<Rightarrow> match_loop re xs))"

declare match_loop.simps [simp del]

definition match :: "uchar list \<Rightarrow> uchar list \<Rightarrow> bool" where
  "match re str = (if re \<noteq> [] \<and> hd re = c_hat then matchhere (tl re) str else match_loop re str)"

section \<open>What a pattern means\<close>

text \<open>
  A pattern is a sequence of characters, of starred characters and possibly an end mark.  \<open>accepts is str\<close>: the items
  match a prefix of the text, the rest of which is arbitrary unless the last item is the end mark.
\<close>

datatype item = One uchar | Star uchar | End

fun items :: "uchar list \<Rightarrow> item list" where
  "items [] = []"
| "items [c] = (if c = c_dollar then [End] else [One c])"
| "items (c # d # re) = (if d = c_star then Star c # items re else One c # items (d # re))"

definition fits :: "uchar \<Rightarrow> uchar \<Rightarrow> bool" where
  "fits c x \<longleftrightarrow> c = c_dot \<or> c = x"

inductive accepts :: "item list \<Rightarrow> uchar list \<Rightarrow> bool" where
  none: "accepts [] str"
| mark: "accepts [End] []"
| one: "fits c x \<Longrightarrow> accepts is xs \<Longrightarrow> accepts (One c # is) (x # xs)"
| star: "list_all (fits c) us \<Longrightarrow> accepts is xs \<Longrightarrow> accepts (Star c # is) (us @ xs)"

inductive_cases accepts_EndE: "accepts (End # is) str"
inductive_cases accepts_OneE: "accepts (One c # is) str"
inductive_cases accepts_StarE: "accepts (Star c # is) str"

lemma matchstar_iff:
  assumes "\<And>str. matchhere re str \<longleftrightarrow> accepts (items re) str"
  shows "matchstar c re str \<longleftrightarrow> accepts (Star c # items re) str"
proof (induction str)
  case Nil
  show ?case using assms [of "[]"] accepts.star [of c "[]" "items re" "[]"]
    by (subst matchstar.simps) (auto elim: accepts_StarE)
next
  case (Cons x xs)
  have "accepts (Star c # items re) (x # xs) \<longleftrightarrow> accepts (items re) (x # xs) \<or> fits c x \<and> accepts (Star c # items re) xs"
  proof
    assume "accepts (Star c # items re) (x # xs)"
    then obtain us ys where "x # xs = us @ ys" "list_all (fits c) us" "accepts (items re) ys" by (elim accepts_StarE) auto
    then show "accepts (items re) (x # xs) \<or> fits c x \<and> accepts (Star c # items re) xs"
      by (cases us) (auto intro: accepts.star)
  next
    assume "accepts (items re) (x # xs) \<or> fits c x \<and> accepts (Star c # items re) xs"
    then show "accepts (Star c # items re) (x # xs)"
    proof
      assume "accepts (items re) (x # xs)"
      then show ?thesis using accepts.star [of c "[]"] by simp
    next
      assume f: "fits c x \<and> accepts (Star c # items re) xs"
      then obtain us ys where "xs = us @ ys" "list_all (fits c) us" "accepts (items re) ys" by (auto elim: accepts_StarE)
      then show ?thesis using f accepts.star [of c "x # us" "items re" ys] by simp
    qed
  qed
  then show ?case using Cons assms by (subst matchstar.simps) (auto simp: fits_def)
qed

lemma matchhere_iff: "matchhere re str \<longleftrightarrow> accepts (items re) str"
proof (induction re arbitrary: str rule: items.induct)
  case 1
  show ?case by (subst matchhere.simps) (simp add: accepts.none)
next
  case (2 c)
  have "matchhere [] str" for str by (subst matchhere.simps) simp
  then show ?case
    by (subst matchhere.simps)
      (auto simp: fits_def intro: accepts.intros elim: accepts_EndE accepts_OneE split: list.splits)
next
  case (3 c d re)
  show ?case
  proof (cases "d = c_star")
    case True
    then show ?thesis using matchstar_iff 3(1) by (subst matchhere.simps) simp
  next
    case False
    then show ?thesis using 3(2)
      by (subst matchhere.simps) (auto simp: fits_def intro: accepts.one elim: accepts_OneE split: list.splits)
  qed
qed

lemma match_loop_iff: "match_loop re str \<longleftrightarrow> (\<exists>us xs. str = us @ xs \<and> matchhere re xs)"
proof (induction str)
  case Nil
  show ?case by (subst match_loop.simps) simp
next
  case (Cons x xs)
  have "(\<exists>us ys. x # xs = us @ ys \<and> matchhere re ys) \<longleftrightarrow> matchhere re (x # xs) \<or> (\<exists>us ys. xs = us @ ys \<and> matchhere re ys)"
    by (auto simp: Cons_eq_append_conv)
  then show ?case using Cons by (subst match_loop.simps) auto
qed

section \<open>The main loop\<close>

type_synonym gbuf = "nat \<Rightarrow> uchar"

text \<open>
  \<^verbatim>\<open>strchr\<close> from index \<open>p\<close> of the buffer, with \<open>k\<close> bytes up to its end: \<open>None\<close> when it reads past the end,
  \<open>Some None\<close> for the result 0.
\<close>

primrec strchr_buf :: "nat \<Rightarrow> gbuf \<Rightarrow> nat \<Rightarrow> uchar \<Rightarrow> nat option option" where
  "strchr_buf 0 b p c = None"
| "strchr_buf (Suc k) b p c =
     (if b p = 0 then Some None
      else if b p = c then Some (Some p)
      else strchr_buf k b (Suc p) c)"

abbreviation (input) GBUF :: nat where "GBUF \<equiv> 1024"

lemma strchr_buf_Some: "strchr_buf k b p c = Some (Some q) \<Longrightarrow> p \<le> q \<and> q < p + k \<and> b q = c \<and> (\<forall>i. p \<le> i \<and> i < q \<longrightarrow> b i \<noteq> 0 \<and> b i \<noteq> c)"
proof (induction k arbitrary: p)
  case (Suc k)
  show ?case
  proof (cases "b p = 0 \<or> b p = c")
    case True
    then show ?thesis using Suc.prems by (auto split: if_splits)
  next
    case False
    then have "Suc p \<le> q \<and> q < Suc p + k \<and> b q = c \<and> (\<forall>i. Suc p \<le> i \<and> i < q \<longrightarrow> b i \<noteq> 0 \<and> b i \<noteq> c)"
      using Suc.IH [of "Suc p"] Suc.prems by simp
    moreover have "p \<le> i \<longleftrightarrow> i = p \<or> Suc p \<le> i" for i by auto
    ultimately show ?thesis using False by auto
  qed
qed simp

text \<open>The inner loop: the lines of the buffer from index \<open>p\<close> on.  The newline of a line that does not match stays overwritten.\<close>

function grep_lines :: "uchar list \<Rightarrow> gbuf \<Rightarrow> nat \<Rightarrow> uchar list \<Rightarrow> (gbuf \<times> nat \<times> uchar list) option" where
  "grep_lines pattern b p out =
     (case strchr_buf (GBUF - p) b p 10 of
        None \<Rightarrow> None
      | Some None \<Rightarrow> Some (b, p, out)
      | Some (Some q) \<Rightarrow>
          if match pattern (map b [p..<q])
          then grep_lines pattern b (Suc q) (out @ map b [p..<Suc q])
          else grep_lines pattern (b(q := 0)) (Suc q) out)"
  by pat_completeness auto

termination
  by (relation "measure (\<lambda>(pattern, b, p, out). GBUF - p)") (auto dest: strchr_buf_Some)

declare grep_lines.simps [simp del]

text \<open>
  The outer loop, over what the calls of \<^verbatim>\<open>read\<close> return; the result is what is written to the output, or how the loop leaves its
  buffer: \<^verbatim>\<open>strchr\<close> reads past its end, a negative \<open>m\<close> makes \<^verbatim>\<open>read\<close> write from \<open>m\<close> on, in front of it, or \<^verbatim>\<open>read\<close> returns more
  than it was asked for.
\<close>

datatype gfault = ReadPast | WriteBefore int | ReadTooLong

definition fill :: "gbuf \<Rightarrow> nat \<Rightarrow> uchar list \<Rightarrow> gbuf" where
  "fill b m bs = (\<lambda>i. if m \<le> i \<and> i < m + length bs then bs ! (i - m) else b i)"

fun grep :: "uchar list \<Rightarrow> uchar list list \<Rightarrow> gbuf \<Rightarrow> int \<Rightarrow> uchar list \<Rightarrow> gfault + uchar list" where
  "grep pattern [] b m out = Inr out"
| "grep pattern (bs # reads) b m out =
     (if bs = [] then Inr out
      else if m < 0 then Inl (WriteBefore m)
      else if m + int (length bs) > int GBUF then Inl ReadTooLong
      else
        let b1 = fill b (nat m) bs;
            m1 = m + int (length bs)
        in case grep_lines pattern b1 0 out of
             None \<Rightarrow> Inl ReadPast
           | Some (b2, p, out2) \<Rightarrow>
               let m2 = (if p = 0 then 0 else m1)
               in if m2 > 0
                  then grep pattern reads (\<lambda>i. if int i < m2 - int p then b2 (p + i) else b2 i) (m2 - int p) out2
                  else grep pattern reads b2 m2 out2)"

section \<open>Lines\<close>

definition unlines :: "uchar list list \<Rightarrow> uchar list" where
  "unlines ls = concat (map (\<lambda>l. l @ [10]) ls)"

definition line_ok :: "uchar list \<Rightarrow> bool" where
  "line_ok l \<longleftrightarrow> 0 \<notin> set l \<and> 10 \<notin> set l"

definition holds :: "gbuf \<Rightarrow> nat \<Rightarrow> uchar list \<Rightarrow> bool" where
  "holds b p str \<longleftrightarrow> (\<forall>i < length str. b (p + i) = str ! i) \<and> b (p + length str) = 0"

lemma holds_append: "holds b p (xs @ ys) \<Longrightarrow> (\<forall>i < length xs. b (p + i) = xs ! i) \<and> holds b (p + length xs) ys"
  unfolding holds_def
proof (intro conjI allI impI; elim conjE)
  assume h: "\<forall>i < length (xs @ ys). b (p + i) = (xs @ ys) ! i" "b (p + length (xs @ ys)) = 0"
  show "b (p + i) = xs ! i" if "i < length xs" for i using h(1) that by (simp add: nth_append)
  show "b (p + length xs + i) = ys ! i" if "i < length ys" for i
    using h(1) [rule_format, of "length xs + i"] that by (simp add: nth_append add.assoc)
  show "b (p + length xs + length ys) = 0" using h(2) by (simp add: add.assoc)
qed

lemma holds_line:
  assumes "holds b p (l @ 10 # ys)"
  shows "map b [p..<p + length l] = l" "b (p + length l) = 10" "holds b (Suc (p + length l)) ys"
proof -
  have a: "\<forall>i < length l. b (p + i) = l ! i" "holds b (p + length l) (10 # ys)" using holds_append [OF assms] by auto
  show "map b [p..<p + length l] = l" by (rule nth_equalityI) (simp_all add: a(1))
  show "b (p + length l) = 10" using a(2) by (auto simp: holds_def dest: spec [of _ 0])
  show "holds b (Suc (p + length l)) ys" using holds_append [of b "p + length l" "[10]" ys] a(2) by simp
qed

lemma strchr_buf_line:
  assumes "line_ok l" "map b [p..<p + length l] = l" "b (p + length l) = 10" "length l < k"
  shows "strchr_buf k b p 10 = Some (Some (p + length l))"
  using assms
proof (induction l arbitrary: p k)
  case Nil
  then obtain k' where "k = Suc k'" by (cases k) auto
  then show ?case using Nil by simp
next
  case (Cons x l)
  then obtain k' where k: "k = Suc k'" "length l < k'" by (cases k) auto
  have u: "[p..<p + length (x # l)] = p # [Suc p..<Suc p + length l]" by (simp add: upt_conv_Cons del: upt_Suc)
  have x: "b p = x" "map b [Suc p..<Suc p + length l] = l" using Cons.prems(2) unfolding u by (simp_all del: upt_Suc)
  have "strchr_buf k' b (Suc p) 10 = Some (Some (Suc p + length l))"
    using Cons.IH [of "Suc p" k'] Cons.prems x k by (auto simp: line_ok_def)
  then show ?case using x k Cons.prems(1) by (auto simp: line_ok_def)
qed

lemma strchr_buf_found:
  assumes "line_ok (map b [p..<q])" "b q = 10" "p \<le> q" "q < p + k"
  shows "strchr_buf k b p 10 = Some (Some q)"
  using strchr_buf_line [OF assms(1), of b p k] assms(2-4) by simp

lemma strchr_buf_end: "b p = 0 \<Longrightarrow> 0 < k \<Longrightarrow> strchr_buf k b p c = Some None"
  by (cases k) simp_all

lemma grep_lines_run:
  assumes "list_all line_ok ls" "holds b p (unlines ls)" "p + length (unlines ls) < GBUF"
  shows "\<exists>b'. grep_lines pattern b p out = Some (b', p + length (unlines ls), out @ unlines (filter (match pattern) ls))"
  using assms
proof (induction ls arbitrary: b p out)
  case Nil
  then have "strchr_buf (GBUF - p) b p 10 = Some None" by (intro strchr_buf_end) (simp_all add: holds_def unlines_def)
  then show ?case by (subst grep_lines.simps) (simp add: unlines_def)
next
  case (Cons l ls)
  let ?q = "p + length l"
  have e: "unlines (l # ls) = l @ 10 # unlines ls" by (simp add: unlines_def)
  note h = holds_line [OF Cons.prems(2) [unfolded e]]
  have lt: "Suc ?q + length (unlines ls) < GBUF" using Cons.prems(3) by (simp add: e)
  have s: "strchr_buf (GBUF - p) b p 10 = Some (Some ?q)"
    by (rule strchr_buf_line) (use Cons.prems(1) h lt in auto)
  have ok: "list_all line_ok ls" using Cons.prems(1) by simp
  show ?case
  proof (cases "match pattern l")
    case True
    have "map b [p..<Suc ?q] = l @ [10]" using h(1,2) by simp
    then have "grep_lines pattern b p out = grep_lines pattern b (Suc ?q) (out @ l @ [10])"
      using s h(1) True by (subst grep_lines.simps) simp
    then show ?thesis using Cons.IH [OF ok h(3) lt, of "out @ l @ [10]"] True by (simp add: e add.assoc unlines_def)
  next
    case False
    have "holds (b(?q := 0)) (Suc ?q) (unlines ls)" using h(3) by (simp add: holds_def)
    from Cons.IH [OF ok this lt] have "\<exists>b'. grep_lines pattern (b(?q := 0)) (Suc ?q) out =
        Some (b', Suc ?q + length (unlines ls), out @ unlines (filter (match pattern) ls))" .
    moreover have "grep_lines pattern b p out = grep_lines pattern (b(?q := 0)) (Suc ?q) out"
      using s h(1) False by (subst grep_lines.simps) simp
    ultimately show ?thesis using False by (simp add: e add.assoc)
  qed
qed

section \<open>Properties\<close>

text \<open>
  (C39) The matcher is correct.  \<^verbatim>\<open>match\<close> answers yes exactly when the pattern, read as a sequence of characters (where
  a dot fits every character), starred characters and an end mark, describes the beginning of the text or, unless it starts with \<^verbatim>\<open>^\<close>, the
  beginning of some suffix of it.
\<close>

theorem match_correct:
  "match re str \<longleftrightarrow>
     (if re \<noteq> [] \<and> hd re = c_hat then accepts (items (tl re)) str
      else \<exists>us xs. str = us @ xs \<and> accepts (items re) xs)"
  by (simp add: match_def match_loop_iff matchhere_iff)

text \<open>
  \<^verbatim>\<open>grep\<close> on complete lines that arrive in one \<^verbatim>\<open>read\<close> and leave room for a NUL prints exactly the lines that match, in order.
\<close>

theorem grep_one_read:
  assumes "list_all line_ok ls" and "ls \<noteq> []" and "length (unlines ls) < GBUF"
  shows "grep pattern [unlines ls] (\<lambda>_. 0) 0 [] = Inr (unlines (filter (match pattern) ls))"
proof -
  let ?b = "fill (\<lambda>_. 0) 0 (unlines ls)"
  have "holds ?b 0 (unlines ls)" by (simp add: holds_def fill_def)
  from grep_lines_run [OF assms(1) this, of pattern "[]"] assms(3) obtain b' where
    "grep_lines pattern ?b 0 [] = Some (b', length (unlines ls), unlines (filter (match pattern) ls))" by auto
  moreover have "unlines ls \<noteq> []" using assms(2) by (cases ls) (simp_all add: unlines_def)
  ultimately show ?thesis using assms(3) by simp
qed

theorem grep_one_read_witness:
  "grep [97] [[98, 97, 10, 99, 10]] (\<lambda>_. 0) 0 [] = Inr [98, 97, 10]"
proof -
  have "match [97] [98, 97]" "\<not> match [97] [99]"
    by (simp_all add: match_def match_loop.simps matchhere.simps)
  then show ?thesis using grep_one_read [of "[[98, 97], [99]]" "[97]"] by (simp add: line_ok_def unlines_def)
qed

text \<open>
  (C40) The buffer is not terminated after a read.  When a line that matches is followed by a read of a shorter line, the rest of the first
  line is found behind it and treated as a line of the input, which it is not: the output is that of three lines.  A third read is then told
  to write in front of the buffer, by as many bytes as the second line is shorter.
\<close>

theorem grep_stale_bytes:
  assumes "line_ok l1" and "line_ok l2" and "length l2 < length l1" and "length l1 + 1 < GBUF" and "match pattern l1"
  shows "grep pattern [l1 @ [10], l2 @ [10]] (\<lambda>_. 0) 0 [] = Inr (l1 @ [10] @ unlines (filter (match pattern) [l2, drop (length l2 + 1) l1])) \<and>
    (\<forall>bs reads. bs \<noteq> [] \<longrightarrow>
      grep pattern ((l1 @ [10]) # (l2 @ [10]) # bs # reads) (\<lambda>_. 0) 0 [] = Inl (WriteBefore (int (length l2) - int (length l1))))"
proof -
  define v where "v = drop (length l2 + 1) l1"
  define b1 where "b1 = fill (\<lambda>_. 0) 0 (l1 @ [10])"
  define b2 where "b2 = fill b1 0 (l2 @ [10])"
  have vl: "length v = length l1 - length l2 - 1" by (simp add: v_def)
  have "holds b1 0 (l1 @ 10 # [])" by (simp add: holds_def b1_def fill_def)
  note h = holds_line [OF this, simplified]
  have s: "strchr_buf GBUF b1 0 10 = Some (Some (length l1))" using strchr_buf_line [OF assms(1), of b1 0 GBUF] h(1,2) assms(4) by simp
  have e: "strchr_buf (GBUF - Suc (length l1)) b1 (Suc (length l1)) 10 = Some None"
    by (rule strchr_buf_end) (use h(3) assms(4) in \<open>simp_all add: holds_def\<close>)
  have g1: "grep_lines pattern b1 0 [] = Some (b1, Suc (length l1), l1 @ [10])"
    by (subst grep_lines.simps, subst grep_lines.simps) (use s e h(1,2) assms(5) in simp)
  have u: "unlines [l2, v] = l2 @ 10 # v @ [10]" "length (unlines [l2, v]) = Suc (length l1)" using assms(3) vl by (simp_all add: unlines_def)
  have "b2 i = unlines [l2, v] ! i" if "i < Suc (length l1)" for i
  proof (cases "i \<le> length l2")
    case True
    then show ?thesis by (simp add: b2_def fill_def u nth_append)
  next
    case False
    then have i: "i - length l2 = Suc (i - length l2 - 1)" by simp
    have "i < length l1 \<Longrightarrow> i - length l2 - 1 < length v" "i = length l1 \<Longrightarrow> i - length l2 - 1 = length v" "length l2 + 1 + (i - length l2 - 1) = i"
      using False vl by linarith+
    then have "(v @ [10]) ! (i - length l2 - 1) = (l1 @ [10]) ! i"
      using that assms(3) by (cases "i = length l1") (simp_all add: nth_append v_def)
    then show ?thesis using False that i by (simp add: b2_def b1_def fill_def u nth_append)
  qed
  moreover have "b2 (Suc (length l1)) = 0" using assms(3) by (simp add: b2_def b1_def fill_def)
  ultimately have "holds b2 0 (unlines [l2, v])" using u(2) by (simp add: holds_def)
  moreover have "list_all line_ok [l2, v]" using assms(1,2) set_drop_subset [of "length l2 + 1" l1] by (auto simp: line_ok_def v_def)
  ultimately obtain b3 where g2: "grep_lines pattern b2 0 (l1 @ [10]) = Some (b3, Suc (length l1), (l1 @ [10]) @ unlines (filter (match pattern) [l2, v]))"
    using grep_lines_run [of "[l2, v]" b2 0 pattern "l1 @ [10]"] u(2) assms(4) by auto
  have "grep pattern ((l1 @ [10]) # (l2 @ [10]) # reads) (\<lambda>_. 0) 0 [] = grep pattern reads b3 (int (length l2) - int (length l1))
      (l1 @ [10] @ unlines (filter (match pattern) [l2, v]))" for reads
    using g1 g2 assms(3,4) by (simp add: b1_def [symmetric] b2_def [symmetric])
  then show ?thesis using assms(3) by (simp add: v_def)
qed

theorem grep_stale_bytes_witness:
  "grep [108] [[104, 101, 108, 108, 111, 10], [104, 105, 10]] (\<lambda>_. 0) 0 [] = Inr [104, 101, 108, 108, 111, 10, 108, 111, 10] \<and>
   grep [108] [[104, 101, 108, 108, 111, 10], [104, 105, 10], [111, 10]] (\<lambda>_. 0) 0 [] = Inl (WriteBefore (- 3))"
proof -
  have "match [108] [104, 101, 108, 108, 111]" "\<not> match [108] [104, 105]" "match [108] [108, 111]"
    by (simp_all add: match_def match_loop.simps matchhere.simps)
  then show ?thesis
    using grep_stale_bytes [of "[104, 101, 108, 108, 111]" "[104, 105]" "[108]"] by (simp add: line_ok_def unlines_def)
qed

end
