(* ===== verification/Shell.thy ===== *)
theory Shell
  imports Prelude
begin

text \<open>
  The command parser of the shell (\<^verbatim>\<open>src/user/sh.c\<close>).

  The command line is the list of its characters before the NUL, and a pointer into it an index; the character at the
  end is the NUL.  A parsed command is a tree whose strings are pairs of indices, the first character and the one after
  the last, as in the C code, until \<^verbatim>\<open>nulterminate\<close> cuts the line into strings.  \<^verbatim>\<open>panic\<close> ends the shell's child and
  is an outcome.  Memory for the nodes is taken to be available.
\<close>

section \<open>Tokens\<close>

type_synonym line = "uchar list"

abbreviation (input) c_bar :: uchar where "c_bar \<equiv> 124"
abbreviation (input) c_lpar :: uchar where "c_lpar \<equiv> 40"
abbreviation (input) c_rpar :: uchar where "c_rpar \<equiv> 41"
abbreviation (input) c_semi :: uchar where "c_semi \<equiv> 59"
abbreviation (input) c_amp :: uchar where "c_amp \<equiv> 38"
abbreviation (input) c_lt :: uchar where "c_lt \<equiv> 60"
abbreviation (input) c_gt :: uchar where "c_gt \<equiv> 62"
abbreviation (input) c_plus :: uchar where "c_plus \<equiv> 43"
abbreviation (input) c_a :: uchar where "c_a \<equiv> 97"

definition whitespace :: "uchar list" where
  "whitespace = [32, 9, 13, 10, 11]"

definition symbols :: "uchar list" where
  "symbols = [60, 124, 62, 38, 59, 40, 41]"

definition ch :: "line \<Rightarrow> nat \<Rightarrow> uchar" where
  "ch s p = (if p < length s then s ! p else 0)"

text \<open>The loops that advance a pointer over the characters of a kind, up to the end of the line.\<close>

definition skip :: "(uchar \<Rightarrow> bool) \<Rightarrow> line \<Rightarrow> nat \<Rightarrow> nat" where
  "skip P s p = p + length (takeWhile P (drop p s))"

definition is_ws :: "uchar \<Rightarrow> bool" where
  "is_ws c \<longleftrightarrow> c \<in> set whitespace"

definition is_word :: "uchar \<Rightarrow> bool" where
  "is_word c \<longleftrightarrow> c \<notin> set whitespace \<and> c \<notin> set symbols"

text \<open>\<open>gettoken s p = (ret, q, eq, p')\<close>\<close>

definition gettoken :: "line \<Rightarrow> nat \<Rightarrow> uchar \<times> nat \<times> nat \<times> nat" where
  "gettoken s p =
     (let q = skip is_ws s p;
          c = ch s q;
          (ret, e) =
            (if c = 0 then (0, q)
             else if c \<in> {c_bar, c_lpar, c_rpar, c_semi, c_amp, c_lt} then (c, q + 1)
             else if c = c_gt then (if ch s (q + 1) = c_gt then (c_plus, q + 2) else (c, q + 1))
             else (c_a, skip is_word s q))
      in (ret, q, e, skip is_ws s e))"

definition peek :: "line \<Rightarrow> nat \<Rightarrow> uchar list \<Rightarrow> bool \<times> nat" where
  "peek s p toks = (let q = skip is_ws s p in (ch s q \<noteq> 0 \<and> ch s q \<in> set toks, q))"

section \<open>Commands\<close>

datatype 'w cmd =
    EXEC "'w list"
  | REDIR "'w cmd" 'w int int
  | PIPE "'w cmd" "'w cmd"
  | LIST "'w cmd" "'w cmd"
  | BACK "'w cmd"

type_synonym pcmd = "(nat \<times> nat) cmd"

datatype 'a presult = POk 'a nat | PPanic string | PFuel

definition pbind :: "'a presult \<Rightarrow> ('a \<Rightarrow> nat \<Rightarrow> 'b presult) \<Rightarrow> 'b presult" where
  "pbind r f = (case r of POk a p \<Rightarrow> f a p | PPanic msg \<Rightarrow> PPanic msg | PFuel \<Rightarrow> PFuel)"

abbreviation (input) MAXARGS :: nat where "MAXARGS \<equiv> 10"

type_synonym redir = "(nat \<times> nat) \<times> int \<times> int"

text \<open>
  \<^verbatim>\<open>parseredirs\<close> wraps the command in a node for every redirection.  The node of an \<^verbatim>\<open>EXEC\<close> command is filled in while redirections
  already point to it, so the redirections are collected, and wrapped around the finished node by \<open>wrap\<close>.  Every round of the
  loop consumes a character, so the length of the line bounds the rounds.
\<close>

primrec parseredirs :: "nat \<Rightarrow> line \<Rightarrow> nat \<Rightarrow> redir list presult" where
  "parseredirs 0 s p = PFuel"
| "parseredirs (Suc k) s p =
     (case peek s p [c_lt, c_gt] of (more, p1) \<Rightarrow>
      if \<not> more then POk [] p1
      else
        (case gettoken s p1 of (tok, _, _, p2) \<Rightarrow>
         case gettoken s p2 of (tok2, q, eq, p3) \<Rightarrow>
         if tok2 \<noteq> c_a then PPanic ''missing file for redirection''
         else
           pbind (parseredirs k s p3) (\<lambda>rs p4.
             POk (((q, eq), if tok = c_lt then (0, 0) else (0x201, 1)) # rs) p4)))"

definition wrap :: "'w cmd \<Rightarrow> ('w \<times> int \<times> int) list \<Rightarrow> 'w cmd" where
  "wrap c rs = foldl (\<lambda>c (f, mode, fd). REDIR c f mode fd) c rs"

text \<open>The loop of \<^verbatim>\<open>parseexec\<close>: the arguments and the redirections found so far.\<close>

primrec parseexec_loop :: "nat \<Rightarrow> line \<Rightarrow> nat \<Rightarrow> (nat \<times> nat) list \<Rightarrow> redir list \<Rightarrow> pcmd presult" where
  "parseexec_loop 0 s p args rs = PFuel"
| "parseexec_loop (Suc k) s p args rs =
     (case peek s p [c_bar, c_rpar, c_amp, c_semi] of (stop, p1) \<Rightarrow>
      if stop then POk (wrap (EXEC args) rs) p1
      else
        (case gettoken s p1 of (tok, q, eq, p2) \<Rightarrow>
         if tok = 0 then POk (wrap (EXEC args) rs) p2
         else if tok \<noteq> c_a then PPanic ''syntax''
         else if length args + 1 \<ge> MAXARGS then PPanic ''too many args''
         else
           pbind (parseredirs (Suc (length s)) s p2) (\<lambda>rs' p3.
             parseexec_loop k s p3 (args @ [(q, eq)]) (rs @ rs'))))"

text \<open>The loop of \<^verbatim>\<open>parseline\<close> over \<^verbatim>\<open>&\<close>.\<close>

primrec parseback :: "nat \<Rightarrow> line \<Rightarrow> nat \<Rightarrow> pcmd \<Rightarrow> pcmd presult" where
  "parseback 0 s p c = PFuel"
| "parseback (Suc k) s p c =
     (case peek s p [c_amp] of (more, p1) \<Rightarrow>
      if more then (case gettoken s p1 of (_, _, _, p2) \<Rightarrow> parseback k s p2 (BACK c))
      else POk c p1)"

text \<open>The recursive descent; the first argument bounds the depth of the calls.\<close>

fun parseline :: "nat \<Rightarrow> line \<Rightarrow> nat \<Rightarrow> pcmd presult"
  and parsepipe :: "nat \<Rightarrow> line \<Rightarrow> nat \<Rightarrow> pcmd presult"
  and parseexec :: "nat \<Rightarrow> line \<Rightarrow> nat \<Rightarrow> pcmd presult"
  and parseblock :: "nat \<Rightarrow> line \<Rightarrow> nat \<Rightarrow> pcmd presult" where
  "parseline 0 s p = PFuel"
| "parseline (Suc n) s p =
     pbind (parsepipe n s p) (\<lambda>c p1.
     pbind (parseback (Suc (length s)) s p1 c) (\<lambda>c p2.
     case peek s p2 [c_semi] of (more, p3) \<Rightarrow>
     if more then
       (case gettoken s p3 of (_, _, _, p4) \<Rightarrow> pbind (parseline n s p4) (\<lambda>r p5. POk (LIST c r) p5))
     else POk c p3))"
| "parsepipe 0 s p = PFuel"
| "parsepipe (Suc n) s p =
     pbind (parseexec n s p) (\<lambda>c p1.
     case peek s p1 [c_bar] of (more, p2) \<Rightarrow>
     if more then
       (case gettoken s p2 of (_, _, _, p3) \<Rightarrow> pbind (parsepipe n s p3) (\<lambda>r p4. POk (PIPE c r) p4))
     else POk c p2)"
| "parseexec 0 s p = PFuel"
| "parseexec (Suc n) s p =
     (case peek s p [c_lpar] of (block, p1) \<Rightarrow>
      if block then parseblock n s p1
      else
        pbind (parseredirs (Suc (length s)) s p1) (\<lambda>rs p2.
        parseexec_loop (Suc (length s)) s p2 [] rs))"
| "parseblock 0 s p = PFuel"
| "parseblock (Suc n) s p =
     (case peek s p [c_lpar] of (lpar, p1) \<Rightarrow>
      if \<not> lpar then PPanic ''parseblock''
      else
        (case gettoken s p1 of (_, _, _, p2) \<Rightarrow>
         pbind (parseline n s p2) (\<lambda>c p3.
         case peek s p3 [c_rpar] of (rpar, p4) \<Rightarrow>
         if \<not> rpar then PPanic ''syntax - missing )''
         else
           (case gettoken s p4 of (_, _, _, p5) \<Rightarrow>
            pbind (parseredirs (Suc (length s)) s p5) (\<lambda>rs p6. POk (wrap c rs) p6)))))"

declare parseline.simps [simp del] parsepipe.simps [simp del] parseexec.simps [simp del] parseblock.simps [simp del]

section \<open>Cutting the line into strings\<close>

text \<open>The line with its NUL is an array of bytes, in which \<^verbatim>\<open>nulterminate\<close> ends every string of the command with a NUL.\<close>

fun nulterminate :: "pcmd \<Rightarrow> (nat \<Rightarrow> uchar) \<Rightarrow> nat \<Rightarrow> uchar" where
  "nulterminate (EXEC args) b = fold (\<lambda>(q, eq) b. b(eq := 0)) args b"
| "nulterminate (REDIR c f mode fd) b = (nulterminate c b)(snd f := 0)"
| "nulterminate (PIPE l r) b = nulterminate r (nulterminate l b)"
| "nulterminate (LIST l r) b = nulterminate r (nulterminate l b)"
| "nulterminate (BACK c) b = nulterminate c b"

definition parsecmd :: "line \<Rightarrow> (pcmd \<times> (nat \<Rightarrow> uchar)) presult" where
  "parsecmd s =
     pbind (parseline (4 * length s + 4) s 0) (\<lambda>c p.
     case peek s p [] of (_, p1) \<Rightarrow>
     if p1 \<noteq> length s then PPanic ''syntax''
     else POk (c, nulterminate c (ch s)) p1)"

end
