(* ===== verification/Parser.thy ===== *)
theory Parser
  imports Shell
begin

text \<open>
  Properties of the command parser of the shell: it ends on every line, it is inverse to printing a command, and the
  strings it hands to \<^verbatim>\<open>runcmd\<close> are the words of the line.
\<close>

section \<open>Tokens advance\<close>

lemma pbind_simps [simp]:
  "pbind (POk a p) f = f a p" "pbind (PPanic msg) f = PPanic msg" "pbind PFuel f = PFuel"
  by (simp_all add: pbind_def)

lemma pbind_POkE:
  assumes "pbind r f = POk b q"
  obtains a p where "r = POk a p" "f a p = POk b q"
  using assms by (cases r) simp_all

lemma pbind_PFuel: "pbind r f \<noteq> PFuel \<longleftrightarrow> r \<noteq> PFuel \<and> (\<forall>a p. r = POk a p \<longrightarrow> f a p \<noteq> PFuel)"
  by (cases r) simp_all

lemma pbind_cong: "r = r' \<Longrightarrow> (\<And>a p. r' = POk a p \<Longrightarrow> f a p = g a p) \<Longrightarrow> pbind r f = pbind r' g"
  by (cases r') simp_all

lemma skip_bounds:
  assumes "p \<le> length s"
  shows "p \<le> skip P s p" "skip P s p \<le> length s"
  using assms length_takeWhile_le [of P "drop p s"] by (simp_all add: skip_def)

lemma drop_skip: "drop (skip P s p) s = dropWhile P (drop p s)"
  by (simp add: skip_def add.commute dropWhile_eq_drop)

lemma ch_drop: "ch s p = (case drop p s of [] \<Rightarrow> 0 | c # _ \<Rightarrow> c)"
  by (cases "p < length s") (simp_all add: ch_def Cons_nth_drop_Suc [symmetric])

lemma ch_skip: "ch s (skip P s p) \<noteq> 0 \<Longrightarrow> \<not> P (ch s (skip P s p))"
  using hd_dropWhile [of P "drop p s"] by (cases "dropWhile P (drop p s)") (simp_all add: ch_drop drop_skip)

lemma skip_moves: "P (ch s p) \<Longrightarrow> p < length s \<Longrightarrow> p < skip P s p"
  by (simp add: skip_def ch_def Cons_nth_drop_Suc [symmetric])

lemma ch_less: "ch s p \<noteq> 0 \<Longrightarrow> p < length s"
  by (simp add: ch_def split: if_splits)

lemma gettoken_bounds:
  assumes "gettoken s p = (tok, q, e, p')" "p \<le> length s"
  shows "p \<le> q" "q \<le> e" "e \<le> p'" "p' \<le> length s" "tok \<noteq> 0 \<Longrightarrow> q < e"
proof -
  have q: "q = skip is_ws s p" using assms(1) by (simp add: gettoken_def Let_def split: prod.splits)
  have ql: "p \<le> q" "q \<le> length s" using skip_bounds [OF assms(2)] by (simp_all add: q)
  let ?c = "ch s q"
  have te: "(tok, e) = (if ?c = 0 then (0, q)
             else if ?c \<in> {c_bar, c_lpar, c_rpar, c_semi, c_amp, c_lt} then (?c, q + 1)
             else if ?c = c_gt then (if ch s (q + 1) = c_gt then (c_plus, q + 2) else (?c, q + 1))
             else (c_a, skip is_word s q))" and p': "p' = skip is_ws s e"
    using assms(1) unfolding gettoken_def Let_def q [symmetric] by (auto split: prod.splits)
  have w: "is_word ?c" if "?c \<notin> {0, c_bar, c_lpar, c_rpar, c_semi, c_amp, c_lt, c_gt}"
    using that ch_skip [of s is_ws p] by (auto simp: is_word_def symbols_def is_ws_def q)
  have "q \<le> e \<and> e \<le> length s \<and> (tok \<noteq> 0 \<longrightarrow> q < e)"
    using te ql ch_less [of s q] ch_less [of s "q + 1"] skip_bounds [OF ql(2), of is_word] skip_moves [of is_word s q] w
    by (auto split: if_splits)
  then show "q \<le> e" "e \<le> p'" "p' \<le> length s" "tok \<noteq> 0 \<Longrightarrow> q < e" using skip_bounds [of e s is_ws] by (auto simp: p')
  show "p \<le> q" by (rule ql)
qed

lemma peek_bounds:
  assumes "peek s p toks = (b, p')" "p \<le> length s"
  shows "p \<le> p'" "p' \<le> length s" "b \<Longrightarrow> ch s p' \<noteq> 0 \<and> ch s p' \<in> set toks"
  using assms skip_bounds [of p s is_ws] by (auto simp: peek_def Let_def)

lemma gettoken_after_peek:
  assumes "peek s p toks = (b, p1)" "b" "gettoken s p1 = (tok, q, e, p2)" "p \<le> length s"
  shows "p < p2" "p2 \<le> length s"
proof -
  have b: "p \<le> p1" "p1 \<le> length s" "ch s p1 \<noteq> 0" using peek_bounds [OF assms(1,4)] assms(2) by auto
  have p1: "p1 = skip is_ws s p" using assms(1) by (simp add: peek_def Let_def)
  note g = gettoken_bounds [OF assms(3) b(2)]
  have "\<not> is_ws (ch s p1)" using ch_skip [of s is_ws p] b(3) by (simp add: p1)
  then have "skip is_ws s p1 = p1" by (cases "drop p1 s") (auto simp: skip_def ch_drop)
  then have "tok \<noteq> 0" using assms(3) b(3) by (auto simp: gettoken_def Let_def split: prod.splits if_splits)
  then show "p < p2" "p2 \<le> length s" using g b(1) by auto
qed

section \<open>The parser ends\<close>

text \<open>A parse from \<open>p\<close> that has enough rounds, and moves forward when it succeeds.\<close>

definition ends :: "line \<Rightarrow> nat \<Rightarrow> 'a presult \<Rightarrow> bool" where
  "ends s p r \<longleftrightarrow> (case r of POk _ p' \<Rightarrow> p \<le> p' \<and> p' \<le> length s | PPanic _ \<Rightarrow> True | PFuel \<Rightarrow> False)"

lemma ends_simps [simp]: "ends s p (POk c p') \<longleftrightarrow> p \<le> p' \<and> p' \<le> length s" "ends s p (PPanic msg)" "\<not> ends s p PFuel"
  by (simp_all add: ends_def)

lemma ends_pbind:
  assumes "ends s p0 r" "p \<le> p0" "\<And>a p1. r = POk a p1 \<Longrightarrow> p0 \<le> p1 \<Longrightarrow> p1 \<le> length s \<Longrightarrow> ends s p (f a p1)"
  shows "ends s p (pbind r f)"
  using assms by (cases r) simp_all

lemma ends_later: "ends s q r \<Longrightarrow> p \<le> q \<Longrightarrow> ends s p r"
  by (cases r) simp_all

lemma parseredirs_ends: "p \<le> length s \<Longrightarrow> length s - p < k \<Longrightarrow> ends s p (parseredirs k s p)"
proof (induction k arbitrary: p)
  case (Suc k)
  obtain b p1 where pk: "peek s p [c_lt, c_gt] = (b, p1)" by fastforce
  note pb = peek_bounds [OF pk Suc.prems(1)]
  show ?case
  proof (cases b)
    case False
    then show ?thesis using pk pb by simp
  next
    case True
    obtain tok q0 e0 p2 tok2 q e p3 where g: "gettoken s p1 = (tok, q0, e0, p2)" "gettoken s p2 = (tok2, q, e, p3)"
      by (metis prod_cases4)
    note g1 = gettoken_after_peek [OF pk True g(1) Suc.prems(1)]
    note g2 = gettoken_bounds [OF g(2) g1(2)]
    have l: "p3 \<le> length s" "length s - p3 < k" "p \<le> p3" using g1 g2 Suc.prems by linarith+
    show ?thesis using True pk g by (auto intro!: ends_pbind [OF Suc.IH [OF l(1,2)] l(3)] intro: order_trans [OF l(3)])
  qed
qed simp

lemma parseexec_loop_ends: "p \<le> length s \<Longrightarrow> length s - p < k \<Longrightarrow> ends s p (parseexec_loop k s p args rs)"
proof (induction k arbitrary: p args rs)
  case (Suc k)
  obtain b p1 where pk: "peek s p [c_bar, c_rpar, c_amp, c_semi] = (b, p1)" by fastforce
  note pb = peek_bounds [OF pk Suc.prems(1)]
  obtain tok q e p2 where g: "gettoken s p1 = (tok, q, e, p2)" by (metis prod_cases4)
  note gb = gettoken_bounds [OF g pb(2)]
  have "ends s p (pbind (parseredirs (Suc (length s)) s p2) (\<lambda>rs' p3. parseexec_loop k s p3 (args @ [(q, e)]) (rs @ rs')))" if "tok \<noteq> 0"
  proof (rule ends_pbind [OF parseredirs_ends])
    fix rs' p3 assume "p2 \<le> p3" "p3 \<le> length s"
    moreover have "p < p3" using gb that pb(1) \<open>p2 \<le> p3\<close> by linarith
    ultimately show "ends s p (parseexec_loop k s p3 (args @ [(q, e)]) (rs @ rs'))"
      using Suc.prems by (intro ends_later [OF Suc.IH]) simp_all
  qed (use gb pb in simp_all)
  then show ?case using pk g pb gb by (auto intro: order_trans)
qed simp

lemma parseback_ends: "p \<le> length s \<Longrightarrow> length s - p < k \<Longrightarrow> ends s p (parseback k s p c)"
proof (induction k arbitrary: p c)
  case (Suc k)
  obtain b p1 where pk: "peek s p [c_amp] = (b, p1)" by fastforce
  obtain tok q e p2 where g: "gettoken s p1 = (tok, q, e, p2)" by (metis prod_cases4)
  show ?case
  proof (cases b)
    case True
    note gp = gettoken_after_peek [OF pk True g Suc.prems(1)]
    then have "ends s p (parseback k s p2 (BACK c))" using Suc.prems by (intro ends_later [OF Suc.IH]) simp_all
    then show ?thesis using pk True g by simp
  qed (use pk peek_bounds [OF pk Suc.prems(1)] in simp)
qed simp

declare parseredirs.simps [simp del] parseexec_loop.simps [simp del] parseback.simps [simp del]

lemma parser_ends:
  "(p \<le> length s \<longrightarrow> 4 * (length s - p) + 4 \<le> n \<longrightarrow> ends s p (parseline n s p)) \<and>
   (p \<le> length s \<longrightarrow> 4 * (length s - p) + 3 \<le> n \<longrightarrow> ends s p (parsepipe n s p)) \<and>
   (p \<le> length s \<longrightarrow> 4 * (length s - p) + 2 \<le> n \<longrightarrow> ends s p (parseexec n s p)) \<and>
   (p \<le> length s \<longrightarrow> 4 * (length s - p) + 1 \<le> n \<longrightarrow> ends s p (parseblock n s p))"
proof (induction n arbitrary: p)
  case (Suc n)
  note IH = Suc.IH [THEN conjunct1, rule_format] Suc.IH [THEN conjunct2, THEN conjunct1, rule_format]
    Suc.IH [THEN conjunct2, THEN conjunct2, THEN conjunct1, rule_format] Suc.IH [THEN conjunct2, THEN conjunct2, THEN conjunct2, rule_format]
  show ?case
  proof (intro conjI impI)
    assume l: "p \<le> length s" and n: "4 * (length s - p) + 4 \<le> Suc n"
    have "ends s p (parsepipe n s p)" by (rule IH(2)) (use l n in simp_all)
    then show "ends s p (parseline (Suc n) s p)" unfolding parseline.simps
    proof (rule ends_pbind [OF _ order_refl])
      fix c p1 assume p1: "p \<le> p1" "p1 \<le> length s"
      have "ends s p1 (parseback (Suc (length s)) s p1 c)" using p1 by (intro parseback_ends) simp_all
      then show "ends s p (pbind (parseback (Suc (length s)) s p1 c) (\<lambda>c p2. case peek s p2 [c_semi] of (more, p3) \<Rightarrow>
         if more then (case gettoken s p3 of (_, _, _, p4) \<Rightarrow> pbind (parseline n s p4) (\<lambda>r p5. POk (LIST c r) p5)) else POk c p3))"
      proof (rule ends_pbind [OF _ p1(1)])
        fix c p2 assume p2: "p1 \<le> p2" "p2 \<le> length s"
        obtain b p3 where pk: "peek s p2 [c_semi] = (b, p3)" by fastforce
        obtain tok q e p4 where g: "gettoken s p3 = (tok, q, e, p4)" by (metis prod_cases4)
        have "ends s p (pbind (parseline n s p4) (\<lambda>r p5. POk (LIST c r) p5))" if b
        proof -
          note gp = gettoken_after_peek [OF pk that g p2(2)]
          have "ends s p4 (parseline n s p4)" by (rule IH(1)) (use gp p1 p2 n in linarith)+
          then show ?thesis by (rule ends_pbind) (use gp p1 p2 in auto)
        qed
        then show "ends s p (case peek s p2 [c_semi] of (more, p3) \<Rightarrow>
         if more then (case gettoken s p3 of (_, _, _, p4) \<Rightarrow> pbind (parseline n s p4) (\<lambda>r p5. POk (LIST c r) p5)) else POk c p3)"
          using pk g peek_bounds [OF pk p2(2)] p1 p2 by auto
      qed
    qed
  next
    assume l: "p \<le> length s" and n: "4 * (length s - p) + 3 \<le> Suc n"
    have "ends s p (parseexec n s p)" by (rule IH(3)) (use l n in simp_all)
    then show "ends s p (parsepipe (Suc n) s p)" unfolding parsepipe.simps
    proof (rule ends_pbind [OF _ order_refl])
      fix c p1 assume p1: "p \<le> p1" "p1 \<le> length s"
      obtain b p2 where pk: "peek s p1 [c_bar] = (b, p2)" by fastforce
      obtain tok q e p3 where g: "gettoken s p2 = (tok, q, e, p3)" by (metis prod_cases4)
      have "ends s p (pbind (parsepipe n s p3) (\<lambda>r p4. POk (PIPE c r) p4))" if b
      proof -
        note gp = gettoken_after_peek [OF pk that g p1(2)]
        have "ends s p3 (parsepipe n s p3)" by (rule IH(2)) (use gp p1 n in linarith)+
        then show ?thesis by (rule ends_pbind) (use gp p1 in auto)
      qed
      then show "ends s p (case peek s p1 [c_bar] of (more, p2) \<Rightarrow>
         if more then (case gettoken s p2 of (_, _, _, p3) \<Rightarrow> pbind (parsepipe n s p3) (\<lambda>r p4. POk (PIPE c r) p4)) else POk c p2)"
        using pk g peek_bounds [OF pk p1(2)] p1 by auto
    qed
  next
    assume l: "p \<le> length s" and n: "4 * (length s - p) + 2 \<le> Suc n"
    obtain b p1 where pk: "peek s p [c_lpar] = (b, p1)" by fastforce
    note pb = peek_bounds [OF pk l]
    have "ends s p1 (parseblock n s p1)" by (rule IH(4)) (use pb n in linarith)+
    then have "ends s p (parseblock n s p1)" using pb(1) by (rule ends_later)
    moreover have "ends s p (pbind (parseredirs (Suc (length s)) s p1) (\<lambda>rs p2. parseexec_loop (Suc (length s)) s p2 [] rs))"
      by (rule ends_pbind [OF parseredirs_ends]) (use pb in \<open>auto intro!: ends_later [OF parseexec_loop_ends]\<close>)
    ultimately show "ends s p (parseexec (Suc n) s p)" unfolding parseexec.simps using pk by simp
  next
    assume l: "p \<le> length s" and n: "4 * (length s - p) + 1 \<le> Suc n"
    obtain b p1 where pk: "peek s p [c_lpar] = (b, p1)" by fastforce
    obtain tok q e p2 where g: "gettoken s p1 = (tok, q, e, p2)" by (metis prod_cases4)
    have "ends s p (pbind (parseline n s p2) (\<lambda>c p3. case peek s p3 [c_rpar] of (rpar, p4) \<Rightarrow>
         if \<not> rpar then PPanic ''syntax - missing )''
         else (case gettoken s p4 of (_, _, _, p5) \<Rightarrow> pbind (parseredirs (Suc (length s)) s p5) (\<lambda>rs p6. POk (wrap c rs) p6))))" if b
    proof -
      note gp = gettoken_after_peek [OF pk that g l]
      have "ends s p2 (parseline n s p2)" by (rule IH(1)) (use gp n in linarith)+
      then show ?thesis
      proof (rule ends_pbind)
        fix c p3 assume p3: "p2 \<le> p3" "p3 \<le> length s"
        obtain b' p4 where pk': "peek s p3 [c_rpar] = (b', p4)" by fastforce
        obtain tok q e p5 where g': "gettoken s p4 = (tok, q, e, p5)" by (metis prod_cases4)
        have "ends s p (pbind (parseredirs (Suc (length s)) s p5) (\<lambda>rs p6. POk (wrap c rs) p6))" if b'
          by (rule ends_pbind [OF parseredirs_ends]) (use gettoken_after_peek [OF pk' that g' p3(2)] gp p3 in auto)
        then show "ends s p (case peek s p3 [c_rpar] of (rpar, p4) \<Rightarrow>
         if \<not> rpar then PPanic ''syntax - missing )''
         else (case gettoken s p4 of (_, _, _, p5) \<Rightarrow> pbind (parseredirs (Suc (length s)) s p5) (\<lambda>rs p6. POk (wrap c rs) p6)))"
          using pk' g' by auto
      qed (use gp in simp)
    qed
    then show "ends s p (parseblock (Suc n) s p)" unfolding parseblock.simps using pk g by auto
  qed
qed simp

lemma parser_more:
  "(parseline n s p \<noteq> PFuel \<longrightarrow> parseline (Suc n) s p = parseline n s p) \<and>
   (parsepipe n s p \<noteq> PFuel \<longrightarrow> parsepipe (Suc n) s p = parsepipe n s p) \<and>
   (parseexec n s p \<noteq> PFuel \<longrightarrow> parseexec (Suc n) s p = parseexec n s p) \<and>
   (parseblock n s p \<noteq> PFuel \<longrightarrow> parseblock (Suc n) s p = parseblock n s p)"
proof (induction n arbitrary: p)
  case (Suc n)
  note IH = Suc.IH [THEN conjunct1, rule_format] Suc.IH [THEN conjunct2, THEN conjunct1, rule_format]
    Suc.IH [THEN conjunct2, THEN conjunct2, THEN conjunct1, rule_format] Suc.IH [THEN conjunct2, THEN conjunct2, THEN conjunct2, rule_format]
  show ?case
  proof (intro conjI impI)
    assume "parseline (Suc n) s p \<noteq> PFuel"
    then show "parseline (Suc (Suc n)) s p = parseline (Suc n) s p"
      unfolding parseline.simps(2) [of "Suc n" s p] parseline.simps(2) [of n s p] using IH(1,2)
      by (auto simp: pbind_PFuel intro!: pbind_cong split: prod.splits if_splits)
  next
    assume "parsepipe (Suc n) s p \<noteq> PFuel"
    then show "parsepipe (Suc (Suc n)) s p = parsepipe (Suc n) s p"
      unfolding parsepipe.simps(2) [of "Suc n" s p] parsepipe.simps(2) [of n s p] using IH(2,3)
      by (auto simp: pbind_PFuel intro!: pbind_cong split: prod.splits if_splits)
  next
    assume "parseexec (Suc n) s p \<noteq> PFuel"
    then show "parseexec (Suc (Suc n)) s p = parseexec (Suc n) s p"
      unfolding parseexec.simps(2) [of "Suc n" s p] parseexec.simps(2) [of n s p] using IH(4)
      by (auto split: prod.splits if_splits)
  next
    assume "parseblock (Suc n) s p \<noteq> PFuel"
    then show "parseblock (Suc (Suc n)) s p = parseblock (Suc n) s p"
      unfolding parseblock.simps(2) [of "Suc n" s p] parseblock.simps(2) [of n s p] using IH(1)
      by (auto simp: pbind_PFuel intro!: pbind_cong split: prod.splits if_splits)
  qed
qed (simp add: parseline.simps parsepipe.simps parseexec.simps parseblock.simps)

lemma parseline_enough:
  assumes "p \<le> length s" "4 * (length s - p) + 4 \<le> n" "n \<le> m"
  shows "parseline m s p = parseline n s p"
  using assms(3)
proof (induction rule: dec_induct)
  case (step i)
  have "4 * (length s - p) + 4 \<le> i" using assms(2) step.hyps(1) by simp
  then have "ends s p (parseline i s p)" using parser_ends assms(1) by blast
  then have "parseline i s p \<noteq> PFuel" by auto
  then show ?case using parser_more step by simp
qed simp

section \<open>Texts\<close>

text \<open>\<open>near s p t\<close>: what follows index \<open>p\<close> is the text \<open>t\<close>, up to leading white space.\<close>

definition near :: "line \<Rightarrow> nat \<Rightarrow> line \<Rightarrow> bool" where
  "near s p t \<longleftrightarrow> p \<le> length s \<and> 0 \<notin> set s \<and> dropWhile is_ws (drop p s) = dropWhile is_ws t"

definition sub :: "line \<Rightarrow> nat \<times> nat \<Rightarrow> line" where
  "sub s w = take (snd w - fst w) (drop (fst w) s)"

lemma near_ws [simp]: "near s p (32 # t) = near s p t"
  by (simp add: near_def is_ws_def whitespace_def)

lemma near_le: "near s p t \<Longrightarrow> p \<le> length s"
  by (simp add: near_def)

lemma near_skip: "near s p t \<Longrightarrow> near s (skip is_ws s p) t \<and> drop (skip is_ws s p) s = dropWhile is_ws t"
  using skip_bounds [of p s is_ws] by (simp add: near_def drop_skip)

text \<open>The first character of a text that is not white space, 0 when there is none.\<close>

definition first :: "line \<Rightarrow> uchar" where
  "first t = (case dropWhile is_ws t of [] \<Rightarrow> 0 | c # _ \<Rightarrow> c)"

lemma near_first: "near s p t \<Longrightarrow> ch s (skip is_ws s p) = first t"
  using near_skip [of s p t] by (simp add: ch_drop first_def)

lemma first_not_ws: "near s p t \<Longrightarrow> first t \<noteq> 0 \<Longrightarrow> \<not> is_ws (first t)"
  using near_first [of s p t] ch_skip [of s is_ws p] by simp

lemma peek_near:
  assumes "near s p t"
  shows "\<exists>p1. peek s p toks = (first t \<noteq> 0 \<and> first t \<in> set toks, p1) \<and> near s p1 t \<and> p \<le> p1"
  using near_first [OF assms] near_skip [OF assms] skip_bounds [of p s is_ws] assms
  by (auto simp: peek_def Let_def near_def)

lemma gettoken_end: "near s p t \<Longrightarrow> first t = 0 \<Longrightarrow> \<exists>q e p1. gettoken s p = (0, q, e, p1) \<and> near s p1 t"
  using near_first [of s p t] near_skip [of s p t] near_skip [of s "skip is_ws s p" t] by (simp add: gettoken_def Let_def)

lemma drop_Suc_Cons: "drop q s = c # t \<Longrightarrow> drop (Suc q) s = t"
  by (metis drop_Suc drop_tl list.sel(3))

lemma gettoken_symbol:
  assumes "near s p (c # t)" "c \<in> {c_bar, c_lpar, c_rpar, c_semi, c_amp, c_lt, c_gt}" "c = c_gt \<Longrightarrow> t \<noteq> [] \<Longrightarrow> hd t \<noteq> c_gt"
  shows "\<exists>q e p1. gettoken s p = (c, q, e, p1) \<and> near s p1 t \<and> p < p1"
proof -
  let ?q = "skip is_ws s p"
  have w: "\<not> is_ws c" "c \<noteq> 0" using assms(2) by (auto simp: is_ws_def whitespace_def)
  then have f: "first (c # t) = c" "dropWhile is_ws (c # t) = c # t" by (simp_all add: first_def)
  have q: "ch s ?q = c" "drop ?q s = c # t" "p \<le> ?q" using near_first [OF assms(1)] near_skip [OF assms(1)] f skip_bounds [of p s is_ws] assms(1)
    by (simp_all add: near_def)
  have d: "drop (Suc ?q) s = t" by (rule drop_Suc_Cons [OF q(2)])
  have "?q < length s" using q(2) by (metis drop_all list.discI not_le)
  then have n: "near s (Suc ?q) t" using d assms(1) by (simp add: near_def)
  have "ch s (Suc ?q) = c_gt \<Longrightarrow> c \<noteq> c_gt" using assms(3) d by (cases t) (auto simp: ch_drop)
  then have "gettoken s p = (c, ?q, Suc ?q, skip is_ws s (Suc ?q))"
    using q(1) w assms(2) by (auto simp: gettoken_def Let_def)
  then show ?thesis using near_skip [OF n] skip_bounds [of "Suc ?q" s is_ws] n q(3) by (auto simp: near_def)
qed

definition word_ok :: "line \<Rightarrow> bool" where
  "word_ok w \<longleftrightarrow> w \<noteq> [] \<and> list_all is_word w \<and> 0 \<notin> set w"

lemma word_first: "word_ok w \<Longrightarrow> is_word (first (w @ t)) \<and> first (w @ t) \<noteq> 0 \<and> dropWhile is_ws (w @ t) = w @ t"
  by (cases w) (auto simp: word_ok_def first_def is_word_def is_ws_def)

lemma gettoken_word:
  assumes "near s p (w @ t)" "word_ok w" "t = [] \<or> \<not> is_word (hd t)"
  shows "\<exists>q e p1. gettoken s p = (c_a, q, e, p1) \<and> sub s (q, e) = w \<and> near s p1 t \<and> p < p1"
proof -
  let ?q = "skip is_ws s p" and ?e = "skip is_word s (skip is_ws s p)"
  note f = word_first [OF assms(2), of t]
  have q: "ch s ?q = first (w @ t)" "drop ?q s = w @ t" "p \<le> ?q" "?q \<le> length s"
    using near_first [OF assms(1)] near_skip [OF assms(1)] f skip_bounds [of p s is_ws] assms(1) by (simp_all add: near_def)
  have tw: "takeWhile is_word (w @ t) = w" "dropWhile is_word (w @ t) = t"
    using assms(2,3) by (cases t; simp add: word_ok_def list_all_iff takeWhile_append2 dropWhile_append2)+
  have e: "?e = ?q + length w" using q(2) tw(1) by (simp add: skip_def)
  have d: "drop ?e s = t" using tw(2) q(2) by (simp add: drop_skip)
  have n: "near s ?e t" using assms(1) d skip_bounds [OF q(4)] by (simp add: near_def)
  have "first (w @ t) \<notin> {c_bar, c_lpar, c_rpar, c_semi, c_amp, c_lt, c_gt}" using f by (auto simp: is_word_def symbols_def)
  then have "gettoken s p = (c_a, ?q, ?e, skip is_ws s ?e)" using q(1) f by (auto simp: gettoken_def Let_def)
  moreover have "sub s (?q, ?e) = w" using q(2) e by (simp add: sub_def)
  moreover have "0 < length w" using assms(2) by (simp add: word_ok_def)
  moreover have "?e \<le> skip is_ws s ?e" using n skip_bounds(1) [of ?e s is_ws] by (simp add: near_def)
  then have "p < skip is_ws s ?e" using q(3) e \<open>0 < length w\<close> by linarith
  ultimately show ?thesis using near_skip [OF n] by blast
qed

section \<open>Printing commands\<close>

text \<open>
  \<open>unparse lev c\<close> prints a command so that it can stand where the grammar has a command of the level: a simple command or block (0), a
  pipeline (1), a pipeline with \<^verbatim>\<open>&\<close> behind it (2), or a line (3).
\<close>

definition paren :: "bool \<Rightarrow> line \<Rightarrow> line" where
  "paren b t = (if b then c_lpar # t @ [c_rpar] else t)"

definition words :: "line list \<Rightarrow> line" where
  "words ws = concat (map (\<lambda>w. 32 # w) ws)"

definition redir_text :: "line \<times> int \<times> int \<Rightarrow> line" where
  "redir_text r = (case r of (f, mode, fd) \<Rightarrow> (if fd = 0 then c_lt else c_gt) # f)"

primrec unparse :: "nat \<Rightarrow> line cmd \<Rightarrow> line" where
  "unparse lev (EXEC ws) = words ws"
| "unparse lev (REDIR c f mode fd) = unparse 0 c @ redir_text (f, mode, fd)"
| "unparse lev (PIPE l r) = paren (lev < 1) (unparse 0 l @ c_bar # unparse 1 r)"
| "unparse lev (BACK c) = paren (lev < 2) (unparse 2 c @ [c_amp])"
| "unparse lev (LIST l r) = paren (lev < 3) (unparse 2 l @ c_semi # unparse 3 r)"

definition redir_ok :: "line \<times> int \<times> int \<Rightarrow> bool" where
  "redir_ok r \<longleftrightarrow> word_ok (fst r) \<and> snd r \<in> {(0, 0), (0x201, 1)}"

text \<open>The commands that can be typed: their words are words, there are at most nine, and their redirections are those of \<^verbatim>\<open><\<close> and \<^verbatim>\<open>>\<close>.\<close>

primrec cmd_ok :: "line cmd \<Rightarrow> bool" where
  "cmd_ok (EXEC ws) \<longleftrightarrow> list_all word_ok ws \<and> length ws < MAXARGS"
| "cmd_ok (REDIR c f mode fd) \<longleftrightarrow> cmd_ok c \<and> redir_ok (f, mode, fd)"
| "cmd_ok (PIPE l r) \<longleftrightarrow> cmd_ok l \<and> cmd_ok r"
| "cmd_ok (BACK c) \<longleftrightarrow> cmd_ok c"
| "cmd_ok (LIST l r) \<longleftrightarrow> cmd_ok l \<and> cmd_ok r"

section \<open>Parsing printed commands\<close>

text \<open>What may follow a command: the end, or one of the characters that end a command of the level.\<close>

definition stops :: "uchar list \<Rightarrow> line \<Rightarrow> bool" where
  "stops cs t \<longleftrightarrow> t = [] \<or> hd t \<in> set cs"

lemma stops_first:
  assumes "stops cs t" "set cs \<subseteq> {c_bar, c_rpar, c_amp, c_semi}"
  shows "(first t = 0 \<or> first t \<in> set cs) \<and> (t = [] \<or> \<not> is_word (hd t)) \<and> (first t = 0 \<longleftrightarrow> t = [])"
proof (cases t)
  case Nil
  then show ?thesis by (simp add: first_def)
next
  case (Cons c u)
  then have "c \<in> {c_bar, c_rpar, c_amp, c_semi}" "c \<in> set cs" using assms by (auto simp: stops_def)
  then have "\<not> is_ws c" "\<not> is_word c" "c \<noteq> 0" by (auto simp: is_ws_def whitespace_def is_word_def symbols_def)
  then show ?thesis using Cons \<open>c \<in> set cs\<close> by (simp add: first_def)
qed

abbreviation (input) stopE :: "uchar list" where "stopE \<equiv> [c_bar, c_rpar, c_amp, c_semi]"
abbreviation (input) stopP :: "uchar list" where "stopP \<equiv> [c_rpar, c_amp, c_semi]"
abbreviation (input) stopL :: "uchar list" where "stopL \<equiv> [c_rpar]"

definition strings :: "line \<Rightarrow> pcmd \<Rightarrow> line cmd" where
  "strings s c = map_cmd (sub s) c"

lemma strings_simps [simp]:
  "strings s (EXEC args) = EXEC (map (sub s) args)" "strings s (PIPE l r) = PIPE (strings s l) (strings s r)"
  "strings s (LIST l r) = LIST (strings s l) (strings s r)" "strings s (BACK c) = BACK (strings s c)"
  by (simp_all add: strings_def)

definition rstrings :: "line \<Rightarrow> redir list \<Rightarrow> (line \<times> int \<times> int) list" where
  "rstrings s rs = map (\<lambda>(w, m). (sub s w, m)) rs"

lemma strings_wrap: "strings s (wrap c rs) = wrap (strings s c) (rstrings s rs)"
  unfolding wrap_def
  by (induction rs arbitrary: c) (auto simp: rstrings_def strings_def)

lemma redirs_first:
  assumes "list_all redir_ok rs" "rs \<noteq> []"
  shows "first (concat (map redir_text rs) @ t) \<in> {c_lt, c_gt}" "\<not> is_word (hd (concat (map redir_text rs) @ t))"
    "concat (map redir_text rs) \<noteq> []"
  using assms by (cases rs; auto simp: redir_text_def first_def is_ws_def whitespace_def is_word_def symbols_def split: prod.splits)+

lemma redirs_not_word: "list_all redir_ok rs \<Longrightarrow> t = [] \<or> \<not> is_word (hd t) \<Longrightarrow>
    concat (map redir_text rs) @ t = [] \<or> \<not> is_word (hd (concat (map redir_text rs) @ t))"
  using redirs_first(2) [of rs t] by (cases "rs = []") auto

lemma parseredirs_text:
  assumes "near s p (concat (map redir_text rs) @ t)" "list_all redir_ok rs" "length s - p < k"
    "t = [] \<or> \<not> is_word (hd t)" "first t \<notin> {c_lt, c_gt}"
  shows "\<exists>rs' p'. parseredirs k s p = POk rs' p' \<and> rstrings s rs' = rs \<and> near s p' t \<and> p \<le> p'"
  using assms
proof (induction rs arbitrary: p k)
  case Nil
  then obtain k' where "k = Suc k'" by (cases k) auto
  then show ?case using peek_near [of s p t "[c_lt, c_gt]"] Nil by (auto simp: parseredirs.simps rstrings_def)
next
  case (Cons r rs)
  obtain k' where k: "k = Suc k'" using Cons.prems(3) by (cases k) auto
  obtain f m d where r: "r = (f, m, d)" by (cases r) auto
  define c where "c = (if d = 0 then c_lt else c_gt)"
  let ?u = "concat (map redir_text rs) @ t"
  have "redir_ok r" "list_all redir_ok rs" using Cons.prems(2) by simp_all
  then have ok: "word_ok f" "(m, d) \<in> {(0, 0), (0x201, 1)}" "list_all redir_ok rs" by (simp_all add: r redir_ok_def)
  have "redir_text r = c # f" by (simp add: r redir_text_def c_def)
  then have n: "near s p (c # f @ ?u)" using Cons.prems(1) by simp
  have c: "c \<in> {c_lt, c_gt}" "first (c # f @ ?u) = c" by (auto simp: c_def first_def is_ws_def whitespace_def)
  obtain p1 where p1: "peek s p [c_lt, c_gt] = (True, p1)" "near s p1 (c # f @ ?u)" "p \<le> p1"
    using peek_near [OF n, of "[c_lt, c_gt]"] c by auto
  have "hd (f @ ?u) \<noteq> c_gt" using ok(1) by (cases f) (auto simp: word_ok_def is_word_def symbols_def)
  then obtain q e p2 where p2: "gettoken s p1 = (c, q, e, p2)" "near s p2 (f @ ?u)" "p1 < p2"
    using gettoken_symbol [OF p1(2)] c(1) by auto
  obtain q' e' p3 where p3: "gettoken s p2 = (c_a, q', e', p3)" "sub s (q', e') = f" "near s p3 ?u" "p2 < p3"
    using gettoken_word [OF p2(2) ok(1) redirs_not_word [OF ok(3) Cons.prems(4)]] by blast
  have "length s - p3 < k'" using Cons.prems(3) k p1(3) p2(3) p3(4) near_le [OF p3(3)] by linarith
  from Cons.IH [OF p3(3) ok(3) this Cons.prems(4,5)] obtain rs' p' where
    IH: "parseredirs k' s p3 = POk rs' p'" "rstrings s rs' = rs" "near s p' t" "p3 \<le> p'" by blast
  have "(if c = c_lt then (0, 0) else (0x201, 1)) = (m, d)" using ok(2) by (auto simp: c_def)
  then have "parseredirs k s p = POk (((q', e'), m, d) # rs') p'"
    using p1(1) p2(1) p3(1) IH(1) by (simp add: k parseredirs.simps)
  then show ?case using IH p3(2,4) p2(3) p1(3) by (auto simp: rstrings_def r)
qed

lemma words_first:
  assumes "list_all word_ok ws" "ws \<noteq> []"
  shows "is_word (first (words ws @ t)) \<and> first (words ws @ t) \<noteq> 0" "hd (words ws @ t) = 32" "words ws \<noteq> []"
proof -
  obtain w ws' where ws: "ws = w # ws'" using assms(2) by (cases ws) auto
  have "first (words ws @ t) = first (w @ words ws' @ t)" by (simp add: ws words_def first_def is_ws_def whitespace_def)
  then show "is_word (first (words ws @ t)) \<and> first (words ws @ t) \<noteq> 0" using word_first [of w "words ws' @ t"] assms(1) ws by simp
qed (use assms(2) in \<open>cases ws; simp add: words_def\<close>)+

lemma parseexec_loop_text:
  assumes "near s p (words ws @ concat (map redir_text rs2) @ t)" "ws = [] \<Longrightarrow> rs2 = []" "list_all word_ok ws" "list_all redir_ok rs2"
    "length args + length ws < MAXARGS" "length s - p < k" "stops stopE t"
  shows "\<exists>args' rs' p'. parseexec_loop k s p args rs = POk (wrap (EXEC (args @ args')) (rs @ rs')) p' \<and>
    map (sub s) args' = ws \<and> rstrings s rs' = rs2 \<and> near s p' t"
  using assms
proof (induction ws arbitrary: p k args rs rs2)
  case Nil
  then obtain k' where k: "k = Suc k'" by (cases k) auto
  have n: "near s p t" using Nil.prems(1,2) by (simp add: words_def)
  note st = stops_first [OF Nil.prems(7)]
  obtain p1 where p1: "peek s p stopE = (first t \<noteq> 0 \<and> first t \<in> set stopE, p1)" "near s p1 t" using peek_near [OF n] by blast
  show ?case
  proof (cases "first t = 0")
    case True
    then obtain q e p2 where "gettoken s p1 = (0, q, e, p2)" "near s p2 t" using gettoken_end [OF p1(2)] by blast
    then show ?thesis using p1 True Nil.prems(2) by (intro exI [of _ "[]"] exI [of _ p2]) (simp add: k parseexec_loop.simps rstrings_def)
  next
    case False
    then have "first t \<in> set stopE" using st by auto
    then show ?thesis using p1 False Nil.prems(2) by (intro exI [of _ "[]"] exI [of _ p1]) (simp add: k parseexec_loop.simps rstrings_def)
  qed
next
  case (Cons w ws)
  obtain k' where k: "k = Suc k'" using Cons.prems(6) by (cases k) auto
  let ?R = "concat (map redir_text rs2)"
  have ok: "word_ok w" "list_all word_ok ws" using Cons.prems(3) by simp_all
  note st = stops_first [OF Cons.prems(7)]
  have n: "near s p (w @ words ws @ ?R @ t)" using Cons.prems(1) by (simp add: words_def)
  note f = word_first [OF ok(1), of "words ws @ ?R @ t"]
  then have "first (w @ words ws @ ?R @ t) \<notin> set stopE" by (auto simp: is_word_def symbols_def)
  then obtain p1 where p1: "peek s p stopE = (False, p1)" "near s p1 (w @ words ws @ ?R @ t)" "p \<le> p1"
    using peek_near [OF n, of stopE] by auto
  have nw: "words ws @ ?R @ t = [] \<or> \<not> is_word (hd (words ws @ ?R @ t))"
  proof (cases "ws = []")
    case True
    then show ?thesis using redirs_not_word [OF Cons.prems(4)] st by (simp add: words_def)
  next
    case False
    then show ?thesis using words_first(2) [OF ok(2)] by (simp add: is_word_def whitespace_def)
  qed
  obtain q e p2 where p2: "gettoken s p1 = (c_a, q, e, p2)" "sub s (q, e) = w" "near s p2 (words ws @ ?R @ t)" "p1 < p2"
    using gettoken_word [OF p1(2) ok(1) nw] by blast
  define rsa where "rsa = (if ws = [] then rs2 else [])"
  define rsb where "rsb = (if ws = [] then [] else rs2)"
  let ?T = "words ws @ concat (map redir_text rsb) @ t"
  have "near s p2 (concat (map redir_text rsa) @ ?T)" using p2(3) by (cases "ws = []") (simp_all add: rsa_def rsb_def words_def)
  moreover have "list_all redir_ok rsa" "length s - p2 < Suc (length s)" using Cons.prems(4) by (simp_all add: rsa_def)
  moreover have "?T = [] \<or> \<not> is_word (hd ?T)" "first ?T \<notin> {c_lt, c_gt}"
  proof -
    show "?T = [] \<or> \<not> is_word (hd ?T)" using nw st by (cases "ws = []") (auto simp: rsb_def words_def)
    show "first ?T \<notin> {c_lt, c_gt}"
    proof (cases "ws = []")
      case True
      then show ?thesis using st by (auto simp: rsb_def words_def)
    next
      case False
      then show ?thesis using words_first(1) [OF ok(2), of "concat (map redir_text rsb) @ t"] by (auto simp: is_word_def symbols_def)
    qed
  qed
  ultimately obtain rs1 p3 where p3: "parseredirs (Suc (length s)) s p2 = POk rs1 p3" "rstrings s rs1 = rsa" "near s p3 ?T" "p2 \<le> p3"
    using parseredirs_text [of s p2 rsa ?T "Suc (length s)"] by blast
  have b: "ws = [] \<Longrightarrow> rsb = []" "list_all redir_ok rsb" "length (args @ [(q, e)]) + length ws < MAXARGS" "length s - p3 < k'"
    using Cons.prems(4,5,6) p1(3) p2(4) p3(4) near_le [OF p3(3)] k by (simp_all add: rsb_def)
  from Cons.IH [OF p3(3) b(1) ok(2) b(2-4) Cons.prems(7), of "rs @ rs1"] obtain args' rs' p' where
    IH: "parseexec_loop k' s p3 (args @ [(q, e)]) (rs @ rs1) = POk (wrap (EXEC ((args @ [(q, e)]) @ args')) ((rs @ rs1) @ rs')) p'"
      "map (sub s) args' = ws" "rstrings s rs' = rsb" "near s p' t" by blast
  have "rstrings s (rs1 @ rs') = rs2" using p3(2) IH(3) by (simp add: rstrings_def rsa_def rsb_def split: if_splits)
  moreover have "parseexec_loop k s p args rs = POk (wrap (EXEC (args @ (q, e) # args')) (rs @ rs1 @ rs')) p'"
    using p1(1) p2(1) p3(1) IH(1) Cons.prems(5) by (simp add: k parseexec_loop.simps)
  ultimately show ?case using IH(2,4) p2(2) by (intro exI [of _ "(q, e) # args'"] exI [of _ "rs1 @ rs'"] exI [of _ p']) simp
qed

lemma parseexec_simple:
  assumes "near s p (words ws @ concat (map redir_text rs) @ t)" "list_all word_ok ws" "length ws < MAXARGS" "list_all redir_ok rs" "stops stopE t"
  shows "\<exists>c' p'. parseexec (Suc n) s p = POk c' p' \<and> strings s c' = wrap (EXEC ws) rs \<and> near s p' t"
proof -
  let ?R = "concat (map redir_text rs)"
  note st = stops_first [OF assms(5)]
  have f: "first (words ws @ ?R @ t) \<noteq> c_lpar"
  proof (cases "ws = []")
    case True
    then show ?thesis using redirs_first(1) [OF assms(4), of t] st by (cases "rs = []") (auto simp: words_def)
  next
    case False
    then show ?thesis using words_first(1) [OF assms(2), of "?R @ t"] by (auto simp: is_word_def symbols_def)
  qed
  obtain p1 where p1: "peek s p [c_lpar] = (False, p1)" "near s p1 (words ws @ ?R @ t)" using peek_near [OF assms(1), of "[c_lpar]"] f by auto
  define rsa where "rsa = (if ws = [] then rs else [])"
  define rsb where "rsb = (if ws = [] then [] else rs)"
  let ?T = "words ws @ concat (map redir_text rsb) @ t"
  have "near s p1 (concat (map redir_text rsa) @ ?T)" using p1(2) by (cases "ws = []") (simp_all add: rsa_def rsb_def words_def)
  moreover have "list_all redir_ok rsa" "length s - p1 < Suc (length s)" using assms(4) by (simp_all add: rsa_def)
  moreover have "?T = [] \<or> \<not> is_word (hd ?T)" "first ?T \<notin> {c_lt, c_gt}"
  proof -
    show "?T = [] \<or> \<not> is_word (hd ?T)" using words_first(2) [OF assms(2)] st by (cases "ws = []") (auto simp: rsb_def words_def is_word_def whitespace_def)
    show "first ?T \<notin> {c_lt, c_gt}"
      using words_first(1) [OF assms(2), of "concat (map redir_text rsb) @ t"] st by (cases "ws = []") (auto simp: rsb_def words_def is_word_def symbols_def)
  qed
  ultimately obtain rs1 p2 where p2: "parseredirs (Suc (length s)) s p1 = POk rs1 p2" "rstrings s rs1 = rsa" "near s p2 ?T"
    using parseredirs_text [of s p1 rsa ?T "Suc (length s)"] by blast
  have b: "ws = [] \<Longrightarrow> rsb = []" "list_all redir_ok rsb" "length [] + length ws < MAXARGS" "length s - p2 < Suc (length s)"
    using assms(3,4) by (simp_all add: rsb_def)
  obtain args' rs' p' where e: "parseexec_loop (Suc (length s)) s p2 [] rs1 = POk (wrap (EXEC args') (rs1 @ rs')) p'"
      "map (sub s) args' = ws" "rstrings s rs' = rsb" "near s p' t"
    using parseexec_loop_text [OF p2(3) b(1) assms(2) b(2-4) assms(5), of rs1] by auto
  have "rstrings s (rs1 @ rs') = rs" using p2(2) e(3) by (simp add: rstrings_def rsa_def rsb_def split: if_splits)
  then have "strings s (wrap (EXEC args') (rs1 @ rs')) = wrap (EXEC ws) rs" using e(2) by (simp add: strings_wrap)
  then show ?thesis using p1(1) p2(1) e(1,4) by (simp add: parseexec.simps)
qed

text \<open>
  Parsing at each level.  \<open>parse2\<close> is a pipeline with the loop over \<^verbatim>\<open>&\<close> started behind it.  The number \<open>N\<close> is a bound on the depth of the calls.
\<close>

definition parsed :: "line \<Rightarrow> line cmd \<Rightarrow> line \<Rightarrow> pcmd presult \<Rightarrow> bool" where
  "parsed s c t r \<longleftrightarrow> (\<exists>c' p'. r = POk c' p' \<and> strings s c' = c \<and> near s p' t)"

definition level0 :: "line cmd \<Rightarrow> bool" where
  "level0 c \<longleftrightarrow> (\<forall>s p t. near s p (unparse 0 c @ t) \<longrightarrow> stops stopE t \<longrightarrow> (\<exists>N. \<forall>n \<ge> N. parsed s c t (parseexec n s p)))"

definition level1 :: "line cmd \<Rightarrow> bool" where
  "level1 c \<longleftrightarrow> (\<forall>s p t. near s p (unparse 1 c @ t) \<longrightarrow> stops stopP t \<longrightarrow> (\<exists>N. \<forall>n \<ge> N. parsed s c t (parsepipe n s p)))"

definition parse2 :: "nat \<Rightarrow> line \<Rightarrow> nat \<Rightarrow> pcmd presult" where
  "parse2 n s p = pbind (parsepipe n s p) (\<lambda>c p1. parseback (Suc (length s)) s p1 c)"

definition level2 :: "line cmd \<Rightarrow> bool" where
  "level2 c \<longleftrightarrow> (\<forall>s p t. near s p (unparse 2 c @ t) \<longrightarrow> stops stopP t \<longrightarrow> (\<exists>N. \<forall>n \<ge> N.
     \<exists>k c' p'. parse2 n s p = parseback k s p' c' \<and> length s - p' < k \<and> strings s c' = c \<and> near s p' t))"

definition level3 :: "line cmd \<Rightarrow> bool" where
  "level3 c \<longleftrightarrow> (\<forall>s p t. near s p (unparse 3 c @ t) \<longrightarrow> stops stopL t \<longrightarrow> (\<exists>N. \<forall>n \<ge> N. parsed s c t (parseline n s p)))"

lemma peek_stop:
  assumes "near s p t" "stops cs t" "set cs \<subseteq> {c_bar, c_rpar, c_amp, c_semi}" "set cs \<inter> set toks = {}"
  shows "\<exists>p1. peek s p toks = (False, p1) \<and> near s p1 t"
  using peek_near [OF assms(1), of toks] stops_first [OF assms(2,3)] assms(4) by auto

lemma peek_symbol:
  assumes "near s p (c # t)" "c \<in> {c_bar, c_lpar, c_rpar, c_semi, c_amp, c_lt, c_gt}"
  shows "\<exists>p1. peek s p toks = (c \<in> set toks, p1) \<and> near s p1 (c # t) \<and> p \<le> p1"
proof -
  have "first (c # t) = c" "c \<noteq> 0" using assms(2) by (auto simp: first_def is_ws_def whitespace_def)
  then show ?thesis using peek_near [OF assms(1), of toks] by simp
qed

lemma level01:
  assumes "level0 c" "unparse 1 c = unparse 0 c"
  shows "level1 c"
  unfolding level1_def
proof (intro allI impI)
  fix s p t assume n: "near s p (unparse 1 c @ t)" and st: "stops stopP t"
  have "stops stopE t" using st by (auto simp: stops_def)
  then obtain N where N: "\<forall>n \<ge> N. parsed s c t (parseexec n s p)" using assms n unfolding level0_def by metis
  show "\<exists>N. \<forall>n \<ge> N. parsed s c t (parsepipe n s p)"
  proof (intro exI [of _ "Suc N"] allI impI)
    fix n assume "Suc N \<le> n"
    then obtain m where m: "n = Suc m" "N \<le> m" by (cases n) auto
    then obtain c' p1 where e: "parseexec m s p = POk c' p1" "strings s c' = c" "near s p1 t" using N by (auto simp: parsed_def)
    obtain p2 where "peek s p1 [c_bar] = (False, p2)" "near s p2 t" using peek_stop [OF e(3) st, of "[c_bar]"] by auto
    then show "parsed s c t (parsepipe n s p)" using e by (simp add: m(1) parsepipe.simps parsed_def)
  qed
qed

lemma level12:
  assumes "level1 c" "unparse 2 c = unparse 1 c"
  shows "level2 c"
  unfolding level2_def
proof (intro allI impI)
  fix s p t assume n: "near s p (unparse 2 c @ t)" and st: "stops stopP t"
  then obtain N where N: "\<forall>n \<ge> N. parsed s c t (parsepipe n s p)" using assms unfolding level1_def by metis
  show "\<exists>N. \<forall>n \<ge> N. \<exists>k c' p'. parse2 n s p = parseback k s p' c' \<and> length s - p' < k \<and> strings s c' = c \<and> near s p' t"
  proof (rule exI [of _ N], intro allI impI)
    fix n assume "N \<le> n"
    then obtain c' p1 where "parsepipe n s p = POk c' p1" "strings s c' = c" "near s p1 t" using N by (auto simp: parsed_def)
    then show "\<exists>k c' p'. parse2 n s p = parseback k s p' c' \<and> length s - p' < k \<and> strings s c' = c \<and> near s p' t"
      by (intro exI [of _ "Suc (length s)"] exI [of _ c'] exI [of _ p1]) (simp add: parse2_def)
  qed
qed

lemma parseline_parse2:
  "parseline (Suc n) s p = pbind (parse2 n s p) (\<lambda>c p2. case peek s p2 [c_semi] of (more, p3) \<Rightarrow>
     if more then (case gettoken s p3 of (_, _, _, p4) \<Rightarrow> pbind (parseline n s p4) (\<lambda>r p5. POk (LIST c r) p5))
     else POk c p3)"
  unfolding parseline.simps(2) [of n s p] parse2_def by (cases "parsepipe n s p") simp_all

lemma parseback_stop:
  assumes "near s p t" "stops cs t" "set cs \<subseteq> {c_rpar, c_semi}" "0 < k"
  shows "\<exists>p1. parseback k s p c = POk c p1 \<and> near s p1 t"
proof -
  obtain k' where k: "k = Suc k'" using assms(4) by (cases k) auto
  have "set cs \<subseteq> {c_bar, c_rpar, c_amp, c_semi}" "set cs \<inter> set [c_amp] = {}" using assms(3) by auto
  then show ?thesis using peek_stop [OF assms(1,2), of "[c_amp]"] by (auto simp: k parseback.simps)
qed

lemma level23:
  assumes "level2 c" "unparse 3 c = unparse 2 c"
  shows "level3 c"
  unfolding level3_def
proof (intro allI impI)
  fix s p t assume n: "near s p (unparse 3 c @ t)" and st: "stops stopL t"
  have "stops stopP t" using st by (auto simp: stops_def)
  then obtain N where N: "\<forall>n \<ge> N. \<exists>k c' p'. parse2 n s p = parseback k s p' c' \<and> length s - p' < k \<and> strings s c' = c \<and> near s p' t"
    using assms n unfolding level2_def by metis
  show "\<exists>N. \<forall>n \<ge> N. parsed s c t (parseline n s p)"
  proof (intro exI [of _ "Suc N"] allI impI)
    fix n assume "Suc N \<le> n"
    then obtain m where m: "n = Suc m" "N \<le> m" by (cases n) auto
    then obtain k c' p1 where e: "parse2 m s p = parseback k s p1 c'" "length s - p1 < k" "strings s c' = c" "near s p1 t" using N by blast
    obtain p2 where p2: "parseback k s p1 c' = POk c' p2" "near s p2 t" using parseback_stop [OF e(4) st, of k c'] e(2) by auto
    obtain p3 where "peek s p2 [c_semi] = (False, p3)" "near s p3 t" using peek_stop [OF p2(2) st, of "[c_semi]"] by auto
    then show "parsed s c t (parseline n s p)" using e(1,3) p2(1) by (simp add: m(1) parseline_parse2 parsed_def)
  qed
qed

text \<open>A block with its redirections.\<close>

lemma level30:
  assumes "level3 c" "near s p (c_lpar # unparse 3 c @ c_rpar # concat (map redir_text rs) @ t)" "list_all redir_ok rs" "stops stopE t"
  shows "\<exists>N. \<forall>n \<ge> N. parsed s (wrap c rs) t (parseexec n s p)"
proof -
  let ?u = "c_rpar # concat (map redir_text rs) @ t"
  obtain p1 where p1: "peek s p [c_lpar] = (True, p1)" "near s p1 (c_lpar # unparse 3 c @ ?u)" using peek_symbol [OF assms(2), of "[c_lpar]"] by auto
  obtain p1' where p1': "peek s p1 [c_lpar] = (True, p1')" "near s p1' (c_lpar # unparse 3 c @ ?u)" using peek_symbol [OF p1(2), of "[c_lpar]"] by auto
  obtain q e p2 where p2: "gettoken s p1' = (c_lpar, q, e, p2)" "near s p2 (unparse 3 c @ ?u)" using gettoken_symbol [OF p1'(2)] by auto
  have "stops stopL ?u" by (simp add: stops_def)
  then obtain N where N: "\<forall>n \<ge> N. parsed s c ?u (parseline n s p2)" using assms(1) p2(2) unfolding level3_def by metis
  show ?thesis
  proof (intro exI [of _ "Suc (Suc N)"] allI impI)
    fix n assume "Suc (Suc N) \<le> n"
    then obtain m where m: "n = Suc (Suc m)" "N \<le> m" using Suc_le_D by (metis Suc_le_mono)
    then obtain c' p3 where e3: "parseline m s p2 = POk c' p3" "strings s c' = c" "near s p3 ?u" using N by (auto simp: parsed_def)
    obtain p4 where p4: "peek s p3 [c_rpar] = (True, p4)" "near s p4 ?u" using peek_symbol [OF e3(3), of "[c_rpar]"] by auto
    obtain q' e' p5 where p5: "gettoken s p4 = (c_rpar, q', e', p5)" "near s p5 (concat (map redir_text rs) @ t)" using gettoken_symbol [OF p4(2)] by auto
    note st = stops_first [OF assms(4)]
    have "length s - p5 < Suc (length s)" "t = [] \<or> \<not> is_word (hd t)" "first t \<notin> {c_lt, c_gt}" using st by auto
    then obtain rs' p6 where p6: "parseredirs (Suc (length s)) s p5 = POk rs' p6" "rstrings s rs' = rs" "near s p6 t"
      using parseredirs_text [OF p5(2) assms(3)] by blast
    have "parseexec n s p = POk (wrap c' rs') p6"
      unfolding m(1) parseexec.simps parseblock.simps using p1(1) p1'(1) p2(1) e3(1) p4(1) p5(1) p6(1) by simp
    then show "parsed s (wrap c rs) t (parseexec n s p)" using e3(2) p6(2,3) by (auto simp: parsed_def strings_wrap)
  qed
qed

text \<open>A command without its outer redirections, and these.\<close>

fun core :: "'w cmd \<Rightarrow> 'w cmd" where
  "core (REDIR c f mode fd) = core c"
| "core c = c"

fun redirs :: "'w cmd \<Rightarrow> ('w \<times> int \<times> int) list" where
  "redirs (REDIR c f mode fd) = redirs c @ [(f, mode, fd)]"
| "redirs c = []"

lemma wrap_core: "wrap (core c) (redirs c) = c"
  by (induction c rule: core.induct) (simp_all add: wrap_def)

lemma core_text: "unparse 0 c = unparse 0 (core c) @ concat (map redir_text (redirs c))"
  by (induction c rule: core.induct) simp_all

lemma core_ok: "cmd_ok c \<Longrightarrow> cmd_ok (core c) \<and> list_all redir_ok (redirs c)"
  by (induction c rule: core.induct) simp_all

lemma core_size: "size (core c) \<le> size c"
  by (induction c rule: core.induct) simp_all

lemma core_cases:
  obtains ws where "core c = EXEC ws" | "unparse 0 (core c) = c_lpar # unparse 3 (core c) @ [c_rpar]"
  by (induction c rule: core.induct) (auto simp: paren_def)

lemma level0I:
  assumes "cmd_ok c" "level3 (core c) \<or> (\<exists>ws. core c = EXEC ws)"
  shows "level0 c"
  unfolding level0_def
proof (intro allI impI)
  fix s p t assume n: "near s p (unparse 0 c @ t)" and st: "stops stopE t"
  let ?R = "concat (map redir_text (redirs c))"
  have ok: "cmd_ok (core c)" "list_all redir_ok (redirs c)" using core_ok [OF assms(1)] by simp_all
  have nc: "near s p (unparse 0 (core c) @ ?R @ t)" using n core_text [of c] by simp
  show "\<exists>N. \<forall>n \<ge> N. parsed s c t (parseexec n s p)"
  proof (cases "\<exists>ws. core c = EXEC ws")
    case True
    then obtain ws where ws: "core c = EXEC ws" by blast
    then have w: "list_all word_ok ws" "length ws < MAXARGS" "near s p (words ws @ ?R @ t)" using ok(1) nc by simp_all
    show ?thesis
    proof (intro exI [of _ 1] allI impI)
      fix n :: nat assume "1 \<le> n"
      then obtain m where m: "n = Suc m" by (cases n) auto
      have "wrap (EXEC ws) (redirs c) = c" using wrap_core [of c] ws by simp
      then show "parsed s c t (parseexec n s p)" using parseexec_simple [OF w(3,1,2) ok(2) st, of m] by (simp add: parsed_def m)
    qed
  next
    case False
    then have "unparse 0 (core c) = c_lpar # unparse 3 (core c) @ [c_rpar]" using core_cases [of c] by blast
    then have "level3 (core c)" "near s p (c_lpar # unparse 3 (core c) @ c_rpar # ?R @ t)" using assms(2) False nc by simp_all
    from level30 [OF this ok(2) st] show ?thesis by (simp add: wrap_core)
  qed
qed

lemma level_PIPE:
  assumes "level0 l" "level1 r"
  shows "level1 (PIPE l r)"
  unfolding level1_def
proof (intro allI impI)
  fix s p t assume n: "near s p (unparse 1 (PIPE l r) @ t)" and st: "stops stopP t"
  let ?u = "c_bar # unparse 1 r @ t"
  have "near s p (unparse 0 l @ ?u)" "stops stopE ?u" using n by (simp_all add: paren_def stops_def)
  then obtain N where N: "\<forall>n \<ge> N. parsed s l ?u (parseexec n s p)" using assms(1) unfolding level0_def by metis
  obtain p1 l' where l: "parseexec N s p = POk l' p1" "strings s l' = l" "near s p1 ?u" using N by (auto simp: parsed_def)
  have same: "parseexec n s p = POk l' p1" if "N \<le> n" for n
    using that
  proof (induction rule: dec_induct)
    case (step i)
    then show ?case using parser_more [of i s p] by simp
  qed (rule l(1))
  obtain p2 where p2: "peek s p1 [c_bar] = (True, p2)" "near s p2 ?u" using peek_symbol [OF l(3), of "[c_bar]"] by auto
  obtain q e p3 where p3: "gettoken s p2 = (c_bar, q, e, p3)" "near s p3 (unparse 1 r @ t)" using gettoken_symbol [OF p2(2)] by auto
  obtain M where M: "\<forall>n \<ge> M. parsed s r t (parsepipe n s p3)" using assms(2) p3(2) st unfolding level1_def by metis
  show "\<exists>N. \<forall>n \<ge> N. parsed s (PIPE l r) t (parsepipe n s p)"
  proof (intro exI [of _ "Suc (max N M)"] allI impI)
    fix n assume "Suc (max N M) \<le> n"
    then obtain m where m: "n = Suc m" "N \<le> m" "M \<le> m" by (cases n) auto
    obtain r' p4 where "parsepipe m s p3 = POk r' p4" "strings s r' = r" "near s p4 t" using M m(3) by (auto simp: parsed_def)
    then show "parsed s (PIPE l r) t (parsepipe n s p)"
      unfolding m(1) parsepipe.simps(2) [of m s p] using same [OF m(2)] l(2) p2(1) p3(1) by (simp add: parsed_def)
  qed
qed

lemma level_BACK:
  assumes "level2 c"
  shows "level2 (BACK c)"
  unfolding level2_def
proof (intro allI impI)
  fix s p t assume n: "near s p (unparse 2 (BACK c) @ t)" and st: "stops stopP t"
  have "near s p (unparse 2 c @ c_amp # t)" "stops stopP (c_amp # t)" using n by (simp_all add: paren_def stops_def)
  then obtain N where N: "\<forall>n \<ge> N. \<exists>k c' p'. parse2 n s p = parseback k s p' c' \<and> length s - p' < k \<and> strings s c' = c \<and> near s p' (c_amp # t)"
    using assms unfolding level2_def by metis
  show "\<exists>N. \<forall>n \<ge> N. \<exists>k c' p'. parse2 n s p = parseback k s p' c' \<and> length s - p' < k \<and> strings s c' = BACK c \<and> near s p' t"
  proof (rule exI [of _ N], intro allI impI)
    fix n assume "N \<le> n"
    then obtain k c' p1 where e: "parse2 n s p = parseback k s p1 c'" "length s - p1 < k" "strings s c' = c" "near s p1 (c_amp # t)" using N by blast
    obtain k' where k: "k = Suc k'" using e(2) by (cases k) auto
    obtain p2 where p2: "peek s p1 [c_amp] = (True, p2)" "near s p2 (c_amp # t)" "p1 \<le> p2" using peek_symbol [OF e(4), of "[c_amp]"] by auto
    obtain q e' p3 where p3: "gettoken s p2 = (c_amp, q, e', p3)" "near s p3 t" "p2 < p3" using gettoken_symbol [OF p2(2)] by auto
    have "parse2 n s p = parseback k' s p3 (BACK c')" using e(1) p2(1) p3(1) by (simp add: k parseback.simps)
    moreover have "length s - p3 < k'" using e(2) k p2(3) p3(3) near_le [OF p3(2)] by linarith
    ultimately show "\<exists>k c' p'. parse2 n s p = parseback k s p' c' \<and> length s - p' < k \<and> strings s c' = BACK c \<and> near s p' t"
      using e(3) p3(2) by (intro exI [of _ k'] exI [of _ "BACK c'"] exI [of _ p3]) simp
  qed
qed

lemma level_LIST:
  assumes "level2 l" "level3 r"
  shows "level3 (LIST l r)"
  unfolding level3_def
proof (intro allI impI)
  fix s p t assume n: "near s p (unparse 3 (LIST l r) @ t)" and st: "stops stopL t"
  let ?u = "c_semi # unparse 3 r @ t"
  have "near s p (unparse 2 l @ ?u)" "stops stopP ?u" using n by (simp_all add: paren_def stops_def)
  then obtain N where N: "\<forall>n \<ge> N. \<exists>k c' p'. parse2 n s p = parseback k s p' c' \<and> length s - p' < k \<and> strings s c' = l \<and> near s p' ?u"
    using assms(1) unfolding level2_def by metis
  obtain k l' p1 where l: "parse2 N s p = parseback k s p1 l'" "length s - p1 < k" "strings s l' = l" "near s p1 ?u" using N by blast
  have "stops [c_semi] ?u" by (simp add: stops_def)
  then obtain p2 where p2: "parse2 N s p = POk l' p2" "near s p2 ?u" using parseback_stop [OF l(4), of "[c_semi]" k l'] l(1,2) by auto
  have same: "parse2 n s p = POk l' p2" if "N \<le> n" for n
    using that
  proof (induction rule: dec_induct)
    case (step i)
    then have "parsepipe i s p \<noteq> PFuel" by (auto simp: parse2_def)
    then show ?case using step parser_more [of i s p] by (simp add: parse2_def)
  qed (rule p2(1))
  obtain p3 where p3: "peek s p2 [c_semi] = (True, p3)" "near s p3 ?u" using peek_symbol [OF p2(2), of "[c_semi]"] by auto
  obtain q e p4 where p4: "gettoken s p3 = (c_semi, q, e, p4)" "near s p4 (unparse 3 r @ t)" using gettoken_symbol [OF p3(2)] by auto
  obtain M where M: "\<forall>n \<ge> M. parsed s r t (parseline n s p4)" using assms(2) p4(2) st unfolding level3_def by metis
  show "\<exists>N. \<forall>n \<ge> N. parsed s (LIST l r) t (parseline n s p)"
  proof (intro exI [of _ "Suc (max N M)"] allI impI)
    fix n assume "Suc (max N M) \<le> n"
    then obtain m where m: "n = Suc m" "N \<le> m" "M \<le> m" by (cases n) auto
    obtain r' p5 where "parseline m s p4 = POk r' p5" "strings s r' = r" "near s p5 t" using M m(3) by (auto simp: parsed_def)
    then show "parsed s (LIST l r) t (parseline n s p)"
      unfolding m(1) parseline_parse2 using same [OF m(2)] l(3) p3(1) p4(1) by (simp add: parsed_def)
  qed
qed

lemma levels: "cmd_ok c \<Longrightarrow> level0 c \<and> level1 c \<and> level2 c \<and> level3 c"
proof (induction c rule: measure_induct_rule [of size])
  case (less c)
  show ?case
  proof (cases c)
    case (EXEC ws)
    have "level0 c" by (rule level0I [OF less.prems]) (simp add: EXEC)
    then show ?thesis using level01 [of c] level12 [of c] level23 [of c] by (simp add: EXEC)
  next
    case (REDIR d f m fd)
    have "size (core c) < size c" using core_size [of d] by (simp add: REDIR)
    then have "level3 (core c)" using less.IH core_ok [OF less.prems] by blast
    then have "level0 c" by (intro level0I [OF less.prems]) simp
    then show ?thesis using level01 [of c] level12 [of c] level23 [of c] by (simp add: REDIR)
  next
    case (PIPE l r)
    have "level0 l" "level1 r" using less.IH [of l] less.IH [of r] less.prems by (simp_all add: PIPE)
    then have "level1 c" unfolding PIPE by (rule level_PIPE)
    moreover from this have "level2 c" by (rule level12) (simp add: PIPE paren_def)
    moreover from this have "level3 c" by (rule level23) (simp add: PIPE paren_def)
    moreover from this have "level0 c" by (intro level0I [OF less.prems]) (simp add: PIPE)
    ultimately show ?thesis by simp
  next
    case (LIST l r)
    have "level2 l" "level3 r" using less.IH [of l] less.IH [of r] less.prems by (simp_all add: LIST)
    then have "level3 c" unfolding LIST by (rule level_LIST)
    moreover from this have "level0 c" by (intro level0I [OF less.prems]) (simp add: LIST)
    moreover from this have "level1 c" by (rule level01) (simp add: LIST paren_def)
    moreover from this have "level2 c" by (rule level12) (simp add: LIST paren_def)
    ultimately show ?thesis by simp
  next
    case (BACK d)
    have "level2 d" using less.IH [of d] less.prems by (simp add: BACK)
    then have "level2 c" unfolding BACK by (rule level_BACK)
    moreover from this have "level3 c" by (rule level23) (simp add: BACK paren_def)
    moreover from this have "level0 c" by (intro level0I [OF less.prems]) (simp add: BACK)
    moreover from this have "level1 c" by (rule level01) (simp add: BACK paren_def)
    ultimately show ?thesis by simp
  qed
qed

section \<open>The strings of a command\<close>

text \<open>The two ends of a word of the line.\<close>

definition token_at :: "line \<Rightarrow> nat \<times> nat \<Rightarrow> bool" where
  "token_at s w \<longleftrightarrow> (case w of (q, e) \<Rightarrow> q \<le> e \<and> e \<le> length s \<and> (\<forall>i. q \<le> i \<and> i < e \<longrightarrow> is_word (s ! i)) \<and> (e < length s \<longrightarrow> \<not> is_word (s ! e)))"

lemma skip_token:
  assumes "q \<le> length s"
  shows "token_at s (q, skip is_word s q)"
proof -
  let ?u = "drop q s"
  have l: "length (takeWhile is_word ?u) \<le> length ?u" by (rule length_takeWhile_le)
  have "is_word (s ! i)" if "q \<le> i" "i < skip is_word s q" for i
  proof -
    have j: "i - q < length (takeWhile is_word ?u)" using that by (simp add: skip_def)
    have "is_word (takeWhile is_word ?u ! (i - q))" using nth_mem [OF j] by (rule set_takeWhileD [THEN conjunct2])
    moreover have "takeWhile is_word ?u ! (i - q) = s ! i" using takeWhile_nth [OF j] that(1) assms by simp
    ultimately show ?thesis by simp
  qed
  moreover have "\<not> is_word (s ! skip is_word s q)" if "skip is_word s q < length s"
    using that nth_length_takeWhile [of is_word ?u] assms by (simp add: skip_def)
  ultimately show ?thesis using skip_bounds [OF assms] by (simp add: token_at_def)
qed

lemma gettoken_token:
  assumes "gettoken s p = (c_a, q, e, p')" "p \<le> length s"
  shows "token_at s (q, e)"
proof -
  have q: "q = skip is_ws s p" "q \<le> length s" using assms skip_bounds [of p s is_ws] by (auto simp: gettoken_def Let_def split: prod.splits)
  moreover have "e = skip is_word s q"
    using assms(1) unfolding gettoken_def Let_def q(1) [symmetric] by (auto split: prod.splits if_splits)
  ultimately show ?thesis using skip_token by simp
qed

definition tokens_of :: "line \<Rightarrow> pcmd presult \<Rightarrow> bool" where
  "tokens_of s r \<longleftrightarrow> (\<forall>c p. r = POk c p \<longrightarrow> (\<forall>w \<in> set_cmd c. token_at s w) \<and> p \<le> length s)"

lemma tokens_of_simps [simp]:
  "tokens_of s (POk c p) \<longleftrightarrow> (\<forall>w \<in> set_cmd c. token_at s w) \<and> p \<le> length s" "tokens_of s (PPanic msg)" "tokens_of s PFuel"
  by (simp_all add: tokens_of_def)

lemma tokens_of_pbind:
  "tokens_of s r \<Longrightarrow> (\<And>c p. (\<forall>w \<in> set_cmd c. token_at s w) \<Longrightarrow> p \<le> length s \<Longrightarrow> tokens_of s (f c p)) \<Longrightarrow> tokens_of s (pbind r f)"
  by (cases r) simp_all

lemma set_wrap: "set_cmd (wrap c rs) = set_cmd c \<union> fst ` set rs"
  unfolding wrap_def by (induction rs arbitrary: c) auto

lemma parseredirs_tokens:
  "p \<le> length s \<Longrightarrow> parseredirs k s p = POk rs p' \<Longrightarrow> (\<forall>r \<in> set rs. token_at s (fst r)) \<and> p' \<le> length s"
proof (induction k arbitrary: p rs)
  case 0
  then show ?case by (simp add: parseredirs.simps)
next
  case (Suc k)
  obtain b p1 where pk: "peek s p [c_lt, c_gt] = (b, p1)" by fastforce
  obtain tok q0 e0 p2 tok2 q e p3 where g: "gettoken s p1 = (tok, q0, e0, p2)" "gettoken s p2 = (tok2, q, e, p3)" by (metis prod_cases4)
  have l: "p1 \<le> length s" "p2 \<le> length s" "p3 \<le> length s"
    using peek_bounds(2) [OF pk Suc.prems(1)] gettoken_bounds(4) [OF g(1)] gettoken_bounds(4) [OF g(2)] by simp_all
  show ?case
  proof (cases b)
    case True
    then obtain rs1 where "parseredirs k s p3 = POk rs1 p'" "tok2 = c_a" "rs = ((q, e), if tok = c_lt then (0, 0) else (0x201, 1)) # rs1"
      using Suc.prems(2) pk g by (auto simp: parseredirs.simps split: if_splits elim!: pbind_POkE)
    then show ?thesis using Suc.IH [OF l(3)] gettoken_token [of s p2 q e p3] g(2) l(2) by auto
  next
    case False
    then show ?thesis using Suc.prems(2) pk l(1) by (simp add: parseredirs.simps)
  qed
qed

lemma redirs_tokens:
  assumes "p \<le> length s" "\<And>rs p'. (\<forall>r \<in> set rs. token_at s (fst r)) \<Longrightarrow> p' \<le> length s \<Longrightarrow> tokens_of s (f rs p')"
  shows "tokens_of s (pbind (parseredirs k s p) f)"
  using parseredirs_tokens [OF assms(1), of k] assms(2) by (cases "parseredirs k s p") auto

lemma parseexec_loop_tokens:
  "p \<le> length s \<Longrightarrow> \<forall>w \<in> set args. token_at s w \<Longrightarrow> \<forall>r \<in> set rs. token_at s (fst r) \<Longrightarrow> tokens_of s (parseexec_loop k s p args rs)"
proof (induction k arbitrary: p args rs)
  case 0
  then show ?case by (simp add: parseexec_loop.simps)
next
  case (Suc k)
  obtain b p1 where pk: "peek s p stopE = (b, p1)" by fastforce
  obtain tok q e p2 where g: "gettoken s p1 = (tok, q, e, p2)" by (metis prod_cases4)
  have l: "p1 \<le> length s" "p2 \<le> length s" using peek_bounds(2) [OF pk Suc.prems(1)] gettoken_bounds(4) [OF g] by simp_all
  have "tokens_of s (pbind (parseredirs (Suc (length s)) s p2) (\<lambda>rs' p3. parseexec_loop k s p3 (args @ [(q, e)]) (rs @ rs')))" if "tok = c_a"
    using that Suc.prems gettoken_token [of s p1 q e p2] g l(1) by (intro redirs_tokens [OF l(2)] Suc.IH) auto
  then show ?case using pk g l Suc.prems by (auto simp: parseexec_loop.simps set_wrap)
qed

lemma parseback_tokens: "p \<le> length s \<Longrightarrow> \<forall>w \<in> set_cmd c. token_at s w \<Longrightarrow> tokens_of s (parseback k s p c)"
proof (induction k arbitrary: p c)
  case 0
  then show ?case by (simp add: parseback.simps)
next
  case (Suc k)
  obtain b p1 where pk: "peek s p [c_amp] = (b, p1)" by fastforce
  obtain tok q e p2 where g: "gettoken s p1 = (tok, q, e, p2)" by (metis prod_cases4)
  have l: "p1 \<le> length s" "p2 \<le> length s" using peek_bounds(2) [OF pk Suc.prems(1)] gettoken_bounds(4) [OF g] by simp_all
  then show ?case using pk g Suc by (auto simp: parseback.simps)
qed

lemma parser_tokens:
  "p \<le> length s \<Longrightarrow> tokens_of s (parseline n s p) \<and> tokens_of s (parsepipe n s p) \<and> tokens_of s (parseexec n s p) \<and> tokens_of s (parseblock n s p)"
proof (induction n arbitrary: p)
  case 0
  then show ?case by (simp add: parseline.simps parsepipe.simps parseexec.simps parseblock.simps)
next
  case (Suc n)
  have step: "p4 \<le> length s" "p3 \<le> length s" if "peek s p2 toks = (b, p3)" "gettoken s p3 = (tok, q, e, p4)" "p2 \<le> length s" for p2 p3 p4 b toks tok q e
    using peek_bounds(2) [OF that(1,3)] gettoken_bounds(4) [OF that(2)] by simp_all
  note IH = Suc.IH [THEN conjunct1] Suc.IH [THEN conjunct2, THEN conjunct1] Suc.IH [THEN conjunct2, THEN conjunct2, THEN conjunct1]
    Suc.IH [THEN conjunct2, THEN conjunct2, THEN conjunct2]
  show ?case
  proof (intro conjI)
    show "tokens_of s (parseline (Suc n) s p)" unfolding parseline.simps(2)
    proof (rule tokens_of_pbind [OF IH(2) [OF Suc.prems]], rule tokens_of_pbind [OF parseback_tokens])
      fix c p2 assume c: "\<forall>w \<in> set_cmd c. token_at s w" and p2: "p2 \<le> length s"
      obtain b p3 where pk: "peek s p2 [c_semi] = (b, p3)" by fastforce
      obtain tok q e p4 where g: "gettoken s p3 = (tok, q, e, p4)" by (metis prod_cases4)
      note l = step [OF pk g p2]
      have "tokens_of s (pbind (parseline n s p4) (\<lambda>r p5. POk (LIST c r) p5))" by (rule tokens_of_pbind [OF IH(1) [OF l(1)]]) (use c in auto)
      then show "tokens_of s (case peek s p2 [c_semi] of (more, p3) \<Rightarrow>
         if more then (case gettoken s p3 of (_, _, _, p4) \<Rightarrow> pbind (parseline n s p4) (\<lambda>r p5. POk (LIST c r) p5)) else POk c p3)"
        using pk g l c by simp
    qed
    show "tokens_of s (parsepipe (Suc n) s p)" unfolding parsepipe.simps(2)
    proof (rule tokens_of_pbind [OF IH(3) [OF Suc.prems]])
      fix c p1 assume c: "\<forall>w \<in> set_cmd c. token_at s w" and p1: "p1 \<le> length s"
      obtain b p2 where pk: "peek s p1 [c_bar] = (b, p2)" by fastforce
      obtain tok q e p3 where g: "gettoken s p2 = (tok, q, e, p3)" by (metis prod_cases4)
      note l = step [OF pk g p1]
      have "tokens_of s (pbind (parsepipe n s p3) (\<lambda>r p4. POk (PIPE c r) p4))" by (rule tokens_of_pbind [OF IH(2) [OF l(1)]]) (use c in auto)
      then show "tokens_of s (case peek s p1 [c_bar] of (more, p2) \<Rightarrow>
         if more then (case gettoken s p2 of (_, _, _, p3) \<Rightarrow> pbind (parsepipe n s p3) (\<lambda>r p4. POk (PIPE c r) p4)) else POk c p2)"
        using pk g l c by simp
    qed
    obtain b p1 where pk: "peek s p [c_lpar] = (b, p1)" by fastforce
    obtain tok q e p2 where g: "gettoken s p1 = (tok, q, e, p2)" by (metis prod_cases4)
    note l = step [OF pk g Suc.prems]
    have "tokens_of s (pbind (parseredirs (Suc (length s)) s p1) (\<lambda>rs p2. parseexec_loop (Suc (length s)) s p2 [] rs))"
      by (intro redirs_tokens [OF l(2)] parseexec_loop_tokens) simp_all
    then show "tokens_of s (parseexec (Suc n) s p)" unfolding parseexec.simps(2) using pk IH(4) [OF l(2)] by simp
    have "tokens_of s (pbind (parseline n s p2) (\<lambda>c p3. case peek s p3 [c_rpar] of (rpar, p4) \<Rightarrow>
         if \<not> rpar then PPanic ''syntax - missing )''
         else (case gettoken s p4 of (_, _, _, p5) \<Rightarrow> pbind (parseredirs (Suc (length s)) s p5) (\<lambda>rs p6. POk (wrap c rs) p6))))"
    proof (rule tokens_of_pbind [OF IH(1) [OF l(1)]])
      fix c p3 assume c: "\<forall>w \<in> set_cmd c. token_at s w" and p3: "p3 \<le> length s"
      obtain b' p4 where pk': "peek s p3 [c_rpar] = (b', p4)" by fastforce
      obtain tok' q' e' p5 where g': "gettoken s p4 = (tok', q', e', p5)" by (metis prod_cases4)
      have "tokens_of s (pbind (parseredirs (Suc (length s)) s p5) (\<lambda>rs p6. POk (wrap c rs) p6))"
        by (rule redirs_tokens [OF step(1) [OF pk' g' p3]]) (use c in \<open>auto simp: set_wrap\<close>)
      then show "tokens_of s (case peek s p3 [c_rpar] of (rpar, p4) \<Rightarrow>
         if \<not> rpar then PPanic ''syntax - missing )''
         else (case gettoken s p4 of (_, _, _, p5) \<Rightarrow> pbind (parseredirs (Suc (length s)) s p5) (\<lambda>rs p6. POk (wrap c rs) p6)))"
        using pk' g' by simp
    qed
    then show "tokens_of s (parseblock (Suc n) s p)" unfolding parseblock.simps(2) using pk g by simp
  qed
qed

lemma fold_nuls: "fold (\<lambda>(q, eq) b. b(eq := 0 :: uchar)) ws b i = (if i \<in> snd ` set ws then 0 else b i)"
  by (induction ws arbitrary: b) auto

lemma nulterminate_apply: "nulterminate c b i = (if i \<in> snd ` set_cmd c then 0 else b i)"
proof (induction c arbitrary: b)
  case (EXEC ws)
  then show ?case by (simp add: fold_nuls)
next
  case (REDIR c f mode fd)
  then show ?case by auto
qed auto

text \<open>The C string at an index of an array of \<open>n\<close> bytes.\<close>

definition cstring :: "nat \<Rightarrow> (nat \<Rightarrow> uchar) \<Rightarrow> nat \<Rightarrow> line" where
  "cstring n b q = takeWhile (\<lambda>c. c \<noteq> 0) (map b [q..<n])"

lemma cstring_token:
  assumes "\<forall>w \<in> set_cmd c. token_at s w" "0 \<notin> set s" "w \<in> set_cmd c"
  shows "cstring (Suc (length s)) (nulterminate c (ch s)) (fst w) = sub s w"
proof -
  obtain q e where w: "w = (q, e)" by (cases w)
  have t: "q \<le> e" "e \<le> length s" "\<forall>i. q \<le> i \<and> i < e \<longrightarrow> is_word (s ! i)" using assms(1,3) by (auto simp: w token_at_def)
  let ?b = "nulterminate c (ch s)"
  have inside: "?b i = s ! i" "s ! i \<noteq> 0" if "q \<le> i" "i < e" for i
  proof -
    have "i \<notin> snd ` set_cmd c"
    proof
      assume "i \<in> snd ` set_cmd c"
      then obtain q' where "token_at s (q', i)" using assms(1) by force
      then show False using t that by (auto simp: token_at_def)
    qed
    then show "?b i = s ! i" using that t by (simp add: nulterminate_apply ch_def)
    have "i < length s" using that t by simp
    then show "s ! i \<noteq> 0" using assms(2) by (metis nth_mem)
  qed
  have split: "[q..<Suc (length s)] = [q..<e] @ e # [Suc e..<Suc (length s)]"
    using t(1,2) upt_add_eq_append [of q e "Suc (length s) - e"] by (simp add: upt_conv_Cons del: upt_Suc)
  have "?b e = 0" using assms(3) by (force simp: nulterminate_apply w)
  moreover have "map ?b [q..<e] = take (e - q) (drop q s)"
    by (rule nth_equalityI) (use t inside(1) in auto)
  moreover have "\<forall>x \<in> set (map ?b [q..<e]). x \<noteq> 0" using inside by auto
  ultimately show ?thesis unfolding cstring_def w fst_conv split by (simp add: takeWhile_append2 sub_def del: upt_Suc)
qed

lemma unparse_no_nul: "cmd_ok c \<Longrightarrow> 0 \<notin> set (unparse lev c)"
  by (induction c arbitrary: lev) (auto simp: words_def word_ok_def list_all_iff redir_text_def redir_ok_def paren_def)

section \<open>Properties\<close>

text \<open>
  (C31) The parser of the shell ends on every line: with four calls for each character, which \<^verbatim>\<open>parsecmd\<close> allows, it never runs out of
  calls, and every larger bound gives the same command or the same error.
\<close>

theorem parsecmd_terminates:
  "parsecmd s \<noteq> PFuel \<and> (\<forall>k. parseline (4 * length s + 4 + k) s 0 = parseline (4 * length s + 4) s 0)"
proof
  have "ends s 0 (parseline (4 * length s + 4) s 0)" using parser_ends [of 0 s "4 * length s + 4"] by simp
  then show "parsecmd s \<noteq> PFuel" by (cases "parseline (4 * length s + 4) s 0") (auto simp: parsecmd_def split: prod.splits)
  show "\<forall>k. parseline (4 * length s + 4 + k) s 0 = parseline (4 * length s + 4) s 0" by (intro allI parseline_enough) simp_all
qed

text \<open>
  (C30) Parsing is inverse to printing.  For every command that can be typed, of any nesting of pipes, lists, background commands, blocks and
  redirections, \<^verbatim>\<open>parsecmd\<close> of its text returns that command: the same tree, in which the strings that \<^verbatim>\<open>nulterminate\<close> has cut out of the line are the words
  and file names of the command, none of them damaged by the NUL that ends another.
\<close>

theorem parsecmd_unparse:
  assumes "cmd_ok c"
  shows "\<exists>c' b. parsecmd (unparse 3 c) = POk (c', b) (length (unparse 3 c)) \<and>
    map_cmd (\<lambda>w. cstring (Suc (length (unparse 3 c))) b (fst w)) c' = c"
proof -
  define s where "s = unparse 3 c"
  have z: "0 \<notin> set s" using unparse_no_nul [OF assms] by (simp add: s_def)
  have "near s 0 (unparse 3 c @ [])" "stops stopL []" using z by (simp_all add: s_def near_def stops_def)
  moreover have "level3 c" using levels [OF assms] by simp
  ultimately obtain N where N: "\<forall>n \<ge> N. parsed s c [] (parseline n s 0)" unfolding level3_def by metis
  let ?n = "4 * length s + 4"
  have "parseline (max N ?n) s 0 = parseline ?n s 0" by (rule parseline_enough) simp_all
  moreover have "parsed s c [] (parseline (max N ?n) s 0)" using N by simp
  ultimately obtain c' p where p: "parseline ?n s 0 = POk c' p" "strings s c' = c" "near s p []" by (auto simp: parsed_def)
  have "\<forall>w \<in> set_cmd c'. token_at s w" using parser_tokens [of 0 s ?n] p(1) by simp
  then have "map_cmd (\<lambda>w. cstring (Suc (length s)) (nulterminate c' (ch s)) (fst w)) c' = map_cmd (sub s) c'"
    using cstring_token [OF _ z] by (intro cmd.map_cong refl) simp
  moreover have "skip is_ws s p = length s"
  proof -
    have "dropWhile is_ws (drop p s) = []" using p(3) by (simp add: near_def)
    then have "length (takeWhile is_ws (drop p s)) = length (drop p s)" by (metis append_Nil2 takeWhile_dropWhile_id)
    then show ?thesis using near_le [OF p(3)] by (simp add: skip_def)
  qed
  then have "parsecmd s = POk (c', nulterminate c' (ch s)) (length s)" using p(1) by (simp add: parsecmd_def peek_def Let_def)
  ultimately show ?thesis using p(2) unfolding s_def [symmetric] strings_def by auto
qed

text \<open>The command \<^verbatim>\<open>ls a | wc > f & ; x\<close>.\<close>

theorem parsecmd_unparse_witness:
  "\<exists>c' b. parsecmd [32, 108, 115, 32, 97, 124, 32, 119, 99, 62, 102, 38, 59, 32, 120] = POk (c', b) 15 \<and>
    map_cmd (\<lambda>w. cstring 16 b (fst w)) c' =
      LIST (BACK (PIPE (EXEC [[108, 115], [97]]) (REDIR (EXEC [[119, 99]]) [102] 0x201 1))) (EXEC [[120]])"
proof -
  let ?c = "LIST (BACK (PIPE (EXEC [[108, 115], [97]]) (REDIR (EXEC [[119, 99]]) [102] 0x201 1))) (EXEC [[120]]) :: line cmd"
  have ok: "cmd_ok ?c" by (simp add: word_ok_def redir_ok_def is_word_def whitespace_def symbols_def)
  have t: "unparse 3 ?c = [32, 108, 115, 32, 97, 124, 32, 119, 99, 62, 102, 38, 59, 32, 120]"
    by (simp add: words_def redir_text_def paren_def)
  have n: "length [32, 108, 115, 32, 97, 124, 32, 119, 99, 62, 102, 38, 59, 32, 120 :: uchar] = 15" "Suc 15 = 16" by simp_all
  show ?thesis using parsecmd_unparse [OF ok] unfolding t n .
qed

end
