(* ===== verification/Spec2Isabelle.thy ===== *)
theory Spec2Isabelle
  imports Pagetable Trap Ide Files Names Wakeup Terminal Grep Parser
begin

text \<open>
  \<^bold>\<open>A verification of an xv6 kernel with a multilevel feedback scheduler, semaphores and shared memory\<close>

  The program is the kernel under \<^verbatim>\<open>src/\<close>, a descendant of xv6 for the x86, with two of its user programs.  A process enters the kernel by a
  trap (\<^verbatim>\<open>trap.c\<close>), which dispatches system calls (\<^verbatim>\<open>syscall.c\<close>, \<^verbatim>\<open>sysproc.c\<close>, \<^verbatim>\<open>sysfile.c\<close>, \<^verbatim>\<open>syssharedmem.c\<close>).  They work on the process table and
  its four run queues (\<^verbatim>\<open>proc.c\<close>), on page tables (\<^verbatim>\<open>vm.c\<close>) over the page allocator (\<^verbatim>\<open>kalloc.c\<close>), on semaphores and shared memory
  (\<^verbatim>\<open>semaphore.c\<close>, \<^verbatim>\<open>sharedmem.c\<close>), and on files: open files (\<^verbatim>\<open>file.c\<close>) are pipes (\<^verbatim>\<open>pipe.c\<close>), devices (\<^verbatim>\<open>console.c\<close>) or inodes (\<^verbatim>\<open>fs.c\<close>), whose
  blocks are changed in transactions (\<^verbatim>\<open>log.c\<close>) through the buffer cache (\<^verbatim>\<open>bio.c\<close>) on the disk (\<^verbatim>\<open>memide.c\<close> or \<^verbatim>\<open>ide.c\<close>).  Every component is
  guarded by spin locks (\<^verbatim>\<open>spinlock.c\<close>), and a process that has to wait gives up its lock and the CPU in \<^verbatim>\<open>sleep\<close>.

  \<^bold>\<open>The model.\<close>  An operation is a function from a state to an outcome (theory \<open>Prelude\<close>): \<open>Ret\<close> with a result and a new state, \<open>Sleep\<close> when the process
  gives up the CPU to wait, \<open>Panic\<close> for the kernel's \<^verbatim>\<open>panic\<close>, \<open>Undef\<close> where C leaves the behaviour undefined (a null pointer, an index out of
  range), and \<open>Spin\<close> for a loop that does not end.  \<open>runs m s Q\<close> says that the operation returns and that \<open>Q\<close> holds of its result; it excludes the
  other outcomes.  The state is one extensible record, and every component adds its fields: \<open>machine\<close> (locks and CPU), \<open>kmem\<close> (memory and free
  list), \<open>vmem\<close> (shared memory regions), \<open>ptab\<close> (processes and queues), \<open>semtab\<close>, \<open>bcst\<close> (buffers and disk), \<open>logst\<close>, \<open>fsst\<close> (inodes), \<open>pipest\<close>,
  \<open>filest\<close>, \<open>procst\<close> and \<open>kst\<close> (console, devices, ticks), so that an operation of a component is also an operation on every richer state.
  C's \<^verbatim>\<open>uint\<close>, \<^verbatim>\<open>ushort\<close> and \<^verbatim>\<open>uchar\<close> are words of 32, 16 and 8 bits, and arithmetic wraps around as in C; memory is a function from 32-bit addresses to
  bytes.  Pointers to table entries are indices into the table, and pointers into memory are addresses.

  \<^bold>\<open>Theories and sources.\<close>
  \<^item> \<open>Prelude\<close>: outcomes, their combinators, and rules for \<open>runs\<close>; \<open>Ring\<close>: ring buffers with wrapping counters, as pipes and console use them.
  \<^item> \<open>Spinlock\<close> (\<^verbatim>\<open>spinlock.c\<close>): \<^verbatim>\<open>acquire\<close>, \<^verbatim>\<open>release\<close>, \<^verbatim>\<open>pushcli\<close>, \<^verbatim>\<open>popcli\<close> on one CPU, and a step relation for \<^verbatim>\<open>acquire\<close> and
    \<^verbatim>\<open>release\<close> instruction by instruction on any number of CPUs, with mutual exclusion in every reachable state; without interference its
    steps are the operations on one CPU.
  \<^item> \<open>Cstring\<close> (\<^verbatim>\<open>string.c\<close>, \<^verbatim>\<open>x86.h\<close>), \<open>Mmu\<close> (\<^verbatim>\<open>mmu.h\<close>, \<^verbatim>\<open>memlayout.h\<close>): memory and string functions, address arithmetic.
  \<^item> \<open>Kalloc\<close> (\<^verbatim>\<open>kalloc.c\<close>): the free list in the pages themselves refines a list of page addresses; the boot sequence frees every page once.
  \<^item> \<open>Vm\<close>, \<open>Pagetable\<close> (\<^verbatim>\<open>vm.c\<close>): page tables in memory as a partial map from pages to frames; \<^verbatim>\<open>mappages\<close> and \<^verbatim>\<open>copyout\<close> change exactly
    what they are asked to.
  \<^item> \<open>ProcTable\<close>, \<open>Mlfq\<close>, \<open>Sched\<close>, \<open>Scheduler\<close>, \<open>Blocking\<close> (\<^verbatim>\<open>proc.c\<close>, \<^verbatim>\<open>proc.h\<close>): the run queues linked through the table refine lists; an
    invariant that ties process states to queues holds in every interleaving of scheduling operations on one CPU; and an \<^verbatim>\<open>enqueue\<close> without the lock,
    as in \<^verbatim>\<open>fork\<close>, can lose a process.  The signed counter \<^verbatim>\<open>nextpid\<close> is an \<open>int\<close> whose overflow in \<^verbatim>\<open>allocproc\<close> is \<open>Undef\<close>.
    \<open>Wakeup\<close>: the operations of \<^verbatim>\<open>sleep\<close> and \<^verbatim>\<open>wakeup\<close> on two CPUs that share the table and the locks, in every interleaving of which no wakeup
    is lost.  \<open>Process\<close>: \<^verbatim>\<open>fork\<close>, \<^verbatim>\<open>exit\<close>, \<^verbatim>\<open>wait\<close>, \<^verbatim>\<open>userinit\<close>.
  \<^item> \<open>Semaphore\<close>, \<open>Sharedmem\<close> (\<^verbatim>\<open>semaphore.c\<close>, \<^verbatim>\<open>sharedmem.c\<close>): the value of a semaphore counts downs and ups, the reference counts count
    descriptors; the defects of these parts are proved as theorems.
  \<^item> \<open>Bio\<close>, \<open>Bcache\<close> (\<^verbatim>\<open>bio.c\<close>, \<^verbatim>\<open>memide.c\<close>): the ring of buffers is a cache of the disk; its contract is the locale \<open>block_cache\<close>.
    \<open>Ide\<close> (\<^verbatim>\<open>ide.c\<close>): the interrupt-driven driver.
  \<^item> \<open>Log\<close>, \<open>Recovery\<close> (\<^verbatim>\<open>log.c\<close>): a transaction is atomic whatever prefix of the writes of its commit reaches the disk, and however often recovery
    itself is interrupted.
  \<^item> \<open>Fs\<close>, \<open>Files\<close>, \<open>Names\<close> (\<^verbatim>\<open>fs.c\<close>): the contract of a transaction is the locale \<open>transaction\<close>, on which the proofs of the block
    allocator and of \<^verbatim>\<open>readi\<close> and \<^verbatim>\<open>writei\<close> rest; a group of updates is atomic whichever of its sector writes is the last before a crash,
    while it is logged or while it is committed.  The allocator is stated for the bitmap that \<^verbatim>\<open>mkfs\<close> writes, in which the log is free: on a full disk
    \<^verbatim>\<open>balloc\<close> hands out the log.  Path lookup ends, and inodes come back from the disk as they were stored.
  \<^item> \<open>Pipe\<close> (\<^verbatim>\<open>pipe.c\<close>): a bounded queue of bytes.  \<open>File\<close>, \<open>Sysfile\<close>, \<open>Exec\<close>, \<open>Syscall\<close>, \<open>Trap\<close> (\<^verbatim>\<open>file.c\<close>, \<^verbatim>\<open>sysfile.c\<close>, \<^verbatim>\<open>exec.c\<close>,
    \<^verbatim>\<open>syscall.c\<close>, \<^verbatim>\<open>sysproc.c\<close>, \<^verbatim>\<open>trap.c\<close>, \<^verbatim>\<open>main.c\<close>): the remaining operations of the kernel, composed as the code composes them.
  \<^item> \<open>Console\<close>, \<open>Terminal\<close> (\<^verbatim>\<open>console.c\<close>, \<^verbatim>\<open>uart.c\<close>, \<^verbatim>\<open>kbd.c\<close>): output refines an abstract terminal, and the input interrupts edit a line, which
    \<^verbatim>\<open>consoleread\<close> then returns; the contract of an input device is the locale \<open>char_device\<close>, which keyboard and serial line fulfil.
  \<^item> \<open>Grep\<close> (\<^verbatim>\<open>user/grep.c\<close>): the pattern matcher is correct, and the reading loop is not: it takes bytes of an older read for input and then
    leaves its buffer.  \<open>Shell\<close>, \<open>Parser\<close>
    (\<^verbatim>\<open>user/sh.c\<close>): the command parser ends, and is inverse to printing a command.

  \<^bold>\<open>Waiting.\<close>  The outcome \<open>Sleep\<close> ends a compound operation.  What the process does when it is scheduled again is an operation of its own for the places
  that sleep (\<^verbatim>\<open>semdown\<close>, \<^verbatim>\<open>pipewrite\<close>, \<^verbatim>\<open>piperead\<close>, \<^verbatim>\<open>bget\<close>, \<^verbatim>\<open>ilock\<close>, \<^verbatim>\<open>begin_trans\<close>, \<^verbatim>\<open>consoleread\<close>, named with \<open>_resume\<close>); the rest of
  their callers after a wait is not composed with them.

  \<^bold>\<open>Bounds.\<close>  A loop whose end the data do not show structurally has a bound on its rounds, and running out of it is \<open>Spin\<close>.  The transfer loops of
  \<^verbatim>\<open>readi\<close>, \<^verbatim>\<open>writei\<close> and \<^verbatim>\<open>filewrite\<close> move a byte in every round and get a round more than they have bytes; the directory loops get a round more
  than the file has entries; \<^verbatim>\<open>namex\<close> gets a round more than the path has bytes; loops over pages get \<open>2 ^ 20\<close> rounds, the number of pages; the
  loops of the console get a round more than the device or the line has characters; the parser of the shell gets four calls for each character.
  The theorems about these loops state that they return, so the bounds are large enough where the theorems apply.

  \<^bold>\<open>The disk.\<close>  The file system runs on the memory disk (\<^verbatim>\<open>memide.c\<close>), which the build target \<^verbatim>\<open>kernelmemfs\<close> links; the default kernel links \<^verbatim>\<open>ide.c\<close>, which is
  modelled beside it.

  \<^bold>\<open>Not modelled.\<close>  Assembler code (\<^verbatim>\<open>entry.S\<close>, \<^verbatim>\<open>swtch.S\<close>, \<^verbatim>\<open>trapasm.S\<close>, \<^verbatim>\<open>bootasm.S\<close>) and the boot loader; the interrupt controllers, the timer
  chip and the tables of the firmware (\<^verbatim>\<open>lapic.c\<close>, \<^verbatim>\<open>ioapic.c\<close>, \<^verbatim>\<open>picirq.c\<close>, \<^verbatim>\<open>timer.c\<close>, \<^verbatim>\<open>mp.c\<close>), which only move values to and from devices; segment
  and interrupt descriptors (\<^verbatim>\<open>seginit\<close>, \<^verbatim>\<open>tvinit\<close>); the start of further CPUs, since the kernel is modelled on one CPU apart from the
  interleavings named above; \<^verbatim>\<open>mkfs.c\<close>, which is a program of the build host; the user programs other than the matcher and the parser, which are sequences
  of system calls, and the test programs; and \<^verbatim>\<open>sysshared.c\<close>, which no build links.
\<close>

end
